(* ===== verification/Prelude.thy ===== *)
theory Prelude
  imports Main "HOL-Library.Word"
begin

text \<open>
  Shared vocabulary of the Packet Tide development: results with errors as values, unsigned
  64-bit arithmetic written out on natural numbers, big-endian byte encodings, and the generic
  list lemmas that several components use.

  Conventions.  A Rust \<open>Result\<close> is \<open>error + 'a\<close>; the question-mark operator is
  \<open>and_then\<close>.  A panic is the error \<open>Panic\<close>, so that an index or slice out of range is a
  branch of the model.  A \<open>u64\<close> or \<open>usize\<close> is a natural number below \<open>2 ^ 64\<close> (the
  supported targets are 64-bit), with the checked, saturating and wrapping operations of the
  source written out; bit patterns (bitmap words, the rolling hash, bytes) are machine words.
\<close>

section \<open>Types\<close>

type_synonym byte = "8 word"
type_synonym bytes = "byte list"
type_synonym u64w = "64 word"

datatype error =
    Err string    \<comment> \<open>an error message of the program\<close>
  | ParseErr      \<comment> \<open>an integer, UTF-8 or array conversion of the standard library failed\<close>
  | IoErr string  \<comment> \<open>an operating-system call failed\<close>
  | NotFound      \<comment> \<open>an operating-system call failed with \<open>ErrorKind::NotFound\<close>\<close>
  | Panic         \<comment> \<open>the thread panicked\<close>

type_synonym 'a result = "error + 'a"

named_theorems result_simps \<open>equations for results and their combinators\<close>
named_theorems codec_simps \<open>decoding an encoded value gives the value back\<close>
named_theorems inv_intros \<open>operations that keep an invariant\<close>

section \<open>Results\<close>

definition and_then :: "'a result \<Rightarrow> ('a \<Rightarrow> 'b result) \<Rightarrow> 'b result" where
  "and_then r f = (case r of Inl e \<Rightarrow> Inl e | Inr x \<Rightarrow> f x)"

definition ok_or :: "'a option \<Rightarrow> string \<Rightarrow> 'a result" where
  "ok_or x msg = (case x of None \<Rightarrow> Inl (Err msg) | Some y \<Rightarrow> Inr y)"

definition is_ok :: "'a result \<Rightarrow> bool" where
  "is_ok r = (case r of Inl _ \<Rightarrow> False | Inr _ \<Rightarrow> True)"

fun collect :: "('a \<Rightarrow> 'b result) \<Rightarrow> 'a list \<Rightarrow> 'b list result" where
  "collect f [] = Inr []"
| "collect f (x # xs) = and_then (f x) (\<lambda>y. and_then (collect f xs) (\<lambda>ys. Inr (y # ys)))"

lemma and_then_Inl [simp, result_simps]: "and_then (Inl e) f = Inl e"
  by (simp add: and_then_def)

lemma and_then_Inr [simp, result_simps]: "and_then (Inr x) f = f x"
  by (simp add: and_then_def)

lemma and_then_eq_Inr [result_simps]: "(and_then r f = Inr y) = (\<exists>x. r = Inr x \<and> f x = Inr y)"
  by (cases r) auto

lemma ok_or_simps [simp, result_simps]:
  "ok_or None msg = Inl (Err msg)" "ok_or (Some x) msg = Inr x"
  by (simp_all add: ok_or_def)

lemma ok_or_eq_Inr [simp, result_simps]: "(ok_or x msg = Inr y) = (x = Some y)"
  by (cases x) auto

lemma is_ok_simps [simp, result_simps]: "is_ok (Inr x)" "\<not> is_ok (Inl e)"
  by (simp_all add: is_ok_def)

lemma if_Inl_eq_Inr [result_simps]:
  "((if c then Inl e else r) = Inr y) = (\<not> c \<and> r = Inr y)"
  by auto

lemma collect_map_Inr: "(\<And>x. x \<in> set xs \<Longrightarrow> f x = Inr (g x)) \<Longrightarrow> collect f xs = Inr (map g xs)"
  by (induction xs) auto

lemma collect_Inr_nth:
  "collect f xs = Inr ys \<Longrightarrow> length ys = length xs \<and> (\<forall>i < length xs. f (xs ! i) = Inr (ys ! i))"
proof (induction xs arbitrary: ys)
  case (Cons x xs)
  then obtain z zs where "f x = Inr z" "collect f xs = Inr zs" "ys = z # zs"
    by (auto simp: and_then_eq_Inr)
  with Cons.IH[of zs] show ?case by (auto simp: nth_Cons split: nat.splits)
qed simp

section \<open>Unsigned 64-bit arithmetic on natural numbers\<close>

definition is_u64 :: "nat \<Rightarrow> bool" where
  "is_u64 n \<longleftrightarrow> n < 2 ^ 64"

definition sat_add :: "nat \<Rightarrow> nat \<Rightarrow> nat" where
  "sat_add a b = min (a + b) (2 ^ 64 - 1)"

definition sat_mul :: "nat \<Rightarrow> nat \<Rightarrow> nat" where
  "sat_mul a b = min (a * b) (2 ^ 64 - 1)"

definition checked_add :: "nat \<Rightarrow> nat \<Rightarrow> nat option" where
  "checked_add a b = (if a + b < 2 ^ 64 then Some (a + b) else None)"

definition checked_mul :: "nat \<Rightarrow> nat \<Rightarrow> nat option" where
  "checked_mul a b = (if a * b < 2 ^ 64 then Some (a * b) else None)"

definition wrap64 :: "nat \<Rightarrow> nat" where
  "wrap64 n = n mod 2 ^ 64"

text \<open>\<open>u64::div_ceil\<close>.\<close>

definition div_ceil :: "nat \<Rightarrow> nat \<Rightarrow> nat" where
  "div_ceil a b = (if 0 < a mod b then a div b + 1 else a div b)"

lemma checked_add_Some [simp]: "(checked_add a b = Some c) = (c = a + b \<and> a + b < 2 ^ 64)"
  by (auto simp: checked_add_def)

lemma checked_mul_Some [simp]: "(checked_mul a b = Some c) = (c = a * b \<and> a * b < 2 ^ 64)"
  by (auto simp: checked_mul_def)

lemma checked_add_ok [simp]: "a + b < 2 ^ 64 \<Longrightarrow> checked_add a b = Some (a + b)"
  by (simp add: checked_add_def)

lemma checked_mul_ok [simp]: "a * b < 2 ^ 64 \<Longrightarrow> checked_mul a b = Some (a * b)"
  by (simp add: checked_mul_def)

lemma sat_add_id: "a + b < 2 ^ 64 \<Longrightarrow> sat_add a b = a + b"
  by (simp add: sat_add_def)

lemma sat_add_le: "sat_add a b \<le> a + b"
  by (simp add: sat_add_def)

lemma sat_add_u64 [simp]: "is_u64 (sat_add a b)"
  by (simp add: sat_add_def is_u64_def min_def)

lemma wrap64_id: "n < 2 ^ 64 \<Longrightarrow> wrap64 n = n"
  by (simp add: wrap64_def)

lemma div_ceil_le_iff: "0 < b \<Longrightarrow> (div_ceil a b \<le> k) = (a \<le> k * b)"
proof -
  assume b: "0 < b"
  have eq: "a = a div b * b + a mod b" by simp
  show ?thesis
  proof (cases "a mod b = 0")
    case True
    then have "div_ceil a b = a div b" "a = a div b * b" using eq by (simp_all add: div_ceil_def)
    then show ?thesis using b by (metis mult_le_cancel2)
  next
    case False
    then have d: "div_ceil a b = a div b + 1" by (simp add: div_ceil_def)
    show ?thesis
    proof
      assume "div_ceil a b \<le> k"
      then have "(a div b + 1) * b \<le> k * b" unfolding d by (rule mult_le_mono1)
      moreover have "a < (a div b + 1) * b" using b by (simp add: dividend_less_div_times)
      ultimately show "a \<le> k * b" by simp
    next
      assume "a \<le> k * b"
      then have "\<not> k \<le> a div b" using False eq
        by (metis add_diff_cancel_left' b diff_is_0_eq le_antisym mult_le_mono1 le_add1 order_trans)
      then show "div_ceil a b \<le> k" unfolding d by simp
    qed
  qed
qed

lemma less_div_ceil_iff: "0 < b \<Longrightarrow> (k < div_ceil a b) = (k * b < a)"
  using div_ceil_le_iff [of b a k] by linarith

section \<open>Big-endian byte encodings\<close>

text \<open>\<open>be_bytes k n\<close> is \<open>to_be_bytes\<close> of an integer of \<open>k\<close> bytes; \<open>be_value\<close> is
  \<open>from_be_bytes\<close>.\<close>

fun be_bytes :: "nat \<Rightarrow> nat \<Rightarrow> bytes" where
  "be_bytes 0 n = []"
| "be_bytes (Suc k) n = be_bytes k (n div 256) @ [of_nat (n mod 256)]"

definition be_value :: "bytes \<Rightarrow> nat" where
  "be_value bs = foldl (\<lambda>a b. a * 256 + unat b) 0 bs"

lemma length_be_bytes [simp]: "length (be_bytes k n) = k"
  by (induction k arbitrary: n) auto

lemma be_value_snoc: "be_value (bs @ [b]) = be_value bs * 256 + unat b"
  by (simp add: be_value_def)

lemma be_value_Nil [simp]: "be_value [] = 0"
  by (simp add: be_value_def)

lemma unat_byte_of_nat [simp]: "unat (of_nat (n mod 256) :: byte) = n mod 256"
  by (simp add: unat_of_nat)

lemma unat_byte_less [simp]: "unat (b :: byte) < 256"
  using unsigned_less [of b] by simp

lemma be_value_be_bytes: "be_value (be_bytes k n) = n mod 256 ^ k"
proof (induction k arbitrary: n)
  case (Suc k)
  have "n mod 256 ^ Suc k = n mod (256 * 256 ^ k)" by simp
  also have "\<dots> = 256 * (n div 256 mod 256 ^ k) + n mod 256" by (simp add: mod_mult2_eq)
  finally show ?case by (simp add: be_value_snoc Suc mult.commute)
qed simp

lemma be_value_be_bytes_u64 [codec_simps]: "n < 2 ^ 64 \<Longrightarrow> be_value (be_bytes 8 n) = n"
  by (simp add: be_value_be_bytes)

lemma be_value_bound: "be_value bs < 256 ^ length bs"
proof (induction bs rule: rev_induct)
  case (snoc b bs)
  have "be_value (bs @ [b]) < (be_value bs + 1) * 256"
    using unat_byte_less [of b] by (simp add: be_value_snoc)
  also have "\<dots> \<le> 256 ^ length bs * 256" using snoc by (intro mult_le_mono1) simp
  finally show ?case by (simp add: mult.commute)
qed simp

lemma be_bytes_be_value: "length bs = k \<Longrightarrow> be_bytes k (be_value bs) = bs"
proof (induction bs arbitrary: k rule: rev_induct)
  case (snoc b bs)
  then obtain j where "k = Suc j" "length bs = j" by auto
  moreover have "(be_value bs * 256 + unat b) div 256 = be_value bs"
    using unat_byte_less [of b] by simp
  moreover have "(be_value bs * 256 + unat b) mod 256 = unat b"
    using unat_byte_less [of b] by simp
  ultimately show ?case using snoc.IH by (simp add: be_value_snoc)
qed simp

section \<open>Lists\<close>

text \<open>\<open>write_bytes f off bs\<close> is the content of a file of content \<open>f\<close> after the bytes
  \<open>bs\<close> were written at offset \<open>off\<close>; a gap past the end is filled with zeros.\<close>

definition write_bytes :: "bytes \<Rightarrow> nat \<Rightarrow> bytes \<Rightarrow> bytes" where
  "write_bytes f off bs =
     (let g = f @ replicate (off - length f) 0
      in take off g @ bs @ drop (off + length bs) g)"

text \<open>\<open>read_bytes f off n\<close> is the slice of at most \<open>n\<close> bytes at \<open>off\<close>.\<close>

definition read_bytes :: "bytes \<Rightarrow> nat \<Rightarrow> nat \<Rightarrow> bytes" where
  "read_bytes f off n = take n (drop off f)"

lemma length_write_bytes: "off + length bs \<le> length f \<Longrightarrow> length (write_bytes f off bs) = length f"
  by (simp add: write_bytes_def Let_def)

lemma length_read_bytes: "off + n \<le> length f \<Longrightarrow> length (read_bytes f off n) = n"
  by (simp add: read_bytes_def)

lemma nth_write_bytes:
  assumes "off + length bs \<le> length f" "i < length f"
  shows "write_bytes f off bs ! i =
    (if off \<le> i \<and> i < off + length bs then bs ! (i - off) else f ! i)"
  using assms by (auto simp: write_bytes_def Let_def nth_append min_def)

lemma read_write_same: "off + length bs \<le> length f \<Longrightarrow> read_bytes (write_bytes f off bs) off (length bs) = bs"
  by (rule nth_equalityI)
    (auto simp: read_bytes_def length_write_bytes nth_write_bytes)

lemma read_write_other:
  assumes "off + length bs \<le> length f" "p + n \<le> off \<or> off + length bs \<le> p"
  shows "read_bytes (write_bytes f off bs) p n = read_bytes f p n"
  using assms
  by (intro nth_equalityI) (auto simp: read_bytes_def length_write_bytes nth_write_bytes)

lemma read_bytes_nth: "i < n \<Longrightarrow> off + n \<le> length f \<Longrightarrow> read_bytes f off n ! i = f ! (off + i)"
  by (simp add: read_bytes_def)

lemma nth_range_eq_read:
  assumes "off + n \<le> length f" "off + n \<le> length g"
  shows "(read_bytes f off n = read_bytes g off n) = (\<forall>i. off \<le> i \<and> i < off + n \<longrightarrow> f ! i = g ! i)"
proof
  assume eq: "read_bytes f off n = read_bytes g off n"
  show "\<forall>i. off \<le> i \<and> i < off + n \<longrightarrow> f ! i = g ! i"
  proof (intro allI impI)
    fix i assume i: "off \<le> i \<and> i < off + n"
    then have "read_bytes f off n ! (i - off) = f ! i" "read_bytes g off n ! (i - off) = g ! i"
      using assms by (auto simp: read_bytes_nth)
    with eq show "f ! i = g ! i" by simp
  qed
next
  assume "\<forall>i. off \<le> i \<and> i < off + n \<longrightarrow> f ! i = g ! i"
  with assms show "read_bytes f off n = read_bytes g off n"
    by (intro nth_equalityI) (auto simp: read_bytes_def)
qed

end
