(* ===== verification/Rust_Str.thy ===== *)
theory Rust_Str
  imports Prelude
begin

text \<open>
  The parts of Rust's \<open>str\<close> and integer parsing that the program uses.  A \<open>String\<close> is its
  UTF-8 byte sequence as a list of \<open>char\<close>, so that \<open>length\<close> is \<open>len()\<close>; slicing at an index
  that is not a character boundary panics, as in Rust.
\<close>

section \<open>Bytes and characters\<close>

abbreviation ord :: "char \<Rightarrow> nat" where
  "ord c \<equiv> of_char c"

abbreviation lf :: char where
  "lf \<equiv> CHR 0x0A"

abbreviation cr :: char where
  "cr \<equiv> CHR 0x0D"

abbreviation sp :: char where
  "sp \<equiv> CHR 0x20"

definition as_bytes :: "string \<Rightarrow> bytes" where
  "as_bytes s = map of_char s"

definition chars_of :: "bytes \<Rightarrow> string" where
  "chars_of bs = map (\<lambda>b. char_of (unat b)) bs"

lemma length_as_bytes [simp]: "length (as_bytes s) = length s"
  by (simp add: as_bytes_def)

lemma length_chars_of [simp]: "length (chars_of bs) = length bs"
  by (simp add: chars_of_def)

lemma unat_of_char: "unat (of_char c :: byte) = ord c"
proof -
  have "(of_char c :: byte) = of_nat (ord c)" by (simp add: of_nat_of_char)
  moreover have "ord c < 256" by (rule nat_of_char_less_256)
  ultimately show ?thesis by (simp add: unat_of_nat)
qed

lemma chars_of_as_bytes [simp]: "chars_of (as_bytes s) = s"
  by (simp add: chars_of_def as_bytes_def o_def unat_of_char)

lemma as_bytes_inject [simp]: "(as_bytes s = as_bytes t) = (s = t)"
  by (metis chars_of_as_bytes)

lemma as_bytes_append [simp]: "as_bytes (s @ t) = as_bytes s @ as_bytes t"
  by (simp add: as_bytes_def)

text \<open>\<open>String::from_utf8\<close> accepts exactly the well-formed UTF-8 byte sequences.\<close>

definition is_cont :: "byte \<Rightarrow> bool" where
  "is_cont b \<longleftrightarrow> 0x80 \<le> unat b \<and> unat b \<le> 0xBF"

definition utf8_second_ok :: "byte \<Rightarrow> byte \<Rightarrow> bool" where
  "utf8_second_ok a b \<longleftrightarrow> is_cont b \<and>
     (unat a = 0xE0 \<longrightarrow> 0xA0 \<le> unat b) \<and> (unat a = 0xED \<longrightarrow> unat b \<le> 0x9F) \<and>
     (unat a = 0xF0 \<longrightarrow> 0x90 \<le> unat b) \<and> (unat a = 0xF4 \<longrightarrow> unat b \<le> 0x8F)"

text \<open>The number of bytes of the well-formed sequence at the head, 0 if there is none.\<close>

definition utf8_len :: "bytes \<Rightarrow> nat" where
  "utf8_len bs = (case bs of [] \<Rightarrow> 0 | a # r \<Rightarrow>
     (if unat a < 0x80 then 1
      else if 0xC2 \<le> unat a \<and> unat a \<le> 0xDF then
        (if 1 \<le> length r \<and> is_cont (r ! 0) then 2 else 0)
      else if 0xE0 \<le> unat a \<and> unat a \<le> 0xEF then
        (if 2 \<le> length r \<and> utf8_second_ok a (r ! 0) \<and> is_cont (r ! 1) then 3 else 0)
      else if 0xF0 \<le> unat a \<and> unat a \<le> 0xF4 then
        (if 3 \<le> length r \<and> utf8_second_ok a (r ! 0) \<and> is_cont (r ! 1) \<and> is_cont (r ! 2)
         then 4 else 0)
      else 0))"

fun valid_utf8 :: "bytes \<Rightarrow> bool" where
  "valid_utf8 [] = True"
| "valid_utf8 (a # r) =
     (let n = utf8_len (a # r) in if n = 0 then False else valid_utf8 (drop (n - 1) r))"

definition from_utf8 :: "bytes \<Rightarrow> string result" where
  "from_utf8 bs = (if valid_utf8 bs then Inr (chars_of bs) else Inl ParseErr)"

definition ascii :: "string \<Rightarrow> bool" where
  "ascii s = (\<forall>c\<in>set s. ord c < 0x80)"

lemma ascii_simps [simp]:
  "ascii []" "ascii (c # s) = (ord c < 0x80 \<and> ascii s)" "ascii (s @ t) = (ascii s \<and> ascii t)"
  by (auto simp: ascii_def)

lemma valid_utf8_ascii: "ascii s \<Longrightarrow> valid_utf8 (as_bytes s)"
  by (induction s) (auto simp: as_bytes_def utf8_len_def unat_of_char)

lemma from_utf8_as_bytes: "valid_utf8 (as_bytes s) \<Longrightarrow> from_utf8 (as_bytes s) = Inr s"
  by (simp add: from_utf8_def)

section \<open>Slices, prefixes and splitting\<close>

definition is_char_boundary :: "string \<Rightarrow> nat \<Rightarrow> bool" where
  "is_char_boundary s i \<longleftrightarrow>
     i = 0 \<or> i = length s \<or> (i < length s \<and> \<not> (0x80 \<le> ord (s ! i) \<and> ord (s ! i) \<le> 0xBF))"

definition str_slice :: "string \<Rightarrow> nat \<Rightarrow> nat \<Rightarrow> string result" where
  "str_slice s i j =
     (if i \<le> j \<and> is_char_boundary s i \<and> is_char_boundary s j
      then Inr (take (j - i) (drop i s)) else Inl Panic)"

definition starts_with :: "string \<Rightarrow> string \<Rightarrow> bool" where
  "starts_with p s \<longleftrightarrow> take (length p) s = p"

definition strip_prefix :: "string \<Rightarrow> string \<Rightarrow> string option" where
  "strip_prefix p s = (if starts_with p s then Some (drop (length p) s) else None)"

definition split_once :: "char \<Rightarrow> string \<Rightarrow> (string \<times> string) option" where
  "split_once c s =
     (if c \<in> set s then Some (takeWhile (\<lambda>x. x \<noteq> c) s, tl (dropWhile (\<lambda>x. x \<noteq> c) s)) else None)"

definition rsplit_once :: "char \<Rightarrow> string \<Rightarrow> (string \<times> string) option" where
  "rsplit_once c s =
     (case split_once c (rev s) of None \<Rightarrow> None | Some (a, b) \<Rightarrow> Some (rev b, rev a))"

fun split_on :: "'a \<Rightarrow> 'a list \<Rightarrow> 'a list list" where
  "split_on c [] = [[]]"
| "split_on c (x # xs) =
     (if x = c then [] # split_on c xs
      else (case split_on c xs of [] \<Rightarrow> [[x]] | y # ys \<Rightarrow> (x # y) # ys))"

fun join_with :: "'a \<Rightarrow> 'a list list \<Rightarrow> 'a list" where
  "join_with c [] = []"
| "join_with c [x] = x"
| "join_with c (x # y # ys) = x @ c # join_with c (y # ys)"

text \<open>\<open>str::lines\<close>: split at line feeds, no empty last line, a trailing carriage return of a
  line that was ended by a line feed removed.\<close>

definition chomp_cr :: "string \<Rightarrow> string" where
  "chomp_cr s = (if s \<noteq> [] \<and> last s = cr then butlast s else s)"

definition lines :: "string \<Rightarrow> string list" where
  "lines s =
     (let ps = split_on lf s
      in map chomp_cr (butlast ps) @ (if last ps = [] then [] else [last ps]))"

lemma strip_prefix_append [simp]: "strip_prefix p (p @ s) = Some s"
  by (simp add: strip_prefix_def starts_with_def)

lemma starts_with_append [simp]: "starts_with p (p @ s)"
  by (simp add: starts_with_def)

lemma strip_prefix_Some: "(strip_prefix p s = Some t) = (s = p @ t)"
  by (auto simp: strip_prefix_def starts_with_def split: if_splits)
    (metis append_take_drop_id)

lemma split_once_append: "c \<notin> set a \<Longrightarrow> split_once c (a @ c # b) = Some (a, b)"
  by (simp add: split_once_def takeWhile_tail dropWhile_append)

lemma split_once_Some: "split_once c s = Some (a, b) \<Longrightarrow> s = a @ c # b \<and> c \<notin> set a"
proof -
  assume h: "split_once c s = Some (a, b)"
  then have c: "c \<in> set s" and ab: "a = takeWhile (\<lambda>x. x \<noteq> c) s" "b = tl (dropWhile (\<lambda>x. x \<noteq> c) s)"
    by (auto simp: split_once_def split: if_splits)
  from c obtain u v where s: "s = u @ c # v" "c \<notin> set u" by (auto dest: split_list_first)
  then have "a = u" "b = v"
    using ab split_once_append [of c u v] by (simp_all add: split_once_def)
  with s show ?thesis by simp
qed

lemma split_once_None: "(split_once c s = None) = (c \<notin> set s)"
  by (simp add: split_once_def)

lemma rsplit_once_append: "c \<notin> set b \<Longrightarrow> rsplit_once c (a @ c # b) = Some (a, b)"
  using split_once_append [of c "rev b" "rev a"] by (simp add: rsplit_once_def)

lemma rsplit_once_Some: "rsplit_once c s = Some (a, b) \<Longrightarrow> s = a @ c # b \<and> c \<notin> set b"
proof -
  assume "rsplit_once c s = Some (a, b)"
  then have "split_once c (rev s) = Some (rev b, rev a)"
    by (auto simp: rsplit_once_def split: option.splits)
  from split_once_Some [OF this] have "rev s = rev b @ c # rev a" "c \<notin> set b" by simp_all
  then show ?thesis by (metis append.assoc append_Cons append_Nil rev.simps(2) rev_append rev_rev_ident)
qed

lemma split_on_nonempty [simp]: "split_on c s \<noteq> []"
  by (induction s) (auto split: list.splits)

lemma split_on_no_sep: "c \<notin> set s \<Longrightarrow> split_on c s = [s]"
  by (induction s) auto

lemma split_on_append: "c \<notin> set a \<Longrightarrow> split_on c (a @ c # s) = a # split_on c s"
  by (induction a) auto

lemma split_on_join [codec_simps]:
  "xs \<noteq> [] \<Longrightarrow> (\<forall>x\<in>set xs. c \<notin> set x) \<Longrightarrow> split_on c (join_with c xs) = xs"
  by (induction c xs rule: join_with.induct) (auto simp: split_on_no_sep split_on_append)

lemma join_split_on: "join_with c (split_on c s) = s"
proof (induction s)
  case (Cons x s)
  obtain y ys where "split_on c s = y # ys" by (cases "split_on c s") auto
  with Cons show ?case by (cases ys) auto
qed simp

lemma split_on_no_sep_in_parts: "x \<in> set (split_on c s) \<Longrightarrow> c \<notin> set x"
proof (induction s arbitrary: x)
  case (Cons y s)
  obtain z zs where "split_on c s = z # zs" by (cases "split_on c s") auto
  with Cons show ?case by (auto split: if_splits)
qed simp

lemma in_parts: "x \<in> set part \<Longrightarrow> part \<in> set (split_on c s) \<Longrightarrow> x \<in> set s"
proof (induction s arbitrary: part)
  case (Cons y s)
  obtain z zs where z: "split_on c s = z # zs" by (cases "split_on c s") auto
  from Cons.IH [OF Cons.prems(1)] z have "part = z \<or> part \<in> set zs \<Longrightarrow> x \<in> set s" by simp
  moreover from Cons.IH [of z] z have "x \<in> set z \<Longrightarrow> x \<in> set s" by simp
  ultimately show ?case using Cons.prems z by (auto split: if_splits)
qed simp

lemma in_join_with: "x \<in> set (join_with c ns) \<Longrightarrow> x = c \<or> (\<exists>n\<in>set ns. x \<in> set n)"
  by (induction c ns rule: join_with.induct) auto

lemma join_with_Cons: "xs \<noteq> [] \<Longrightarrow> join_with c (x # xs) = x @ c # join_with c xs"
  by (cases xs) auto

definition unlines :: "string list \<Rightarrow> string" where
  "unlines ls = concat (map (\<lambda>l. l @ [lf]) ls)"

lemma unlines_simps [simp]: "unlines [] = []" "unlines (l # ls) = l @ lf # unlines ls"
  "unlines (ls @ ms) = unlines ls @ unlines ms"
  by (simp_all add: unlines_def)

lemma split_on_unlines:
  "\<forall>l\<in>set ls. lf \<notin> set l \<Longrightarrow> split_on lf (unlines ls) = ls @ [[]]"
  by (induction ls) (auto simp: split_on_append)

lemma chomp_cr_id: "cr \<notin> set s \<Longrightarrow> chomp_cr s = s"
  by (metis chomp_cr_def last_in_set)

lemma lines_unlines:
  assumes "\<forall>l\<in>set ls. lf \<notin> set l \<and> cr \<notin> set l"
  shows "lines (unlines ls) = ls"
  using assms by (simp add: lines_def split_on_unlines map_idI chomp_cr_id)

lemma unlines_split: "s = unlines (butlast (split_on lf s)) @ last (split_on lf s)"
proof (induction s)
  case (Cons x s)
  obtain y ys where "split_on lf s = y # ys" by (cases "split_on lf s") auto
  with Cons show ?case by (cases ys) auto
qed simp

text \<open>A text without carriage returns that ends in a line feed is the list of its lines.\<close>

lemma unlines_lines:
  assumes "s \<noteq> []" "last s = lf" "cr \<notin> set s"
  shows "unlines (lines s) = s"
proof -
  let ?ps = "split_on lf s"
  have s: "s = unlines (butlast ?ps) @ last ?ps" by (rule unlines_split)
  have "lf \<notin> set (last ?ps)" by (rule split_on_no_sep_in_parts [OF last_in_set]) simp
  then have e: "last ?ps = []" using s assms(1,2)
    by (metis append_is_Nil_conv last_appendR last_in_set)
  have "\<forall>l\<in>set (butlast ?ps). cr \<notin> set l"
  proof
    fix l assume "l \<in> set (butlast ?ps)"
    then have "set l \<subseteq> set (unlines (butlast ?ps))" by (auto simp: unlines_def)
    with s assms(3) show "cr \<notin> set l" by (metis Un_iff set_append subset_iff)
  qed
  then have "map chomp_cr (butlast ?ps) = butlast ?ps" by (simp add: map_idI chomp_cr_id)
  with e s show ?thesis by (simp add: lines_def Let_def)
qed

section \<open>Splitting at white space\<close>

text \<open>The length of the encoding of the Unicode \<open>White_Space\<close> character at the head, 0 if the
  head is not white space.\<close>

definition ws_len :: "string \<Rightarrow> nat" where
  "ws_len s = (case map ord s of [] \<Rightarrow> 0 | a # r \<Rightarrow>
     (if 9 \<le> a \<and> a \<le> 13 \<or> a = 32 then 1
      else if a = 0xC2 \<and> (take 1 r = [0x85] \<or> take 1 r = [0xA0]) then 2
      else if a = 0xE1 \<and> take 2 r = [0x9A, 0x80] then 3
      else if a = 0xE2 \<and> take 1 r = [0x80] \<and> length r \<ge> 2 \<and>
         (0x80 \<le> r ! 1 \<and> r ! 1 \<le> 0x8A \<or> r ! 1 = 0xA8 \<or> r ! 1 = 0xA9 \<or> r ! 1 = 0xAF) then 3
      else if a = 0xE2 \<and> take 2 r = [0x81, 0x9F] then 3
      else if a = 0xE3 \<and> take 2 r = [0x80, 0x80] then 3
      else 0))"

fun split_ws :: "string \<Rightarrow> string \<Rightarrow> string list" where
  "split_ws acc [] = (if acc = [] then [] else [rev acc])"
| "split_ws acc (c # cs) =
     (let k = ws_len (c # cs)
      in if k = 0 then split_ws (c # acc) cs
         else (if acc = [] then [] else [rev acc]) @ split_ws [] (drop (k - 1) cs))"

definition split_whitespace :: "string \<Rightarrow> string list" where
  "split_whitespace s = split_ws [] s"

text \<open>A field of printable ASCII characters other than the space.\<close>

definition field :: "string \<Rightarrow> bool" where
  "field f \<longleftrightarrow> f \<noteq> [] \<and> (\<forall>c\<in>set f. 33 \<le> ord c \<and> ord c \<le> 126)"

lemma split_ws_field:
  "(\<forall>c\<in>set f. 33 \<le> ord c \<and> ord c \<le> 126) \<Longrightarrow> split_ws acc (f @ s) = split_ws (rev f @ acc) s"
  by (induction f arbitrary: acc) (auto simp: ws_len_def)

lemma split_whitespace_join [codec_simps]:
  "\<forall>f\<in>set fs. field f \<Longrightarrow> split_whitespace (join_with sp fs) = fs"
proof (induction sp fs rule: join_with.induct)
  case (2 x)
  then show ?case
    using split_ws_field [of x "[]" "[]"] by (auto simp: split_whitespace_def field_def)
next
  case (3 x y ys)
  then show ?case
    using split_ws_field [of x "[]" "sp # join_with sp (y # ys)"]
    by (auto simp: split_whitespace_def field_def ws_len_def)
qed (simp add: split_whitespace_def)

lemma field_no_space: "field f \<Longrightarrow> sp \<notin> set f \<and> lf \<notin> set f \<and> cr \<notin> set f"
  by (auto simp: field_def)

lemma field_ascii: "field f \<Longrightarrow> ascii f"
  by (auto simp: field_def ascii_def)

section \<open>Integers\<close>

definition digit_char :: "nat \<Rightarrow> char" where
  "digit_char d = char_of (if d < 10 then 48 + d else 87 + d)"

text \<open>\<open>char::to_digit\<close>, on bytes.\<close>

definition to_digit :: "nat \<Rightarrow> char \<Rightarrow> nat option" where
  "to_digit radix c =
     (let n = ord c;
          d = (if 48 \<le> n \<and> n \<le> 57 then Some (n - 48)
               else if 97 \<le> n \<and> n \<le> 122 then Some (n - 87)
               else if 65 \<le> n \<and> n \<le> 90 then Some (n - 55) else None)
      in case d of None \<Rightarrow> None | Some v \<Rightarrow> if v < radix then Some v else None)"

fun digits_value :: "nat \<Rightarrow> nat \<Rightarrow> string \<Rightarrow> nat option" where
  "digits_value radix a [] = Some a"
| "digits_value radix a (c # cs) =
     (case to_digit radix c of None \<Rightarrow> None | Some d \<Rightarrow> digits_value radix (radix * a + d) cs)"

text \<open>\<open>from_str_radix\<close> of an unsigned type below \<open>limit\<close>: one leading plus sign is accepted,
  the empty string, a lone sign, any other character and overflow are errors.\<close>

definition from_str_radix :: "nat \<Rightarrow> nat \<Rightarrow> string \<Rightarrow> nat result" where
  "from_str_radix radix limit s =
     (case s of [] \<Rightarrow> Inl ParseErr
      | c # cs \<Rightarrow>
        (let ds = (if c = CHR ''+'' then cs else s)
         in if ds = [] then Inl ParseErr
            else case digits_value radix 0 ds of None \<Rightarrow> Inl ParseErr
                 | Some v \<Rightarrow> if v < limit then Inr v else Inl ParseErr))"

definition parse_dec :: "string \<Rightarrow> nat result" where
  "parse_dec s = from_str_radix 10 (2 ^ 64) s"

text \<open>\<open>str::parse::<i64>\<close>: one leading sign.\<close>

definition parse_dec_i64 :: "string \<Rightarrow> int result" where
  "parse_dec_i64 s =
     (case s of [] \<Rightarrow> Inl ParseErr
      | c # cs \<Rightarrow>
        (let neg = (c = CHR ''-''); ds = (if c = CHR ''+'' \<or> neg then cs else s)
         in if ds = [] then Inl ParseErr
            else case digits_value 10 0 ds of None \<Rightarrow> Inl ParseErr
                 | Some v \<Rightarrow>
                   (if neg then (if v \<le> 2 ^ 63 then Inr (- int v) else Inl ParseErr)
                    else (if v < 2 ^ 63 then Inr (int v) else Inl ParseErr))))"

fun show_radix :: "nat \<Rightarrow> nat \<Rightarrow> string" where
  "show_radix radix n =
     (if n < radix \<or> radix < 2 then [digit_char n]
      else show_radix radix (n div radix) @ [digit_char (n mod radix)])"

declare show_radix.simps [simp del]

definition show_nat :: "nat \<Rightarrow> string" where
  "show_nat n = show_radix 10 n"

definition show_int :: "int \<Rightarrow> string" where
  "show_int i = (if i < 0 then CHR ''-'' # show_nat (nat (- i)) else show_nat (nat i))"

definition is_ascii_digit :: "char \<Rightarrow> bool" where
  "is_ascii_digit c \<longleftrightarrow> 48 \<le> ord c \<and> ord c \<le> 57"

definition is_ascii_hexdigit :: "char \<Rightarrow> bool" where
  "is_ascii_hexdigit c \<longleftrightarrow> is_ascii_digit c \<or> 97 \<le> ord c \<and> ord c \<le> 102 \<or> 65 \<le> ord c \<and> ord c \<le> 70"

definition is_ascii_uppercase :: "char \<Rightarrow> bool" where
  "is_ascii_uppercase c \<longleftrightarrow> 65 \<le> ord c \<and> ord c \<le> 90"

lemma ord_digit_char: "d < 36 \<Longrightarrow> ord (digit_char d) = (if d < 10 then 48 + d else 87 + d)"
  by (simp add: digit_char_def)

lemma to_digit_digit_char [simp]: "d < radix \<Longrightarrow> radix \<le> 36 \<Longrightarrow> to_digit radix (digit_char d) = Some d"
  by (simp add: to_digit_def ord_digit_char)

lemma to_digit_less: "to_digit radix c = Some d \<Longrightarrow> d < radix"
  by (auto simp: to_digit_def Let_def split: option.splits if_splits)

lemma digits_value_append:
  "digits_value radix a (s @ t) =
     (case digits_value radix a s of None \<Rightarrow> None | Some b \<Rightarrow> digits_value radix b t)"
  by (induction s arbitrary: a) (auto split: option.splits)

lemma digits_value_show_radix:
  "2 \<le> radix \<Longrightarrow> radix \<le> 36 \<Longrightarrow> digits_value radix 0 (show_radix radix n) = Some n"
proof (induction radix n rule: show_radix.induct)
  case (1 radix n)
  then show ?case
    by (subst show_radix.simps) (auto simp: digits_value_append)
qed

lemma show_radix_nonempty [simp]: "show_radix radix n \<noteq> []"
  by (subst show_radix.simps) simp

lemma show_radix_chars:
  "2 \<le> radix \<Longrightarrow> c \<in> set (show_radix radix n) \<Longrightarrow> \<exists>d < radix. c = digit_char d"
proof (induction radix n rule: show_radix.induct)
  case (1 radix n)
  then show ?case
  proof (cases "n < radix")
    case True
    then have "show_radix radix n = [digit_char n]" by (subst show_radix.simps) simp
    with True 1 show ?thesis by auto
  next
    case False
    with 1(2) have "show_radix radix n = show_radix radix (n div radix) @ [digit_char (n mod radix)]"
      by (subst show_radix.simps) simp
    moreover have "n mod radix < radix" using 1(2) by (intro mod_less_divisor) simp
    ultimately show ?thesis using False 1 by (metis Un_iff insert_iff list.set(1,2) set_append empty_iff not_le)
  qed
qed

lemma show_nat_nonempty [simp]: "show_nat n \<noteq> []"
  by (simp add: show_nat_def)

lemma show_nat_digits: "c \<in> set (show_nat n) \<Longrightarrow> is_ascii_digit c"
  using show_radix_chars [of 10 c n] by (auto simp: show_nat_def is_ascii_digit_def ord_digit_char)

lemma show_nat_field [simp]: "field (show_nat n)"
  using show_nat_digits by (fastforce simp: field_def is_ascii_digit_def)

lemma show_nat_notin:
  "c \<notin> set (show_nat n)" if "\<not> is_ascii_digit c"
  using that show_nat_digits by blast

lemma parse_dec_show_nat [codec_simps]: "n < 2 ^ 64 \<Longrightarrow> parse_dec (show_nat n) = Inr n"
proof -
  assume n: "n < 2 ^ 64"
  obtain c cs where s: "show_nat n = c # cs" by (cases "show_nat n") auto
  then have "c \<noteq> CHR ''+''" using show_nat_digits [of c n] by (auto simp: is_ascii_digit_def)
  moreover have "digits_value 10 0 (c # cs) = Some n"
    using digits_value_show_radix [of 10 n] s by (simp add: show_nat_def)
  ultimately show ?thesis using n s by (simp add: parse_dec_def from_str_radix_def Let_def)
qed

text \<open>Decimal digit strings without a superfluous leading zero are what \<open>show_nat\<close> prints.\<close>

lemma show_nat_digits_value:
  assumes "s \<noteq> []" "\<forall>c\<in>set s. is_ascii_digit c" "length s > 1 \<longrightarrow> hd s \<noteq> CHR ''0''"
    "digits_value 10 0 s = Some n"
  shows "show_nat n = s"
  using assms
proof (induction s arbitrary: n rule: rev_induct)
  case (snoc c s)
  from snoc.prems(2) have c: "is_ascii_digit c" by simp
  then obtain d where d: "c = digit_char d" "d < 10"
  proof -
    have "c = char_of (ord c)" by simp
    then have "c = digit_char (ord c - 48)" "ord c - 48 < 10"
      using c by (auto simp: digit_char_def is_ascii_digit_def)
    then show thesis by (rule that)
  qed
  show ?case
  proof (cases "s = []")
    case True
    with snoc.prems(4) d have "n = d" by simp
    with True d show ?thesis by (simp add: show_nat_def show_radix.simps [of 10 d])
  next
    case False
    with snoc.prems(4) d obtain m where m: "digits_value 10 0 s = Some m" "n = 10 * m + d"
      by (auto simp: digits_value_append split: option.splits)
    have h: "hd s \<noteq> CHR ''0''" using snoc.prems(3) False by (cases s) auto
    have s: "show_nat m = s"
      using snoc.IH [of m] False snoc.prems(2) h m(1) by simp
    have "m \<noteq> 0"
    proof
      assume "m = 0"
      then have "s = [digit_char 0]" using s by (simp add: show_nat_def show_radix.simps [of 10 0])
      moreover have "digit_char 0 = CHR ''0''" by code_simp
      ultimately show False using h by simp
    qed
    then have "\<not> n < 10" "n div 10 = m" "n mod 10 = d" using m(2) d(2) by simp_all
    then have "show_nat n = show_radix 10 m @ [digit_char d]"
      using show_radix.simps [of 10 n] by (simp add: show_nat_def)
    with s d show ?thesis by (simp add: show_nat_def)
  qed
qed simp

lemma show_nat_no_leading_zero: "length (show_nat n) > 1 \<Longrightarrow> hd (show_nat n) \<noteq> CHR ''0''"
  unfolding show_nat_def
proof (induction "10::nat" n rule: show_radix.induct)
  case (1 n)
  show ?case
  proof (cases "n < 10")
    case True
    then show ?thesis using 1(2) by (simp add: show_radix.simps [of 10 n])
  next
    case False
    then have e: "show_radix 10 n = show_radix 10 (n div 10) @ [digit_char (n mod 10)]"
      by (simp add: show_radix.simps [of 10 n])
    show ?thesis
    proof (cases "n div 10 < 10")
      case True
      have "n div 10 \<noteq> 0" using False by simp
      moreover have "ord (CHR ''0'') = (48::nat)" by simp
      moreover have "ord (digit_char (n div 10)) = 48 + n div 10" using True by (simp add: ord_digit_char)
      ultimately have "digit_char (n div 10) \<noteq> CHR ''0''" by (metis add_cancel_left_right)
      with True e show ?thesis by (simp add: show_radix.simps [of 10 "n div 10"])
    next
      case False
      then have "length (show_radix 10 (n div 10)) > 1"
        by (subst show_radix.simps) (auto simp: length_greater_0_conv [symmetric] simp del: length_greater_0_conv)
      with 1(1) \<open>\<not> n < 10\<close> e show ?thesis by simp
    qed
  qed
qed

lemma length_show_radix_le: "2 \<le> radix \<Longrightarrow> n < radix ^ k \<Longrightarrow> 0 < k \<Longrightarrow> length (show_radix radix n) \<le> k"
proof (induction k arbitrary: n)
  case (Suc k)
  show ?case
  proof (cases "n < radix")
    case True
    then show ?thesis by (simp add: show_radix.simps [of radix n])
  next
    case False
    then have "0 < k" using Suc.prems by (cases k) auto
    moreover have "n div radix < radix ^ k" using Suc.prems by (simp add: less_mult_imp_div_less mult.commute)
    ultimately have "length (show_radix radix (n div radix)) \<le> k" using Suc by simp
    with False Suc.prems show ?thesis by (simp add: show_radix.simps [of radix n])
  qed
qed simp

lemma length_show_nat_le: "n < 10 ^ k \<Longrightarrow> 0 < k \<Longrightarrow> length (show_nat n) \<le> k"
  unfolding show_nat_def by (rule length_show_radix_le) simp_all

lemma length_show_nat_u64: "n < 2 ^ 64 \<Longrightarrow> length (show_nat n) \<le> 20"
  by (rule length_show_nat_le) simp_all

end
