(* ===== verification/Effects.thy ===== *)
theory Effects
  imports Prelude
begin

text \<open>
  Programs with effects, as functions from a state to a result and a new state, and \<open>triple\<close>, their
  partial-correctness judgement with one postcondition for success and one for failure.  The state
  is a type parameter: the world of \<open>Disk\<close> for the transfers, the tree of \<open>File_Tree\<close> for directories.
\<close>

section \<open>Faults\<close>

text \<open>What may happen to a system call.\<close>

datatype fault =
    Fine
  | Fail string              \<comment> \<open>the call fails with an I/O error and does nothing\<close>
  | Partial nat string       \<comment> \<open>a write transfers so many bytes and then fails\<close>
  | Kill                     \<comment> \<open>the process dies at this call\<close>

section \<open>Programs\<close>

type_synonym ('s, 'a) effect = "'s \<Rightarrow> 'a result \<times> 's"

definition ret :: "'a \<Rightarrow> ('s, 'a) effect" where
  "ret x w = (Inr x, w)"

definition throw :: "error \<Rightarrow> ('s, 'a) effect" where
  "throw e w = (Inl e, w)"

definition bindM :: "('s, 'a) effect \<Rightarrow> ('a \<Rightarrow> ('s, 'b) effect) \<Rightarrow> ('s, 'b) effect" where
  "bindM m f w = (case m w of (Inl e, w') \<Rightarrow> (Inl e, w') | (Inr x, w') \<Rightarrow> f x w')"

definition lift :: "'a result \<Rightarrow> ('s, 'a) effect" where
  "lift r w = (r, w)"

text \<open>\<open>match m { ... }\<close> on the result of a call.\<close>

definition tryM :: "('s, 'a) effect \<Rightarrow> ('a result \<Rightarrow> ('s, 'b) effect) \<Rightarrow> ('s, 'b) effect" where
  "tryM m f w = (case m w of (r, w') \<Rightarrow> f r w')"

fun forM :: "('a \<Rightarrow> ('s, unit) effect) \<Rightarrow> 'a list \<Rightarrow> ('s, unit) effect" where
  "forM f [] = ret ()"
| "forM f (x # xs) = bindM (f x) (\<lambda>_. forM f xs)"

section \<open>The judgement\<close>

definition triple ::
    "('s \<Rightarrow> bool) \<Rightarrow> ('s, 'a) effect \<Rightarrow> ('a \<Rightarrow> 's \<Rightarrow> bool) \<Rightarrow> ('s \<Rightarrow> bool) \<Rightarrow> bool" where
  "triple P m Q E \<longleftrightarrow> (\<forall>w. P w \<longrightarrow> (case m w of (Inr x, w') \<Rightarrow> Q x w' | (Inl e, w') \<Rightarrow> E w'))"

lemma triple_Inr: "triple P m Q E \<Longrightarrow> P w \<Longrightarrow> m w = (Inr x, w') \<Longrightarrow> Q x w'"
  by (auto simp: triple_def dest: spec [of _ w])

lemma triple_Inl: "triple P m Q E \<Longrightarrow> P w \<Longrightarrow> m w = (Inl e, w') \<Longrightarrow> E w'"
  by (auto simp: triple_def dest: spec [of _ w])

lemma triple_ret: "(\<And>w. P w \<Longrightarrow> Q x w) \<Longrightarrow> triple P (ret x) Q E"
  by (simp add: triple_def ret_def)

lemma triple_throw: "(\<And>w. P w \<Longrightarrow> E w) \<Longrightarrow> triple P (throw e) Q E"
  by (simp add: triple_def throw_def)

lemma triple_lift:
  "(\<And>w x. P w \<Longrightarrow> r = Inr x \<Longrightarrow> Q x w) \<Longrightarrow> (\<And>w. P w \<Longrightarrow> E w) \<Longrightarrow> triple P (lift r) Q E"
  by (auto simp: triple_def lift_def split: sum.splits)

lemma triple_bind:
  "triple P m R E \<Longrightarrow> (\<And>x. triple (R x) (f x) Q E) \<Longrightarrow> triple P (bindM m f) Q E"
  by (fastforce simp: triple_def bindM_def split: prod.splits sum.splits)

lemma triple_try:
  assumes m: "triple P m (\<lambda>x. R (Inr x)) (\<lambda>w. \<forall>e. R (Inl e) w)" and f: "\<And>r. triple (R r) (f r) Q E"
  shows "triple P (tryM m f) Q E"
  unfolding triple_def
proof (intro allI impI)
  fix w assume w: "P w"
  obtain r w' where mw: "m w = (r, w')" by fastforce
  have "R r w'" using triple_Inr [OF m w] triple_Inl [OF m w] mw by (cases r) auto
  with f [of r] mw show "case tryM m f w of (Inl e, w') \<Rightarrow> E w' | (Inr x, w') \<Rightarrow> Q x w'"
    by (simp add: tryM_def triple_def)
qed

lemma triple_conseq:
  assumes t: "triple P m Q E" and p: "\<And>w. P' w \<Longrightarrow> P w" and q: "\<And>x w. Q x w \<Longrightarrow> Q' x w"
    and e: "\<And>w. E w \<Longrightarrow> E' w"
  shows "triple P' m Q' E'"
  unfolding triple_def
proof (intro allI impI)
  fix w assume "P' w"
  then have w: "P w" by (rule p)
  obtain r w' where m: "m w = (r, w')" by fastforce
  show "case m w of (Inl e, w') \<Rightarrow> E' w' | (Inr x, w') \<Rightarrow> Q' x w'"
    using triple_Inr [OF t w] triple_Inl [OF t w] m q e by (cases r) auto
qed

text \<open>Facts that the precondition entails may be assumed.\<close>

lemma triple_pre:
  "(\<And>w. P w \<Longrightarrow> F) \<Longrightarrow> (F \<Longrightarrow> triple P m Q E) \<Longrightarrow> triple P m Q E"
  by (cases F) (auto simp: triple_def)

lemma triple_conj:
  "triple P m Q E \<Longrightarrow> triple P' m Q' E'
    \<Longrightarrow> triple (\<lambda>w. P w \<and> P' w) m (\<lambda>x w. Q x w \<and> Q' x w) (\<lambda>w. E w \<and> E' w)"
  by (fastforce simp: triple_def split: prod.splits sum.splits)

end
