(* ===== verification/Disk.thy ===== *)
theory Disk
  imports Rust_Str Effects
begin

text \<open>
  The file system that the receiver relies on, as far as \<open>src/resume.rs\<close> and
  \<open>src/main.rs\<close> use it: named inodes, positional writes, \<open>fsync\<close>, \<open>rename\<close> and removal.

  Durability is explicit.  An inode carries the set of byte positions that are \<open>stable\<close>: on disk
  and not written since.  The directory keeps its \<open>history\<close>, the states it went through since it
  was last known to be on disk.  A crash leaves a directory of the history and, in every inode,
  the stable bytes; everything else is arbitrary (\<open>crashed\<close>).

  The control stream is part of the world as the list of payloads sent.

  Every call may fail or be the moment at which the process is killed: the world carries a list
  of faults, one per call, and a killed process changes nothing any more.  Programs are the
  \<open>effect\<close>s over this world.
\<close>

section \<open>The world\<close>

record inode =
  content :: bytes
  stable :: "nat set"

type_synonym dirent_map = "string \<Rightarrow> nat option"

record world =
  inodes :: "inode list"
  names :: dirent_map
  history :: "dirent_map list"
  faults :: "fault list"
  alive :: bool
  sent :: "string list"

type_synonym 'a io = "(world, 'a) effect"

text \<open>A system call: \<open>body\<close> says what it does when it is not disturbed.\<close>

definition call :: "'a io \<Rightarrow> 'a io" where
  "call body w =
     (if \<not> alive w then (Inl Panic, w)
      else case faults w of
        [] \<Rightarrow> body w
      | Fine # fs \<Rightarrow> body (w\<lparr>faults := fs\<rparr>)
      | Fail e # fs \<Rightarrow> (Inl (IoErr e), w\<lparr>faults := fs\<rparr>)
      | Partial k e # fs \<Rightarrow> (Inl (IoErr e), w\<lparr>faults := fs\<rparr>)
      | Kill # fs \<Rightarrow> (Inl Panic, w\<lparr>faults := fs, alive := False\<rparr>))"

definition set_names :: "dirent_map \<Rightarrow> world \<Rightarrow> world" where
  "set_names nm w = w\<lparr>names := nm, history := nm # history w\<rparr>"

definition set_inode :: "nat \<Rightarrow> inode \<Rightarrow> world \<Rightarrow> world" where
  "set_inode i f w = w\<lparr>inodes := (inodes w)[i := f]\<rparr>"

section \<open>System calls\<close>

definition open_file :: "string \<Rightarrow> nat io" where
  "open_file p = call (\<lambda>w. case names w p of None \<Rightarrow> (Inl NotFound, w) | Some i \<Rightarrow> (Inr i, w))"

definition file_len :: "string \<Rightarrow> nat io" where
  "file_len p = call (\<lambda>w. case names w p of None \<Rightarrow> (Inl NotFound, w)
     | Some i \<Rightarrow> (Inr (length (content (inodes w ! i))), w))"

text \<open>\<open>create(true).truncate(true)\<close>, which is also \<open>File::create\<close>.\<close>

definition create_file :: "string \<Rightarrow> nat io" where
  "create_file p = call (\<lambda>w. case names w p of
      Some i \<Rightarrow> (Inr i, set_inode i \<lparr>content = [], stable = {}\<rparr> w)
    | None \<Rightarrow> (Inr (length (inodes w)),
        set_names ((names w)(p \<mapsto> length (inodes w)))
          (w\<lparr>inodes := inodes w @ [\<lparr>content = [], stable = {}\<rparr>]\<rparr>)))"

definition set_len :: "nat \<Rightarrow> nat \<Rightarrow> unit io" where
  "set_len i n = call (\<lambda>w. let f = inodes w ! i in
     (Inr (), set_inode i \<lparr>content = take n (content f) @ replicate (n - length (content f)) 0,
        stable = stable f \<inter> {..<n}\<rparr> w))"

definition sync_file :: "nat \<Rightarrow> unit io" where
  "sync_file i = call (\<lambda>w. let f = inodes w ! i in
     (Inr (), set_inode i (f\<lparr>stable := {..<length (content f)}\<rparr>) w))"

text \<open>A byte that a write does not change stays as stable as it was.\<close>

definition written :: "inode \<Rightarrow> nat \<Rightarrow> bytes \<Rightarrow> inode" where
  "written f off bs =
     (let c = write_bytes (content f) off bs
      in \<lparr>content = c, stable = {k \<in> stable f. c ! k = content f ! k}\<rparr>)"

text \<open>A write loop: all the bytes, or a prefix of them and an error.\<close>

definition write_file :: "nat \<Rightarrow> nat \<Rightarrow> bytes \<Rightarrow> unit io" where
  "write_file i off bs w =
     (case faults w of
        Partial k e # fs \<Rightarrow>
          (if alive w
           then (Inl (IoErr e), set_inode i (written (inodes w ! i) off (take k bs)) (w\<lparr>faults := fs\<rparr>))
           else (Inl Panic, w))
      | _ \<Rightarrow> call (\<lambda>w. (Inr (), set_inode i (written (inodes w ! i) off bs) w)) w)"

definition append_file :: "nat \<Rightarrow> bytes \<Rightarrow> unit io" where
  "append_file i bs w = write_file i (length (content (inodes w ! i))) bs w"

definition read_file :: "nat \<Rightarrow> bytes io" where
  "read_file i = call (\<lambda>w. (Inr (content (inodes w ! i)), w))"

definition rename_file :: "string \<Rightarrow> string \<Rightarrow> unit io" where
  "rename_file p q = call (\<lambda>w. case names w p of None \<Rightarrow> (Inl NotFound, w)
     | Some i \<Rightarrow> (Inr (), set_names ((names w)(p := None, q := Some i)) w))"

definition remove_file :: "string \<Rightarrow> unit io" where
  "remove_file p = call (\<lambda>w. case names w p of None \<Rightarrow> (Inl NotFound, w)
     | Some i \<Rightarrow> (Inr (), set_names ((names w)(p := None)) w))"

text \<open>Sending a control message (\<open>ControlWriter::send\<close>); \<open>sent\<close> collects the payloads.\<close>

definition send_control :: "string \<Rightarrow> unit io" where
  "send_control payload =
     (if lf \<in> set payload \<or> 65536 div 2 < length payload
      then throw (Err ''invalid authenticated control payload'')
      else call (\<lambda>w. (Inr (), w\<lparr>sent := sent w @ [payload]\<rparr>)))"

section \<open>Crashes\<close>

definition survives :: "inode \<Rightarrow> inode \<Rightarrow> bool" where
  "survives f g \<longleftrightarrow> (\<forall>k\<in>stable f. k < length (content g) \<and> content g ! k = content f ! k)
     \<and> (stable f = {..<length (content f)} \<longrightarrow> length (content g) = length (content f))
     \<and> stable g = {..<length (content g)}"

definition crashed :: "world \<Rightarrow> world \<Rightarrow> bool" where
  "crashed w w' \<longleftrightarrow> length (inodes w') = length (inodes w)
     \<and> (\<forall>i < length (inodes w). survives (inodes w ! i) (inodes w' ! i))
     \<and> names w' \<in> set (history w) \<and> history w' = [names w'] \<and> alive w'"

section \<open>Worlds that can occur\<close>

definition wf_inode :: "inode \<Rightarrow> bool" where
  "wf_inode f \<longleftrightarrow> stable f \<subseteq> {..<length (content f)}"

definition wf_world :: "world \<Rightarrow> bool" where
  "wf_world w \<longleftrightarrow> names w \<in> set (history w)
     \<and> (\<forall>nm\<in>set (history w). \<forall>p i. nm p = Some i \<longrightarrow> i < length (inodes w))
     \<and> (\<forall>nm\<in>set (history w). \<forall>p q i. nm p = Some i \<and> nm q = Some i \<longrightarrow> p = q)
     \<and> (\<forall>f\<in>set (inodes w). wf_inode f)"

lemma wf_world_inj:
  "wf_world w \<Longrightarrow> nm \<in> set (history w) \<Longrightarrow> nm p = Some i \<Longrightarrow> nm q = Some i \<Longrightarrow> p = q"
  unfolding wf_world_def by blast

lemma wf_world_bound:
  "wf_world w \<Longrightarrow> nm \<in> set (history w) \<Longrightarrow> nm p = Some i \<Longrightarrow> i < length (inodes w)"
  unfolding wf_world_def by blast

lemma wf_world_names: "wf_world w \<Longrightarrow> names w \<in> set (history w)"
  by (simp add: wf_world_def)

lemma wf_world_inode: "wf_world w \<Longrightarrow> i < length (inodes w) \<Longrightarrow> wf_inode (inodes w ! i)"
  by (simp add: wf_world_def)

text \<open>A call keeps what does not depend on the faults and on whether the process lives, and
  reaches what its body reaches.\<close>

definition fault_blind :: "(world \<Rightarrow> bool) \<Rightarrow> bool" where
  "fault_blind P \<longleftrightarrow> (\<forall>w fs a. P (w\<lparr>faults := fs, alive := a\<rparr>) = P w)"

lemma fault_blindD:
  assumes "fault_blind P"
  shows "P (w\<lparr>faults := fs\<rparr>) = P w" "P (w\<lparr>faults := fs, alive := a\<rparr>) = P w"
  using assms unfolding fault_blind_def by (metis world.surjective world.update_convs(4,5))+

lemma triple_call:
  assumes "fault_blind P" "triple P body Q E" "\<And>w. P w \<Longrightarrow> E w"
  shows "triple P (call body) Q E"
  using assms(2,3) fault_blindD [OF assms(1)]
  by (auto simp: triple_def call_def split: fault.splits list.splits)

text \<open>A write transfers everything, or a prefix and fails.\<close>

lemma write_file_cases:
  assumes "write_file i off bs w = (r, w')"
  obtains (all) fs where "r = Inr ()" "w' = set_inode i (written (inodes w ! i) off bs) (w\<lparr>faults := fs\<rparr>)"
  | (some) e k fs where "r = Inl e"
      "w' = set_inode i (written (inodes w ! i) off (take k bs)) (w\<lparr>faults := fs\<rparr>)"
  | (none) e fs a where "r = Inl e" "w' = w\<lparr>faults := fs, alive := a\<rparr>"
proof (cases "alive w")
  case False
  then have "r = Inl Panic" "w' = w\<lparr>faults := faults w, alive := alive w\<rparr>"
    using assms by (auto simp: write_file_def call_def split: list.splits fault.splits)
  then show thesis by (rule none)
next
  case True
  show thesis
  proof (cases "faults w")
    case Nil
    then have "r = Inr ()" "w' = set_inode i (written (inodes w ! i) off bs) (w\<lparr>faults := []\<rparr>)"
      using assms True by (auto simp: write_file_def call_def set_inode_def)
    then show thesis by (rule all)
  next
    case (Cons x fs)
    show thesis
    proof (cases x)
      case Fine
      then show thesis using assms True Cons
        by (intro all [of fs]) (auto simp: write_file_def call_def)
    next
      case (Fail e)
      then have "r = Inl (IoErr e)" "w' = w\<lparr>faults := fs, alive := alive w\<rparr>"
        using assms True Cons by (auto simp: write_file_def call_def)
      then show thesis by (rule none)
    next
      case (Partial k e)
      then show thesis using assms True Cons
        by (intro some [of "IoErr e" k fs]) (auto simp: write_file_def)
    next
      case Kill
      then have "r = Inl Panic" "w' = w\<lparr>faults := fs, alive := False\<rparr>"
        using assms True Cons by (auto simp: write_file_def call_def)
      then show thesis by (rule none)
    qed
  qed
qed

lemma triple_write:
  assumes P: "fault_blind P" and E: "\<And>w. P w \<Longrightarrow> E w"
    and all: "\<And>w. P w \<Longrightarrow> Q () (set_inode i (written (inodes w ! i) (off w) bs) w)"
    and some: "\<And>w k. P w \<Longrightarrow> E (set_inode i (written (inodes w ! i) (off w) (take k bs)) w)"
    and off: "\<And>w fs. off (w\<lparr>faults := fs\<rparr>) = off w"
  shows "triple P (\<lambda>w. write_file i (off w) bs w) Q E"
  unfolding triple_def
proof (intro allI impI)
  fix w assume w: "P w"
  obtain r w' where m: "write_file i (off w) bs w = (r, w')" by fastforce
  have w2: "P (w\<lparr>faults := fs\<rparr>)" "P (w\<lparr>faults := fs, alive := a\<rparr>)" for fs a
    using fault_blindD [OF P] w by simp_all
  show "case write_file i (off w) bs w of (Inl e, w') \<Rightarrow> E w' | (Inr x, w') \<Rightarrow> Q x w'"
    using m
  proof (cases rule: write_file_cases)
    case (all fs)
    with assms(3) [OF w2(1)] m off show ?thesis by simp
  next
    case (some e k fs)
    with assms(4) [OF w2(1)] m off show ?thesis by simp
  next
    case (none e fs a)
    with E [OF w2(2)] m show ?thesis by simp
  qed
qed

lemma triple_append:
  assumes "fault_blind P" "\<And>w. P w \<Longrightarrow> E w"
    "\<And>w. P w \<Longrightarrow> Q () (set_inode i (written (inodes w ! i) (length (content (inodes w ! i))) bs) w)"
    "\<And>w k. P w \<Longrightarrow> E (set_inode i (written (inodes w ! i) (length (content (inodes w ! i))) (take k bs)) w)"
  shows "triple P (append_file i bs) Q E"
proof -
  have "triple P (\<lambda>w. write_file i (length (content (inodes w ! i))) bs w) Q E"
    by (rule triple_write) (use assms in simp_all)
  then show ?thesis by (simp add: append_file_def [abs_def])
qed

lemma wf_inode_written: "wf_inode f \<Longrightarrow> off \<le> length (content f) \<Longrightarrow> wf_inode (written f off bs)"
  by (auto simp: wf_inode_def written_def write_bytes_def Let_def min_def)

lemma written_append: "content (written f (length (content f)) bs) = content f @ bs"
  by (simp add: written_def write_bytes_def Let_def)

text \<open>A call that only looks.\<close>

definition same_disk :: "world \<Rightarrow> world \<Rightarrow> bool" where
  "same_disk w w' \<longleftrightarrow> (\<exists>fs a. w' = w\<lparr>faults := fs, alive := a\<rparr>)"

lemma same_disk_refl [simp]: "same_disk w w"
  unfolding same_disk_def by (rule exI [of _ "faults w"], rule exI [of _ "alive w"]) simp

lemma same_disk_trans: "same_disk u v \<Longrightarrow> same_disk v w \<Longrightarrow> same_disk u w"
  by (elim same_disk_def [THEN iffD1, elim_format] exE) (simp add: same_disk_def, blast)

lemma same_diskD:
  "same_disk w w' \<Longrightarrow> inodes w' = inodes w \<and> names w' = names w \<and> history w' = history w"
  by (auto simp: same_disk_def)

lemma fault_blind_same_disk: "fault_blind P \<Longrightarrow> same_disk w w' \<Longrightarrow> P w' = P w"
  by (auto simp: same_disk_def fault_blind_def)

lemma same_disk_faults:
  "same_disk w (w\<lparr>faults := fs\<rparr>)" "same_disk w (w\<lparr>faults := fs, alive := a\<rparr>)"
  unfolding same_disk_def by (rule exI [of _ fs], rule exI [of _ "alive w"], simp) blast

lemma call_looks:
  assumes "call body w = (r, w')" "\<And>v. snd (body v) = v"
    "\<And>fs. fst (body (w\<lparr>faults := fs\<rparr>)) = fst (body w)"
  shows "same_disk w w' \<and> (fst (body w) = r \<or> r = Inl Panic \<or> (\<exists>m. r = Inl (IoErr m)))"
proof (cases "alive w")
  case False
  then show ?thesis using assms(1) by (simp add: call_def)
next
  case True
  show ?thesis
  proof (cases "faults w")
    case Nil
    then have "body w = (r, w')" using assms(1) True by (simp add: call_def)
    then show ?thesis using assms(2) [of w] by simp
  next
    case (Cons x fs)
    show ?thesis
    proof (cases x)
      case Fine
      then have "body (w\<lparr>faults := fs\<rparr>) = (r, w')" using assms(1) True Cons by (simp add: call_def)
      then show ?thesis using assms(2) [of "w\<lparr>faults := fs\<rparr>"] assms(3) [of fs] same_disk_faults(1) [of w fs]
        by simp
    qed (use assms(1) True Cons same_disk_faults in \<open>auto simp: call_def\<close>)
  qed
qed

lemma open_file_looks:
  assumes "open_file p w = (r, w')"
  shows "same_disk w w'" "r = Inr i \<Longrightarrow> names w p = Some i" "r = Inl NotFound \<Longrightarrow> names w p = None"
proof -
  have "same_disk w w' \<and> (fst (case names w p of None \<Rightarrow> (Inl NotFound, w)
      | Some i \<Rightarrow> (Inr i, w)) = r \<or> r = Inl Panic \<or> (\<exists>m. r = Inl (IoErr m)))"
    by (rule call_looks [OF assms [unfolded open_file_def]]) (simp_all split: option.splits)
  then show "same_disk w w'" "r = Inr i \<Longrightarrow> names w p = Some i" "r = Inl NotFound \<Longrightarrow> names w p = None"
    by (auto split: option.splits)
qed

lemma file_len_looks:
  assumes "file_len p w = (r, w')"
  shows "same_disk w w'" "r = Inr n \<Longrightarrow> \<exists>i. names w p = Some i \<and> n = length (content (inodes w ! i))"
proof -
  have "same_disk w w' \<and> (fst (case names w p of None \<Rightarrow> (Inl NotFound, w)
      | Some i \<Rightarrow> (Inr (length (content (inodes w ! i))), w)) = r \<or> r = Inl Panic \<or> (\<exists>m. r = Inl (IoErr m)))"
    by (rule call_looks [OF assms [unfolded file_len_def]]) (simp_all split: option.splits)
  then show "same_disk w w'" "r = Inr n \<Longrightarrow> \<exists>i. names w p = Some i \<and> n = length (content (inodes w ! i))"
    by (auto split: option.splits)
qed

lemma read_file_looks:
  assumes "read_file i w = (r, w')"
  shows "same_disk w w'" "r = Inr bs \<Longrightarrow> bs = content (inodes w ! i)"
proof -
  have "same_disk w w' \<and> (fst (Inr (content (inodes w ! i)), w) = r
      \<or> r = Inl Panic \<or> (\<exists>m. r = Inl (IoErr m)))"
    by (rule call_looks [OF assms [unfolded read_file_def]]) simp_all
  then show "same_disk w w'" "r = Inr bs \<Longrightarrow> bs = content (inodes w ! i)"
    by auto
qed

end
