(* ===== verification/Codec.thy ===== *)
theory Codec
  imports Rust_Str
begin

unbundle bit_operations_syntax

text \<open>
  The hexadecimal and decimal codecs of the program: \<open>auth::hex\<close>, \<open>auth::decode_array\<close>,
  \<open>main::hex_digest\<close>, the three strict hash decoders of \<open>resume\<close>, \<open>cdc\<close> and \<open>directory\<close>,
  the canonical decimal parsers, and \<open>auth::constant_time_eq\<close>.

  The locale \<open>codec\<close> is the contract of an encoder and a decoder; \<open>canonical_codec\<close> adds that
  only encodings are decoded.  Every pair of the program is an interpretation of one of them.
\<close>

section \<open>The contract of a codec\<close>

locale codec =
  fixes enc :: "'a \<Rightarrow> 's" and dec :: "'s \<Rightarrow> 'a result" and valid :: "'a \<Rightarrow> bool"
  assumes dec_enc: "valid x \<Longrightarrow> dec (enc x) = Inr x"
begin

lemma enc_inject: "valid x \<Longrightarrow> valid y \<Longrightarrow> (enc x = enc y) = (x = y)"
  by (metis dec_enc sum.inject(2))

lemma dec_enc_ok: "valid x \<Longrightarrow> is_ok (dec (enc x))"
  by (simp add: dec_enc)

end

locale canonical_codec = codec +
  assumes dec_valid: "dec s = Inr x \<Longrightarrow> valid x"
    and dec_canonical: "dec s = Inr x \<Longrightarrow> enc x = s"
begin

lemma dec_iff: "(dec s = Inr x) = (valid x \<and> s = enc x)"
  using dec_valid dec_canonical dec_enc by blast

lemma dec_unique: "dec s = Inr x \<Longrightarrow> dec t = Inr x \<Longrightarrow> s = t"
  using dec_canonical by blast

lemma dec_ok_iff: "is_ok (dec s) = (\<exists>x. valid x \<and> s = enc x)"
  by (cases "dec s") (auto simp: dec_iff [symmetric])

end

section \<open>Hexadecimal\<close>

definition HEX :: string where
  "HEX = ''0123456789abcdef''"

definition hex_byte :: "byte \<Rightarrow> string" where
  "hex_byte b = [HEX ! unat (drop_bit 4 b), HEX ! unat (b AND 15)]"

text \<open>\<open>auth::hex\<close>.\<close>

definition hex :: "bytes \<Rightarrow> string" where
  "hex bs = concat (map hex_byte bs)"

text \<open>\<open>main::hex_digest\<close>, the same loop over the same table.\<close>

definition hex_digest :: "bytes \<Rightarrow> string" where
  "hex_digest bs = concat (map (\<lambda>b. [HEX ! unat (drop_bit 4 b), HEX ! unat (b AND 0x0F)]) bs)"

text \<open>\<open>directory::hex\<close>, by the format \<open>{byte:02x}\<close>: hexadecimal, padded with a zero to two
  digits.\<close>

definition pad0 :: "nat \<Rightarrow> string \<Rightarrow> string" where
  "pad0 w s = replicate (w - length s) (CHR ''0'') @ s"

definition dir_hex :: "bytes \<Rightarrow> string" where
  "dir_hex bs = concat (map (\<lambda>b. pad0 2 (show_radix 16 (unat b))) bs)"

definition decode_pair :: "string \<Rightarrow> nat \<Rightarrow> byte result" where
  "decode_pair value index =
     and_then (str_slice value (index * 2) (index * 2 + 2))
       (\<lambda>p. and_then (from_str_radix 16 256 p) (\<lambda>v. Inr (of_nat v)))"

text \<open>\<open>auth::decode_array\<close>: a length check in bytes, then a slice and a \<open>from_str_radix\<close> per
  byte.\<close>

definition decode_array :: "nat \<Rightarrow> string \<Rightarrow> bytes result" where
  "decode_array n value =
     (if length value \<noteq> n * 2 then Inl (Err ''invalid hexadecimal field length'')
      else collect (decode_pair value) [0..<n])"

text \<open>\<open>resume::decode_hash\<close>.\<close>

definition resume_decode_hash :: "string \<Rightarrow> bytes result" where
  "resume_decode_hash value =
     (if length value \<noteq> 64 then Inl (Err ''SHA-256 value must contain 64 hexadecimal characters'')
      else collect (decode_pair value) [0..<32])"

text \<open>\<open>cdc::decode_hash\<close>.\<close>

definition cdc_decode_hash :: "string \<Rightarrow> bytes result" where
  "cdc_decode_hash value =
     (if length value \<noteq> 64 \<or> \<not> list_all is_ascii_hexdigit value \<or> list_ex is_ascii_uppercase value
      then Inl (Err ''noncanonical content-defined hash'')
      else collect (decode_pair value) [0..<32])"

text \<open>\<open>directory::decode_hex\<close>: \<open>chunks_exact(2)\<close> of the bytes, each a UTF-8 string.\<close>

fun pairs :: "'a list \<Rightarrow> 'a list list" where
  "pairs (a # b # r) = [a, b] # pairs r"
| "pairs _ = []"

definition decode_hex :: "string \<Rightarrow> bytes result" where
  "decode_hex value =
     (if value = [] \<or> odd (length value) \<or> \<not> list_all is_ascii_hexdigit value
         \<or> list_ex is_ascii_uppercase value
      then Inl (Err ''noncanonical manifest hex'')
      else collect (\<lambda>pair. and_then (from_utf8 pair)
             (\<lambda>p. and_then (from_str_radix 16 256 p) (\<lambda>v. Inr (of_nat v)))) (pairs (as_bytes value)))"

text \<open>\<open>directory::decode_hash\<close>.\<close>

definition dir_decode_hash :: "string \<Rightarrow> bytes result" where
  "dir_decode_hash value =
     and_then (decode_hex value)
       (\<lambda>bs. if length bs = 32 then Inr bs else Inl (Err ''manifest hash must contain 32 bytes''))"

subsection \<open>Nibbles\<close>

definition lower_hex :: "char \<Rightarrow> bool" where
  "lower_hex c \<longleftrightarrow> is_ascii_hexdigit c \<and> \<not> is_ascii_uppercase c"

lemma HEX_nth: "n < 16 \<Longrightarrow> HEX ! n = digit_char n"
proof -
  have "list_all (\<lambda>n. HEX ! n = digit_char n) [0..<16]" by code_simp
  then show "n < 16 \<Longrightarrow> HEX ! n = digit_char n" by (simp add: list_all_iff)
qed

lemma unat_high_nibble: "unat (drop_bit 4 (b :: byte)) = unat b div 16"
  by (simp add: drop_bit_eq_div unat_div_distrib)

lemma unat_low_nibble: "unat ((b :: byte) AND 15) = unat b mod 16"
proof -
  have "b AND 15 = take_bit 4 b" by (simp add: take_bit_eq_mask mask_eq_exp_minus_1)
  then show ?thesis by (simp add: take_bit_eq_mod unat_mod_distrib)
qed

lemma nibble_less [simp]: "unat (b :: byte) div 16 < 16"
  using less_mult_imp_div_less [of "unat b" 16 16] by simp

lemma hex_byte_digits: "hex_byte b = [digit_char (unat b div 16), digit_char (unat b mod 16)]"
  by (simp add: hex_byte_def unat_high_nibble unat_low_nibble HEX_nth)

lemma hex_Nil [simp]: "hex [] = []"
  by (simp add: hex_def)

lemma hex_Cons: "hex (b # bs) = hex_byte b @ hex bs"
  by (simp add: hex_def)

lemma length_hex_byte [simp]: "length (hex_byte b) = 2"
  by (simp add: hex_byte_def)

lemma length_hex [simp]: "length (hex bs) = 2 * length bs"
  by (induction bs) (auto simp: hex_Cons)

lemma hex_digest_eq: "hex_digest = hex"
  by (simp add: fun_eq_iff hex_digest_def hex_def hex_byte_def [abs_def])

lemma dir_hex_eq: "dir_hex = hex"
proof -
  have "pad0 2 (show_radix 16 (unat b)) = hex_byte b" for b :: byte
  proof (cases "unat b < 16")
    case True
    moreover have "digit_char 0 = CHR ''0''" by code_simp
    ultimately show ?thesis
      by (simp add: pad0_def hex_byte_digits show_radix.simps [of 16 "unat b"])
  next
    case False
    have "show_radix 16 (unat b div 16) = [digit_char (unat b div 16)]"
      by (simp add: show_radix.simps [of 16 "unat b div 16"])
    with False show ?thesis
      by (simp add: pad0_def hex_byte_digits show_radix.simps [of 16 "unat b"])
  qed
  then show ?thesis by (simp add: fun_eq_iff dir_hex_def hex_def)
qed

lemma lower_hex_digit_char: "d < 16 \<Longrightarrow> lower_hex (digit_char d)"
  by (simp add: lower_hex_def is_ascii_hexdigit_def is_ascii_digit_def is_ascii_uppercase_def
      ord_digit_char)

lemma lower_hex_to_digit: "lower_hex c \<Longrightarrow> \<exists>d < 16. c = digit_char d"
proof -
  assume h: "lower_hex c"
  let ?d = "if ord c \<le> 57 then ord c - 48 else ord c - 87"
  have "char_of (ord c) = c" by simp
  then have "c = digit_char ?d \<and> ?d < 16"
    using h by (auto simp: lower_hex_def is_ascii_hexdigit_def is_ascii_digit_def
        is_ascii_uppercase_def digit_char_def)
  then show ?thesis by blast
qed

lemma hex_lower: "c \<in> set (hex bs) \<Longrightarrow> lower_hex c"
proof (induction bs)
  case (Cons b bs)
  from Cons show ?case by (auto simp: hex_Cons hex_byte_digits lower_hex_digit_char)
qed simp

lemma lower_hex_ord: "lower_hex c \<Longrightarrow> 48 \<le> ord c \<and> ord c \<le> 102"
  by (auto simp: lower_hex_def is_ascii_hexdigit_def is_ascii_digit_def is_ascii_uppercase_def)

lemma hex_field [simp]: "bs \<noteq> [] \<Longrightarrow> field (hex bs)"
proof -
  assume "bs \<noteq> []"
  then have "hex bs \<noteq> []" by (cases bs) (auto simp: hex_Cons hex_byte_def)
  then show "field (hex bs)" using hex_lower lower_hex_ord by (fastforce simp: field_def)
qed

lemma hex_ascii [simp]: "ascii (hex bs)"
  using hex_lower lower_hex_ord by (fastforce simp: ascii_def)

lemma hex_notin: "\<not> lower_hex c \<Longrightarrow> c \<notin> set (hex bs)"
  using hex_lower by blast

lemma from_str_radix_hex_byte: "from_str_radix 16 256 (hex_byte b) = Inr (unat b)"
proof -
  have d: "unat b div 16 < 16" by simp
  then have "digit_char (unat b div 16) \<noteq> CHR ''+''"
    using lower_hex_ord [OF lower_hex_digit_char [OF d]] by auto
  moreover have "16 * (unat b div 16) + unat b mod 16 = unat b" by simp
  ultimately show ?thesis
    using d by (simp add: from_str_radix_def hex_byte_digits)
qed

lemma hex_byte_of_digits:
  "h < 16 \<Longrightarrow> l < 16 \<Longrightarrow> hex_byte (of_nat (16 * h + l)) = [digit_char h, digit_char l]"
proof -
  assume "h < 16" "l < 16"
  then have "16 * h + l < 256" by simp
  then have "unat (of_nat (16 * h + l) :: byte) = 16 * h + l"
    using unat_byte_of_nat [of "16 * h + l"] by (simp only: mod_less)
  with \<open>h < 16\<close> \<open>l < 16\<close> show ?thesis by (simp add: hex_byte_digits)
qed

lemma from_str_radix_lower_pair:
  assumes "lower_hex a" "lower_hex b"
  shows "\<exists>v. from_str_radix 16 256 [a, b] = Inr v \<and> hex_byte (of_nat v) = [a, b]"
proof -
  obtain h l where "h < 16" "a = digit_char h" "l < 16" "b = digit_char l"
    using assms lower_hex_to_digit by blast
  with hex_byte_of_digits [of h l] have w: "hex_byte (of_nat (16 * h + l)) = [a, b]"
    by (simp only:)
  then have "from_str_radix 16 256 [a, b] = Inr (unat (of_nat (16 * h + l) :: byte))"
    using from_str_radix_hex_byte [of "of_nat (16 * h + l)"] by (simp only:)
  moreover have "hex_byte (of_nat (unat (of_nat (16 * h + l) :: byte))) = [a, b]"
    using w by (simp only: of_nat_unat ucast_id)
  ultimately show ?thesis by blast
qed

subsection \<open>Round trips\<close>

lemma hex_drop: "i \<le> length bs \<Longrightarrow> drop (2 * i) (hex bs) = hex (drop i bs)"
proof (induction bs arbitrary: i)
  case (Cons b bs)
  then show ?case by (cases i) (auto simp: hex_Cons hex_byte_def)
qed simp

lemma str_slice_ascii:
  "ascii s \<Longrightarrow> i \<le> j \<Longrightarrow> j \<le> length s \<Longrightarrow> str_slice s i j = Inr (take (j - i) (drop i s))"
  by (auto simp: str_slice_def is_char_boundary_def ascii_def not_le)

lemma decode_pair_hex: "i < length bs \<Longrightarrow> decode_pair (hex bs) i = Inr (bs ! i)"
proof -
  assume i: "i < length bs"
  have "str_slice (hex bs) (i * 2) (i * 2 + 2) = Inr (take 2 (drop (2 * i) (hex bs)))"
    using i by (subst str_slice_ascii) (auto simp: mult.commute)
  also have "drop (2 * i) (hex bs) = hex_byte (bs ! i) @ hex (drop (Suc i) bs)"
    by (simp only: hex_drop [OF less_imp_le [OF i]] Cons_nth_drop_Suc [OF i, symmetric] hex_Cons)
  also have "take 2 \<dots> = hex_byte (bs ! i)" by simp
  finally have "str_slice (hex bs) (i * 2) (i * 2 + 2) = Inr (hex_byte (bs ! i))" .
  then show ?thesis by (simp add: decode_pair_def from_str_radix_hex_byte)
qed

lemma collect_decode_pair_hex: "collect (decode_pair (hex bs)) [0..<length bs] = Inr bs"
proof -
  have "collect (decode_pair (hex bs)) [0..<length bs] = Inr (map ((!) bs) [0..<length bs])"
    by (rule collect_map_Inr) (simp add: decode_pair_hex)
  then show ?thesis by (simp add: map_nth)
qed

lemma decode_array_hex [codec_simps]: "length bs = n \<Longrightarrow> decode_array n (hex bs) = Inr bs"
  using collect_decode_pair_hex [of bs] by (auto simp: decode_array_def)

lemma resume_decode_hash_hex [codec_simps]: "length bs = 32 \<Longrightarrow> resume_decode_hash (hex bs) = Inr bs"
  using collect_decode_pair_hex [of bs] by (simp add: resume_decode_hash_def)

lemma list_all_hexdigit_hex [simp]:
  "list_all is_ascii_hexdigit (hex bs)" "\<not> list_ex is_ascii_uppercase (hex bs)"
  using hex_lower by (fastforce simp: list_all_iff list_ex_iff lower_hex_def)+

lemma cdc_decode_hash_hex [codec_simps]: "length bs = 32 \<Longrightarrow> cdc_decode_hash (hex bs) = Inr bs"
  using collect_decode_pair_hex [of bs] by (simp add: cdc_decode_hash_def)

lemma pairs_as_bytes_hex: "pairs (as_bytes (hex bs)) = map (\<lambda>b. as_bytes (hex_byte b)) bs"
  by (induction bs) (auto simp: hex_Cons hex_byte_def as_bytes_def)

lemma hex_byte_ascii: "ascii (hex_byte b)"
  using hex_ascii [of "[b]"] by (simp add: hex_Cons)

lemma decode_hex_hex [codec_simps]: "bs \<noteq> [] \<Longrightarrow> decode_hex (hex bs) = Inr bs"
proof -
  assume "bs \<noteq> []"
  then have ne: "hex bs \<noteq> []" by (cases bs) (auto simp: hex_Cons hex_byte_def)
  have "collect (\<lambda>pair. and_then (from_utf8 pair)
      (\<lambda>p. and_then (from_str_radix 16 256 p) (\<lambda>v. Inr (of_nat v)))) (map (\<lambda>b. as_bytes (hex_byte b)) xs)
    = Inr xs" for xs :: bytes
    by (induction xs) (auto simp: from_utf8_as_bytes valid_utf8_ascii hex_byte_ascii
        from_str_radix_hex_byte)
  with ne show ?thesis by (simp add: decode_hex_def pairs_as_bytes_hex)
qed

lemma dir_decode_hash_hex [codec_simps]: "length bs = 32 \<Longrightarrow> dir_decode_hash (hex bs) = Inr bs"
  by (subst dir_decode_hash_def, subst decode_hex_hex) auto

subsection \<open>Canonicity of the strict decoders\<close>

lemma collect_pairs_canonical:
  assumes "even (length s)" "\<forall>c\<in>set s. lower_hex c"
  shows "\<exists>bs. collect (\<lambda>pair. and_then (from_utf8 pair)
      (\<lambda>p. and_then (from_str_radix 16 256 p) (\<lambda>v. Inr (of_nat v)))) (pairs (as_bytes s)) = Inr bs
      \<and> hex bs = s"
  using assms
proof (induction s rule: pairs.induct)
  case (1 a b r)
  then obtain bs where bs: "collect (\<lambda>pair. and_then (from_utf8 pair)
      (\<lambda>p. and_then (from_str_radix 16 256 p) (\<lambda>v. Inr (of_nat v)))) (pairs (as_bytes r)) = Inr bs"
      "hex bs = r" by auto
  obtain v where v: "from_str_radix 16 256 [a, b] = Inr v" "hex_byte (of_nat v) = [a, b]"
    using 1 from_str_radix_lower_pair [of a b] by auto
  have "ascii [a, b]" using 1 lower_hex_ord [of a] lower_hex_ord [of b] by auto
  then have "from_utf8 (as_bytes [a, b]) = Inr [a, b]"
    by (intro from_utf8_as_bytes valid_utf8_ascii)
  with bs v show ?case by (auto simp: as_bytes_def hex_Cons intro!: exI [of _ "of_nat v # bs"])
qed (auto simp: as_bytes_def intro: exI [of _ "[]"])

lemma lower_hex_set:
  "list_all is_ascii_hexdigit s \<Longrightarrow> \<not> list_ex is_ascii_uppercase s \<Longrightarrow> \<forall>c\<in>set s. lower_hex c"
  by (auto simp: list_all_iff list_ex_iff lower_hex_def)

lemma decode_hex_Inr: "decode_hex s = Inr bs \<Longrightarrow> bs \<noteq> [] \<and> hex bs = s"
proof -
  assume h: "decode_hex s = Inr bs"
  then have s: "s \<noteq> []" "even (length s)" "\<forall>c\<in>set s. lower_hex c"
    using lower_hex_set by (auto simp: decode_hex_def split: if_splits)
  from collect_pairs_canonical [OF s(2,3)] h have "hex bs = s"
    by (auto simp: decode_hex_def split: if_splits)
  with s(1) show ?thesis by auto
qed

lemma dir_decode_hash_Inr: "dir_decode_hash s = Inr bs \<Longrightarrow> length bs = 32 \<and> hex bs = s"
  using decode_hex_Inr by (auto simp: dir_decode_hash_def and_then_eq_Inr split: if_splits)

lemma cdc_decode_hash_Inr: "cdc_decode_hash s = Inr bs \<Longrightarrow> length bs = 32 \<and> hex bs = s"
proof -
  assume h: "cdc_decode_hash s = Inr bs"
  then have s: "length s = 64" "\<forall>c\<in>set s. lower_hex c" and c: "collect (decode_pair s) [0..<32] = Inr bs"
    using lower_hex_set by (auto simp: cdc_decode_hash_def split: if_splits)
  from s obtain xs where xs: "hex xs = s" using collect_pairs_canonical [of s] by auto
  then have "length xs = 32" using s(1) by auto
  then have "collect (decode_pair s) [0..<32] = Inr xs"
    using collect_decode_pair_hex [of xs] xs by simp
  with c xs \<open>length xs = 32\<close> show ?thesis by simp
qed

lemma decode_array_length: "decode_array n s = Inr bs \<Longrightarrow> length bs = n \<and> length s = 2 * n"
  by (auto simp: decode_array_def dest: collect_Inr_nth split: if_splits)

interpretation array_codec: codec hex "decode_array n" "\<lambda>bs. length bs = n" for n
  by unfold_locales (rule decode_array_hex)

interpretation resume_hash_codec: codec hex resume_decode_hash "\<lambda>bs. length bs = 32"
  by unfold_locales (rule resume_decode_hash_hex)

interpretation cdc_hash_codec: canonical_codec hex cdc_decode_hash "\<lambda>bs. length bs = 32"
  by unfold_locales (auto simp: cdc_decode_hash_hex dest: cdc_decode_hash_Inr)

interpretation dir_hash_codec: canonical_codec hex dir_decode_hash "\<lambda>bs. length bs = 32"
  by unfold_locales (auto simp: dir_decode_hash_hex dest: dir_decode_hash_Inr)

interpretation dir_hex_codec: canonical_codec dir_hex decode_hex "\<lambda>bs. bs \<noteq> []"
  by unfold_locales (auto simp: dir_hex_eq decode_hex_hex dest: decode_hex_Inr)

lemma hex_inject [simp]: "length xs = length ys \<Longrightarrow> (hex xs = hex ys) = (xs = ys)"
  using array_codec.enc_inject [of xs "length ys" ys] by simp

section \<open>Canonical decimal integers\<close>

text \<open>\<open>main::parse_canonical_u64\<close>.\<close>

definition parse_canonical_u64 :: "string \<Rightarrow> nat result" where
  "parse_canonical_u64 value =
     (if value = [] \<or> \<not> list_all is_ascii_digit value
         \<or> (1 < length value \<and> starts_with ''0'' value)
      then Inl (Err ''non-canonical unsigned integer'')
      else parse_dec value)"

text \<open>\<open>cdc::parse_u64\<close>.\<close>

definition cdc_parse_u64 :: "string \<Rightarrow> nat result" where
  "cdc_parse_u64 value =
     (if value = [] \<or> \<not> list_all is_ascii_digit value
         \<or> 1 < length value \<and> starts_with ''0'' value
      then Inl (Err ''noncanonical content-defined integer'')
      else parse_dec value)"

text \<open>\<open>directory::parse_u64\<close>.\<close>

definition dir_parse_u64 :: "string \<Rightarrow> nat result" where
  "dir_parse_u64 value =
     (if value = [] \<or> \<not> list_all is_ascii_digit value
         \<or> (1 < length value \<and> starts_with ''0'' value)
      then Inl (Err ''noncanonical unsigned manifest integer'')
      else parse_dec value)"

text \<open>\<open>directory::parse_i64\<close>, \<open>parse_usize\<close>, \<open>parse_mode\<close> and \<open>parse_nanoseconds\<close>; the octal
  mode limit 0o777 is 511.\<close>

definition unsigned_part :: "string \<Rightarrow> string" where
  "unsigned_part value = (case strip_prefix ''-'' value of None \<Rightarrow> value | Some r \<Rightarrow> r)"

definition parse_i64 :: "string \<Rightarrow> int result" where
  "parse_i64 value =
     (if value = ''-0'' \<or> value = [] \<or> unsigned_part value = []
         \<or> \<not> list_all is_ascii_digit (unsigned_part value)
         \<or> 1 < length (unsigned_part value) \<and> starts_with ''0'' (unsigned_part value)
      then Inl (Err ''noncanonical signed manifest integer'')
      else parse_dec_i64 value)"

definition parse_usize :: "string \<Rightarrow> nat result" where
  "parse_usize value = dir_parse_u64 value"

definition parse_mode :: "string \<Rightarrow> nat result" where
  "parse_mode value = and_then (dir_parse_u64 value)
     (\<lambda>mode. if 511 < mode then Inl (Err ''manifest mode is out of range'') else Inr mode)"

definition parse_nanoseconds :: "string \<Rightarrow> int result" where
  "parse_nanoseconds value = and_then (parse_i64 value)
     (\<lambda>result. if \<not> (0 \<le> result \<and> result < 1000000000)
        then Inl (Err ''manifest modification nanoseconds are out of range'') else Inr result)"

text \<open>All three unsigned parsers are canonical codecs with the decimal printer.\<close>

definition canonical_digits :: "string \<Rightarrow> bool" where
  "canonical_digits s \<longleftrightarrow>
     s \<noteq> [] \<and> list_all is_ascii_digit s \<and> \<not> (1 < length s \<and> starts_with ''0'' s)"

lemma starts_with_zero: "s \<noteq> [] \<Longrightarrow> starts_with ''0'' s = (hd s = CHR ''0'')"
  by (cases s) (auto simp: starts_with_def)

lemma canonical_digits_show_nat [simp]: "canonical_digits (show_nat n)"
  using show_nat_digits show_nat_no_leading_zero [of n]
  by (auto simp: canonical_digits_def list_all_iff starts_with_zero)

lemma digit_not_sign: "is_ascii_digit c \<Longrightarrow> c \<noteq> CHR ''+'' \<and> c \<noteq> CHR ''-''"
  by (auto simp: is_ascii_digit_def)

lemma digits_value_canonical:
  "canonical_digits s \<Longrightarrow> digits_value 10 0 s = Some n \<Longrightarrow> s = show_nat n"
  using show_nat_digits_value [of s n]
  by (auto simp: canonical_digits_def list_all_iff starts_with_zero)

lemma parse_dec_canonical:
  assumes "canonical_digits s"
  shows "(parse_dec s = Inr n) = (is_u64 n \<and> s = show_nat n)"
proof
  assume p: "parse_dec s = Inr n"
  obtain c cs where s: "s = c # cs" using assms by (cases s) (auto simp: canonical_digits_def)
  then have "c \<noteq> CHR ''+''" using assms digit_not_sign by (auto simp: canonical_digits_def)
  with p s have "digits_value 10 0 s = Some n" "n < 2 ^ 64"
    by (auto simp: parse_dec_def from_str_radix_def Let_def split: option.splits if_splits)
  with assms show "is_u64 n \<and> s = show_nat n" using digits_value_canonical by (simp add: is_u64_def)
next
  assume "is_u64 n \<and> s = show_nat n"
  then show "parse_dec s = Inr n" by (simp add: is_u64_def parse_dec_show_nat)
qed

lemma parse_canonical_u64_iff: "(parse_canonical_u64 s = Inr n) = (is_u64 n \<and> s = show_nat n)"
proof -
  have "parse_canonical_u64 s = (if canonical_digits s then parse_dec s
      else Inl (Err ''non-canonical unsigned integer''))"
    by (auto simp: parse_canonical_u64_def canonical_digits_def)
  then show ?thesis using parse_dec_canonical [of s n] by auto
qed

lemma cdc_parse_u64_iff: "(cdc_parse_u64 s = Inr n) = (is_u64 n \<and> s = show_nat n)"
proof -
  have "cdc_parse_u64 s = (if canonical_digits s then parse_dec s
      else Inl (Err ''noncanonical content-defined integer''))"
    by (auto simp: cdc_parse_u64_def canonical_digits_def)
  then show ?thesis using parse_dec_canonical [of s n] by auto
qed

lemma dir_parse_u64_iff: "(dir_parse_u64 s = Inr n) = (is_u64 n \<and> s = show_nat n)"
proof -
  have "dir_parse_u64 s = (if canonical_digits s then parse_dec s
      else Inl (Err ''noncanonical unsigned manifest integer''))"
    by (auto simp: dir_parse_u64_def canonical_digits_def)
  then show ?thesis using parse_dec_canonical [of s n] by auto
qed

interpretation u64_codec: canonical_codec show_nat parse_canonical_u64 is_u64
  by unfold_locales (simp_all add: parse_canonical_u64_iff)

interpretation cdc_u64_codec: canonical_codec show_nat cdc_parse_u64 is_u64
  by unfold_locales (simp_all add: cdc_parse_u64_iff)

interpretation dir_u64_codec: canonical_codec show_nat dir_parse_u64 is_u64
  by unfold_locales (simp_all add: dir_parse_u64_iff)

lemma digits_value_show_nat: "digits_value 10 0 (show_nat n) = Some n"
  by (simp add: show_nat_def digits_value_show_radix)

lemma show_nat_inject [simp]: "(show_nat m = show_nat n) = (m = n)"
  by (metis digits_value_show_nat option.inject)

lemma parse_mode_iff: "(parse_mode s = Inr n) = (n \<le> 511 \<and> s = show_nat n)"
  by (auto simp: parse_mode_def and_then_eq_Inr dir_parse_u64_iff is_u64_def if_Inl_eq_Inr)

text \<open>The signed parser.\<close>

definition is_i64 :: "int \<Rightarrow> bool" where
  "is_i64 i \<longleftrightarrow> - (2 ^ 63) \<le> i \<and> i < 2 ^ 63"

lemma show_nat_no_minus: "show_nat n \<noteq> CHR ''-'' # s"
  using show_nat_digits [of "CHR ''-''" n] by (auto simp: is_ascii_digit_def)

lemma unsigned_part_show_int: "unsigned_part (show_int i) = show_nat (nat \<bar>i\<bar>)"
proof (cases "i < 0")
  case True
  then show ?thesis by (simp add: show_int_def unsigned_part_def strip_prefix_def starts_with_def)
next
  case False
  have "\<not> starts_with ''-'' (show_nat (nat i))"
    using show_nat_no_minus [of "nat i"] by (cases "show_nat (nat i)") (auto simp: starts_with_def)
  with False show ?thesis by (simp add: show_int_def unsigned_part_def strip_prefix_def)
qed

lemma parse_i64_show_int [codec_simps]:
  assumes "is_i64 i" shows "parse_i64 (show_int i) = Inr i"
proof -
  have u: "canonical_digits (unsigned_part (show_int i))" by (simp add: unsigned_part_show_int)
  have "show_int i \<noteq> ''-0''"
  proof
    assume m: "show_int i = ''-0''"
    show False
    proof (cases "i < 0")
      case True
      moreover have "show_nat 0 = ''0''" by code_simp
      ultimately have "show_nat (nat (- i)) = show_nat 0" using m by (simp add: show_int_def)
      with True show False by simp
    next
      case False
      with m show False using show_nat_no_minus by (simp add: show_int_def)
    qed
  qed
  then have e: "parse_i64 (show_int i) = parse_dec_i64 (show_int i)"
    using u by (auto simp: parse_i64_def canonical_digits_def show_int_def)
  show ?thesis
  proof (cases "i < 0")
    case True
    then show ?thesis
      using e assms digits_value_show_radix [of 10 "nat (- i)"]
      by (simp add: parse_dec_i64_def show_int_def show_nat_def is_i64_def nat_le_iff)
  next
    case False
    obtain c cs where c: "show_nat (nat i) = c # cs" by (cases "show_nat (nat i)") auto
    then have "c \<noteq> CHR ''+'' \<and> c \<noteq> CHR ''-''"
      using digit_not_sign show_nat_digits [of c "nat i"] by simp
    moreover have "digits_value 10 0 (c # cs) = Some (nat i)"
      using digits_value_show_radix [of 10 "nat i"] c by (simp add: show_nat_def)
    ultimately show ?thesis
      using e False c assms by (simp add: parse_dec_i64_def show_int_def is_i64_def nat_less_iff)
  qed
qed

lemma parse_i64_Inr:
  assumes "parse_i64 s = Inr i" shows "is_i64 i \<and> show_int i = s"
proof -
  from assms have ne: "s \<noteq> ''-0''" and u: "canonical_digits (unsigned_part s)"
    and p: "parse_dec_i64 s = Inr i"
    by (auto simp: parse_i64_def canonical_digits_def split: if_splits)
  show ?thesis
  proof (cases "strip_prefix ''-'' s")
    case None
    then have us: "unsigned_part s = s" by (simp add: unsigned_part_def)
    then obtain c cs where s: "s = c # cs" using u by (cases s) (auto simp: canonical_digits_def)
    then have "c \<noteq> CHR ''+'' \<and> c \<noteq> CHR ''-''"
      using u us digit_not_sign by (auto simp: canonical_digits_def)
    with p s obtain v where v: "digits_value 10 0 s = Some v" "v < 2 ^ 63" "i = int v"
      by (auto simp: parse_dec_i64_def Let_def split: option.splits if_splits)
    with u us have "s = show_nat v" using digits_value_canonical by simp
    with v show ?thesis by (simp add: is_i64_def show_int_def)
  next
    case (Some r)
    then have s: "s = CHR ''-'' # r" by (simp add: strip_prefix_Some)
    have us: "unsigned_part s = r" using Some by (simp add: unsigned_part_def)
    with p s u obtain v where v: "digits_value 10 0 r = Some v" "v \<le> 2 ^ 63" "i = - int v"
      by (auto simp: parse_dec_i64_def Let_def split: option.splits if_splits)
    with u us have r: "r = show_nat v" using digits_value_canonical by simp
    have "v \<noteq> 0"
    proof
      assume "v = 0"
      moreover have "show_nat 0 = ''0''" by code_simp
      ultimately show False using r s ne by simp
    qed
    with v r s show ?thesis by (simp add: is_i64_def show_int_def)
  qed
qed

interpretation i64_codec: canonical_codec show_int parse_i64 is_i64
  by unfold_locales (auto simp: parse_i64_show_int dest: parse_i64_Inr)

lemma parse_nanoseconds_iff:
  "(parse_nanoseconds s = Inr i) = (0 \<le> i \<and> i < 1000000000 \<and> s = show_int i)"
  by (auto simp: parse_nanoseconds_def and_then_eq_Inr i64_codec.dec_iff is_i64_def if_Inl_eq_Inr)

lemma show_int_field [simp]: "field (show_int i)"
  using show_nat_field [of "nat (- i)"] show_nat_field [of "nat i"]
  by (auto simp: show_int_def field_def)

section \<open>Comparison in constant time\<close>

text \<open>\<open>auth::constant_time_eq\<close> accumulates the differences of all positions.\<close>

definition constant_time_eq :: "bytes \<Rightarrow> bytes \<Rightarrow> bool" where
  "constant_time_eq left right =
     (if length left \<noteq> length right then False
      else foldl (\<lambda>difference (l, r). difference OR (l XOR r)) 0 (zip left right) = 0)"

lemma foldl_difference:
  "(foldl (\<lambda>difference (l, r). difference OR (l XOR r)) d ps = (0 :: byte))
    = (d = 0 \<and> (\<forall>(l, r)\<in>set ps. l = r))"
proof (induction ps arbitrary: d)
  case (Cons p ps)
  obtain l r where p: "p = (l, r)" by (cases p)
  have "(l XOR r) XOR r = l" by (simp add: xor.assoc)
  then have "(l XOR r = 0) = (l = r)" by auto
  then have "(d OR (l XOR r) = 0) = (d = 0 \<and> l = r)" by (simp add: or_eq_0_iff)
  with Cons.IH [of "d OR (l XOR r)"] p show ?case by auto
qed simp

lemma constant_time_eq_iff: "constant_time_eq left right = (left = right)"
proof (cases "length left = length right")
  case True
  have "(\<forall>(l, r)\<in>set (zip left right). l = r) = (left = right)"
    using True by (auto simp: set_zip list_eq_iff_nth_eq)
  with True show ?thesis by (simp add: constant_time_eq_def foldl_difference)
qed (auto simp: constant_time_eq_def)

end
