(* ===== verification/Auth.thy ===== *)
theory Auth
  imports Codec
begin

unbundle bit_operations_syntax

text \<open>
  \<open>src/auth.rs\<close>: HMAC-SHA-256, the TSU4 handshake, the authenticated control stream, the
  datagram tags and the lane MACs.  SHA-256 itself is the crate \<open>sha2\<close>, a parameter
  \<open>sha :: bytes \<Rightarrow> 256 word\<close> of the definitions; nothing is assumed of it, and where a statement
  needs an attacker not to forge, the forged value is exhibited as a collision instead.

  A TCP stream is what it still delivers: the bytes to come and how it ends, by an orderly close
  or by a failing read.  Writes to a stream succeed; random bytes are arguments.

  The locale \<open>authenticator\<close> is the contract of a tag and its check; the datagram tags, the lane
  MACs and the control MACs are its interpretations.
\<close>

section \<open>Streams\<close>

datatype ending = Closed | Broken error

type_synonym incoming = "bytes \<times> ending"

text \<open>\<open>read_line_limited\<close>; the loop stops when \<open>limit\<close> bytes were collected.\<close>

fun read_line :: "nat \<Rightarrow> bytes \<Rightarrow> incoming \<Rightarrow> (string \<times> incoming) result" where
  "read_line 0 acc inp = Inl (Err ''authenticated protocol line is too long'')"
| "read_line (Suc n) acc ([], Closed) = Inl (Err ''connection closed during authenticated message'')"
| "read_line (Suc n) acc ([], Broken e) = Inl e"
| "read_line (Suc n) acc (b # bs, e) =
     (if b = 0x0A then and_then (from_utf8 acc) (\<lambda>s. Inr (s, (bs, e)))
      else if b = 0x0D then Inl (Err ''carriage returns are not allowed in protocol messages'')
      else read_line n (acc @ [b]) (bs, e))"

definition read_line_limited :: "nat \<Rightarrow> incoming \<Rightarrow> (string \<times> incoming) result" where
  "read_line_limited limit inp = read_line limit [] inp"

text \<open>A line that a peer can send: valid UTF-8 with no line feed and no carriage return.\<close>

definition wire_line :: "string \<Rightarrow> bool" where
  "wire_line s \<longleftrightarrow> valid_utf8 (as_bytes s) \<and> lf \<notin> set s \<and> cr \<notin> set s"

abbreviation writeln :: "string \<Rightarrow> bytes" where
  "writeln s \<equiv> as_bytes (s @ [lf])"

lemma byte_of_char_eq: "((of_char c :: byte) = of_nat n) = (ord c = n)" if "n < 256"
proof -
  have "unat (of_nat n :: byte) = n" using that by (simp add: unat_of_nat)
  then show ?thesis by (metis unat_of_char word_unat_eq_iff)
qed

lemma read_line_step:
  "cr \<notin> set s \<Longrightarrow> lf \<notin> set s \<Longrightarrow> length s < n
    \<Longrightarrow> read_line n acc (as_bytes s @ bs, e) = read_line (n - length s) (acc @ as_bytes s) (bs, e)"
proof (induction s arbitrary: n acc)
  case (Cons c s)
  then obtain m where n: "n = Suc m" by (cases n) auto
  have "c \<noteq> lf" "c \<noteq> cr" using Cons.prems by auto
  then have "ord c \<noteq> ord lf" "ord c \<noteq> ord cr" by (metis char_of_char)+
  then have "ord c \<noteq> 10" "ord c \<noteq> 13" by simp_all
  then have "(of_char c :: byte) \<noteq> 0x0A" "(of_char c :: byte) \<noteq> 0x0D"
    using byte_of_char_eq [of 10 c] byte_of_char_eq [of 13 c] by simp_all
  with n Cons show ?case by (simp add: as_bytes_def)
qed (simp add: as_bytes_def)

lemma read_line_limited_writeln:
  assumes "wire_line s" "length s < limit"
  shows "read_line_limited limit (writeln s @ bs, e) = Inr (s, (bs, e))"
proof -
  obtain m where m: "limit - length s = Suc m" using assms(2) by (metis Suc_diff_Suc)
  have l: "(of_char lf :: byte) = 0x0A" by simp
  have "read_line_limited limit (writeln s @ bs, e)
      = read_line limit [] (as_bytes s @ 0x0A # bs, e)"
    by (simp add: read_line_limited_def as_bytes_def)
  also have "\<dots> = read_line (Suc m) (as_bytes s) (0x0A # bs, e)"
    using assms read_line_step [of s limit "[]"] m by (simp add: wire_line_def)
  also have "\<dots> = Inr (s, (bs, e))"
    using assms by (simp add: wire_line_def from_utf8_as_bytes)
  finally show ?thesis .
qed

section \<open>HMAC-SHA-256\<close>

definition digest :: "(bytes \<Rightarrow> 256 word) \<Rightarrow> bytes \<Rightarrow> bytes" where
  "digest sha bs = be_bytes 32 (unat (sha bs))"

definition joined :: "bytes \<Rightarrow> bytes list \<Rightarrow> bytes" where
  "joined prefix parts = prefix @ concat parts"

definition normalized :: "(bytes \<Rightarrow> 256 word) \<Rightarrow> bytes \<Rightarrow> bytes" where
  "normalized sha key =
     (if 64 < length key then digest sha key @ replicate 32 0
      else key @ replicate (64 - length key) 0)"

definition hmac_sha256_parts :: "(bytes \<Rightarrow> 256 word) \<Rightarrow> bytes \<Rightarrow> bytes list \<Rightarrow> bytes" where
  "hmac_sha256_parts sha key messages =
     (let n = normalized sha key;
          inner_pad = map (\<lambda>b. 0x36 XOR b) n;
          outer_pad = map (\<lambda>b. 0x5C XOR b) n
      in digest sha (outer_pad @ digest sha (inner_pad @ concat messages)))"

definition hmac_sha256 :: "(bytes \<Rightarrow> 256 word) \<Rightarrow> bytes \<Rightarrow> bytes \<Rightarrow> bytes" where
  "hmac_sha256 sha key message = hmac_sha256_parts sha key [message]"

text \<open>A label of the source is a byte string that ends in a zero byte.\<close>

definition label :: "string \<Rightarrow> bytes" where
  "label s = as_bytes s @ [0]"

lemma length_digest [simp]: "length (digest sha bs) = 32"
  by (simp add: digest_def)

lemma length_normalized [simp]: "length (normalized sha key) = 64"
  by (simp add: normalized_def)

lemma length_hmac_parts [simp]: "length (hmac_sha256_parts sha key ms) = 32"
  by (simp add: hmac_sha256_parts_def Let_def)

lemma length_hmac [simp]: "length (hmac_sha256 sha key m) = 32"
  by (simp add: hmac_sha256_def)

text \<open>The parts are authenticated as their concatenation: how a packet is cut does not matter.\<close>

lemma hmac_parts_concat: "hmac_sha256_parts sha key ms = hmac_sha256 sha key (concat ms)"
  by (simp add: hmac_sha256_def hmac_sha256_parts_def)

section \<open>Sessions\<close>

record session_auth =
  session :: bytes
  c2s :: bytes
  s2c :: bytes
  udp :: bytes
  lane :: bytes

datatype direction = ClientToServer | ServerToClient

definition control_key :: "session_auth \<Rightarrow> direction \<Rightarrow> bytes" where
  "control_key auth d = (case d of ClientToServer \<Rightarrow> c2s auth | ServerToClient \<Rightarrow> s2c auth)"

definition derive_session :: "(bytes \<Rightarrow> 256 word) \<Rightarrow> bytes \<Rightarrow> bytes \<Rightarrow> session_auth" where
  "derive_session sha psk transcript =
     (let root = hmac_sha256 sha psk (joined (label ''tsu4 session root'') [transcript]);
          derive = (\<lambda>l. hmac_sha256 sha root (as_bytes l))
      in \<lparr>session = take 16 (derive ''session id''),
          c2s = derive ''client to server control'',
          s2c = derive ''server to client control'',
          udp = derive ''udp packets'',
          lane = derive ''tcp4 lanes''\<rparr>)"

definition wf_session :: "session_auth \<Rightarrow> bool" where
  "wf_session a \<longleftrightarrow> length (session a) = 16 \<and> length (c2s a) = 32 \<and> length (s2c a) = 32
     \<and> length (udp a) = 32 \<and> length (lane a) = 32"

lemma wf_derive_session [simp]: "wf_session (derive_session sha psk t)"
  by (simp add: wf_session_def derive_session_def Let_def)

section \<open>Tags and their verification\<close>

locale authenticator =
  fixes tag :: "'m \<Rightarrow> 't" and verify :: "'m \<Rightarrow> 't \<Rightarrow> bool"
  assumes verify_iff: "verify m t = (t = tag m)"
begin

lemma verify_tag [simp]: "verify m (tag m)"
  by (simp add: verify_iff)

lemma verify_unique: "verify m t \<Longrightarrow> verify m u \<Longrightarrow> t = u"
  by (simp add: verify_iff)

text \<open>A tag accepted for another message is a collision of the tag function.\<close>

lemma accepted_collision: "verify m (tag n) \<Longrightarrow> tag m = tag n"
  by (simp add: verify_iff)

end

definition udp_tag_parts :: "(bytes \<Rightarrow> 256 word) \<Rightarrow> bytes \<Rightarrow> bytes \<Rightarrow> bytes \<Rightarrow> bytes" where
  "udp_tag_parts sha key header payload =
     take 16 (hmac_sha256_parts sha key [label ''tsu4 udp'', header, payload])"

definition verify_udp_tag_parts ::
    "(bytes \<Rightarrow> 256 word) \<Rightarrow> bytes \<Rightarrow> bytes \<Rightarrow> bytes \<Rightarrow> bytes \<Rightarrow> bool" where
  "verify_udp_tag_parts sha key header payload tag =
     constant_time_eq (udp_tag_parts sha key header payload) tag"

definition lane_mac :: "(bytes \<Rightarrow> 256 word) \<Rightarrow> bytes \<Rightarrow> bytes \<Rightarrow> nat \<Rightarrow> bytes" where
  "lane_mac sha key sid lane_index =
     hmac_sha256 sha key (joined (label ''tsu4 lane'') [sid, be_bytes 8 lane_index])"

definition direction_byte :: "direction \<Rightarrow> byte" where
  "direction_byte d = of_char (case d of ClientToServer \<Rightarrow> CHR ''c'' | ServerToClient \<Rightarrow> CHR ''s'')"

definition control_mac_input :: "bytes \<Rightarrow> direction \<Rightarrow> nat \<Rightarrow> string \<Rightarrow> bytes" where
  "control_mac_input sid d sequence payload =
     joined (label ''tsu4 control'') [sid, [direction_byte d], be_bytes 8 sequence, as_bytes payload]"

interpretation udp_tag: authenticator
  "\<lambda>(h, p). udp_tag_parts sha key h p" "\<lambda>(h, p) t. verify_udp_tag_parts sha key h p t"
  for sha key
  by unfold_locales (auto simp: verify_udp_tag_parts_def constant_time_eq_iff)

interpretation lane_tag: authenticator
  "lane_mac sha key sid" "\<lambda>i t. constant_time_eq t (lane_mac sha key sid i)"
  for sha key sid
  by unfold_locales (auto simp: constant_time_eq_iff)

interpretation control_tag: authenticator
  "\<lambda>(n, p). hmac_sha256 sha (control_key auth d) (control_mac_input (session auth) d n p)"
  "\<lambda>(n, p) t. constant_time_eq t
     (hmac_sha256 sha (control_key auth d) (control_mac_input (session auth) d n p))"
  for sha auth d
  by unfold_locales (auto simp: constant_time_eq_iff)

lemma length_udp_tag [simp]: "length (udp_tag_parts sha key h p) = 16"
  by (simp add: udp_tag_parts_def)

lemma verify_udp_tag_iff: "verify_udp_tag_parts sha key h p t = (t = udp_tag_parts sha key h p)"
  using udp_tag.verify_iff [of sha key "(h, p)" t] by simp

lemma length_lane_mac [simp]: "length (lane_mac sha key sid i) = 32"
  by (simp add: lane_mac_def)

text \<open>The input of a control MAC determines direction, sequence number and payload, and the
  inputs of different purposes never coincide.\<close>

lemma direction_byte_inject [simp]: "(direction_byte d = direction_byte e) = (d = e)"
  by (cases d; cases e) (simp_all add: direction_byte_def)

lemma be_bytes_inject: "m < 256 ^ k \<Longrightarrow> n < 256 ^ k \<Longrightarrow> (be_bytes k m = be_bytes k n) = (m = n)"
  by (metis be_value_be_bytes mod_less)

lemma control_mac_input_inject:
  assumes "length sid = length sid'" "is_u64 n" "is_u64 n'"
  shows "(control_mac_input sid d n p = control_mac_input sid' d' n' p')
    = (sid = sid' \<and> d = d' \<and> n = n' \<and> p = p')"
  using assms
  by (auto simp: control_mac_input_def joined_def is_u64_def be_bytes_inject)

lemma purposes_distinct:
  "control_mac_input sid d n p \<noteq> joined (label ''tsu4 lane'') xs"
  "control_mac_input sid d n p \<noteq> joined (label ''tsu4 udp'') xs"
  "joined (label ''tsu4 lane'') xs \<noteq> joined (label ''tsu4 udp'') ys"
  by (simp_all add: control_mac_input_def joined_def label_def as_bytes_def)

section \<open>The authenticated control stream\<close>

text \<open>\<open>MAX_CONTROL_LINE\<close> is 65536 and \<open>MAX_HANDSHAKE_LINE\<close> is 2048.\<close>

record control_end =
  auth :: session_auth
  dir :: direction
  seqno :: nat

definition new_control :: "session_auth \<Rightarrow> direction \<Rightarrow> control_end" where
  "new_control a d = \<lparr>auth = a, dir = d, seqno = 0\<rparr>"

definition control_mac :: "(bytes \<Rightarrow> 256 word) \<Rightarrow> control_end \<Rightarrow> nat \<Rightarrow> string \<Rightarrow> bytes" where
  "control_mac sha c n payload =
     hmac_sha256 sha (control_key (auth c) (dir c))
       (control_mac_input (session (auth c)) (dir c) n payload)"

definition control_frame :: "(bytes \<Rightarrow> 256 word) \<Rightarrow> control_end \<Rightarrow> string \<Rightarrow> string" where
  "control_frame sha c payload =
     ''A '' @ show_nat (seqno c) @ '' '' @ payload @ '' '' @ hex (control_mac sha c (seqno c) payload)"

definition bump :: "control_end \<Rightarrow> control_end result" where
  "bump c = (case checked_add (seqno c) 1 of
      None \<Rightarrow> Inl (Err ''control sequence exhausted'')
    | Some n \<Rightarrow> Inr (c\<lparr>seqno := n\<rparr>))"

text \<open>\<open>ControlWriter::send\<close>: the bytes written, and the writer afterwards.\<close>

definition control_send ::
    "(bytes \<Rightarrow> 256 word) \<Rightarrow> control_end \<Rightarrow> string \<Rightarrow> bytes \<times> control_end result" where
  "control_send sha w payload =
     (if lf \<in> set payload \<or> 65536 div 2 < length payload
      then ([], Inl (Err ''invalid authenticated control payload''))
      else (writeln (control_frame sha w payload), bump w))"

fun splitn :: "nat \<Rightarrow> char \<Rightarrow> string \<Rightarrow> string list" where
  "splitn 0 c s = []"
| "splitn (Suc 0) c s = [s]"
| "splitn (Suc (Suc n)) c s =
     (case split_once c s of None \<Rightarrow> [s] | Some (a, r) \<Rightarrow> a # splitn (Suc n) c r)"

definition field_at :: "string list \<Rightarrow> nat \<Rightarrow> string option" where
  "field_at fs i = (if i < length fs then Some (fs ! i) else None)"

text \<open>\<open>ControlReader::recv\<close>: the payload, the reader afterwards and the rest of the stream.\<close>

definition control_check ::
    "(bytes \<Rightarrow> 256 word) \<Rightarrow> control_end \<Rightarrow> string \<Rightarrow> (string \<times> control_end) result" where
  "control_check sha r line =
     (let fields = splitn 3 sp line in
      if field_at fields 0 \<noteq> Some ''A'' then Inl (Err ''invalid authenticated control frame'')
      else and_then (ok_or (field_at fields 1) ''missing control sequence'') (\<lambda>f.
      and_then (parse_dec f) (\<lambda>sequence.
      if sequence \<noteq> seqno r then Inl (Err ''replayed or out-of-order control frame'')
      else and_then (ok_or (field_at fields 2) ''missing control payload'') (\<lambda>tail.
      and_then (ok_or (rsplit_once sp tail) ''missing control MAC'') (\<lambda>(payload, mac_hex).
      and_then (decode_array 32 mac_hex) (\<lambda>supplied.
      if \<not> constant_time_eq supplied (control_mac sha r sequence payload)
      then Inl (Err ''control authentication failed'')
      else and_then (bump r) (\<lambda>r'. Inr (payload, r'))))))))"

definition control_recv ::
    "(bytes \<Rightarrow> 256 word) \<Rightarrow> control_end \<Rightarrow> incoming \<Rightarrow> (string \<times> control_end \<times> incoming) result" where
  "control_recv sha r inp =
     and_then (read_line_limited 65536 inp) (\<lambda>(line, rest).
     and_then (control_check sha r line) (\<lambda>(payload, r'). Inr (payload, r', rest)))"

lemma length_control_mac [simp]: "length (control_mac sha c n p) = 32"
  by (simp add: control_mac_def)

lemma bump_Inr: "(bump c = Inr c') = (seqno c + 1 < 2 ^ 64 \<and> c' = c\<lparr>seqno := seqno c + 1\<rparr>)"
  by (auto simp: bump_def checked_add_def split: option.splits)

lemma splitn_frame:
  "sp \<notin> set a \<Longrightarrow> sp \<notin> set b \<Longrightarrow> splitn 3 sp (a @ sp # b @ sp # t) = [a, b, t]"
  by (simp add: numeral_3_eq_3 split_once_append)

text \<open>A frame passes the check of a reader in the same state, whatever the payload contains.\<close>

lemma control_check_frame:
  assumes "is_u64 (seqno c)"
  shows "control_check sha c (control_frame sha c p) = and_then (bump c) (\<lambda>c'. Inr (p, c'))"
proof -
  let ?m = "control_mac sha c (seqno c) p"
  have "splitn 3 sp (control_frame sha c p) = [''A'', show_nat (seqno c), p @ sp # hex ?m]"
    using splitn_frame [of "''A''" "show_nat (seqno c)" "p @ sp # hex ?m"] field_no_space
    by (simp add: control_frame_def)
  moreover have "rsplit_once sp (p @ sp # hex ?m) = Some (p, hex ?m)"
    by (rule rsplit_once_append) (simp add: hex_notin lower_hex_def is_ascii_hexdigit_def is_ascii_digit_def)
  ultimately show ?thesis
    using assms
    by (simp add: control_check_def field_at_def parse_dec_show_nat is_u64_def decode_array_hex
        constant_time_eq_iff)
qed

lemma utf8_len_append:
  assumes "utf8_len bs \<noteq> 0"
  shows "utf8_len (bs @ ys) = utf8_len bs \<and> utf8_len bs \<le> length bs"
proof (cases bs)
  case (Cons a r)
  show ?thesis
  proof (cases r)
    case Nil
    with assms Cons show ?thesis by (simp add: utf8_len_def split: if_splits)
  next
    case r: (Cons x r1)
    show ?thesis
    proof (cases r1)
      case Nil
      with assms Cons r show ?thesis by (simp add: utf8_len_def split: if_splits)
    next
      case r1: (Cons y r2)
      show ?thesis using assms Cons r r1
        by (cases r2) (simp_all add: utf8_len_def split: if_splits)
    qed
  qed
qed (use assms in \<open>simp add: utf8_len_def\<close>)

lemma valid_utf8_append: "valid_utf8 xs \<Longrightarrow> valid_utf8 ys \<Longrightarrow> valid_utf8 (xs @ ys)"
proof (induction xs rule: valid_utf8.induct)
  case (2 a r)
  let ?n = "utf8_len (a # r)"
  from 2(2) have n: "?n \<noteq> 0" and v: "valid_utf8 (drop (?n - 1) r)" by (simp_all add: Let_def split: if_splits)
  have e: "utf8_len (a # r @ ys) = ?n" "?n - 1 \<le> length r"
    using utf8_len_append [OF n, of ys] by auto
  then have "drop (?n - 1) (r @ ys) = drop (?n - 1) r @ ys" by simp
  with 2(1) [OF refl n v 2(3)] e(1) n show ?case by (simp add: Let_def)
qed simp

lemma wire_line_append [simp]: "wire_line s \<Longrightarrow> wire_line t \<Longrightarrow> wire_line (s @ t)"
  by (auto simp: wire_line_def valid_utf8_append)

lemma wire_line_field: "field f \<Longrightarrow> wire_line f"
  using field_no_space [of f] by (simp add: wire_line_def field_ascii valid_utf8_ascii)

lemma wire_line_hex [simp]: "wire_line (hex bs)"
  by (simp add: wire_line_def valid_utf8_ascii hex_notin lower_hex_def is_ascii_hexdigit_def
      is_ascii_digit_def)

lemma wire_line_ascii: "list_all (\<lambda>c. 32 \<le> ord c \<and> ord c \<le> 126) s \<Longrightarrow> wire_line s"
  by (fastforce simp: wire_line_def list_all_iff ascii_def intro!: valid_utf8_ascii)

lemma wire_line_frame: "wire_line p \<Longrightarrow> wire_line (control_frame sha c p)"
  unfolding control_frame_def
  by (intro wire_line_append wire_line_hex wire_line_field [OF show_nat_field])
    (simp_all add: wire_line_ascii)

lemma length_control_frame:
  "is_u64 (seqno c) \<Longrightarrow> length (control_frame sha c p) \<le> length p + 88"
  using length_show_nat_u64 [of "seqno c"] by (simp add: control_frame_def is_u64_def)

lemma control_recv_send:
  assumes "control_send sha c p = (out, Inr c')" "wire_line p" "is_u64 (seqno c)"
  shows "control_recv sha c (out @ bs, e) = Inr (p, c', (bs, e))"
proof -
  from assms(1) have out: "out = writeln (control_frame sha c p)" and b: "bump c = Inr c'"
    and l: "length p \<le> 32768" by (auto simp: control_send_def split: if_splits)
  have "length (control_frame sha c p) < 65536"
    using length_control_frame [OF assms(3), of sha p] l by simp
  then have "read_line_limited 65536 (out @ bs, e) = Inr (control_frame sha c p, (bs, e))"
    unfolding out by (intro read_line_limited_writeln wire_line_frame assms(2))
  with b control_check_frame [OF assms(3), of sha p] show ?thesis by (simp add: control_recv_def)
qed

text \<open>What an accepted frame must have contained.\<close>

lemma list_of_three: "length xs = 3 \<Longrightarrow> xs = [xs ! 0, xs ! 1, xs ! 2]"
  by (auto simp: numeral_3_eq_3 length_Suc_conv)

lemma list_of_three_hd: "length xs = 3 \<Longrightarrow> xs ! 0 = a \<Longrightarrow> \<exists>b c. xs = [a, b, c]"
  by (auto simp: numeral_3_eq_3 length_Suc_conv)

lemma control_check_Inr:
  "control_check sha r line = Inr (p, r') \<Longrightarrow>
     \<exists>f m. splitn 3 sp line = [''A'', f, p @ sp # m] \<and> parse_dec f = Inr (seqno r)
       \<and> decode_array 32 m = Inr (control_mac sha r (seqno r) p) \<and> bump r = Inr r'"
proof -
  assume h: "control_check sha r line = Inr (p, r')"
  have l: "length (splitn 3 c s) \<le> 3" for c s
    by (simp add: numeral_3_eq_3 split: option.splits)
  from h obtain f t m where f: "field_at (splitn 3 sp line) 0 = Some ''A''"
      "field_at (splitn 3 sp line) 1 = Some f" "parse_dec f = Inr (seqno r)"
      "field_at (splitn 3 sp line) 2 = Some t" "rsplit_once sp t = Some (p, m)"
      "decode_array 32 m = Inr (control_mac sha r (seqno r) p)" "bump r = Inr r'"
    by (auto simp: control_check_def Let_def and_then_eq_Inr constant_time_eq_iff
        split: if_splits prod.splits)
  moreover have "t = p @ sp # m" using f(5) rsplit_once_Some by blast
  moreover have "splitn 3 sp line = [''A'', f, t]"
    using f(1,2,4) l [of sp line] list_of_three [of "splitn 3 sp line"]
    by (simp add: field_at_def split: if_splits)
  ultimately show ?thesis by blast
qed

lemma control_recv_Inr:
  "control_recv sha r inp = Inr (p, r', rest) \<Longrightarrow>
     \<exists>line. read_line_limited 65536 inp = Inr (line, rest) \<and> control_check sha r line = Inr (p, r')"
  by (auto simp: control_recv_def and_then_eq_Inr)

lemma control_recv_replayed:
  assumes "control_recv sha r inp = Inr (p, r', rest)" "seqno r2 \<noteq> seqno r"
  shows "control_recv sha r2 inp = Inl (Err ''replayed or out-of-order control frame'')"
proof -
  from control_recv_Inr [OF assms(1)] obtain line where
    l: "read_line_limited 65536 inp = Inr (line, rest)" and c: "control_check sha r line = Inr (p, r')"
    by blast
  from control_check_Inr [OF c] assms(2) show ?thesis
    unfolding control_recv_def l by (auto simp: control_check_def field_at_def)
qed

section \<open>The handshake\<close>

text \<open>A handshake reads lines and writes lines: its outcome is what it wrote and its result.\<close>

type_synonym 'a dialogue = "bytes \<times> 'a result"

definition attempt :: "'a result \<Rightarrow> ('a \<Rightarrow> 'b dialogue) \<Rightarrow> 'b dialogue" where
  "attempt r k = (case r of Inl e \<Rightarrow> ([], Inl e) | Inr x \<Rightarrow> k x)"

definition say :: "string \<Rightarrow> 'a dialogue \<Rightarrow> 'a dialogue" where
  "say l d = (writeln l @ fst d, snd d)"

definition transcript :: "bytes \<Rightarrow> string \<Rightarrow> bytes \<Rightarrow> bytes" where
  "transcript challenge hello server_nonce =
     joined (label ''tsu4 transcript'') [challenge, as_bytes hello, server_nonce]"

definition hello_mac :: "(bytes \<Rightarrow> 256 word) \<Rightarrow> bytes \<Rightarrow> bytes \<Rightarrow> string \<Rightarrow> bytes" where
  "hello_mac sha key challenge hello =
     hmac_sha256 sha key (joined (label ''tsu4 client hello'') [challenge, as_bytes hello])"

definition response_mac :: "(bytes \<Rightarrow> 256 word) \<Rightarrow> bytes \<Rightarrow> bytes \<Rightarrow> bytes" where
  "response_mac sha key t = hmac_sha256 sha key (joined (label ''tsu4 server hello'') [t])"

definition finish_mac :: "(bytes \<Rightarrow> 256 word) \<Rightarrow> bytes \<Rightarrow> bytes \<Rightarrow> bytes" where
  "finish_mac sha key t = hmac_sha256 sha key (joined (label ''tsu4 client finish'') [t])"

definition client_handshake ::
    "(bytes \<Rightarrow> 256 word) \<Rightarrow> bytes \<Rightarrow> string \<Rightarrow> incoming \<Rightarrow> (session_auth \<times> incoming) dialogue" where
  "client_handshake sha key hello stream =
     attempt (read_line_limited 2048 stream) (\<lambda>(challenge_line, stream1).
     attempt (ok_or (strip_prefix ''TSU4C '' challenge_line)
       ''receiver did not offer a TSU4 challenge'') (\<lambda>challenge_hex.
     attempt (decode_array 32 challenge_hex) (\<lambda>challenge.
     say (''TSU4 '' @ hello @ '' '' @ hex (hello_mac sha key challenge hello))
     (attempt (read_line_limited 2048 stream1) (\<lambda>(server_line, stream2).
      let fields = split_whitespace server_line in
      if length fields \<noteq> 3 \<or> fields ! 0 \<noteq> ''TSU4S''
      then ([], Inl (Err ''invalid TSU4 server response''))
      else
     attempt (decode_array 32 (fields ! 1)) (\<lambda>server_nonce.
     attempt (decode_array 32 (fields ! 2)) (\<lambda>supplied.
      let t = transcript challenge hello server_nonce in
      if \<not> constant_time_eq supplied (response_mac sha key t)
      then ([], Inl (Err ''receiver authentication failed''))
      else say (''TSU4F '' @ hex (finish_mac sha key t))
        ([], Inr (derive_session sha key t, stream2)))))))))"

text \<open>The two draws from \<open>/dev/urandom\<close> are the arguments \<open>challenge\<close> and \<open>server_nonce\<close>.\<close>

definition server_handshake ::
    "(bytes \<Rightarrow> 256 word) \<Rightarrow> bytes \<Rightarrow> bytes \<Rightarrow> bytes \<Rightarrow> incoming
      \<Rightarrow> (string \<times> session_auth \<times> incoming) dialogue" where
  "server_handshake sha key challenge server_nonce stream =
     say (''TSU4C '' @ hex challenge)
     (attempt (read_line_limited 2048 stream) (\<lambda>(client_line, stream1).
     attempt (ok_or (strip_prefix ''TSU4 '' client_line) ''invalid TSU4 client greeting'') (\<lambda>body.
     attempt (ok_or (rsplit_once sp body) ''missing client greeting MAC'') (\<lambda>(hello, mac_hex).
     attempt (decode_array 32 mac_hex) (\<lambda>supplied.
      if \<not> constant_time_eq supplied (hello_mac sha key challenge hello)
      then ([], Inl (Err ''client authentication failed''))
      else
      let t = transcript challenge hello server_nonce in
     say (''TSU4S '' @ hex server_nonce @ '' '' @ hex (response_mac sha key t))
     (attempt (read_line_limited 2048 stream1) (\<lambda>(finish_line, stream2).
     attempt (ok_or (strip_prefix ''TSU4F '' finish_line) ''invalid client finish'') (\<lambda>finish_hex.
     attempt (decode_array 32 finish_hex) (\<lambda>supplied_finish.
      if \<not> constant_time_eq supplied_finish (finish_mac sha key t)
      then ([], Inl (Err ''client finish authentication failed''))
      else ([], Inr (hello, derive_session sha key t, stream2)))))))))))"

lemma attempt_simps [simp]: "attempt (Inr x) k = k x" "attempt (Inl e) k = ([], Inl e)"
  by (simp_all add: attempt_def)

lemma snd_attempt: "snd (attempt r k) = and_then r (\<lambda>x. snd (k x))"
  by (cases r) simp_all

lemma snd_say [simp]: "snd (say l d) = snd d"
  by (simp add: say_def)

lemma length_macs [simp]:
  "length (hello_mac sha key c h) = 32" "length (response_mac sha key t) = 32"
  "length (finish_mac sha key t) = 32"
  by (simp_all add: hello_mac_def response_mac_def finish_mac_def)

text \<open>What the two sides write in a run that nobody disturbs.\<close>

definition client_lines :: "(bytes \<Rightarrow> 256 word) \<Rightarrow> bytes \<Rightarrow> bytes \<Rightarrow> bytes \<Rightarrow> string \<Rightarrow> bytes" where
  "client_lines sha key challenge server_nonce hello =
     writeln (''TSU4 '' @ hello @ '' '' @ hex (hello_mac sha key challenge hello))
     @ writeln (''TSU4F '' @ hex (finish_mac sha key (transcript challenge hello server_nonce)))"

definition server_lines :: "(bytes \<Rightarrow> 256 word) \<Rightarrow> bytes \<Rightarrow> bytes \<Rightarrow> bytes \<Rightarrow> string \<Rightarrow> bytes" where
  "server_lines sha key challenge server_nonce hello =
     writeln (''TSU4C '' @ hex challenge)
     @ writeln (''TSU4S '' @ hex server_nonce @ '' ''
        @ hex (response_mac sha key (transcript challenge hello server_nonce)))"

lemma read_handshake_line:
  assumes "wire_line s" "length s < 2048"
  shows "read_line_limited 2048 (writeln s @ bs, e) = Inr (s, (bs, e))"
  using assms by (rule read_line_limited_writeln)

lemma rsplit_once_hex: "rsplit_once sp (p @ sp # hex bs) = Some (p, hex bs)"
  by (rule rsplit_once_append) (simp add: hex_notin lower_hex_def is_ascii_hexdigit_def is_ascii_digit_def)

lemma split_whitespace_three:
  "field a \<Longrightarrow> field b \<Longrightarrow> field c \<Longrightarrow> split_whitespace (a @ sp # b @ sp # c) = [a, b, c]"
  using split_whitespace_join [of "[a, b, c]"] by simp

lemma hex_field_length: "0 < length bs \<Longrightarrow> field (hex bs)"
  by (rule hex_field) auto

lemma client_handshake_honest:
  assumes "length challenge = 32" "length server_nonce = 32"
  shows "client_handshake sha key hello (server_lines sha key challenge server_nonce hello @ bs, e)
    = (client_lines sha key challenge server_nonce hello,
       Inr (derive_session sha key (transcript challenge hello server_nonce), (bs, e)))"
proof -
  let ?t = "transcript challenge hello server_nonce"
  let ?l1 = "''TSU4C '' @ hex challenge"
  let ?l2 = "''TSU4S '' @ hex server_nonce @ '' '' @ hex (response_mac sha key ?t)"
  have "wire_line ?l2" by (intro wire_line_append wire_line_hex) (simp_all add: wire_line_ascii)
  moreover have "wire_line ?l1" by (intro wire_line_append wire_line_hex) (simp add: wire_line_ascii)
  moreover have "split_whitespace ?l2 = [''TSU4S'', hex server_nonce, hex (response_mac sha key ?t)]"
    using split_whitespace_three [of "''TSU4S''" "hex server_nonce" "hex (response_mac sha key ?t)"] assms
    by (simp add: hex_field_length field_def [of "''TSU4S''"])
  ultimately show ?thesis
    using assms read_handshake_line [of ?l1 "writeln ?l2 @ bs" e] read_handshake_line [of ?l2 bs e]
    by (simp add: client_handshake_def server_lines_def client_lines_def say_def Let_def
        decode_array_hex constant_time_eq_iff strip_prefix_append [of "''TSU4C ''", simplified])
qed

lemma server_handshake_honest:
  assumes "length challenge = 32" "length server_nonce = 32" "wire_line hello" "length hello \<le> 1977"
  shows "server_handshake sha key challenge server_nonce
      (client_lines sha key challenge server_nonce hello @ bs, e)
    = (server_lines sha key challenge server_nonce hello,
       Inr (hello, derive_session sha key (transcript challenge hello server_nonce), (bs, e)))"
proof -
  let ?t = "transcript challenge hello server_nonce"
  let ?l1 = "''TSU4 '' @ hello @ '' '' @ hex (hello_mac sha key challenge hello)"
  let ?l2 = "''TSU4F '' @ hex (finish_mac sha key ?t)"
  have "wire_line ?l1" by (intro wire_line_append wire_line_hex assms) (simp_all add: wire_line_ascii)
  moreover have "wire_line ?l2" by (intro wire_line_append wire_line_hex) (simp add: wire_line_ascii)
  ultimately show ?thesis
    using assms read_handshake_line [of ?l1 "writeln ?l2 @ bs" e] read_handshake_line [of ?l2 bs e]
    by (simp add: server_handshake_def server_lines_def client_lines_def say_def Let_def
        decode_array_hex constant_time_eq_iff strip_prefix_append [of "''TSU4 ''", simplified]
        strip_prefix_append [of "''TSU4F ''", simplified] rsplit_once_hex)
qed

text \<open>What an accepted handshake must have read.\<close>

lemma server_handshake_Inr:
  assumes "snd (server_handshake sha key challenge server_nonce stream) = Inr (hello, a, rest)"
  shows "\<exists>stream1 m f. read_line_limited 2048 stream = Inr (''TSU4 '' @ hello @ '' '' @ m, stream1)
    \<and> sp \<notin> set m \<and> decode_array 32 m = Inr (hello_mac sha key challenge hello)
    \<and> read_line_limited 2048 stream1 = Inr (''TSU4F '' @ f, rest)
    \<and> decode_array 32 f = Inr (finish_mac sha key (transcript challenge hello server_nonce))
    \<and> a = derive_session sha key (transcript challenge hello server_nonce)"
proof -
  from assms obtain line stream1 body m fline f where
    l: "read_line_limited 2048 stream = Inr (line, stream1)" "strip_prefix ''TSU4 '' line = Some body"
      "rsplit_once sp body = Some (hello, m)"
      "decode_array 32 m = Inr (hello_mac sha key challenge hello)"
      "read_line_limited 2048 stream1 = Inr (fline, rest)" "strip_prefix ''TSU4F '' fline = Some f"
      "decode_array 32 f = Inr (finish_mac sha key (transcript challenge hello server_nonce))"
      "a = derive_session sha key (transcript challenge hello server_nonce)"
    by (auto simp: server_handshake_def snd_attempt and_then_eq_Inr Let_def constant_time_eq_iff
        split: if_splits prod.splits)
  from l(2,3) have "line = ''TSU4 '' @ hello @ '' '' @ m" "sp \<notin> set m"
    using rsplit_once_Some [OF l(3)] by (simp_all add: strip_prefix_Some)
  moreover from l(6) have "fline = ''TSU4F '' @ f" by (simp add: strip_prefix_Some)
  ultimately show ?thesis using l by blast
qed

lemma client_handshake_Inr:
  assumes "snd (client_handshake sha key hello stream) = Inr (a, rest)"
  shows "\<exists>stream1 c n m l. read_line_limited 2048 stream = Inr (''TSU4C '' @ c, stream1)
    \<and> read_line_limited 2048 stream1 = Inr (l, rest) \<and> split_whitespace l = [''TSU4S'', n, m]
    \<and> (\<exists>challenge server_nonce. decode_array 32 c = Inr challenge \<and> decode_array 32 n = Inr server_nonce
        \<and> decode_array 32 m = Inr (response_mac sha key (transcript challenge hello server_nonce))
        \<and> a = derive_session sha key (transcript challenge hello server_nonce))"
proof -
  from assms obtain line stream1 c challenge l server_nonce where
    l: "read_line_limited 2048 stream = Inr (line, stream1)" "strip_prefix ''TSU4C '' line = Some c"
      "decode_array 32 c = Inr challenge"
      "read_line_limited 2048 stream1 = Inr (l, rest)" "length (split_whitespace l) = 3"
      "split_whitespace l ! 0 = ''TSU4S''"
      "decode_array 32 (split_whitespace l ! 1) = Inr server_nonce"
      "decode_array 32 (split_whitespace l ! 2)
         = Inr (response_mac sha key (transcript challenge hello server_nonce))"
      "a = derive_session sha key (transcript challenge hello server_nonce)"
    by (auto simp: client_handshake_def snd_attempt and_then_eq_Inr Let_def constant_time_eq_iff
        split: if_splits prod.splits)
  from l(2) have "line = ''TSU4C '' @ c" by (simp add: strip_prefix_Some)
  moreover obtain n m where "split_whitespace l = [''TSU4S'', n, m]"
    using list_of_three_hd [OF l(5,6)] by blast
  ultimately show ?thesis using l by auto
qed

lemma last_space_unique: "a @ sp # m = b @ sp # n \<Longrightarrow> sp \<notin> set m \<Longrightarrow> sp \<notin> set n \<Longrightarrow> a = b \<and> m = n"
  by (metis rsplit_once_append option.inject prod.inject)

text \<open>A recorded client stream, played again to a receiver that drew another challenge, is accepted
  only if two different messages have the same MAC.\<close>

lemma server_handshake_replay:
  assumes "snd (server_handshake sha key c1 n1 stream) = Inr (hello1, a1, rest1)"
    "snd (server_handshake sha key c2 n2 stream) = Inr (hello2, a2, rest2)"
  shows "hello1 = hello2 \<and> hello_mac sha key c1 hello1 = hello_mac sha key c2 hello1"
proof -
  from server_handshake_Inr [OF assms(1)] server_handshake_Inr [OF assms(2)]
  obtain m m' where "hello2 @ '' '' @ m' = hello1 @ '' '' @ m" "sp \<notin> set m" "sp \<notin> set m'"
    "decode_array 32 m = Inr (hello_mac sha key c1 hello1)"
    "decode_array 32 m' = Inr (hello_mac sha key c2 hello2)" by auto
  with last_space_unique [of hello1 m hello2 m'] show ?thesis by auto
qed

lemma hello_mac_messages_differ:
  "length c1 = length c2 \<Longrightarrow> c1 \<noteq> c2 \<Longrightarrow>
    joined (label ''tsu4 client hello'') [c1, as_bytes h] \<noteq> joined (label ''tsu4 client hello'') [c2, as_bytes h]"
  by (simp add: joined_def)

lemma transcript_inject:
  assumes "length c = length c'" "length n = length n'"
  shows "(transcript c h n = transcript c' h' n') = (c = c' \<and> h = h' \<and> n = n')"
  using assms by (auto simp: transcript_def joined_def)

section \<open>Sequences of control frames\<close>

fun send_all ::
    "(bytes \<Rightarrow> 256 word) \<Rightarrow> control_end \<Rightarrow> string list \<Rightarrow> (bytes \<times> control_end) result" where
  "send_all sha w [] = Inr ([], w)"
| "send_all sha w (p # ps) =
     (let (out, r) = control_send sha w p in
      and_then r (\<lambda>w'. and_then (send_all sha w' ps) (\<lambda>(outs, w''). Inr (out @ outs, w''))))"

fun recv_all ::
    "(bytes \<Rightarrow> 256 word) \<Rightarrow> nat \<Rightarrow> control_end \<Rightarrow> incoming
      \<Rightarrow> (string list \<times> control_end \<times> incoming) result" where
  "recv_all sha 0 r inp = Inr ([], r, inp)"
| "recv_all sha (Suc n) r inp =
     and_then (control_recv sha r inp) (\<lambda>(p, r', inp').
     and_then (recv_all sha n r' inp') (\<lambda>(ps, r'', inp''). Inr (p # ps, r'', inp'')))"

lemma control_send_state: "control_send sha w p = (out, Inr w') \<Longrightarrow> is_u64 (seqno w')"
  by (auto simp: control_send_def bump_Inr is_u64_def split: if_splits)

lemma recv_all_send_all:
  assumes "send_all sha c ps = Inr (out, c')" "\<forall>p\<in>set ps. wire_line p" "is_u64 (seqno c)"
  shows "recv_all sha (length ps) c (out @ bs, e) = Inr (ps, c', (bs, e))"
  using assms
proof (induction ps arbitrary: c out)
  case (Cons p ps)
  obtain o1 r where s: "control_send sha c p = (o1, r)" by fastforce
  with Cons.prems(1) obtain w o2 where r: "r = Inr w" "send_all sha w ps = Inr (o2, c')" "out = o1 @ o2"
    by (auto simp: and_then_eq_Inr split: prod.splits)
  have "recv_all sha (length ps) w (o2 @ bs, e) = Inr (ps, c', (bs, e))"
    using Cons.IH [OF r(2)] Cons.prems(2) control_send_state s r(1) by auto
  moreover have "control_recv sha c (o1 @ (o2 @ bs), e) = Inr (p, w, (o2 @ bs, e))"
    using control_recv_send s r(1) Cons.prems(2,3) by auto
  ultimately show ?case using r(3) by simp
qed simp

section \<open>The key file\<close>

text \<open>\<open>SecretKey::load\<close>, from the results of \<open>fs::metadata\<close> (its mode bits) and \<open>fs::read\<close>;
  the octal mask 077 is 63.\<close>

definition secret_key_load :: "32 word result \<Rightarrow> bytes result \<Rightarrow> bytes result" where
  "secret_key_load metadata contents =
     and_then metadata (\<lambda>mode.
     if mode AND 63 \<noteq> 0
     then Inl (Err ''key file must not be accessible by group or others (chmod 600)'')
     else and_then contents (\<lambda>bs.
     if length bs \<noteq> 32 then Inl (Err ''key file must contain exactly 32 raw bytes'')
     else Inr bs))"

lemma secret_key_load_Inr:
  "(secret_key_load md contents = Inr key)
    = (\<exists>mode. md = Inr mode \<and> mode AND 63 = 0 \<and> contents = Inr key \<and> length key = 32)"
  by (auto simp: secret_key_load_def and_then_eq_Inr if_Inl_eq_Inr)

end
