(* ===== verification/Bitmap.thy ===== *)
theory Bitmap
  imports Prelude
begin

unbundle bit_operations_syntax

text \<open>
  The receipt bitmap of \<open>src/main.rs\<close>: one bit per chunk in 64-bit words, with the functions
  \<open>bitmap_contains\<close>, \<open>bitmap_insert\<close>, \<open>highest_received\<close> and \<open>missing_ranges\<close>, the bit
  count that \<open>ResumeState::open\<close> and \<open>read_acceptance\<close> sum up, and the check of both that no bit
  beyond the last chunk is set.

  The locale \<open>chunk_set\<close> is what the receiver, the sender and the resume state rely on: a
  finite set of chunk numbers below a capacity.  The bitmap is its interpretation.
\<close>

section \<open>The contract: a set of chunk numbers\<close>

locale chunk_set =
  fixes mem :: "'s \<Rightarrow> nat \<Rightarrow> bool" and ins :: "'s \<Rightarrow> nat \<Rightarrow> 's result"
    and cap :: "'s \<Rightarrow> nat" and chunks_of :: "'s \<Rightarrow> nat set"
  assumes mem_iff: "mem s i = (i \<in> chunks_of s)"
    and below_cap: "chunks_of s \<subseteq> {..<cap s}"
    and ins_ok: "i < cap s \<Longrightarrow> is_ok (ins s i)"
    and ins_cap: "ins s i = Inr t \<Longrightarrow> cap t = cap s"
    and ins_chunks: "ins s i = Inr t \<Longrightarrow> chunks_of t = insert i (chunks_of s)"
begin

lemma finite_chunks: "finite (chunks_of s)"
  using below_cap finite_subset by blast

lemma mem_ins: "ins s i = Inr t \<Longrightarrow> mem t j = (j = i \<or> mem s j)"
  by (simp add: mem_iff ins_chunks)

lemma ins_keeps_below: "ins s i = Inr t \<Longrightarrow> chunks_of s \<subseteq> {..<n} \<Longrightarrow> i < n \<Longrightarrow> chunks_of t \<subseteq> {..<n}"
  by (auto simp: ins_chunks)

lemma ins_exists: "i < cap s \<Longrightarrow> \<exists>t. ins s i = Inr t"
  using ins_ok [of i s] by (cases "ins s i") auto

end

locale counted_chunk_set = chunk_set +
  fixes count :: "'s \<Rightarrow> nat"
  assumes count_card: "count s = card (chunks_of s)"
begin

lemma count_new: "ins s i = Inr t \<Longrightarrow> \<not> mem s i \<Longrightarrow> count t = count s + 1"
  by (simp add: count_card ins_chunks mem_iff finite_chunks)

lemma count_old: "ins s i = Inr t \<Longrightarrow> mem s i \<Longrightarrow> count t = count s"
  by (simp add: count_card ins_chunks mem_iff insert_absorb)

lemma count_le: "chunks_of s \<subseteq> {..<n} \<Longrightarrow> count s \<le> n"
  using card_mono [of "{..<n}" "chunks_of s"] by (simp add: count_card)

lemma count_full: "chunks_of s \<subseteq> {..<n} \<Longrightarrow> (count s = n) = (chunks_of s = {..<n})"
  by (metis card_lessThan card_subset_eq count_card finite_lessThan)

end

section \<open>The bitmap\<close>

type_synonym bitmap = "u64w list"

definition bitmap_contains :: "bitmap \<Rightarrow> nat \<Rightarrow> bool" where
  "bitmap_contains bitmap sequence =
     (let word = sequence div 64; bit = sequence mod 64
      in if word < length bitmap then (bitmap ! word) AND push_bit bit 1 \<noteq> 0 else False)"

definition bitmap_insert :: "bitmap \<Rightarrow> nat \<Rightarrow> bitmap result" where
  "bitmap_insert bitmap sequence =
     (let word = sequence div 64; bit = sequence mod 64
      in if word < length bitmap
         then Inr (bitmap[word := (bitmap ! word) OR push_bit bit 1]) else Inl Panic)"

definition count_ones :: "u64w \<Rightarrow> nat" where
  "count_ones w = length (filter (bit w) [0..<64])"

definition leading_zeros :: "u64w \<Rightarrow> nat" where
  "leading_zeros w = length (takeWhile (\<lambda>i. \<not> bit w i) (rev [0..<64]))"

text \<open>\<open>bitmap.iter().map(count_ones).sum()\<close>.\<close>

definition count_received :: "bitmap \<Rightarrow> nat" where
  "count_received bitmap = sum_list (map count_ones bitmap)"

definition highest_received :: "bitmap \<Rightarrow> nat option" where
  "highest_received bitmap =
     map_option (\<lambda>(index, word). index * 64 + (63 - leading_zeros word))
       (find (\<lambda>(_, word). word \<noteq> 0) (rev (enumerate 0 bitmap)))"

text \<open>The check of \<open>load_map\<close> and \<open>read_acceptance\<close> for bits past the last chunk.\<close>

definition bits_beyond :: "nat \<Rightarrow> bitmap \<Rightarrow> bool" where
  "bits_beyond chunks bitmap \<longleftrightarrow>
     chunks mod 64 \<noteq> 0 \<and> bitmap \<noteq> [] \<and>
       (let valid_mask = push_bit (chunks mod 64) 1 - 1 in last bitmap AND NOT valid_mask \<noteq> 0)"

text \<open>The inner loop of \<open>missing_ranges\<close>: the end of the run of missing chunks from \<open>sequence\<close>.\<close>

function run_end :: "bitmap \<Rightarrow> nat \<Rightarrow> nat \<Rightarrow> nat" where
  "run_end bitmap end sequence =
     (if sequence + 1 < end \<and> \<not> bitmap_contains bitmap (sequence + 1)
      then run_end bitmap end (sequence + 1) else sequence)"
  by pat_completeness auto
termination
  by (relation "measure (\<lambda>(_, end, sequence). end - sequence)") auto

declare run_end.simps [simp del]

lemma run_end_ge: "sequence \<le> run_end bitmap end sequence"
proof (induction bitmap "end" sequence rule: run_end.induct)
  case (1 bitmap "end" sequence)
  then show ?case by (subst run_end.simps) auto
qed

function missing_from :: "bitmap \<Rightarrow> nat \<Rightarrow> nat \<Rightarrow> nat \<Rightarrow> (nat \<times> nat) list \<Rightarrow> (nat \<times> nat) list" where
  "missing_from bitmap end max_ranges sequence ranges =
     (if sequence < end \<and> length ranges < max_ranges then
        (if bitmap_contains bitmap sequence
         then missing_from bitmap end max_ranges (sequence + 1) ranges
         else (let last = run_end bitmap end sequence
               in missing_from bitmap end max_ranges (last + 1) (ranges @ [(sequence, last)])))
      else ranges)"
  by pat_completeness auto
termination
  by (relation "measure (\<lambda>(_, end, _, sequence, _). end - sequence)")
    (auto simp: Let_def intro!: diff_less_mono2 le_imp_less_Suc run_end_ge)

declare missing_from.simps [simp del]

definition missing_ranges :: "bitmap \<Rightarrow> nat \<Rightarrow> nat \<Rightarrow> (nat \<times> nat) list" where
  "missing_ranges bitmap end max_ranges = missing_from bitmap end max_ranges 0 []"

section \<open>The bitmap as a set of chunks\<close>

definition received_set :: "bitmap \<Rightarrow> nat set" where
  "received_set bitmap = {i. bitmap_contains bitmap i}"

lemma contains_iff: "bitmap_contains bm i = (i div 64 < length bm \<and> bit (bm ! (i div 64)) (i mod 64))"
  by (simp add: bitmap_contains_def Let_def bit_iff_and_push_bit_not_eq_0)

lemma received_set_iff: "(i \<in> received_set bm) = bitmap_contains bm i"
  by (simp add: received_set_def)

lemma received_set_below: "received_set bm \<subseteq> {..<64 * length bm}"
  by (auto simp: received_set_def contains_iff less_mult_imp_div_less mult.commute
      dest: div_less_iff_less_mult [THEN iffD1, rotated])

lemma insert_Inr: "bitmap_insert bm i = Inr bm' \<Longrightarrow> bitmap_contains bm' j = (j = i \<or> bitmap_contains bm j)"
proof -
  assume h: "bitmap_insert bm i = Inr bm'"
  then have i: "i div 64 < length bm" and bm': "bm' = bm[i div 64 := (bm ! (i div 64)) OR push_bit (i mod 64) 1]"
    by (auto simp: bitmap_insert_def Let_def split: if_splits)
  show ?thesis
  proof (cases "j div 64 = i div 64")
    case True
    have "(j mod 64 = i mod 64) = (j = i)" using True by (metis div_mult_mod_eq)
    moreover have "j mod 64 < 64" "i mod 64 < 64" by simp_all
    ultimately show ?thesis using True i bm'
      by (auto simp: contains_iff bit_or_iff bit_exp_iff)
  next
    case False
    then show ?thesis using bm' by (auto simp: contains_iff)
  qed
qed

lemma count_ones_card: "count_ones w = card {j. j < 64 \<and> bit w j}"
proof -
  have "set (filter (bit w) [0..<64]) = {j. j < 64 \<and> bit w j}" by auto
  then show ?thesis
    by (metis count_ones_def distinct_card distinct_filter distinct_upt)
qed

lemma received_set_snoc:
  "received_set (bm @ [w]) = received_set bm \<union> (\<lambda>j. 64 * length bm + j) ` {j. j < 64 \<and> bit w j}"
proof (intro set_eqI iffI)
  fix i assume "i \<in> received_set (bm @ [w])"
  then have h: "i div 64 < length bm + 1" "bit ((bm @ [w]) ! (i div 64)) (i mod 64)"
    by (simp_all add: received_set_iff contains_iff)
  show "i \<in> received_set bm \<union> (\<lambda>j. 64 * length bm + j) ` {j. j < 64 \<and> bit w j}"
  proof (cases "i div 64 < length bm")
    case True
    with h show ?thesis by (simp add: received_set_iff contains_iff nth_append)
  next
    case False
    with h have "i div 64 = length bm" by simp
    moreover from this have "i = 64 * length bm + i mod 64" by (metis mult_div_mod_eq)
    ultimately show ?thesis using h by (auto simp: nth_append)
  qed
qed (auto simp: received_set_iff contains_iff nth_append)

lemma count_received_card: "count_received bm = card (received_set bm)"
proof (induction bm rule: rev_induct)
  case Nil
  then show ?case by (simp add: count_received_def received_set_def contains_iff)
next
  case (snoc w bm)
  let ?new = "(\<lambda>j. 64 * length bm + j) ` {j. j < 64 \<and> bit w j}"
  have "received_set bm \<inter> ?new = {}" using received_set_below [of bm] by fastforce
  moreover have "card ?new = count_ones w" by (simp add: card_image inj_on_def count_ones_card)
  moreover have "finite (received_set bm)" using received_set_below finite_subset by blast
  ultimately have "card (received_set (bm @ [w])) = card (received_set bm) + count_ones w"
    by (simp add: received_set_snoc card_Un_disjoint)
  with snoc show ?case by (simp add: count_received_def)
qed

interpretation bitmap: counted_chunk_set bitmap_contains bitmap_insert "\<lambda>bm. 64 * length bm"
  received_set count_received
proof unfold_locales
  fix i and s t :: bitmap
  show "bitmap_contains s i = (i \<in> received_set s)" by (simp add: received_set_def)
  show "received_set s \<subseteq> {..<64 * length s}" by (rule received_set_below)
  show "is_ok (bitmap_insert s i)" if "i < 64 * length s"
    using that by (simp add: bitmap_insert_def Let_def less_mult_imp_div_less mult.commute)
  show "64 * length t = 64 * length s" if "bitmap_insert s i = Inr t"
    using that by (auto simp: bitmap_insert_def Let_def split: if_splits)
  show "received_set t = insert i (received_set s)" if "bitmap_insert s i = Inr t"
    using insert_Inr [OF that] by (auto simp: received_set_def)
  show "count_received s = card (received_set s)" by (rule count_received_card)
qed

lemma length_insert: "bitmap_insert bm i = Inr bm' \<Longrightarrow> length bm' = length bm"
  by (auto simp: bitmap_insert_def Let_def split: if_splits)

section \<open>The highest received chunk\<close>

lemma takeWhile_rev_upt:
  assumes "\<exists>j < n. P j"
  shows "let l = length (takeWhile (\<lambda>i. \<not> P i) (rev [0..<n]))
    in l < n \<and> P (n - 1 - l) \<and> (\<forall>j < n. P j \<longrightarrow> j \<le> n - 1 - l)"
  using assms
proof (induction n)
  case (Suc n)
  show ?case
  proof (cases "P n")
    case False
    then have "\<exists>j < n. P j" using Suc.prems less_Suc_eq by auto
    with Suc.IH False show ?thesis by (auto simp: Let_def less_Suc_eq)
  qed (simp add: Let_def)
qed simp

lemma leading_zeros_spec:
  assumes "w \<noteq> 0"
  shows "leading_zeros w < 64" "bit w (63 - leading_zeros w)"
    "bit w j \<Longrightarrow> j \<le> 63 - leading_zeros w"
proof -
  obtain k where "bit w k" using assms by (auto simp: bit_eq_iff)
  then have "\<exists>j < 64. bit w j" using bit_imp_le_length [of w k] by auto
  from takeWhile_rev_upt [OF this]
  have s: "leading_zeros w < 64 \<and> bit w (63 - leading_zeros w) \<and>
      (\<forall>j < 64. bit w j \<longrightarrow> j \<le> 63 - leading_zeros w)"
    by (simp add: leading_zeros_def Let_def)
  then show "leading_zeros w < 64" "bit w (63 - leading_zeros w)" by simp_all
  show "bit w j \<Longrightarrow> j \<le> 63 - leading_zeros w" using s bit_imp_le_length [of w j] by simp
qed

lemma highest_received_snoc:
  "highest_received (bm @ [w]) =
     (if w = 0 then highest_received bm else Some (length bm * 64 + (63 - leading_zeros w)))"
  by (simp add: highest_received_def enumerate_append_eq)

lemma highest_received_spec:
  "highest_received bm = (if received_set bm = {} then None else Some (Max (received_set bm)))"
proof (induction bm rule: rev_induct)
  case Nil
  then show ?case by (simp add: highest_received_def received_set_def contains_iff)
next
  case (snoc w bm)
  show ?case
  proof (cases "w = 0")
    case True
    then have "received_set (bm @ [w]) = received_set bm" by (simp add: received_set_snoc)
    with True snoc show ?thesis by (simp add: highest_received_snoc)
  next
    case False
    let ?h = "64 * length bm + (63 - leading_zeros w)"
    have mem: "?h \<in> received_set (bm @ [w])"
      using leading_zeros_spec(2) [OF False] by (simp add: received_set_snoc)
    have "i \<le> ?h" if "i \<in> received_set (bm @ [w])" for i
      using that received_set_below [of bm] leading_zeros_spec(3) [OF False]
      by (fastforce simp: received_set_snoc)
    then have "Max (received_set (bm @ [w])) = ?h"
      using mem bitmap.finite_chunks by (intro Max_eqI) auto
    with mem False show ?thesis by (auto simp: highest_received_snoc mult.commute)
  qed
qed

section \<open>Bits beyond the last chunk\<close>

definition wf_bitmap :: "nat \<Rightarrow> bitmap \<Rightarrow> bool" where
  "wf_bitmap chunks bm \<longleftrightarrow> length bm = div_ceil chunks 64 \<and> received_set bm \<subseteq> {..<chunks}"

lemma bit_not_mask: "bit (w AND NOT (push_bit k 1 - 1 :: u64w)) j = (bit w j \<and> k \<le> j)"
proof -
  have "push_bit k 1 - 1 = (mask k :: u64w)" by (simp add: mask_eq_exp_minus_1)
  then show ?thesis
    using bit_imp_le_length [of w j]
    by (auto simp: bit_and_iff bit_not_iff bit_mask_iff)
qed

lemma word_zero_iff: "(v = (0 :: u64w)) = (\<forall>j. \<not> bit v j)"
  by (auto intro: bit_word_eqI)

lemma bits_beyond_iff:
  assumes "length bm = div_ceil chunks 64"
  shows "bits_beyond chunks bm = (\<not> received_set bm \<subseteq> {..<chunks})"
proof (cases "chunks mod 64 = 0")
  case True
  then have "length bm = chunks div 64" using assms by (simp add: div_ceil_def)
  with True have "64 * length bm = chunks" by (metis add.right_neutral mult_div_mod_eq)
  with True received_set_below [of bm] show ?thesis by (simp add: bits_beyond_def)
next
  case False
  then have len: "length bm = chunks div 64 + 1" using assms by (simp add: div_ceil_def)
  then obtain ws w where bm: "bm = ws @ [w]" by (metis append_butlast_last_id list.size(3) zero_neq_one add_is_0)
  then have ws: "length ws = chunks div 64" using len by simp
  have c: "chunks = 64 * length ws + chunks mod 64" unfolding ws by simp
  have "(w AND NOT (push_bit (chunks mod 64) 1 - 1) = 0) = (\<forall>j. \<not> (bit w j \<and> chunks mod 64 \<le> j))"
    by (simp only: word_zero_iff bit_not_mask)
  then have "bits_beyond chunks bm = (\<exists>j. bit w j \<and> chunks mod 64 \<le> j)"
    using False bm by (simp only: bits_beyond_def Let_def) auto
  also have "\<dots> = (\<exists>j. j < 64 \<and> bit w j \<and> chunks mod 64 \<le> j)"
    using bit_imp_le_length [of w] by auto
  also have "\<dots> = (\<not> received_set bm \<subseteq> {..<chunks})"
  proof -
    have "received_set ws \<subseteq> {..<chunks}" using received_set_below [of ws] c by fastforce
    then show ?thesis using c unfolding bm received_set_snoc by (auto simp: not_less)
  qed
  finally show ?thesis .
qed

lemma wf_bitmap_iff: "wf_bitmap chunks bm = (length bm = div_ceil chunks 64 \<and> \<not> bits_beyond chunks bm)"
  using bits_beyond_iff by (auto simp: wf_bitmap_def)

lemma chunks_le_capacity: "chunks \<le> 64 * div_ceil chunks 64"
  using div_ceil_le_iff [of 64 chunks "div_ceil chunks 64"] by (simp add: mult.commute)

lemma wf_bitmap_insert:
  assumes "wf_bitmap chunks bm" "i < chunks"
  shows "\<exists>bm'. bitmap_insert bm i = Inr bm' \<and> wf_bitmap chunks bm'"
proof -
  have "i < 64 * length bm" using assms chunks_le_capacity [of chunks] by (simp add: wf_bitmap_def)
  then obtain bm' where bm': "bitmap_insert bm i = Inr bm'" using bitmap.ins_exists by blast
  with assms bitmap.ins_keeps_below show ?thesis by (auto simp: wf_bitmap_def length_insert)
qed

lemma wf_bitmap_zero [simp]: "wf_bitmap chunks (replicate (div_ceil chunks 64) 0)"
  by (auto simp: wf_bitmap_def received_set_def contains_iff)

lemma received_set_zero [simp]: "received_set (replicate n 0) = {}"
  by (auto simp: received_set_def contains_iff)

section \<open>Missing ranges\<close>

definition range_members :: "(nat \<times> nat) list \<Rightarrow> nat set" where
  "range_members ranges = (\<Union>(a, b)\<in>set ranges. {a..b})"

text \<open>The ranges are non-empty, increasing, and separated by at least one received chunk.\<close>

definition separated :: "(nat \<times> nat) list \<Rightarrow> bool" where
  "separated ranges \<longleftrightarrow>
     (\<forall>(a, b)\<in>set ranges. a \<le> b) \<and> sorted_wrt (\<lambda>(_, b) (c, _). b + 1 < c) ranges"

lemma run_end_spec:
  assumes "sequence < end" "\<not> bitmap_contains bm sequence"
  shows "run_end bm end sequence < end \<and>
    (\<forall>i. sequence \<le> i \<and> i \<le> run_end bm end sequence \<longrightarrow> \<not> bitmap_contains bm i) \<and>
    (run_end bm end sequence + 1 < end \<longrightarrow> bitmap_contains bm (run_end bm end sequence + 1))"
  using assms
proof (induction bm "end" sequence rule: run_end.induct)
  case (1 bm "end" sequence)
  show ?case
  proof (cases "sequence + 1 < end \<and> \<not> bitmap_contains bm (sequence + 1)")
    case True
    then have r: "run_end bm end sequence = run_end bm end (sequence + 1)" by (subst run_end.simps) simp
    have "\<forall>i. sequence \<le> i \<longrightarrow> i = sequence \<or> sequence + 1 \<le> i" by auto
    with "1.IH" True "1.prems" show ?thesis unfolding r by metis
  next
    case False
    then have "run_end bm end sequence = sequence" by (subst run_end.simps) auto
    with False "1.prems" show ?thesis by (metis le_antisym)
  qed
qed

lemma range_members_simps [simp]:
  "range_members [] = {}" "range_members (rs @ [(a, b)]) = range_members rs \<union> {a..b}"
  by (auto simp: range_members_def)

lemma separated_snoc:
  "separated rs \<Longrightarrow> a \<le> b \<Longrightarrow> \<forall>i\<in>range_members rs. i + 1 < a \<Longrightarrow> separated (rs @ [(a, b)])"
  by (fastforce simp: separated_def sorted_wrt_append range_members_def)

lemma missing_from_spec:
  assumes "sequence \<le> end"
    and "range_members ranges = {i. i < sequence \<and> \<not> bitmap_contains bm i}"
    and "separated ranges" "length ranges \<le> max_ranges"
    and "sequence \<noteq> 0 \<longrightarrow> ranges = [] \<or> sequence = end \<or> bitmap_contains bm (sequence - 1)
      \<or> bitmap_contains bm sequence"
  shows "let result = missing_from bm end max_ranges sequence ranges in
    separated result \<and> length result \<le> max_ranges \<and>
    (\<exists>k \<le> end. range_members result = {i. i < k \<and> \<not> bitmap_contains bm i} \<and>
       (length result < max_ranges \<longrightarrow> k = end))"
  using assms
proof (induction bm "end" max_ranges sequence ranges rule: missing_from.induct)
  case (1 bm "end" max_ranges sequence ranges)
  show ?case
  proof (cases "sequence < end \<and> length ranges < max_ranges")
    case False
    then have r: "missing_from bm end max_ranges sequence ranges = ranges"
      by (subst missing_from.simps) auto
    show ?thesis unfolding r Let_def using 1(3-7) False
      by (intro conjI exI [of _ sequence]) auto
  next
    case True
    show ?thesis
    proof (cases "bitmap_contains bm sequence")
      case c: True
      then have r: "missing_from bm end max_ranges sequence ranges
          = missing_from bm end max_ranges (sequence + 1) ranges"
        using True by (subst missing_from.simps) simp
      have "{i. i < sequence \<and> \<not> bitmap_contains bm i} = {i. i < sequence + 1 \<and> \<not> bitmap_contains bm i}"
        using c less_Suc_eq by auto
      then show ?thesis unfolding r using "1.IH"(1) True c 1(3-7) by simp
    next
      case c: False
      let ?last = "run_end bm end sequence"
      have last: "?last < end" "sequence \<le> ?last"
        "\<forall>i. sequence \<le> i \<and> i \<le> ?last \<longrightarrow> \<not> bitmap_contains bm i"
        "?last + 1 < end \<longrightarrow> bitmap_contains bm (?last + 1)"
        using run_end_spec True c run_end_ge by blast+
      have r: "missing_from bm end max_ranges sequence ranges
          = missing_from bm end max_ranges (?last + 1) (ranges @ [(sequence, ?last)])"
        using True c by (subst missing_from.simps) (simp add: Let_def)
      have mem: "range_members (ranges @ [(sequence, ?last)]) = {i. i < ?last + 1 \<and> \<not> bitmap_contains bm i}"
        using last 1(4) by (auto simp: not_less)
      have gap: "i + 1 < sequence" if "i \<in> range_members ranges" for i
      proof -
        from that 1(4) have i: "i < sequence" "\<not> bitmap_contains bm i" by auto
        from that have "ranges \<noteq> []" by auto
        with i c True 1(7) have "bitmap_contains bm (sequence - 1)" by auto
        with i show ?thesis by (metis Suc_eq_plus1 Suc_lessI add_diff_cancel_right')
      qed
      have "?last + 1 = end \<or> bitmap_contains bm (?last + 1)" using last by linarith
      with "1.IH"(2) [OF True c refl] mem last gap 1(5,6) True separated_snoc show ?thesis
        unfolding r by simp
    qed
  qed
qed

lemma missing_ranges_spec:
  "let result = missing_ranges bm end max_ranges in
    separated result \<and> length result \<le> max_ranges \<and>
    (\<exists>k \<le> end. range_members result = {i. i < k \<and> \<not> bitmap_contains bm i} \<and>
       (length result < max_ranges \<longrightarrow> k = end))"
  unfolding missing_ranges_def
  by (rule missing_from_spec) (auto simp: separated_def)

end
