(* ===== verification/Packet.thy ===== *)
theory Packet
  imports Auth Bitmap
begin

text \<open>
  Positional file access and the UDP packet of \<open>src/main.rs\<close>: the loops around \<open>read_at\<close> and
  \<open>write_at\<close>, \<open>build_packet\<close>, and the checks of \<open>receive_udp\<close> on a datagram.

  The operating system decides how many bytes a positional call transfers, or fails it: this is
  an argument of type \<open>transfer\<close>, a function of offset and count.  The lemmas show that the
  loops make its choices invisible.
\<close>

section \<open>Positional reads and writes\<close>

type_synonym transfer = "nat \<Rightarrow> nat \<Rightarrow> nat result"

text \<open>A successful read of \<open>n\<close> bytes at \<open>off\<close> returns at least one byte unless the file ends
  there or \<open>n\<close> is 0.\<close>

definition read_at :: "transfer \<Rightarrow> bytes \<Rightarrow> nat \<Rightarrow> nat \<Rightarrow> bytes result" where
  "read_at os f off n =
     and_then (os off n) (\<lambda>k. Inr (take (max 1 k) (read_bytes f off n)))"

text \<open>The loop of \<open>build_packet\<close>, \<open>read_exact_at\<close> and \<open>advance_hash_frontier\<close>: \<open>n\<close> bytes at
  \<open>off\<close>, at most \<open>buf\<close> of them per call.\<close>

function read_loop :: "transfer \<Rightarrow> string \<Rightarrow> nat \<Rightarrow> bytes \<Rightarrow> nat \<Rightarrow> nat \<Rightarrow> bytes result" where
  "read_loop os msg buf f off n =
     (if n = 0 then Inr []
      else case read_at os f off (min n buf) of
        Inl e \<Rightarrow> Inl e
      | Inr got \<Rightarrow>
          if got = [] then Inl (Err msg)
          else and_then (read_loop os msg buf f (off + length got) (n - length got))
            (\<lambda>rest. Inr (got @ rest)))"
  by pat_completeness auto
termination
  by (relation "measure (\<lambda>(os, msg, buf, f, off, n). n)") auto

declare read_loop.simps [simp del]

lemma read_at_Inr:
  assumes "read_at os f off n = Inr got"
  shows "\<exists>k \<le> n. got = read_bytes f off k \<and> length got = k \<and> off + k \<le> max off (length f)"
proof -
  from assms obtain k where "got = take (max 1 k) (read_bytes f off n)"
    by (auto simp: read_at_def and_then_eq_Inr)
  then have "got = read_bytes f off (length got) \<and> length got \<le> n \<and> off + length got \<le> max off (length f)"
    by (auto simp: read_bytes_def min_def)
  then show ?thesis by blast
qed

lemma read_at_eof: "read_at os f off n = Inr [] \<Longrightarrow> 0 < n \<Longrightarrow> length f \<le> off"
  by (auto simp: read_at_def and_then_eq_Inr read_bytes_def)

lemma read_bytes_split:
  "k \<le> n \<Longrightarrow> read_bytes f off n = read_bytes f off k @ read_bytes f (off + k) (n - k)"
  by (metis read_bytes_def take_add drop_drop le_add_diff_inverse add.commute)

text \<open>The loop returns exactly the bytes asked for, however the calls are cut.\<close>

lemma read_loop_Inr:
  "read_loop os msg buf f off n = Inr bs \<Longrightarrow> off + n \<le> max off (length f) \<and> bs = read_bytes f off n"
proof (induction os msg buf f off n arbitrary: bs rule: read_loop.induct)
  case (1 os msg buf f off n)
  show ?case
  proof (cases "n = 0")
    case True
    with "1.prems" show ?thesis by (simp add: read_loop.simps read_bytes_def)
  next
    case False
    from "1.prems" False obtain got rest where g: "read_at os f off (min n buf) = Inr got" "got \<noteq> []"
        "read_loop os msg buf f (off + length got) (n - length got) = Inr rest" "bs = got @ rest"
      by (subst (asm) read_loop.simps) (auto simp: and_then_eq_Inr split: sum.splits if_splits)
    from read_at_Inr [OF g(1)] have k: "length got \<le> n" "got = read_bytes f off (length got)"
        "off + length got \<le> max off (length f)" by auto
    from "1.IH" [OF False g(1,2,3)] k(1,3) g(2)
    have "off + n \<le> max off (length f)" "rest = read_bytes f (off + length got) (n - length got)"
      by (auto simp: max_def split: if_splits)
    with k(1,2) g(4) show ?thesis using read_bytes_split by metis
  qed
qed

lemma read_loop_reliable:
  assumes "\<And>o' n'. is_ok (os o' n')" "off + n \<le> length f" "0 < buf"
  shows "read_loop os msg buf f off n = Inr (read_bytes f off n)"
  using assms
proof (induction os msg buf f off n rule: read_loop.induct)
  case (1 os msg buf f off n)
  show ?case
  proof (cases "n = 0")
    case False
    obtain k where "os off (min n buf) = Inr k" using "1.prems"(1) [of off "min n buf"]
      by (cases "os off (min n buf)") auto
    then obtain got where g: "read_at os f off (min n buf) = Inr got" by (simp add: read_at_def)
    have ne: "got \<noteq> []" using read_at_eof [of os f off "min n buf"] g False "1.prems"(2,3) by auto
    from read_at_Inr [OF g] have k: "length got \<le> n" "got = read_bytes f off (length got)" by auto
    have "read_loop os msg buf f (off + length got) (n - length got)
        = Inr (read_bytes f (off + length got) (n - length got))"
      using "1.IH" [OF False g ne "1.prems"(1)] "1.prems"(2,3) k(1) by simp
    then have "read_loop os msg buf f off n = Inr (got @ read_bytes f (off + length got) (n - length got))"
      using False g ne by (subst read_loop.simps) simp
    with k show ?thesis using read_bytes_split by metis
  qed (simp add: read_loop.simps read_bytes_def)
qed

text \<open>\<open>write_all_at\<close>: the content of the file afterwards, and the result.\<close>

function write_all_at :: "transfer \<Rightarrow> bytes \<Rightarrow> bytes \<Rightarrow> nat \<Rightarrow> bytes \<times> unit result" where
  "write_all_at os f bs off =
     (if bs = [] then (f, Inr ())
      else case os off (length bs) of
        Inl e \<Rightarrow> (f, Inl e)
      | Inr k \<Rightarrow>
         (let count = min k (length bs) in
          if count = 0 then (f, Inl (Err ''short positional file write''))
          else write_all_at os (write_bytes f off (take count bs)) (drop count bs) (off + count)))"
  by pat_completeness auto
termination
  by (relation "measure (\<lambda>(os, f, bs, off). length bs)") auto

declare write_all_at.simps [simp del]

lemma write_bytes_append:
  "write_bytes (write_bytes f off as) (off + length as) bs = write_bytes f off (as @ bs)"
  if "off \<le> length f"
  using that by (simp add: write_bytes_def Let_def min_def ac_simps)

lemma length_write_bytes_ge: "off \<le> length f \<Longrightarrow> off + length bs \<le> length (write_bytes f off bs)"
  by (simp add: write_bytes_def Let_def)

lemma write_bytes_Nil: "off \<le> length f \<Longrightarrow> write_bytes f off [] = f"
  by (simp add: write_bytes_def Let_def)

text \<open>Whatever the calls transfer, what is on disk is a prefix of the bytes at the offset, the
  whole of them when the loop succeeds.\<close>

lemma write_all_at_prefix:
  assumes "write_all_at os f bs off = (g, r)" "off \<le> length f"
  shows "\<exists>k \<le> length bs. g = write_bytes f off (take k bs) \<and> (is_ok r \<longrightarrow> k = length bs)"
  using assms
proof (induction os f bs off arbitrary: g r rule: write_all_at.induct)
  case (1 os f bs off)
  show ?case
  proof (cases "bs = []")
    case True
    with "1.prems" show ?thesis by (auto simp: write_all_at.simps write_bytes_Nil)
  next
    case ne: False
    show ?thesis
    proof (cases "os off (length bs)")
      case (Inl e)
      with ne "1.prems" have "g = f" "r = Inl e" by (auto simp: write_all_at.simps)
      then show ?thesis using "1.prems"(2) by (intro exI [of _ 0]) (simp add: write_bytes_Nil)
    next
      case (Inr k)
      let ?c = "min k (length bs)"
      show ?thesis
      proof (cases "?c = 0")
        case True
        with ne Inr "1.prems" have "g = f" "\<not> is_ok r" by (auto simp: write_all_at.simps)
        then show ?thesis using "1.prems"(2) by (intro exI [of _ 0]) (simp add: write_bytes_Nil)
      next
        case False
        from "1.prems"(1) ne Inr False
        have w: "write_all_at os (write_bytes f off (take ?c bs)) (drop ?c bs) (off + ?c) = (g, r)"
          by (subst (asm) write_all_at.simps) (simp add: Let_def)
        have "off + ?c \<le> length (write_bytes f off (take ?c bs))"
          using length_write_bytes_ge [OF "1.prems"(2), of "take ?c bs"] by simp
        from "1.IH" [OF ne Inr refl False w this] obtain j where
          j: "j \<le> length bs - ?c"
            "g = write_bytes (write_bytes f off (take ?c bs)) (off + ?c) (take j (drop ?c bs))"
            "is_ok r \<longrightarrow> j = length bs - ?c" by auto
        have "g = write_bytes f off (take (?c + j) bs)"
          using j(2) write_bytes_append [OF "1.prems"(2), of "take ?c bs"]
          by (simp add: take_add)
        with j show ?thesis by (intro exI [of _ "?c + j"]) auto
      qed
    qed
  qed
qed

lemma write_all_at_Inr:
  "write_all_at os f bs off = (g, Inr u) \<Longrightarrow> off \<le> length f \<Longrightarrow> g = write_bytes f off bs"
  using write_all_at_prefix [of os f bs off g "Inr u"] by auto

section \<open>The layout of chunks\<close>

text \<open>\<open>ChunkLayout\<close>; \<open>MAX_CHUNKS\<close> is 64 MiB of bitmap, 536870912 chunks.\<close>

record chunk_layout =
  size :: nat
  chunks :: nat
  payload_bytes :: nat

definition max_chunks :: nat where
  "max_chunks = 64 * 1024 * 1024 * 8"

definition wf_layout :: "chunk_layout \<Rightarrow> bool" where
  "wf_layout l \<longleftrightarrow> 256 \<le> payload_bytes l \<and> payload_bytes l \<le> 1424
     \<and> chunks l = div_ceil (size l) (payload_bytes l) \<and> chunks l \<le> max_chunks"

definition chunk_start :: "chunk_layout \<Rightarrow> nat \<Rightarrow> nat" where
  "chunk_start l i = i * payload_bytes l"

definition chunk_length :: "chunk_layout \<Rightarrow> nat \<Rightarrow> nat" where
  "chunk_length l i = min (size l - i * payload_bytes l) (payload_bytes l)"

lemma wf_layout_chunk:
  assumes "wf_layout l"
  shows "(i < chunks l) = (i * payload_bytes l < size l)"
  using assms less_div_ceil_iff [of "payload_bytes l" i "size l"] by (simp add: wf_layout_def)

lemma chunk_inside: "wf_layout l \<Longrightarrow> i < chunks l \<Longrightarrow> chunk_start l i + chunk_length l i \<le> size l"
  using wf_layout_chunk [of l i] by (simp add: chunk_start_def chunk_length_def)

lemma chunk_length_pos: "wf_layout l \<Longrightarrow> i < chunks l \<Longrightarrow> 0 < chunk_length l i"
  using wf_layout_chunk [of l i] by (simp add: chunk_length_def wf_layout_def)

lemma chunk_start_mono: "i < j \<Longrightarrow> chunk_start l i + chunk_length l i \<le> chunk_start l j"
proof -
  assume "i < j"
  then have "Suc i * payload_bytes l \<le> j * payload_bytes l" by (intro mult_le_mono1) simp
  then show ?thesis by (simp add: chunk_start_def chunk_length_def)
qed

lemma chunk_full: "Suc i < chunks l \<Longrightarrow> wf_layout l \<Longrightarrow> chunk_length l i = payload_bytes l"
  using wf_layout_chunk [of l "Suc i"] by (simp add: chunk_length_def)

lemma chunk_u64: "wf_layout l \<Longrightarrow> i < chunks l \<Longrightarrow> i < 2 ^ 29 \<and> chunk_start l i < 2 ^ 64"
proof -
  assume "wf_layout l" "i < chunks l"
  then have i: "i < 2 ^ 29" and p: "payload_bytes l \<le> 1424" by (simp_all add: wf_layout_def max_chunks_def)
  have "i * payload_bytes l \<le> 2 ^ 29 * 1424" using i p by (intro mult_le_mono) simp_all
  with i show ?thesis by (simp add: chunk_start_def)
qed

section \<open>The UDP packet\<close>

definition packet_header :: "nat \<Rightarrow> bool \<Rightarrow> nat \<Rightarrow> bytes" where
  "packet_header sequence repair payload_len =
     [4] @ be_bytes 8 sequence @ [if repair then 1 else 0] @ be_bytes 2 payload_len"

text \<open>\<open>build_packet\<close>: header, tag and payload, from a file that may be shorter than the size
  announced.\<close>

definition build_packet ::
    "(bytes \<Rightarrow> 256 word) \<Rightarrow> transfer \<Rightarrow> bytes \<Rightarrow> nat \<Rightarrow> session_auth \<Rightarrow> nat \<Rightarrow> bool \<Rightarrow> nat \<Rightarrow> bytes result" where
  "build_packet sha os file fsize sa sequence repair payload =
     and_then (ok_or (checked_mul sequence payload) ''packet offset overflow'') (\<lambda>offset.
     if fsize \<le> offset \<and> fsize \<noteq> 0 then Inl (Err ''sequence is outside the file'')
     else
     let payload_len = min (fsize - offset) payload;
         header = packet_header sequence repair payload_len in
     and_then (read_loop os ''unexpected EOF while building UDP packet'' payload_len file offset payload_len)
       (\<lambda>data. Inr (header @ udp_tag_parts sha (udp sa) header data @ data)))"

text \<open>The checks of \<open>receive_udp\<close> on what \<open>recv\<close> put in a buffer of one byte more than the
  largest packet; None is a datagram counted as invalid.\<close>

definition check_datagram ::
    "(bytes \<Rightarrow> 256 word) \<Rightarrow> session_auth \<Rightarrow> chunk_layout \<Rightarrow> bytes \<Rightarrow> (nat \<times> bool \<times> bytes) option" where
  "check_datagram sha sa l datagram =
     (let packet = take (28 + payload_bytes l + 1) datagram; count = length packet in
      if count < 28 then None
      else if packet ! 0 \<noteq> 4 then None
      else
      let sequence = be_value (read_bytes packet 1 8) in
      case (if packet ! 9 = 0 then Some False else if packet ! 9 = 1 then Some True else None) of
        None \<Rightarrow> None
      | Some repair \<Rightarrow>
       (let payload_len = be_value (read_bytes packet 10 2) in
        if chunks l \<le> sequence \<or> payload_bytes l < payload_len \<or> count \<noteq> 28 + payload_len then None
        else if \<not> verify_udp_tag_parts sha (udp sa) (take 12 packet) (drop 28 packet)
            (read_bytes packet 12 16) then None
        else
        let offset = sequence * payload_bytes l;
            expected_len = min (size l - offset) (payload_bytes l) in
        if payload_len \<noteq> expected_len then None
        else Some (sequence, repair, drop 28 packet)))"

definition packet_of ::
    "(bytes \<Rightarrow> 256 word) \<Rightarrow> session_auth \<Rightarrow> nat \<times> bool \<times> bytes \<Rightarrow> bytes" where
  "packet_of sha sa m = (case m of (sequence, repair, data) \<Rightarrow>
     packet_header sequence repair (length data)
     @ udp_tag_parts sha (udp sa) (packet_header sequence repair (length data)) data @ data)"

definition valid_message :: "chunk_layout \<Rightarrow> nat \<times> bool \<times> bytes \<Rightarrow> bool" where
  "valid_message l m = (case m of (sequence, _, data) \<Rightarrow>
     sequence < chunks l \<and> length data = chunk_length l sequence)"

lemma length_packet_header [simp]: "length (packet_header s r n) = 12"
  by (simp add: packet_header_def)

lemma read_bytes_mid: "length a = off \<Longrightarrow> length b = n \<Longrightarrow> read_bytes (a @ b @ c) off n = b"
  by (simp add: read_bytes_def)

lemma header_parts:
  assumes "28 \<le> length p"
  shows "take 12 p = [p ! 0] @ read_bytes p 1 8 @ [p ! 9] @ read_bytes p 10 2"
    "p = take 12 p @ read_bytes p 12 16 @ drop 28 p"
proof -
  have h: "take 10 p = take 9 p @ [p ! 9]" using assms take_Suc_conv_app_nth [of 9 p] by simp
  have t: "take 9 p = take 1 p @ read_bytes p 1 8" "take 12 p = take 10 p @ read_bytes p 10 2"
    "take 28 p = take 12 p @ read_bytes p 12 16"
    by (simp_all add: read_bytes_def take_add [symmetric])
  have "take 1 p = [p ! 0]" using assms by (cases p) auto
  with h t show "take 12 p = [p ! 0] @ read_bytes p 1 8 @ [p ! 9] @ read_bytes p 10 2" by simp
  show "p = take 12 p @ read_bytes p 12 16 @ drop 28 p"
    using t(3) append_take_drop_id [of 28 p] by (metis append.assoc)
qed

lemma packet_fields:
  assumes "length t = 16" "s < 2 ^ 64" "n < 65536" and p_def: "p = packet_header s r n @ t @ data"
  shows "p ! 0 = 4" "be_value (read_bytes p 1 8) = s" "p ! 9 = (if r then 1 else 0)"
    "be_value (read_bytes p 10 2) = n" "take 12 p = packet_header s r n"
    "read_bytes p 12 16 = t" "drop 28 p = data"
proof -
  have p: "p = [4] @ be_bytes 8 s @ [if r then 1 else 0] @ be_bytes 2 n @ t @ data"
    by (simp add: p_def packet_header_def)
  show "p ! 0 = 4" by (simp add: p)
  show "be_value (read_bytes p 1 8) = s"
    using read_bytes_mid [of "[4]" 1 "be_bytes 8 s" 8] assms(2)
    by (simp add: p be_value_be_bytes_u64)
  show "p ! 9 = (if r then 1 else 0)" by (simp add: p nth_append)
  have "read_bytes p 10 2 = be_bytes 2 n"
    using read_bytes_mid [of "[4] @ be_bytes 8 s @ [if r then 1 else 0]" 10 "be_bytes 2 n" 2]
    by (simp add: p)
  then show "be_value (read_bytes p 10 2) = n" using assms(3) by (simp add: be_value_be_bytes)
  show "take 12 p = packet_header s r n" "read_bytes p 12 16 = t" "drop 28 p = data"
    using assms(1) by (simp_all add: p_def read_bytes_def)
qed

lemma chunk_length_le: "wf_layout l \<Longrightarrow> chunk_length l i \<le> 1424"
  by (auto simp: wf_layout_def chunk_length_def)

lemma check_datagram_packet:
  assumes l: "wf_layout l" and m: "valid_message l (s, r, data)"
  shows "check_datagram sha sa l (packet_of sha sa (s, r, data)) = Some (s, r, data)"
proof -
  let ?h = "packet_header s r (length data)" and ?t = "udp_tag_parts sha (udp sa)
      (packet_header s r (length data)) data"
  have d: "s < chunks l" "length data = chunk_length l s" using m by (simp_all add: valid_message_def)
  have n: "length data < 65536" using d chunk_length_le [OF l, of s] by simp
  have s: "s < 2 ^ 64" using chunk_u64 [OF l d(1)] by simp
  have le: "length data \<le> payload_bytes l" using d(2) by (simp add: chunk_length_def)
  have take: "take (28 + payload_bytes l + 1) (?h @ ?t @ data) = ?h @ ?t @ data"
    using le by (intro take_all) simp
  note f = packet_fields [of ?t s "length data" _ r data, OF length_udp_tag s n refl]
  show ?thesis
    unfolding check_datagram_def packet_of_def prod.case take Let_def f
    using d le by (simp add: verify_udp_tag_iff chunk_length_def)
qed

lemma byte_eq_iff: "((b :: byte) = c) = (unat b = unat c)"
  by (simp add: word_unat_eq_iff)

lemma check_datagram_Some:
  assumes l: "wf_layout l" and c: "check_datagram sha sa l d = Some (s, r, data)"
  shows "valid_message l (s, r, data) \<and> d = packet_of sha sa (s, r, data)"
proof -
  let ?p = "take (28 + payload_bytes l + 1) d"
  from c have len: "28 \<le> length ?p" and p0: "?p ! 0 = 4" and s: "s = be_value (read_bytes ?p 1 8)"
    and p9: "?p ! 9 = (if r then 1 else 0)" and data: "data = drop 28 ?p"
    and n: "be_value (read_bytes ?p 10 2) \<le> payload_bytes l"
      "length ?p = 28 + be_value (read_bytes ?p 10 2)"
    and tag: "read_bytes ?p 12 16 = udp_tag_parts sha (udp sa) (take 12 ?p) (drop 28 ?p)"
    and v: "s < chunks l" "be_value (read_bytes ?p 10 2) = min (size l - s * payload_bytes l) (payload_bytes l)"
    by (auto simp: check_datagram_def Let_def verify_udp_tag_iff split: option.splits if_splits)
  have ld: "length data = be_value (read_bytes ?p 10 2)" unfolding data using n(2) by simp
  have d: "d = ?p" using n by simp
  have "be_bytes 8 s = read_bytes ?p 1 8" unfolding s
    by (rule be_bytes_be_value, rule length_read_bytes) (use len in simp)
  moreover have "be_bytes 2 (length data) = read_bytes ?p 10 2" unfolding ld
    by (rule be_bytes_be_value, rule length_read_bytes) (use len in simp)
  ultimately have h: "take 12 ?p = packet_header s r (length data)"
    using header_parts(1) [OF len] p0 p9 by (simp add: packet_header_def)
  have "packet_of sha sa (s, r, data) = take 12 ?p @ read_bytes ?p 12 16 @ drop 28 ?p"
    by (simp only: packet_of_def prod.case tag h data [symmetric])
  then have "d = packet_of sha sa (s, r, data)"
    using header_parts(2) [OF len] d by argo
  with v ld show ?thesis by (simp add: valid_message_def chunk_length_def)
qed

text \<open>The datagram check is the inverse of the packet builder: a codec, for every key.\<close>

interpretation packet: codec "packet_of sha sa"
  "\<lambda>d. ok_or (check_datagram sha sa l d) ''invalid datagram''"
  "\<lambda>m. wf_layout l \<and> valid_message l m"
  for sha sa l
  by unfold_locales (auto simp: check_datagram_packet split_paired_all)

lemma check_datagram_iff:
  assumes "wf_layout l"
  shows "(check_datagram sha sa l d = Some m) = (valid_message l m \<and> d = packet_of sha sa m)"
proof -
  obtain s r data where "m = (s, r, data)" by (cases m)
  with check_datagram_packet [OF assms, of s r data sha sa]
    check_datagram_Some [OF assms, of sha sa d s r data] show ?thesis by auto
qed

text \<open>What \<open>build_packet\<close> sends for a chunk of a file of the announced size.\<close>

lemma build_packet_Inr:
  assumes "build_packet sha os file (size l) sa s r (payload_bytes l) = Inr d" "wf_layout l" "s < chunks l"
  shows "d = packet_of sha sa (s, r, read_bytes file (chunk_start l s) (chunk_length l s))
    \<and> chunk_start l s + chunk_length l s \<le> length file
    \<and> valid_message l (s, r, read_bytes file (chunk_start l s) (chunk_length l s))"
proof -
  let ?n = "chunk_length l s" and ?o = "chunk_start l s"
  from assms(1) obtain data where
    data: "read_loop os ''unexpected EOF while building UDP packet'' ?n file ?o ?n = Inr data"
    "d = packet_header s r ?n @ udp_tag_parts sha (udp sa) (packet_header s r ?n) data @ data"
    by (auto simp: build_packet_def and_then_eq_Inr Let_def chunk_length_def chunk_start_def
        split: if_splits)
  from read_loop_Inr [OF data(1)] chunk_length_pos [OF assms(2,3)]
  have r: "?o + ?n \<le> length file" "data = read_bytes file ?o ?n" by auto
  then have "length data = ?n" by (simp add: length_read_bytes)
  with data r assms(3) show ?thesis by (simp add: packet_of_def valid_message_def)
qed

lemma build_packet_reliable:
  assumes "wf_layout l" "s < chunks l" "length file = size l" "\<And>o' n'. is_ok (os o' n')"
  shows "build_packet sha os file (size l) sa s r (payload_bytes l)
    = Inr (packet_of sha sa (s, r, read_bytes file (chunk_start l s) (chunk_length l s)))"
proof -
  let ?n = "chunk_length l s" and ?o = "chunk_start l s"
  have i: "?o + ?n \<le> length file" using chunk_inside [OF assms(1,2)] assms(3) by simp
  have "0 < ?n" by (rule chunk_length_pos [OF assms(1,2)])
  then have "read_loop os ''unexpected EOF while building UDP packet'' ?n file ?o ?n
      = Inr (read_bytes file ?o ?n)"
    by (intro read_loop_reliable assms(4) i)
  moreover have c: "checked_mul s (payload_bytes l) = Some ?o"
    using chunk_u64 [OF assms(1,2)] by (simp add: chunk_start_def)
  moreover have "\<not> size l \<le> ?o" using wf_layout_chunk [OF assms(1)] assms(2) by (simp add: chunk_start_def)
  moreover have "min (size l - ?o) (payload_bytes l) = ?n" by (simp add: chunk_length_def chunk_start_def)
  moreover have "length (read_bytes file ?o ?n) = ?n" using i by (rule length_read_bytes)
  ultimately show ?thesis unfolding build_packet_def c ok_or_simps and_then_Inr
    by (simp add: packet_of_def Let_def)
qed

end
