(* ===== verification/Resume.thy ===== *)
theory Resume
  imports Disk Packet
begin

unbundle bit_operations_syntax

text \<open>
  \<open>src/resume.rs\<close>: the part file, the receipt map beside it, and the checkpoint protocol, over
  the file system of \<open>Disk\<close>.

  The main result is that the map on disk never claims a chunk that is not on disk: whatever call
  fails, whenever the process is killed and whatever unsynchronised data a crash then loses, a
  receiver that resumes from the surviving map finds the sender's bytes in every claimed chunk.
\<close>

section \<open>The map file\<close>

definition MAGIC :: bytes where
  "MAGIC = as_bytes ''TSUMAP4'' @ [0]"

definition header_len :: nat where
  "header_len = 8 + 8 + 8 + 8 + 32"

text \<open>The writes of \<open>checkpoint\<close>, in order.\<close>

definition map_pieces :: "chunk_layout \<Rightarrow> bytes \<Rightarrow> bitmap \<Rightarrow> bytes list" where
  "map_pieces l h bm =
     [MAGIC, be_bytes 8 (size l), be_bytes 8 (chunks l), be_bytes 8 (payload_bytes l), h]
     @ map (\<lambda>word. be_bytes 8 (unat word)) bm"

fun read_words :: "nat \<Rightarrow> bytes \<Rightarrow> bitmap" where
  "read_words 0 bs = []"
| "read_words (Suc n) bs = of_nat (be_value (take 8 bs)) # read_words n (drop 8 bs)"

text \<open>The part of \<open>load_map\<close> that looks at the bytes of an existing map; None makes the caller
  start afresh.\<close>

definition decode_map :: "chunk_layout \<Rightarrow> bytes \<Rightarrow> bytes \<Rightarrow> bitmap option" where
  "decode_map l h bs =
     (let words = div_ceil (chunks l) 64 in
      if length bs \<noteq> header_len + words * 8 then None
      else if take 8 bs \<noteq> MAGIC \<or> be_value (read_bytes bs 8 8) \<noteq> size l
        \<or> be_value (read_bytes bs 16 8) \<noteq> chunks l \<or> be_value (read_bytes bs 24 8) \<noteq> payload_bytes l
        \<or> read_bytes bs 32 32 \<noteq> h then None
      else
      let bm = read_words words (drop header_len bs) in
      if bits_beyond (chunks l) bm then None else Some bm)"

section \<open>Operations\<close>

record resume_state =
  bitmap :: bitmap
  received_count :: nat
  part_path :: string
  map_path :: string
  shape :: chunk_layout
  object_hash :: bytes

definition appended_path :: "string \<Rightarrow> string \<Rightarrow> string" where
  "appended_path path suffix = path @ suffix"

definition tmp_path :: "nat \<Rightarrow> string \<Rightarrow> string" where
  "tmp_path pid mp = appended_path mp (''.tmp.'' @ show_nat pid)"

definition load_map :: "string \<Rightarrow> chunk_layout \<Rightarrow> bytes \<Rightarrow> bitmap option io" where
  "load_map path l h =
     tryM (open_file path) (\<lambda>r. case r of
       Inl NotFound \<Rightarrow> ret None
     | Inl e \<Rightarrow> throw e
     | Inr i \<Rightarrow>
         bindM (lift (ok_or (checked_mul (div_ceil (chunks l) 64) 8) ''resume map is too large'')) (\<lambda>n.
         bindM (lift (ok_or (checked_add header_len n) ''resume map is too large'')) (\<lambda>_.
         bindM (read_file i) (\<lambda>bs. ret (decode_map l h bs)))))"

definition checkpoint :: "nat \<Rightarrow> resume_state \<Rightarrow> nat \<Rightarrow> unit io" where
  "checkpoint pid st file =
     bindM (sync_file file) (\<lambda>_.
     bindM (create_file (tmp_path pid (map_path st))) (\<lambda>stream.
     bindM (forM (append_file stream) (map_pieces (shape st) (object_hash st) (bitmap st))) (\<lambda>_.
     bindM (sync_file stream) (\<lambda>_.
     rename_file (tmp_path pid (map_path st)) (map_path st)))))"

definition new_state :: "string \<Rightarrow> chunk_layout \<Rightarrow> bytes \<Rightarrow> bitmap \<Rightarrow> nat \<Rightarrow> resume_state" where
  "new_state dest l h bm count =
     \<lparr>bitmap = bm, received_count = count, part_path = appended_path dest ''.part'',
      map_path = appended_path dest ''.part.map'', shape = l, object_hash = h\<rparr>"

definition start_afresh ::
    "nat \<Rightarrow> string \<Rightarrow> chunk_layout \<Rightarrow> bytes \<Rightarrow> (nat \<times> resume_state) io" where
  "start_afresh pid dest l h =
     bindM (create_file (appended_path dest ''.part'')) (\<lambda>file.
     bindM (set_len file (size l)) (\<lambda>_.
     let st = new_state dest l h (replicate (div_ceil (chunks l) 64) 0) 0 in
     bindM (checkpoint pid st file) (\<lambda>_. ret (file, st))))"

text \<open>\<open>ResumeState::open\<close>: the file (its inode) and the state.\<close>

definition resume_open ::
    "nat \<Rightarrow> string \<Rightarrow> chunk_layout \<Rightarrow> string \<Rightarrow> (nat \<times> resume_state) io" where
  "resume_open pid dest l hash_hex =
     bindM (lift (resume_decode_hash hash_hex)) (\<lambda>h.
     bindM (load_map (appended_path dest ''.part.map'') l h) (\<lambda>loaded.
     case loaded of
       None \<Rightarrow> start_afresh pid dest l h
     | Some bm \<Rightarrow>
         tryM (file_len (appended_path dest ''.part'')) (\<lambda>r.
         if r = Inr (size l) then
           bindM (open_file (appended_path dest ''.part'')) (\<lambda>file.
           ret (file, new_state dest l h bm (count_received bm)))
         else start_afresh pid dest l h)))"

definition resume_install :: "resume_state \<Rightarrow> string \<Rightarrow> unit io" where
  "resume_install st dest =
     bindM (rename_file (part_path st) dest) (\<lambda>_.
     tryM (remove_file (map_path st)) (\<lambda>r. case r of
       Inr u \<Rightarrow> ret () | Inl NotFound \<Rightarrow> ret () | Inl e \<Rightarrow> throw e))"

definition resume_discard :: "resume_state \<Rightarrow> unit io" where
  "resume_discard st =
     tryM (remove_file (part_path st)) (\<lambda>_. tryM (remove_file (map_path st)) (\<lambda>_. ret ()))"

section \<open>The map is read back\<close>

lemma read_words_pieces:
  "read_words (length bm) (concat (map (\<lambda>word. be_bytes 8 (unat word)) bm)) = bm"
proof (induction bm)
  case (Cons w bm)
  have "unat w < 2 ^ 64" using unsigned_less [of w] by simp
  then show ?case using Cons by (simp add: be_value_be_bytes_u64)
qed simp

lemma length_map_words: "length (concat (map (\<lambda>word. be_bytes 8 (unat (word :: u64w))) bm)) = 8 * length bm"
  by (induction bm) simp_all

lemma length_MAGIC [simp]: "length MAGIC = 8"
  by (simp add: MAGIC_def)

lemma decode_map_pieces:
  assumes "wf_bitmap (chunks l) bm" "length h = 32" "wf_layout l" "is_u64 (size l)"
  shows "decode_map l h (concat (map_pieces l h bm)) = Some bm"
proof -
  let ?w = "concat (map (\<lambda>word. be_bytes 8 (unat word)) bm)"
  let ?p = "be_bytes 8 (payload_bytes l)" and ?c = "be_bytes 8 (chunks l)" and ?s = "be_bytes 8 (size l)"
  have b: "concat (map_pieces l h bm) = MAGIC @ ?s @ ?c @ ?p @ h @ ?w"
    by (simp add: map_pieces_def)
  have u: "size l < 2 ^ 64" "chunks l < 2 ^ 64" "payload_bytes l < 2 ^ 64"
    using assms(3,4) by (simp_all add: wf_layout_def is_u64_def max_chunks_def)
  have r: "read_bytes (MAGIC @ ?s @ ?c @ ?p @ h @ ?w) 8 8 = ?s"
    "read_bytes (MAGIC @ ?s @ ?c @ ?p @ h @ ?w) 16 8 = ?c"
    "read_bytes (MAGIC @ ?s @ ?c @ ?p @ h @ ?w) 24 8 = ?p"
    "read_bytes (MAGIC @ ?s @ ?c @ ?p @ h @ ?w) 32 32 = h"
    using assms(2) by (simp_all add: read_bytes_def)
  have d: "drop header_len (MAGIC @ ?s @ ?c @ ?p @ h @ ?w) = ?w"
    using assms(2) by (simp add: header_len_def)
  have l: "length bm = div_ceil (chunks l) 64" "\<not> bits_beyond (chunks l) bm"
    using assms(1) by (simp_all add: wf_bitmap_iff)
  have "read_words (div_ceil (chunks l) 64) ?w = bm" using read_words_pieces [of bm] l(1) by simp
  then show ?thesis
    using u assms(2) l length_map_words [of bm]
    by (simp add: decode_map_def b r d be_value_be_bytes_u64 header_len_def)
qed

lemma length_read_words [simp]: "length (read_words n bs) = n"
  by (induction n arbitrary: bs) simp_all

lemma decode_map_wf: "decode_map l h bs = Some bm \<Longrightarrow> wf_bitmap (chunks l) bm"
  by (auto simp: decode_map_def Let_def wf_bitmap_iff split: if_splits)

text \<open>A map is used only for the object, the size and the layout it was written for.\<close>

lemma decode_map_same_object:
  assumes "decode_map l h (concat (map_pieces l' h' bm)) = Some bm'"
    "length h' = 32" "wf_layout l'" "is_u64 (size l')"
  shows "size l = size l' \<and> chunks l = chunks l' \<and> payload_bytes l = payload_bytes l' \<and> h = h'"
proof -
  let ?w = "concat (map (\<lambda>word. be_bytes 8 (unat word)) bm)"
  have b: "concat (map_pieces l' h' bm) = MAGIC @ be_bytes 8 (size l') @ be_bytes 8 (chunks l')
      @ be_bytes 8 (payload_bytes l') @ h' @ ?w"
    by (simp add: map_pieces_def)
  have u: "size l' < 2 ^ 64" "chunks l' < 2 ^ 64" "payload_bytes l' < 2 ^ 64"
    using assms(3,4) by (simp_all add: wf_layout_def is_u64_def max_chunks_def)
  note v = be_value_be_bytes_u64 [OF u(1)] be_value_be_bytes_u64 [OF u(2)] be_value_be_bytes_u64 [OF u(3)]
  from assms(1,2) show ?thesis
    unfolding b by (auto simp: decode_map_def Let_def read_bytes_def v split: if_splits)
qed

interpretation map_codec: codec "\<lambda>bm. concat (map_pieces l h bm)"
  "\<lambda>bs. ok_or (decode_map l h bs) ''stale map''"
  "\<lambda>bm. wf_bitmap (chunks l) bm \<and> length h = 32 \<and> wf_layout l \<and> is_u64 (size l)"
  for l h
  by unfold_locales (simp add: decode_map_pieces)

section \<open>What a crash may leave\<close>

abbreviation part_of :: "string \<Rightarrow> string" where
  "part_of dest \<equiv> appended_path dest ''.part''"

abbreviation map_of_dest :: "string \<Rightarrow> string" where
  "map_of_dest dest \<equiv> appended_path dest ''.part.map''"

definition fully_stable :: "inode \<Rightarrow> bool" where
  "fully_stable f \<longleftrightarrow> stable f = {..<length (content f)}"

definition chunk_range :: "chunk_layout \<Rightarrow> nat \<Rightarrow> nat set" where
  "chunk_range l s = {chunk_start l s ..< chunk_start l s + chunk_length l s}"

definition chunk_bytes :: "chunk_layout \<Rightarrow> bytes \<Rightarrow> nat \<Rightarrow> bytes" where
  "chunk_bytes l f s = read_bytes f (chunk_start l s) (chunk_length l s)"

definition chunk_on_disk :: "chunk_layout \<Rightarrow> (nat \<Rightarrow> bytes \<Rightarrow> bool) \<Rightarrow> inode \<Rightarrow> nat \<Rightarrow> bool" where
  "chunk_on_disk l ok f s \<longleftrightarrow> chunk_range l s \<subseteq> stable f \<and> ok s (chunk_bytes l (content f) s)"

text \<open>A directory state is trustworthy for an object when its map is on disk and every chunk that
  the map claims is on disk in its part file.  \<open>ok s bs\<close> says that \<open>bs\<close> is acceptable as the
  content of chunk \<open>s\<close>; the statements hold for every such predicate, \<open>sent_by\<close> being the one
  of a sender's file.\<close>

definition sent_by :: "chunk_layout \<Rightarrow> bytes \<Rightarrow> nat \<Rightarrow> bytes \<Rightarrow> bool" where
  "sent_by l obj s bs \<longleftrightarrow> bs = chunk_bytes l obj s"

definition trusted ::
    "string \<Rightarrow> chunk_layout \<Rightarrow> bytes \<Rightarrow> (nat \<Rightarrow> bytes \<Rightarrow> bool) \<Rightarrow> inode list \<Rightarrow> dirent_map \<Rightarrow> bool" where
  "trusted dest l h ok fs nm \<longleftrightarrow>
     (\<forall>i. nm (map_of_dest dest) = Some i \<longrightarrow> fully_stable (fs ! i) \<and>
       (\<forall>j bm. nm (part_of dest) = Some j \<and> decode_map l h (content (fs ! i)) = Some bm \<longrightarrow>
          (\<forall>s\<in>received_set bm. chunk_on_disk l ok (fs ! j) s)))"

definition crash_safe ::
    "string \<Rightarrow> chunk_layout \<Rightarrow> bytes \<Rightarrow> (nat \<Rightarrow> bytes \<Rightarrow> bool) \<Rightarrow> world \<Rightarrow> bool" where
  "crash_safe dest l h ok w \<longleftrightarrow>
     wf_world w \<and> (\<forall>nm\<in>set (history w). trusted dest l h ok (inodes w) nm)"

lemma survives_stable:
  assumes "survives f g" "fully_stable f"
  shows "content g = content f \<and> fully_stable g"
  using assms by (auto simp: survives_def fully_stable_def intro: nth_equalityI)

lemma survives_chunk:
  assumes "survives f g" "chunk_on_disk l ok f s" "wf_inode f" "0 < chunk_length l s"
  shows "chunk_on_disk l ok g s"
proof -
  let ?a = "chunk_start l s" and ?n = "chunk_length l s"
  have st: "{?a..<?a + ?n} \<subseteq> stable f" using assms(2) by (simp add: chunk_on_disk_def chunk_range_def)
  have last: "?a + ?n - 1 \<in> stable f" using st assms(4) by auto
  have lf: "?a + ?n \<le> length (content f)" using last assms(3,4) by (auto simp: wf_inode_def)
  have k: "k \<in> stable f \<Longrightarrow> k < length (content g) \<and> content g ! k = content f ! k" for k
    using assms(1) by (simp add: survives_def)
  have lg: "?a + ?n \<le> length (content g)" using k [OF last] assms(4) by linarith
  have "chunk_bytes l (content g) s = chunk_bytes l (content f) s"
    unfolding chunk_bytes_def nth_range_eq_read [OF lg lf]
  proof (intro allI impI)
    fix i assume "?a \<le> i \<and> i < ?a + ?n"
    then have "i \<in> stable f" using st by auto
    then show "content g ! i = content f ! i" using k by blast
  qed
  moreover have g: "stable g = {..<length (content g)}" using assms(1) by (simp add: survives_def)
  have "{?a..<?a + ?n} \<subseteq> stable g" unfolding g using lg by auto
  ultimately show ?thesis using assms(2) by (simp add: chunk_on_disk_def chunk_range_def)
qed

lemma survives_chunk_any:
  assumes "survives f g" "chunk_on_disk l ok f s" "wf_inode f"
  shows "chunk_on_disk l ok g s"
proof (cases "chunk_length l s = 0")
  case True
  then show ?thesis using assms(2) by (simp add: chunk_on_disk_def chunk_range_def chunk_bytes_def read_bytes_def)
next
  case False
  then show ?thesis using survives_chunk [OF assms] by simp
qed

lemma crash_safe_crashed:
  assumes "crash_safe dest l h ok w" "crashed w w'"
  shows "crash_safe dest l h ok w'"
proof -
  let ?nm = "names w'"
  from assms(2) have nm: "?nm \<in> set (history w)" and h: "history w' = [?nm]"
    and len: "length (inodes w') = length (inodes w)"
    and sv: "\<And>i. i < length (inodes w) \<Longrightarrow> survives (inodes w ! i) (inodes w' ! i)"
    by (auto simp: crashed_def)
  from assms(1) have wf: "wf_world w" and t: "trusted dest l h ok (inodes w) ?nm"
    using nm by (auto simp: crash_safe_def)
  have b: "?nm p = Some i \<Longrightarrow> i < length (inodes w)" for p i using wf nm by (auto simp: wf_world_def)
  have wfi: "i < length (inodes w) \<Longrightarrow> wf_inode (inodes w ! i)" for i using wf by (simp add: wf_world_def)
  have "wf_world w'"
    unfolding wf_world_def h
  proof (intro conjI ballI)
    fix f assume "f \<in> set (inodes w')"
    then obtain i where "i < length (inodes w)" "f = inodes w' ! i" using len by (metis in_set_conv_nth)
    with sv show "wf_inode f" by (auto simp: survives_def wf_inode_def)
  qed (use wf nm len in \<open>auto simp: wf_world_def\<close>)
  moreover have "trusted dest l h ok (inodes w') ?nm"
    unfolding trusted_def
  proof (intro allI impI)
    fix i assume i: "?nm (map_of_dest dest) = Some i"
    then have f: "fully_stable (inodes w ! i)" using t by (simp add: trusted_def)
    from survives_stable [OF sv [OF b [OF i]] f]
    have c: "content (inodes w' ! i) = content (inodes w ! i)" "fully_stable (inodes w' ! i)" by simp_all
    show "fully_stable (inodes w' ! i) \<and> (\<forall>j bm. ?nm (part_of dest) = Some j \<and>
        decode_map l h (content (inodes w' ! i)) = Some bm \<longrightarrow>
          (\<forall>s\<in>received_set bm. chunk_on_disk l ok (inodes w' ! j) s))"
    proof (intro conjI allI impI ballI c(2))
      fix j bm s
      assume j: "?nm (part_of dest) = Some j \<and> decode_map l h (content (inodes w' ! i)) = Some bm"
        and s: "s \<in> received_set bm"
      then have "chunk_on_disk l ok (inodes w ! j) s" using t i c(1) by (simp add: trusted_def)
      then show "chunk_on_disk l ok (inodes w' ! j) s"
        using survives_chunk_any [OF sv [OF b] _ wfi [OF b]] j by blast
    qed
  qed
  ultimately show ?thesis by (simp add: crash_safe_def h)
qed

section \<open>The invariant of a receiving session\<close>

definition session_maps :: "string \<Rightarrow> resume_state \<Rightarrow> nat \<Rightarrow> world \<Rightarrow> bool" where
  "session_maps dest st file w \<longleftrightarrow>
     (\<forall>nm\<in>set (history w). (\<forall>j. nm (part_of dest) = Some j \<longrightarrow> j = file)
       \<and> (\<forall>i. nm (map_of_dest dest) = Some i \<longrightarrow>
            i \<noteq> file \<and> (\<forall>p. names w p = Some i \<longrightarrow> p = map_of_dest dest)
            \<and> (\<forall>bm. decode_map (shape st) (object_hash st) (content (inodes w ! i)) = Some bm
                 \<longrightarrow> received_set bm \<subseteq> received_set (bitmap st))))"

definition session_file :: "(nat \<Rightarrow> bytes \<Rightarrow> bool) \<Rightarrow> resume_state \<Rightarrow> inode \<Rightarrow> bool" where
  "session_file ok st f \<longleftrightarrow> length (content f) = size (shape st)
     \<and> (\<forall>s\<in>received_set (bitmap st). ok s (chunk_bytes (shape st) (content f) s))"

definition wf_state :: "string \<Rightarrow> resume_state \<Rightarrow> bool" where
  "wf_state dest st \<longleftrightarrow> part_path st = part_of dest \<and> map_path st = map_of_dest dest
     \<and> wf_layout (shape st) \<and> is_u64 (size (shape st)) \<and> length (object_hash st) = 32
     \<and> wf_bitmap (chunks (shape st)) (bitmap st) \<and> received_count st = count_received (bitmap st)"

definition in_session :: "string \<Rightarrow> (nat \<Rightarrow> bytes \<Rightarrow> bool) \<Rightarrow> resume_state \<Rightarrow> nat \<Rightarrow> world \<Rightarrow> bool" where
  "in_session dest ok st file w \<longleftrightarrow> crash_safe dest (shape st) (object_hash st) ok w
     \<and> session_maps dest st file w \<and> names w (part_of dest) = Some file
     \<and> session_file ok st (inodes w ! file) \<and> wf_state dest st"

lemma fault_blind_in_session: "fault_blind (in_session dest ok st file)"
  by (simp add: fault_blind_def in_session_def crash_safe_def session_maps_def wf_world_def)

lemma fault_blind_conj: "fault_blind P \<Longrightarrow> fault_blind Q \<Longrightarrow> fault_blind (\<lambda>w. P w \<and> Q w)"
  by (simp add: fault_blind_def)

lemma fault_blind_names: "fault_blind (\<lambda>w. R (names w) (inodes w))"
  by (simp add: fault_blind_def)

lemma in_session_file: "in_session dest ok st file w \<Longrightarrow> file < length (inodes w)"
  by (auto simp: in_session_def crash_safe_def wf_world_def)

lemma in_session_wf: "in_session dest ok st file w \<Longrightarrow> wf_world w"
  by (simp add: in_session_def crash_safe_def)

text \<open>Changing an inode that no directory state calls a map or the part file.\<close>

lemma wf_world_set_inode: "wf_world w \<Longrightarrow> wf_inode f \<Longrightarrow> wf_world (set_inode t f w)"
  by (auto simp: wf_world_def set_inode_def dest: set_update_subset_insert [THEN subsetD])

lemma in_session_other_inode:
  assumes s: "in_session dest ok st file w" and f: "wf_inode f" and t: "t \<noteq> file"
    and m: "\<forall>nm\<in>set (history w). nm (map_of_dest dest) \<noteq> Some t"
  shows "in_session dest ok st file (set_inode t f w)"
proof -
  have p: "nm (part_of dest) \<noteq> Some t" if "nm \<in> set (history w)" for nm
    using s t that by (auto simp: in_session_def session_maps_def)
  have "trusted dest (shape st) (object_hash st) ok ((inodes w)[t := f]) nm" if "nm \<in> set (history w)" for nm
    using s that p [OF that] m [rule_format, OF that]
    by (auto simp: in_session_def crash_safe_def trusted_def nth_list_update)
  moreover have "session_maps dest st file (set_inode t f w)"
    using s m by (fastforce simp: in_session_def session_maps_def set_inode_def nth_list_update)
  ultimately show ?thesis
    using s wf_world_set_inode [OF in_session_wf [OF s] f, of t] t
    by (simp add: in_session_def crash_safe_def set_inode_def)
qed

text \<open>A new directory state with the same map and the same part file.\<close>

lemma in_session_names:
  assumes s: "in_session dest ok st file w"
    and same: "nm (part_of dest) = names w (part_of dest)" "nm (map_of_dest dest) = names w (map_of_dest dest)"
    and wf: "wf_world (set_names nm w)"
    and q: "\<forall>nm'\<in>set (history w). \<forall>i. nm' (map_of_dest dest) = Some i \<longrightarrow>
        (\<forall>p. nm p = Some i \<longrightarrow> p = map_of_dest dest)"
  shows "in_session dest ok st file (set_names nm w)"
proof -
  have n: "names w \<in> set (history w)" using in_session_wf [OF s] by (simp add: wf_world_def)
  then have t: "trusted dest (shape st) (object_hash st) ok (inodes w) (names w)"
    using s by (simp add: in_session_def crash_safe_def)
  have "trusted dest (shape st) (object_hash st) ok (inodes w) nm"
    using t same by (simp add: trusted_def)
  moreover have "session_maps dest st file (set_names nm w)"
    unfolding session_maps_def
  proof (intro ballI)
    fix nm' assume "nm' \<in> set (history (set_names nm w))"
    then have "nm' = nm \<or> nm' \<in> set (history w)" by (simp add: set_names_def)
    then obtain nm0 where nm0: "nm0 \<in> set (history w)" "nm0 (part_of dest) = nm' (part_of dest)"
      "nm0 (map_of_dest dest) = nm' (map_of_dest dest)" using n same by metis
    have m: "session_maps dest st file w" using s by (simp add: in_session_def)
    show "(\<forall>j. nm' (part_of dest) = Some j \<longrightarrow> j = file) \<and>
        (\<forall>i. nm' (map_of_dest dest) = Some i \<longrightarrow> i \<noteq> file \<and>
          (\<forall>p. names (set_names nm w) p = Some i \<longrightarrow> p = map_of_dest dest) \<and>
          (\<forall>bm. decode_map (shape st) (object_hash st) (content (inodes (set_names nm w) ! i)) = Some bm
            \<longrightarrow> received_set bm \<subseteq> received_set (bitmap st)))"
      using m [unfolded session_maps_def, rule_format, OF nm0(1)] q [rule_format, OF nm0(1)] nm0(2,3)
      by (simp add: set_names_def)
  qed
  ultimately show ?thesis
    using s wf same by (simp add: in_session_def crash_safe_def set_names_def)
qed

lemma part_neq_map [simp]: "part_of dest \<noteq> map_of_dest dest" "map_of_dest dest \<noteq> part_of dest"
  by (simp_all add: appended_path_def)

lemma tmp_neq [simp]: "tmp_path pid (map_of_dest dest) \<noteq> map_of_dest dest"
  "tmp_path pid (map_of_dest dest) \<noteq> part_of dest" "map_of_dest dest \<noteq> tmp_path pid (map_of_dest dest)"
  "part_of dest \<noteq> tmp_path pid (map_of_dest dest)"
  by (simp_all add: tmp_path_def appended_path_def)

section \<open>The checkpoint keeps the invariant at every step\<close>

definition part_synced :: "string \<Rightarrow> (nat \<Rightarrow> bytes \<Rightarrow> bool) \<Rightarrow> resume_state \<Rightarrow> nat \<Rightarrow> world \<Rightarrow> bool" where
  "part_synced dest ok st file w \<longleftrightarrow> in_session dest ok st file w \<and> fully_stable (inodes w ! file)"

definition tmp_holds ::
    "nat \<Rightarrow> string \<Rightarrow> (nat \<Rightarrow> bytes \<Rightarrow> bool) \<Rightarrow> resume_state \<Rightarrow> nat \<Rightarrow> nat \<Rightarrow> bytes list \<Rightarrow> world \<Rightarrow> bool" where
  "tmp_holds pid dest ok st file t ps w \<longleftrightarrow> part_synced dest ok st file w
     \<and> names w (tmp_path pid (map_of_dest dest)) = Some t \<and> t \<noteq> file
     \<and> (\<forall>nm\<in>set (history w). nm (map_of_dest dest) \<noteq> Some t)
     \<and> content (inodes w ! t) = concat ps"

lemma fault_blind_tmp [simp]:
  "fault_blind (in_session dest ok st file)" "fault_blind (part_synced dest ok st file)"
  "fault_blind (tmp_holds pid dest ok st file t ps)"
  "fault_blind (\<lambda>w. tmp_holds pid dest ok st file t ps w \<and> fully_stable (inodes w ! t))"
  using fault_blind_in_session
  by (simp_all add: part_synced_def tmp_holds_def fault_blind_def)

lemma wf_inode_stable [simp]: "wf_inode (f\<lparr>stable := {..<length (content f)}\<rparr>)"
  by (simp add: wf_inode_def)

lemma in_session_sync_part:
  assumes s: "in_session dest ok st file w"
  defines "f \<equiv> (inodes w ! file)\<lparr>stable := {..<length (content (inodes w ! file))}\<rparr>"
  shows "in_session dest ok st file (set_inode file f w)"
proof -
  have l: "file < length (inodes w)" by (rule in_session_file [OF s])
  have wi: "wf_inode (inodes w ! file)" using in_session_wf [OF s] l by (simp add: wf_world_def)
  have c: "content f = content (inodes w ! file)" "stable (inodes w ! file) \<subseteq> stable f"
    using wi by (simp_all add: f_def wf_inode_def)
  have same: "content ((inodes w)[file := f] ! i) = content (inodes w ! i)" for i
    using c(1) by (cases "i = file") (simp_all add: l)
  have chunk: "chunk_on_disk (shape st) ok (inodes w ! j) x
      \<Longrightarrow> chunk_on_disk (shape st) ok ((inodes w)[file := f] ! j) x" for j x
    using c l by (cases "j = file") (auto simp: chunk_on_disk_def)
  have "trusted dest (shape st) (object_hash st) ok ((inodes w)[file := f]) nm" if nm: "nm \<in> set (history w)" for nm
    unfolding trusted_def
  proof (intro allI impI conjI)
    fix i assume i: "nm (map_of_dest dest) = Some i"
    then have "i \<noteq> file" using s nm by (auto simp: in_session_def session_maps_def)
    with i nm s show "fully_stable ((inodes w)[file := f] ! i)"
      by (auto simp: in_session_def crash_safe_def trusted_def)
    show "\<forall>x\<in>received_set bm. chunk_on_disk (shape st) ok ((inodes w)[file := f] ! j) x"
      if "nm (part_of dest) = Some j \<and>
        decode_map (shape st) (object_hash st) (content ((inodes w)[file := f] ! i)) = Some bm" for j bm
      using that s nm i chunk unfolding same by (auto simp: in_session_def crash_safe_def trusted_def)
  qed
  moreover have "session_maps dest st file (set_inode file f w)"
    using s by (simp add: in_session_def session_maps_def set_inode_def same)
  moreover have "session_file ok st f" using s c(1) by (simp add: in_session_def session_file_def)
  ultimately show ?thesis
    using s wf_world_set_inode [OF in_session_wf [OF s], where t = "file" and f = f] l
    by (simp add: in_session_def crash_safe_def set_inode_def f_def)
qed

lemma sync_part:
  "triple (in_session dest ok st file) (sync_file file) (\<lambda>_. part_synced dest ok st file)
     (in_session dest ok st file)"
  unfolding sync_file_def
  by (rule triple_call)
    (auto simp: triple_def Let_def part_synced_def in_session_sync_part [unfolded set_inode_def]
      in_session_file fully_stable_def set_inode_def)

lemma wf_world_fresh_name:
  assumes "wf_world w"
  shows "wf_world (set_names ((names w)(p \<mapsto> length (inodes w)))
      (w\<lparr>inodes := inodes w @ [\<lparr>content = [], stable = {}\<rparr>]\<rparr>))"
proof -
  have b: "nm q = Some i \<Longrightarrow> nm \<in> set (history w) \<Longrightarrow> i < length (inodes w)" for nm q i
    using assms by (auto simp: wf_world_def)
  have n: "names w \<in> set (history w)" using assms by (simp add: wf_world_def)
  show ?thesis
    using assms b n unfolding wf_world_def set_names_def
    by (auto simp: wf_inode_def less_Suc_eq)
qed

lemma in_session_create_tmp_new:
  assumes s: "in_session dest ok st file w" and q: "q \<noteq> part_of dest" "q \<noteq> map_of_dest dest"
  shows "in_session dest ok st file (set_names ((names w)(q \<mapsto> length (inodes w)))
      (w\<lparr>inodes := inodes w @ [\<lparr>content = [], stable = {}\<rparr>]\<rparr>))"
proof -
  let ?w = "w\<lparr>inodes := inodes w @ [\<lparr>content = [], stable = {}\<rparr>]\<rparr>"
  have b: "nm q = Some i \<Longrightarrow> nm \<in> set (history w) \<Longrightarrow> i < length (inodes w)" for nm q i
    using in_session_wf [OF s] by (auto simp: wf_world_def)
  have same: "nm p = Some i \<Longrightarrow> nm \<in> set (history w) \<Longrightarrow> inodes ?w ! i = inodes w ! i" for nm p i
    using b by (simp add: nth_append)
  have n: "names w \<in> set (history w)" using in_session_wf [OF s] by (simp add: wf_world_def)
  have "trusted dest (shape st) (object_hash st) ok (inodes ?w) nm" if "nm \<in> set (history w)" for nm
    using s that same [OF _ that] unfolding in_session_def crash_safe_def trusted_def by auto
  moreover have "wf_world ?w"
    using in_session_wf [OF s] by (auto simp: wf_world_def wf_inode_def less_Suc_eq)
  moreover have "session_maps dest st file ?w"
    using s same unfolding in_session_def session_maps_def by auto
  moreover have "inodes ?w ! file = inodes w ! file"
    using in_session_file [OF s] by (simp add: nth_append)
  ultimately have s': "in_session dest ok st file ?w"
    using s by (simp add: in_session_def crash_safe_def)
  have "in_session dest ok st file (set_names ((names ?w)(q \<mapsto> length (inodes w))) ?w)"
  proof (rule in_session_names [OF s'])
    show "wf_world (set_names ((names ?w)(q \<mapsto> length (inodes w))) ?w)"
      using wf_world_fresh_name [OF in_session_wf [OF s], of q] by simp
    show "\<forall>nm'\<in>set (history ?w). \<forall>i. nm' (map_of_dest dest) = Some i \<longrightarrow>
        (\<forall>p. ((names ?w)(q \<mapsto> length (inodes w))) p = Some i \<longrightarrow> p = map_of_dest dest)"
    proof (intro ballI allI impI)
      fix nm' i p
      assume nm': "nm' \<in> set (history ?w)" and i: "nm' (map_of_dest dest) = Some i"
        and p: "((names ?w)(q \<mapsto> length (inodes w))) p = Some i"
      have "i < length (inodes w)" using b i nm' by simp
      then have "names w p = Some i" using p by (simp split: if_splits)
      then show "p = map_of_dest dest"
        using s nm' i unfolding in_session_def session_maps_def by auto
    qed
  qed (use q in simp_all)
  then show ?thesis by simp
qed

lemma create_tmp:
  "triple (part_synced dest ok st file) (create_file (tmp_path pid (map_of_dest dest)))
     (\<lambda>t. tmp_holds pid dest ok st file t []) (in_session dest ok st file)"
  unfolding create_file_def
proof (rule triple_call)
  let ?q = "tmp_path pid (map_of_dest dest)"
  show "triple (part_synced dest ok st file) (\<lambda>w. case names w ?q of
      Some i \<Rightarrow> (Inr i, set_inode i \<lparr>content = [], stable = {}\<rparr> w)
    | None \<Rightarrow> (Inr (length (inodes w)), set_names ((names w)(?q \<mapsto> length (inodes w)))
          (w\<lparr>inodes := inodes w @ [\<lparr>content = [], stable = {}\<rparr>]\<rparr>)))
     (\<lambda>t. tmp_holds pid dest ok st file t []) (in_session dest ok st file)"
    unfolding triple_def
  proof (intro allI impI)
    fix w assume p: "part_synced dest ok st file w"
    then have s: "in_session dest ok st file w" and fs: "fully_stable (inodes w ! file)"
      by (simp_all add: part_synced_def)
    have n: "names w \<in> set (history w)" using in_session_wf [OF s] by (simp add: wf_world_def)
    have b: "nm p = Some i \<Longrightarrow> nm \<in> set (history w) \<Longrightarrow> i < length (inodes w)" for nm p i
      using in_session_wf [OF s] by (auto simp: wf_world_def)
    show "case (case names w ?q of
        Some i \<Rightarrow> (Inr i, set_inode i \<lparr>content = [], stable = {}\<rparr> w)
      | None \<Rightarrow> (Inr (length (inodes w)), set_names ((names w)(?q \<mapsto> length (inodes w)))
            (w\<lparr>inodes := inodes w @ [\<lparr>content = [], stable = {}\<rparr>]\<rparr>)))
      of (Inl e, w') \<Rightarrow> in_session dest ok st file w'
       | (Inr t, w') \<Rightarrow> tmp_holds pid dest ok st file t [] w'"
    proof (cases "names w ?q")
      case None
      let ?w = "set_names ((names w)(?q \<mapsto> length (inodes w)))
          (w\<lparr>inodes := inodes w @ [\<lparr>content = [], stable = {}\<rparr>]\<rparr>)"
      have m: "nm (map_of_dest dest) \<noteq> Some (length (inodes w))" if "nm \<in> set (history w)" for nm
        using b [OF _ that] by blast
      have "in_session dest ok st file ?w"
        using in_session_create_tmp_new [OF s, of ?q] by simp
      moreover have "fully_stable (inodes ?w ! file)" "file \<noteq> length (inodes w)"
        using fs in_session_file [OF s] by (simp_all add: set_names_def nth_append)
      moreover have "\<forall>nm\<in>set (history ?w). nm (map_of_dest dest) \<noteq> Some (length (inodes w))"
        using m m [OF n] by (simp add: set_names_def)
      moreover have "names ?w ?q = Some (length (inodes w))" "content (inodes ?w ! length (inodes w)) = []"
        by (simp_all add: set_names_def)
      ultimately have "tmp_holds pid dest ok st file (length (inodes w)) [] ?w"
        by (simp add: tmp_holds_def part_synced_def)
      then show ?thesis unfolding None by simp
    next
      case (Some t)
      have pf: "names w (part_of dest) = Some file" using s by (simp add: in_session_def)
      have tf: "t \<noteq> file"
        using wf_world_inj [OF in_session_wf [OF s] n Some, of "part_of dest"] pf tmp_neq(2) by blast
      have tm: "\<forall>nm\<in>set (history w). nm (map_of_dest dest) \<noteq> Some t"
        using s Some tmp_neq(1) unfolding in_session_def session_maps_def by blast
      have "in_session dest ok st file (set_inode t \<lparr>content = [], stable = {}\<rparr> w)"
        by (rule in_session_other_inode [OF s _ tf tm]) (simp add: wf_inode_def)
      then show ?thesis using Some tf tm fs b [OF Some n]
        by (simp add: tmp_holds_def part_synced_def set_inode_def)
    qed
  qed
qed (simp_all add: part_synced_def)

lemma tmp_holds_in_session: "tmp_holds pid dest ok st file t ps w \<Longrightarrow> in_session dest ok st file w"
  by (simp add: tmp_holds_def part_synced_def)

lemma tmp_bound:
  assumes h: "tmp_holds pid dest ok st file t ps w"
  shows "t < length (inodes w)"
proof -
  have wf: "wf_world w" by (rule in_session_wf [OF tmp_holds_in_session [OF h]])
  have "names w (tmp_path pid (map_of_dest dest)) = Some t" using h by (simp add: tmp_holds_def)
  then show ?thesis by (rule wf_world_bound [OF wf wf_world_names [OF wf]])
qed

lemma tmp_holds_set_inode:
  assumes h: "tmp_holds pid dest ok st file t ps w" and f: "wf_inode f"
  shows "in_session dest ok st file (set_inode t f w)"
    "content f = concat qs \<Longrightarrow> tmp_holds pid dest ok st file t qs (set_inode t f w)"
proof -
  from h have s: "in_session dest ok st file w" and t: "t \<noteq> file"
    and m: "\<forall>nm\<in>set (history w). nm (map_of_dest dest) \<noteq> Some t"
    by (simp_all add: tmp_holds_def part_synced_def)
  show i: "in_session dest ok st file (set_inode t f w)"
    by (rule in_session_other_inode [OF s f t m])
  assume "content f = concat qs"
  with i h t tmp_bound [OF h] show "tmp_holds pid dest ok st file t qs (set_inode t f w)"
    by (simp add: tmp_holds_def part_synced_def set_inode_def)
qed

lemma append_tmp:
  "triple (tmp_holds pid dest ok st file t ps) (append_file t bs)
     (\<lambda>_. tmp_holds pid dest ok st file t (ps @ [bs])) (in_session dest ok st file)"
proof (rule triple_append)
  fix w k assume h: "tmp_holds pid dest ok st file t ps w"
  have f: "wf_inode (inodes w ! t)"
    using wf_world_inode [OF in_session_wf [OF tmp_holds_in_session [OF h]] tmp_bound [OF h]] .
  let ?l = "length (content (inodes w ! t))"
  have wf: "wf_inode (written (inodes w ! t) ?l xs)" for xs
    by (rule wf_inode_written [OF f]) simp
  show "tmp_holds pid dest ok st file t (ps @ [bs]) (set_inode t (written (inodes w ! t) ?l bs) w)"
    by (rule tmp_holds_set_inode(2) [OF h wf]) (subst written_append, use h in \<open>simp add: tmp_holds_def\<close>)
  show "in_session dest ok st file (set_inode t (written (inodes w ! t) ?l (take k bs)) w)"
    by (rule tmp_holds_set_inode(1) [OF h wf])
qed (simp_all add: tmp_holds_in_session)

lemma append_tmp_all:
  "triple (tmp_holds pid dest ok st file t ps) (forM (append_file t) qs)
     (\<lambda>_. tmp_holds pid dest ok st file t (ps @ qs)) (in_session dest ok st file)"
proof (induction qs arbitrary: ps)
  case (Cons q qs)
  from Cons [of "ps @ [q]"] show ?case by (auto intro: triple_bind [OF append_tmp])
qed (auto intro: triple_ret)

lemma sync_tmp:
  "triple (tmp_holds pid dest ok st file t ps) (sync_file t)
     (\<lambda>_ w. tmp_holds pid dest ok st file t ps w \<and> fully_stable (inodes w ! t)) (in_session dest ok st file)"
  unfolding sync_file_def
proof (rule triple_call)
  show "triple (tmp_holds pid dest ok st file t ps)
     (\<lambda>w. let f = inodes w ! t in (Inr (), set_inode t (f\<lparr>stable := {..<length (content f)}\<rparr>) w))
     (\<lambda>_ w. tmp_holds pid dest ok st file t ps w \<and> fully_stable (inodes w ! t)) (in_session dest ok st file)"
    unfolding triple_def Let_def prod.case sum.case
  proof (intro allI impI conjI)
    fix w assume h: "tmp_holds pid dest ok st file t ps w"
    let ?f = "(inodes w ! t)\<lparr>stable := {..<length (content (inodes w ! t))}\<rparr>"
    show "tmp_holds pid dest ok st file t ps (set_inode t ?f w)"
      using h by (intro tmp_holds_set_inode(2) [OF h wf_inode_stable]) (simp add: tmp_holds_def)
    show "fully_stable (inodes (set_inode t ?f w) ! t)"
      using tmp_bound [OF h] by (simp add: set_inode_def fully_stable_def)
  qed
qed (simp_all add: tmp_holds_in_session)

text \<open>The rename publishes the map: every chunk it claims is on disk.\<close>

lemma fully_stable_chunk:
  assumes "fully_stable f" "session_file ok st f" "wf_layout (shape st)" "s < chunks (shape st)"
    "s \<in> received_set (bitmap st)"
  shows "chunk_on_disk (shape st) ok f s"
  using assms chunk_inside [OF assms(3,4)]
  by (auto simp: chunk_on_disk_def fully_stable_def session_file_def chunk_range_def)

lemma publish_map:
  assumes h: "tmp_holds pid dest ok st file t (map_pieces (shape st) (object_hash st) (bitmap st)) w"
    and f: "fully_stable (inodes w ! t)"
  shows "in_session dest ok st file (set_names ((names w)(tmp_path pid (map_of_dest dest) := None,
      map_of_dest dest := Some t)) w)"
proof -
  let ?q = "tmp_path pid (map_of_dest dest)" and ?m = "map_of_dest dest"
  let ?nm = "(names w)(?q := None, ?m := Some t)"
  have s: "in_session dest ok st file w" by (rule tmp_holds_in_session [OF h])
  have wf: "wf_world w" by (rule in_session_wf [OF s])
  note n = wf_world_names [OF wf]
  from h have t: "names w ?q = Some t" "t \<noteq> file" "\<And>nm. nm \<in> set (history w) \<Longrightarrow> nm ?m \<noteq> Some t"
    and c: "content (inodes w ! t) = concat (map_pieces (shape st) (object_hash st) (bitmap st))"
    and fs: "fully_stable (inodes w ! file)" by (auto simp: tmp_holds_def part_synced_def)
  have st: "wf_state dest st" and part: "names w (part_of dest) = Some file"
    and sf: "session_file ok st (inodes w ! file)" using s by (simp_all add: in_session_def)
  have d: "decode_map (shape st) (object_hash st) (content (inodes w ! t)) = Some (bitmap st)"
    unfolding c using st by (intro decode_map_pieces) (simp_all add: wf_state_def)
  have only_m: "p = ?m" if "?nm p = Some t" for p
    using that wf_world_inj [OF wf n, of p t ?q] t(1) by (auto split: if_splits)
  have "chunk_on_disk (shape st) ok (inodes w ! file) x" if "x \<in> received_set (bitmap st)" for x
    using fully_stable_chunk [OF fs sf _ _ that] st that by (auto simp: wf_state_def wf_bitmap_def)
  then have "trusted dest (shape st) (object_hash st) ok (inodes w) ?nm"
    using f d part by (simp add: trusted_def)
  moreover have "wf_world (set_names ?nm w)"
  proof -
    have inj: "p = r" if "?nm p = Some i" "?nm r = Some i" for p r i
    proof (cases "i = t")
      case True
      then show ?thesis using only_m that by metis
    next
      case False
      then have "names w p = Some i" "names w r = Some i" using that by (auto split: if_splits)
      then show ?thesis using wf_world_inj [OF wf n] by blast
    qed
    have bd: "i < length (inodes w)" if "?nm p = Some i" for p i
      using that wf_world_bound [OF wf n] t(1) by (auto split: if_splits)
    show ?thesis unfolding wf_world_def
    proof (intro conjI ballI allI impI)
      fix nm p i assume "nm \<in> set (history (set_names ?nm w))" "nm p = Some i"
      then show "i < length (inodes (set_names ?nm w))"
        using bd wf_world_bound [OF wf] by (auto simp: set_names_def simp del: fun_upd_apply)
    next
      fix nm p r i assume "nm \<in> set (history (set_names ?nm w))" "nm p = Some i \<and> nm r = Some i"
      then show "p = r" using inj wf_world_inj [OF wf, of nm p i r]
        by (auto simp: set_names_def simp del: fun_upd_apply)
    qed (use wf in \<open>auto simp: set_names_def wf_world_def\<close>)
  qed
  moreover have "session_maps dest st file (set_names ?nm w)"
    unfolding session_maps_def
  proof (intro ballI)
    fix nm assume "nm \<in> set (history (set_names ?nm w))"
    then have "nm = ?nm \<or> nm \<in> set (history w)" by (simp add: set_names_def)
    then show "(\<forall>j. nm (part_of dest) = Some j \<longrightarrow> j = file) \<and>
        (\<forall>i. nm ?m = Some i \<longrightarrow> i \<noteq> file \<and> (\<forall>p. names (set_names ?nm w) p = Some i \<longrightarrow> p = ?m) \<and>
          (\<forall>bm. decode_map (shape st) (object_hash st) (content (inodes (set_names ?nm w) ! i)) = Some bm
            \<longrightarrow> received_set bm \<subseteq> received_set (bitmap st)))"
    proof
      assume "nm = ?nm"
      then have e: "nm ?m = Some t" "nm (part_of dest) = Some file" using part by simp_all
      have "\<forall>p. names (set_names ?nm w) p = Some t \<longrightarrow> p = ?m"
        using only_m by (simp add: set_names_def del: fun_upd_apply)
      then show ?thesis unfolding e using t(2) d by (simp add: set_names_def del: fun_upd_apply)
    next
      assume nm: "nm \<in> set (history w)"
      have m: "session_maps dest st file w" using s by (simp add: in_session_def)
      have inw: "names w p = Some i" if "?nm p = Some i" "nm ?m = Some i" for p i
        using that t(3) [OF nm] by (auto split: if_splits)
      show ?thesis using m [unfolded session_maps_def, rule_format, OF nm] inw
        by (simp add: set_names_def del: fun_upd_apply)
    qed
  qed
  ultimately show ?thesis
    using s part by (simp add: in_session_def crash_safe_def set_names_def)
qed

lemma publish:
  "triple (\<lambda>w. tmp_holds pid dest ok st file t (map_pieces (shape st) (object_hash st) (bitmap st)) w
        \<and> fully_stable (inodes w ! t))
     (rename_file (tmp_path pid (map_of_dest dest)) (map_of_dest dest))
     (\<lambda>_. in_session dest ok st file) (in_session dest ok st file)"
  unfolding rename_file_def
proof (rule triple_call)
  let ?q = "tmp_path pid (map_of_dest dest)" and ?m = "map_of_dest dest"
  show "triple (\<lambda>w. tmp_holds pid dest ok st file t (map_pieces (shape st) (object_hash st) (bitmap st)) w
        \<and> fully_stable (inodes w ! t))
     (\<lambda>w. case names w ?q of None \<Rightarrow> (Inl NotFound, w)
       | Some i \<Rightarrow> (Inr (), set_names ((names w)(?q := None, ?m \<mapsto> i)) w))
     (\<lambda>_. in_session dest ok st file) (in_session dest ok st file)"
    unfolding triple_def
  proof (intro allI impI, elim conjE)
    fix w assume h: "tmp_holds pid dest ok st file t (map_pieces (shape st) (object_hash st) (bitmap st)) w"
      and f: "fully_stable (inodes w ! t)"
    have "names w ?q = Some t" using h by (simp add: tmp_holds_def)
    then show "case (case names w ?q of None \<Rightarrow> (Inl NotFound, w)
        | Some i \<Rightarrow> (Inr (), set_names ((names w)(?q := None, ?m \<mapsto> i)) w)) of
        (Inl e, w') \<Rightarrow> in_session dest ok st file w' | (Inr x, w') \<Rightarrow> in_session dest ok st file w'"
      using publish_map [OF h f] by simp
  qed
qed (auto dest: tmp_holds_in_session)

text \<open>The invariant of the session holds after a checkpoint, however far it came.\<close>

lemma checkpoint_keeps_session [inv_intros]:
  assumes "wf_state dest st"
  shows "triple (in_session dest ok st file) (checkpoint pid st file)
     (\<lambda>_. in_session dest ok st file) (in_session dest ok st file)"
proof -
  have m: "map_path st = map_of_dest dest" using assms by (simp add: wf_state_def)
  show ?thesis unfolding checkpoint_def m
    by (intro triple_bind [OF sync_part] triple_bind [OF create_tmp]
        triple_bind [OF append_tmp_all [where ps = "[]", simplified]] triple_bind [OF sync_tmp] publish)
qed

section \<open>Opening\<close>

text \<open>\<open>usable_map\<close> is the receipt map that \<open>load_map\<close> finds for this object, if any.\<close>

definition usable_map :: "string \<Rightarrow> chunk_layout \<Rightarrow> bytes \<Rightarrow> world \<Rightarrow> bitmap option" where
  "usable_map dest l h w = (case names w (map_of_dest dest) of None \<Rightarrow> None
     | Some i \<Rightarrow> decode_map l h (content (inodes w ! i)))"

lemma load_map_looks:
  assumes "load_map (map_of_dest dest) l h w = (r, w')"
  shows "same_disk w w'" "r = Inr x \<Longrightarrow> x = usable_map dest l h w"
proof -
  obtain ro w1 where o: "open_file (map_of_dest dest) w = (ro, w1)" by fastforce
  note lo = open_file_looks [OF o]
  have "same_disk w w' \<and> (r = Inr x \<longrightarrow> x = usable_map dest l h w)"
  proof (cases ro)
    case (Inl e)
    then show ?thesis using assms o lo
      by (cases e) (auto simp: load_map_def tryM_def ret_def throw_def usable_map_def)
  next
    case (Inr i)
    then have n: "names w (map_of_dest dest) = Some i" using lo(2) by simp
    obtain rr w2 where rd: "read_file i w1 = (rr, w2)" by fastforce
    note lr = read_file_looks [OF rd]
    have d: "same_disk w w2" using same_disk_trans lo(1) lr(1) by blast
    have "w' = w1 \<or> w' = w2 \<and> (r = Inr x \<longrightarrow> (\<exists>bs. rr = Inr bs \<and> x = decode_map l h bs))"
      "r = Inr x \<longrightarrow> w' = w2 \<and> (\<exists>bs. rr = Inr bs \<and> x = decode_map l h bs)"
      using assms o Inr rd
      by (auto simp: load_map_def tryM_def bindM_def lift_def ret_def split: sum.splits)
    with d lo(1) lr(2) n same_diskD [OF lo(1)] show ?thesis by (auto simp: usable_map_def)
  qed
  then show "same_disk w w'" "r = Inr x \<Longrightarrow> x = usable_map dest l h w" by simp_all
qed

lemma received_set_zeros [simp]: "received_set (replicate n 0) = {}"
  by (rule received_set_zero)

lemma count_received_zeros: "count_received (replicate n 0) = 0"
  by (simp add: count_received_card)

lemma wf_new_state:
  assumes "wf_layout l" "is_u64 (size l)" "length h = 32" "wf_bitmap (chunks l) bm" "n = count_received bm"
  shows "wf_state dest (new_state dest l h bm n)"
  using assms by (simp add: wf_state_def new_state_def)

text \<open>Resuming: a world that a crash may have left, and a map that matches the object.\<close>

lemma resume_in_session:
  assumes cs: "crash_safe dest l h ok w" and hist: "history w = [names w]"
    and l: "wf_layout l" "is_u64 (size l)" "length h = 32"
    and m: "usable_map dest l h w = Some bm"
    and p: "names w (part_of dest) = Some file" "length (content (inodes w ! file)) = size l"
  shows "in_session dest ok (new_state dest l h bm (count_received bm)) file w"
proof -
  from m obtain i where i: "names w (map_of_dest dest) = Some i" "decode_map l h (content (inodes w ! i)) = Some bm"
    by (auto simp: usable_map_def split: option.splits)
  have wf: "wf_world w" using cs by (simp add: crash_safe_def)
  note n = wf_world_names [OF wf]
  have t: "trusted dest l h ok (inodes w) (names w)" using cs n by (simp add: crash_safe_def)
  have only: "q = map_of_dest dest" if "names w q = Some i" for q
    using wf_world_inj [OF wf n that i(1)] .
  have ne: "i \<noteq> file" using only [of "part_of dest"] p(1) by auto
  have "session_maps dest (new_state dest l h bm (count_received bm)) file w"
    unfolding session_maps_def hist new_state_def
    by (simp add: i p(1), intro conjI allI impI ne, rule only)
  moreover have "session_file ok (new_state dest l h bm (count_received bm)) (inodes w ! file)"
    using t i p by (auto simp: trusted_def session_file_def new_state_def chunk_on_disk_def)
  moreover have "wf_state dest (new_state dest l h bm (count_received bm))"
    using wf_new_state [OF l decode_map_wf [OF i(2)]] by simp
  ultimately show ?thesis using cs p by (simp add: in_session_def new_state_def)
qed

text \<open>Whatever \<open>open\<close> meets, the chunks that it reports as received are the sender's.\<close>

lemma start_afresh_empty:
  "start_afresh pid dest l h w = (Inr (file, st), w') \<Longrightarrow> received_set (bitmap st) = {}"
  by (auto simp: start_afresh_def bindM_def new_state_def ret_def Let_def split: prod.splits sum.splits)

lemma resume_open_cases:
  assumes "resume_open pid dest l hash_hex w = (Inr (file, st), w')"
    "resume_decode_hash hash_hex = Inr h"
  obtains (resumed) bm where "usable_map dest l h w = Some bm" "same_disk w w'"
      "st = new_state dest l h bm (count_received bm)" "names w (part_of dest) = Some file"
      "length (content (inodes w ! file)) = size l"
  | (afresh) w1 where "same_disk w w1" "start_afresh pid dest l h w1 = (Inr (file, st), w')"
proof -
  obtain rl w1 where lm: "load_map (map_of_dest dest) l h w = (rl, w1)" by fastforce
  note ll = load_map_looks [OF lm]
  from assms lm obtain loaded where rl: "rl = Inr loaded"
    by (cases rl) (auto simp: resume_open_def bindM_def lift_def)
  show thesis
  proof (cases loaded)
    case None
    then have "start_afresh pid dest l h w1 = (Inr (file, st), w')"
      using assms lm rl by (simp add: resume_open_def bindM_def lift_def)
    then show thesis using ll(1) afresh by blast
  next
    case (Some bm)
    obtain rf w2 where fl: "file_len (part_of dest) w1 = (rf, w2)" by fastforce
    note lf = file_len_looks [OF fl]
    have d2: "same_disk w w2" using same_disk_trans ll(1) lf(1) by blast
    show thesis
    proof (cases "rf = Inr (size l)")
      case False
      then have "start_afresh pid dest l h w2 = (Inr (file, st), w')"
        using assms lm rl Some fl by (simp add: resume_open_def bindM_def lift_def tryM_def)
      then show thesis using d2 afresh by blast
    next
      case True
      obtain ro w3 where op: "open_file (part_of dest) w2 = (ro, w3)" by fastforce
      note lo = open_file_looks [OF op]
      from True assms lm rl Some fl op have o: "ro = Inr file" "w' = w3"
        "st = new_state dest l h bm (count_received bm)"
        by (auto simp: resume_open_def bindM_def lift_def tryM_def ret_def split: sum.splits)
      show thesis
      proof (rule resumed)
        show "usable_map dest l h w = Some bm" using ll(2) rl Some by simp
        show "same_disk w w'" using o(2) same_disk_trans d2 lo(1) by blast
        show "st = new_state dest l h bm (count_received bm)" by (rule o(3))
        show f: "names w (part_of dest) = Some file" using lo(2) o(1) same_diskD [OF d2] by simp
        show "length (content (inodes w ! file)) = size l"
          using lf(2) [OF True] f same_diskD [OF ll(1)] by auto
      qed
    qed
  qed
qed

lemma resume_open_claims:
  assumes "crash_safe dest l h ok w" "history w = [names w]" "wf_layout l" "is_u64 (size l)" "length h = 32"
    "resume_decode_hash hash_hex = Inr h" "resume_open pid dest l hash_hex w = (Inr (file, st), w')"
    "s \<in> received_set (bitmap st)"
  shows "ok s (chunk_bytes l (content (inodes w' ! file)) s)"
  using assms(7,6)
proof (cases rule: resume_open_cases)
  case (resumed bm)
  have "in_session dest ok st file w"
    using resume_in_session [OF assms(1-5) resumed(1,4,5)] resumed(3) by simp
  then show ?thesis using assms(8) resumed(2,3)
    by (auto simp: in_session_def session_file_def new_state_def dest: same_diskD)
next
  case (afresh w1)
  then show ?thesis using start_afresh_empty assms(8) by blast
qed

text \<open>Starting afresh where no usable map exists.\<close>

definition part_opened :: "string \<Rightarrow> chunk_layout \<Rightarrow> bytes \<Rightarrow> nat \<Rightarrow> world \<Rightarrow> bool" where
  "part_opened dest l h file w \<longleftrightarrow> wf_world w \<and> names w (part_of dest) = Some file
     \<and> (\<forall>nm\<in>set (history w). (\<forall>j. nm (part_of dest) = Some j \<longrightarrow> j = file)
       \<and> (\<forall>i. nm (map_of_dest dest) = Some i \<longrightarrow> i \<noteq> file \<and> fully_stable (inodes w ! i)
            \<and> decode_map l h (content (inodes w ! i)) = None
            \<and> (\<forall>p. names w p = Some i \<longrightarrow> p = map_of_dest dest)))"

definition no_usable_map ::
    "string \<Rightarrow> chunk_layout \<Rightarrow> bytes \<Rightarrow> (nat \<Rightarrow> bytes \<Rightarrow> bool) \<Rightarrow> world \<Rightarrow> bool" where
  "no_usable_map dest l h ok w \<longleftrightarrow>
     crash_safe dest l h ok w \<and> history w = [names w] \<and> usable_map dest l h w = None"

lemma usable_map_faults [simp]:
  "usable_map dest l h (w\<lparr>faults := fs, alive := a\<rparr>) = usable_map dest l h w"
  unfolding usable_map_def by (cases "names w (map_of_dest dest)") simp_all

lemma fault_blind_opened [simp]:
  "fault_blind (part_opened dest l h file)" "fault_blind (no_usable_map dest l h ok)"
  by (simp_all add: fault_blind_def part_opened_def no_usable_map_def wf_world_def crash_safe_def)

lemma part_opened_crash_safe: "part_opened dest l h file w \<Longrightarrow> crash_safe dest l h ok w"
  by (auto simp: part_opened_def crash_safe_def trusted_def)

lemma create_part:
  "triple (no_usable_map dest l h ok) (create_file (part_of dest))
     (part_opened dest l h) (crash_safe dest l h ok)"
  unfolding create_file_def
proof (rule triple_call)
  let ?q = "part_of dest" and ?m = "map_of_dest dest"
  show "triple (no_usable_map dest l h ok) (\<lambda>w. case names w ?q of
      Some i \<Rightarrow> (Inr i, set_inode i \<lparr>content = [], stable = {}\<rparr> w)
    | None \<Rightarrow> (Inr (length (inodes w)), set_names ((names w)(?q \<mapsto> length (inodes w)))
          (w\<lparr>inodes := inodes w @ [\<lparr>content = [], stable = {}\<rparr>]\<rparr>)))
     (part_opened dest l h) (crash_safe dest l h ok)"
    unfolding triple_def
  proof (intro allI impI)
    fix w assume p: "no_usable_map dest l h ok w"
    then have wf: "wf_world w" and hist: "history w = [names w]"
      and t: "trusted dest l h ok (inodes w) (names w)"
      and u: "names w ?m = Some i \<Longrightarrow> decode_map l h (content (inodes w ! i)) = None" for i
      by (auto simp: no_usable_map_def crash_safe_def usable_map_def)
    note n = wf_world_names [OF wf]
    have fs: "names w ?m = Some i \<Longrightarrow> fully_stable (inodes w ! i)" for i using t by (simp add: trusted_def)
    have inj: "names w x = Some i \<Longrightarrow> names w y = Some i \<Longrightarrow> x = y" for x y i
      using wf_world_inj [OF wf n] .
    have b: "names w x = Some i \<Longrightarrow> i < length (inodes w)" for x i using wf_world_bound [OF wf n] .
    show "case (case names w ?q of
        Some i \<Rightarrow> (Inr i, set_inode i \<lparr>content = [], stable = {}\<rparr> w)
      | None \<Rightarrow> (Inr (length (inodes w)), set_names ((names w)(?q \<mapsto> length (inodes w)))
            (w\<lparr>inodes := inodes w @ [\<lparr>content = [], stable = {}\<rparr>]\<rparr>)))
      of (Inl e, w') \<Rightarrow> crash_safe dest l h ok w' | (Inr file, w') \<Rightarrow> part_opened dest l h file w'"
    proof (cases "names w ?q")
      case (Some f)
      have m: "i \<noteq> f" if "names w ?m = Some i" for i using inj [OF that, of ?q] Some by auto
      have "wf_world (set_inode f \<lparr>content = [], stable = {}\<rparr> w)"
        by (rule wf_world_set_inode [OF wf]) (simp add: wf_inode_def)
      then have "part_opened dest l h f (set_inode f \<lparr>content = [], stable = {}\<rparr> w)"
        unfolding part_opened_def
      proof (intro conjI ballI allI impI)
        show "names (set_inode f \<lparr>content = [], stable = {}\<rparr> w) ?q = Some f" using Some by (simp add: set_inode_def)
        fix nm assume "nm \<in> set (history (set_inode f \<lparr>content = [], stable = {}\<rparr> w))"
        then have nm: "nm = names w" using hist by (simp add: set_inode_def)
        show "nm ?q = Some j \<Longrightarrow> j = f" for j using nm Some by simp
        fix i assume "nm ?m = Some i"
        then have i: "names w ?m = Some i" using nm by simp
        show "i \<noteq> f" by (rule m [OF i])
        then show "fully_stable (inodes (set_inode f \<lparr>content = [], stable = {}\<rparr> w) ! i)"
          "decode_map l h (content (inodes (set_inode f \<lparr>content = [], stable = {}\<rparr> w) ! i)) = None"
          using fs [OF i] u [OF i] by (simp_all add: set_inode_def)
        show "names (set_inode f \<lparr>content = [], stable = {}\<rparr> w) p = Some i \<Longrightarrow> p = ?m" for p
          using inj [OF _ i] by (simp add: set_inode_def)
      qed
      then show ?thesis using Some by simp
    next
      case None
      let ?w = "set_names ((names w)(?q \<mapsto> length (inodes w)))
          (w\<lparr>inodes := inodes w @ [\<lparr>content = [], stable = {}\<rparr>]\<rparr>)"
      have m: "i < length (inodes w)" if "names w ?m = Some i" for i using b that .
      have nth: "inodes ?w ! i = inodes w ! i" if "names w ?m = Some i" for i
        using m [OF that] by (simp add: set_names_def nth_append)
      have only: "p = ?m" if "names ?w p = Some i" "names w ?m = Some i" for p i
        using that m [OF that(2)] inj [of p i ?m] by (auto simp: set_names_def split: if_splits)
      have maps: "nm ?m = names w ?m" if "nm \<in> set (history ?w)" for nm
        using that hist by (auto simp: set_names_def)
      have parts: "nm ?q = Some j \<Longrightarrow> j = length (inodes w)" if "nm \<in> set (history ?w)" for nm j
        using that hist None by (auto simp: set_names_def)
      have "part_opened dest l h (length (inodes w)) ?w"
        unfolding part_opened_def
      proof (intro conjI ballI allI impI)
        show "wf_world ?w" by (rule wf_world_fresh_name [OF wf])
        show "names ?w ?q = Some (length (inodes w))" by (simp add: set_names_def)
        fix nm assume nm: "nm \<in> set (history ?w)"
        show "nm ?q = Some j \<Longrightarrow> j = length (inodes w)" for j by (rule parts [OF nm])
        fix i assume "nm ?m = Some i"
        then have i: "names w ?m = Some i" using maps [OF nm] by simp
        show "i \<noteq> length (inodes w)" using m [OF i] by simp
        show "fully_stable (inodes ?w ! i)" "decode_map l h (content (inodes ?w ! i)) = None"
          using fs [OF i] u [OF i] nth [OF i] by simp_all
        show "names ?w p = Some i \<Longrightarrow> p = ?m" for p by (rule only [OF _ i])
      qed
      then show ?thesis unfolding None by simp
    qed
  qed
qed (simp_all add: no_usable_map_def)

lemma size_part:
  assumes l: "wf_layout l" "is_u64 (size l)" "length h = 32"
  shows "triple (part_opened dest l h file) (set_len file (size l))
    (\<lambda>_. in_session dest ok (new_state dest l h (replicate (div_ceil (chunks l) 64) 0) 0) file)
    (crash_safe dest l h ok)"
  unfolding set_len_def
proof (rule triple_call)
  let ?st = "new_state dest l h (replicate (div_ceil (chunks l) 64) 0) 0"
  have st: "wf_state dest ?st"
    by (rule wf_new_state [OF l]) (simp_all add: count_received_zeros)
  show "triple (part_opened dest l h file) (\<lambda>w. let f = inodes w ! file in
     (Inr (), set_inode file \<lparr>content = take (size l) (content f) @ replicate (size l - length (content f)) 0,
        stable = stable f \<inter> {..<size l}\<rparr> w))
    (\<lambda>_. in_session dest ok ?st file) (crash_safe dest l h ok)"
    unfolding triple_def Let_def prod.case sum.case
  proof (intro allI impI)
    fix w assume o: "part_opened dest l h file w"
    let ?f = "\<lparr>content = take (size l) (content (inodes w ! file))
        @ replicate (size l - length (content (inodes w ! file))) 0,
        stable = stable (inodes w ! file) \<inter> {..<size l}\<rparr>"
    have wf: "wf_world w" and p: "names w (part_of dest) = Some file" using o by (simp_all add: part_opened_def)
    have b: "file < length (inodes w)" by (rule wf_world_bound [OF wf wf_world_names [OF wf] p])
    have "wf_inode ?f" using wf_world_inode [OF wf b] by (auto simp: wf_inode_def)
    then have w': "wf_world (set_inode file ?f w)" by (rule wf_world_set_inode [OF wf])
    have "part_opened dest l h file (set_inode file ?f w)"
      using o w' unfolding part_opened_def set_inode_def by (simp, metis nth_list_update_neq)
    then have cs: "crash_safe dest l h ok (set_inode file ?f w)"
      and "session_maps dest ?st file (set_inode file ?f w)"
      by (simp_all add: part_opened_crash_safe) (simp add: part_opened_def session_maps_def new_state_def)
    moreover have "session_file ok ?st (inodes (set_inode file ?f w) ! file)"
      using b by (simp add: session_file_def set_inode_def new_state_def)
    ultimately show "in_session dest ok ?st file (set_inode file ?f w)"
      using st p by (simp add: in_session_def set_inode_def) (simp add: new_state_def)
  qed
qed (simp_all add: part_opened_crash_safe)

lemma start_afresh_in_session:
  assumes l: "wf_layout l" "is_u64 (size l)" "length h = 32"
  shows "triple (no_usable_map dest l h ok) (start_afresh pid dest l h)
    (\<lambda>(file, st). in_session dest ok st file) (crash_safe dest l h ok)"
proof -
  let ?st = "new_state dest l h (replicate (div_ceil (chunks l) 64) 0) 0"
  have wst: "wf_state dest ?st"
    by (rule wf_new_state [OF l]) (simp_all add: count_received_zeros)
  have cs: "in_session dest ok ?st f w \<Longrightarrow> crash_safe dest l h ok w" for f w
    by (simp add: in_session_def new_state_def)
  have "triple (in_session dest ok ?st f) (checkpoint pid ?st f)
      (\<lambda>_. in_session dest ok ?st f) (crash_safe dest l h ok)" for f
    by (rule triple_conseq [OF checkpoint_keeps_session [OF wst]]) (auto dest: cs)
  then show ?thesis unfolding start_afresh_def Let_def
    by (intro triple_bind [OF create_part] triple_bind [OF size_part [OF l]])
      (auto intro!: triple_bind triple_ret)
qed

section \<open>Receiving chunks\<close>

lemma chunk_ranges_disjoint: "s \<noteq> t \<Longrightarrow> chunk_range l s \<inter> chunk_range l t = {}"
  using chunk_start_mono [of s t l] chunk_start_mono [of t s l]
  by (cases "s < t") (auto simp: chunk_range_def)

lemma chunk_bytes_same:
  assumes "wf_layout l" "x < chunks l" "length f = size l" "length g = size l"
    "\<forall>k\<in>chunk_range l x. g ! k = f ! k"
  shows "chunk_bytes l g x = chunk_bytes l f x"
  using assms chunk_inside [OF assms(1,2)] unfolding chunk_bytes_def
  by (subst nth_range_eq_read) (auto simp: chunk_range_def)

text \<open>A write that leaves the received chunks as they are.\<close>

lemma in_session_rewrite:
  assumes s: "in_session dest ok st file w" and off: "off + length bs \<le> size (shape st)"
    and same: "\<forall>x\<in>received_set (bitmap st). \<forall>k\<in>chunk_range (shape st) x.
      write_bytes (content (inodes w ! file)) off bs ! k = content (inodes w ! file) ! k"
  shows "in_session dest ok st file (set_inode file (written (inodes w ! file) off bs) w)"
proof -
  let ?l = "shape st" and ?f = "inodes w ! file"
  let ?g = "written ?f off bs"
  have b: "file < length (inodes w)" by (rule in_session_file [OF s])
  have wf: "wf_world w" by (rule in_session_wf [OF s])
  have lay: "wf_layout ?l" and sf: "session_file ok st ?f" and wb: "wf_bitmap (chunks ?l) (bitmap st)"
    using s by (simp_all add: in_session_def wf_state_def)
  have fit: "off + length bs \<le> length (content ?f)" using off sf by (simp add: session_file_def)
  have "wf_inode ?g" by (rule wf_inode_written [OF wf_world_inode [OF wf b]]) (use fit in simp)
  then have w': "wf_world (set_inode file ?g w)" by (rule wf_world_set_inode [OF wf])
  have bytes: "chunk_bytes ?l (content ?g) x = chunk_bytes ?l (content ?f) x" if "x \<in> received_set (bitmap st)" for x
    by (rule chunk_bytes_same [OF lay]) (use that same wb fit sf in
      \<open>auto simp: written_def Let_def length_write_bytes session_file_def wf_bitmap_def\<close>)
  have chunk: "chunk_on_disk ?l ok ?g x" if "chunk_on_disk ?l ok ?f x" "x \<in> received_set (bitmap st)" for x
    using that same bytes [OF that(2)] by (auto simp: chunk_on_disk_def written_def Let_def)
  have maps: "session_maps dest st file w" using s by (simp add: in_session_def)
  have notfile: "i \<noteq> file" if "nm \<in> set (history w)" "nm (map_of_dest dest) = Some i" for nm i
    using maps that by (auto simp: session_maps_def)
  have "trusted dest ?l (object_hash st) ok ((inodes w)[file := ?g]) nm" if nm: "nm \<in> set (history w)" for nm
    unfolding trusted_def
  proof (intro allI impI conjI)
    fix i assume i: "nm (map_of_dest dest) = Some i"
    have t: "trusted dest ?l (object_hash st) ok (inodes w) nm" using s nm by (simp add: in_session_def crash_safe_def)
    have same: "(inodes w)[file := ?g] ! i = inodes w ! i" using notfile [OF nm i] by simp
    show "fully_stable ((inodes w)[file := ?g] ! i)" using t i same by (simp add: trusted_def)
    show "\<forall>x\<in>received_set bm. chunk_on_disk ?l ok ((inodes w)[file := ?g] ! j) x"
      if "nm (part_of dest) = Some j \<and> decode_map ?l (object_hash st) (content ((inodes w)[file := ?g] ! i)) = Some bm"
      for j bm
    proof
      fix x assume x: "x \<in> received_set bm"
      have j: "j = file" "received_set bm \<subseteq> received_set (bitmap st)"
        using that maps nm i same by (auto simp: session_maps_def)
      have "chunk_on_disk ?l ok ?f x" using t i that x same j(1) by (auto simp: trusted_def)
      then show "chunk_on_disk ?l ok ((inodes w)[file := ?g] ! j) x"
        using chunk x j b by auto
    qed
  qed
  moreover have "session_maps dest st file (set_inode file ?g w)"
    unfolding session_maps_def
  proof (intro ballI)
    fix nm assume "nm \<in> set (history (set_inode file ?g w))"
    then have nm: "nm \<in> set (history w)" by (simp add: set_inode_def)
    have same: "nm (map_of_dest dest) = Some i \<Longrightarrow> (inodes w)[file := ?g] ! i = inodes w ! i" for i
      using notfile [OF nm] by simp
    show "(\<forall>j. nm (part_of dest) = Some j \<longrightarrow> j = file) \<and>
        (\<forall>i. nm (map_of_dest dest) = Some i \<longrightarrow> i \<noteq> file \<and>
          (\<forall>p. names (set_inode file ?g w) p = Some i \<longrightarrow> p = map_of_dest dest) \<and>
          (\<forall>bm. decode_map ?l (object_hash st) (content (inodes (set_inode file ?g w) ! i)) = Some bm
            \<longrightarrow> received_set bm \<subseteq> received_set (bitmap st)))"
      using maps [unfolded session_maps_def, rule_format, OF nm] same
      by (simp add: set_inode_def)
  qed
  moreover have "session_file ok st ?g"
    unfolding session_file_def
  proof (intro conjI ballI)
    show "length (content ?g) = size ?l"
      using sf fit by (simp add: session_file_def written_def Let_def length_write_bytes)
    fix x assume x: "x \<in> received_set (bitmap st)"
    then show "ok x (chunk_bytes ?l (content ?g) x)"
      using bytes [OF x] sf by (simp add: session_file_def)
  qed
  ultimately show ?thesis using s w' b by (simp add: in_session_def crash_safe_def set_inode_def)
qed

lemma in_session_write:
  assumes s: "in_session dest ok st file w" and c: "c < chunks (shape st)" "c \<notin> received_set (bitmap st)"
    and bs: "length bs \<le> chunk_length (shape st) c"
  shows "in_session dest ok st file
    (set_inode file (written (inodes w ! file) (chunk_start (shape st) c) bs) w)"
proof (rule in_session_rewrite [OF s])
  let ?l = "shape st" and ?f = "content (inodes w ! file)"
  have lay: "wf_layout ?l" and len: "length ?f = size ?l" and wb: "wf_bitmap (chunks ?l) (bitmap st)"
    using s by (simp_all add: in_session_def wf_state_def session_file_def)
  show fit: "chunk_start ?l c + length bs \<le> size ?l" using chunk_inside [OF lay c(1)] bs by simp
  show "\<forall>x\<in>received_set (bitmap st). \<forall>k\<in>chunk_range ?l x.
      write_bytes ?f (chunk_start ?l c) bs ! k = ?f ! k"
  proof (intro ballI)
    fix x k assume x: "x \<in> received_set (bitmap st)" and k: "k \<in> chunk_range ?l x"
    then have xc: "x < chunks ?l" and "x \<noteq> c" using wb c(2) by (auto simp: wf_bitmap_def)
    then have "k \<notin> chunk_range ?l c" using k chunk_ranges_disjoint [of x c ?l] by auto
    moreover have "k < size ?l" using k chunk_inside [OF lay xc] by (simp add: chunk_range_def)
    ultimately show "write_bytes ?f (chunk_start ?l c) bs ! k = ?f ! k"
      using fit len bs by (auto simp: nth_write_bytes chunk_range_def)
  qed
qed

lemma in_session_insert:
  assumes s: "in_session dest ok st file w" and c: "c < chunks (shape st)" "c \<notin> received_set (bitmap st)"
    and i: "bitmap_insert (bitmap st) c = Inr bm"
    and held: "ok c (chunk_bytes (shape st) (content (inodes w ! file)) c)"
  shows "in_session dest ok (st\<lparr>bitmap := bm, received_count := received_count st + 1\<rparr>) file w"
proof -
  have rs: "received_set bm = insert c (received_set (bitmap st))"
    using insert_Inr [OF i] by (auto simp: received_set_iff)
  have st: "wf_state dest st" using s by (simp add: in_session_def)
  then have "wf_bitmap (chunks (shape st)) bm"
    using c(1) rs length_insert [OF i] by (simp add: wf_state_def wf_bitmap_def)
  moreover have "count_received bm = count_received (bitmap st) + 1"
    using rs c(2) finite_subset [OF received_set_below] by (simp add: count_received_card)
  ultimately have "wf_state dest (st\<lparr>bitmap := bm, received_count := received_count st + 1\<rparr>)"
    using st by (simp add: wf_state_def)
  moreover have "session_maps dest (st\<lparr>bitmap := bm, received_count := received_count st + 1\<rparr>) file w"
    using s rs unfolding in_session_def session_maps_def by fastforce
  ultimately show ?thesis
    using s held rs by (simp add: in_session_def session_file_def)
qed

section \<open>Installing and discarding\<close>

lemma fault_blind_crash_safe [simp]: "fault_blind (crash_safe dest l h ok)"
  by (simp add: fault_blind_def crash_safe_def wf_world_def)

lemma crash_safe_names:
  assumes c: "crash_safe dest l h ok w" and wf: "wf_world (set_names nm w)"
    and m: "nm (map_of_dest dest) = None
      \<or> nm (map_of_dest dest) = names w (map_of_dest dest) \<and> nm (part_of dest) = None"
  shows "crash_safe dest l h ok (set_names nm w)"
proof -
  have "trusted dest l h ok (inodes w) (names w)"
    using c wf_world_names [of w] by (auto simp: crash_safe_def)
  then have "trusted dest l h ok (inodes w) nm" using m by (auto simp: trusted_def)
  then show ?thesis using c wf by (simp add: crash_safe_def set_names_def)
qed

lemma wf_world_fewer_names:
  assumes wf: "wf_world w" and nm: "\<And>p i. nm p = Some i \<Longrightarrow> names w (f p) = Some i"
    and f: "\<And>p q. nm p \<noteq> None \<Longrightarrow> nm q \<noteq> None \<Longrightarrow> f p = f q \<Longrightarrow> p = q"
  shows "wf_world (set_names nm w)"
proof -
  note n = wf_world_names [OF wf]
  show ?thesis unfolding wf_world_def
  proof (intro conjI ballI allI impI)
    fix nm' p i assume "nm' \<in> set (history (set_names nm w))" "nm' p = Some i"
    then show "i < length (inodes (set_names nm w))"
      using wf_world_bound [OF wf n nm] wf_world_bound [OF wf] by (auto simp: set_names_def)
  next
    fix nm' p q i assume h: "nm' \<in> set (history (set_names nm w))" "nm' p = Some i \<and> nm' q = Some i"
    show "p = q"
    proof (cases "nm' = nm")
      case True
      then have "f p = f q" using wf_world_inj [OF wf n nm nm] h by blast
      with True h f show ?thesis by auto
    next
      case False
      then show ?thesis using h wf_world_inj [OF wf, of nm' p i q] by (auto simp: set_names_def)
    qed
  qed (use wf in \<open>auto simp: set_names_def wf_world_def\<close>)
qed

lemma remove_safe:
  assumes "p = map_of_dest dest \<or> p = part_of dest"
  shows "triple (crash_safe dest l h ok) (remove_file p) (\<lambda>_. crash_safe dest l h ok) (crash_safe dest l h ok)"
  unfolding remove_file_def
proof (rule triple_call)
  show "triple (crash_safe dest l h ok) (\<lambda>w. case names w p of None \<Rightarrow> (Inl NotFound, w)
      | Some i \<Rightarrow> (Inr (), set_names ((names w)(p := None)) w))
      (\<lambda>_. crash_safe dest l h ok) (crash_safe dest l h ok)"
    unfolding triple_def
  proof (intro allI impI)
    fix w assume c: "crash_safe dest l h ok w"
    have "wf_world (set_names ((names w)(p := None)) w)"
      by (rule wf_world_fewer_names [where f = id]) (use c in \<open>auto simp: crash_safe_def split: if_splits\<close>)
    then have "crash_safe dest l h ok (set_names ((names w)(p := None)) w)"
      by (rule crash_safe_names [OF c]) (use assms in auto)
    then show "case (case names w p of None \<Rightarrow> (Inl NotFound, w)
        | Some i \<Rightarrow> (Inr (), set_names ((names w)(p := None)) w)) of
        (Inl e, w') \<Rightarrow> crash_safe dest l h ok w' | (Inr x, w') \<Rightarrow> crash_safe dest l h ok w'"
      using c by (simp split: option.split)
  qed
qed simp_all

lemma discard_safe:
  assumes "wf_state dest st"
  shows "triple (crash_safe dest l h ok) (resume_discard st) (\<lambda>_. crash_safe dest l h ok) (crash_safe dest l h ok)"
proof -
  have "part_path st = part_of dest" "map_path st = map_of_dest dest" using assms by (simp_all add: wf_state_def)
  then show ?thesis unfolding resume_discard_def
    by (auto intro!: triple_try [where R = "\<lambda>_. crash_safe dest l h ok"] triple_ret
        triple_conseq [OF remove_safe])
qed

definition installed :: "string \<Rightarrow> nat \<Rightarrow> bytes \<Rightarrow> world \<Rightarrow> bool" where
  "installed dest file bs w \<longleftrightarrow> names w dest = Some file \<and> content (inodes w ! file) = bs"

lemma rename_part:
  assumes st: "wf_state dest st"
  shows "triple (\<lambda>w. in_session dest ok st file w \<and> content (inodes w ! file) = bs)
    (rename_file (part_path st) dest)
    (\<lambda>_ w. crash_safe dest (shape st) (object_hash st) ok w \<and> installed dest file bs w)
    (crash_safe dest (shape st) (object_hash st) ok)"
  unfolding rename_file_def
proof (rule triple_call)
  have p: "part_path st = part_of dest" using st by (simp add: wf_state_def)
  show "triple (\<lambda>w. in_session dest ok st file w \<and> content (inodes w ! file) = bs)
    (\<lambda>w. case names w (part_path st) of None \<Rightarrow> (Inl NotFound, w)
      | Some i \<Rightarrow> (Inr (), set_names ((names w)(part_path st := None, dest \<mapsto> i)) w))
    (\<lambda>_ w. crash_safe dest (shape st) (object_hash st) ok w \<and> installed dest file bs w)
    (crash_safe dest (shape st) (object_hash st) ok)"
    unfolding triple_def p
  proof (intro allI impI, elim conjE)
    fix w assume s: "in_session dest ok st file w" and bs: "content (inodes w ! file) = bs"
    let ?nm = "(names w)(part_of dest := None, dest \<mapsto> file)"
    have n: "names w (part_of dest) = Some file" using s by (simp add: in_session_def)
    have ne: "dest \<noteq> part_of dest" "dest \<noteq> map_of_dest dest" by (simp_all add: appended_path_def)
    have c: "crash_safe dest (shape st) (object_hash st) ok w" using s by (simp add: in_session_def)
    have "wf_world (set_names ?nm w)"
    proof (rule wf_world_fewer_names [OF in_session_wf [OF s], where f = "\<lambda>q. if q = dest then part_of dest else q"])
      show "?nm q = Some i \<Longrightarrow> names w (if q = dest then part_of dest else q) = Some i" for q i
        using n by (auto split: if_splits)
      show "?nm q \<noteq> None \<Longrightarrow> ?nm r \<noteq> None \<Longrightarrow>
          (if q = dest then part_of dest else q) = (if r = dest then part_of dest else r) \<Longrightarrow> q = r" for q r
        by (auto split: if_splits)
    qed
    then have "crash_safe dest (shape st) (object_hash st) ok (set_names ?nm w)"
      by (rule crash_safe_names [OF c]) (use ne in auto)
    moreover have "installed dest file bs (set_names ?nm w)"
      using bs by (simp add: installed_def set_names_def)
    ultimately show "case (case names w (part_of dest) of None \<Rightarrow> (Inl NotFound, w)
        | Some i \<Rightarrow> (Inr (), set_names ((names w)(part_of dest := None, dest \<mapsto> i)) w)) of
        (Inl e, w') \<Rightarrow> crash_safe dest (shape st) (object_hash st) ok w'
      | (Inr x, w') \<Rightarrow> crash_safe dest (shape st) (object_hash st) ok w' \<and> installed dest file bs w'"
      using n by simp
  qed
qed (simp_all add: fault_blind_conj fault_blind_in_session in_session_def fault_blind_def crash_safe_def
    session_maps_def wf_world_def)

lemma remove_map_keeps_installed:
  "triple (installed dest file bs) (remove_file (map_of_dest dest))
     (\<lambda>_. installed dest file bs) (installed dest file bs)"
  unfolding remove_file_def
  by (rule triple_call)
    (auto simp: fault_blind_def installed_def triple_def set_names_def appended_path_def
      split: option.splits)

lemma remove_map_safe:
  "triple (\<lambda>w. crash_safe dest l h ok w \<and> installed dest file bs w) (remove_file (map_of_dest dest))
     (\<lambda>_ w. crash_safe dest l h ok w \<and> installed dest file bs w)
     (\<lambda>w. crash_safe dest l h ok w \<and> installed dest file bs w)"
  using remove_safe [of "map_of_dest dest" dest l h ok] remove_map_keeps_installed [of dest "file" bs]
  unfolding triple_def by (fastforce split: sum.splits prod.splits)

text \<open>A finished \<open>install\<close> puts the content of the part file under the destination; an unfinished
  one leaves a world from which the transfer resumes safely.\<close>

lemma install_safe:
  assumes st: "wf_state dest st"
  shows "triple (\<lambda>w. in_session dest ok st file w \<and> content (inodes w ! file) = bs) (resume_install st dest)
    (\<lambda>_ w. crash_safe dest (shape st) (object_hash st) ok w \<and> installed dest file bs w)
    (crash_safe dest (shape st) (object_hash st) ok)"
proof -
  have m: "map_path st = map_of_dest dest" using st by (simp add: wf_state_def)
  show ?thesis unfolding resume_install_def m
  proof (rule triple_bind [OF rename_part [OF st]], rule triple_try [where R = "\<lambda>_ w.
      crash_safe dest (shape st) (object_hash st) ok w \<and> installed dest file bs w"])
    show "triple (\<lambda>w. crash_safe dest (shape st) (object_hash st) ok w \<and> installed dest file bs w)
      (remove_file (map_of_dest dest))
      (\<lambda>_ w. crash_safe dest (shape st) (object_hash st) ok w \<and> installed dest file bs w)
      (\<lambda>w. \<forall>e. crash_safe dest (shape st) (object_hash st) ok w \<and> installed dest file bs w)"
      using remove_map_safe by simp
    show "triple (\<lambda>w. crash_safe dest (shape st) (object_hash st) ok w \<and> installed dest file bs w)
      (case r of Inr u \<Rightarrow> ret () | Inl NotFound \<Rightarrow> ret () | Inl e \<Rightarrow> throw e)
      (\<lambda>_ w. crash_safe dest (shape st) (object_hash st) ok w \<and> installed dest file bs w)
      (crash_safe dest (shape st) (object_hash st) ok)" for r :: "unit result"
      by (auto intro!: triple_ret triple_throw split: sum.split error.split)
  qed
qed

section \<open>A crash during a checkpoint\<close>

text \<open>The whole argument: a session, a checkpoint that may fail or be killed anywhere, a crash that
  loses unsynchronised data, and a resumption that may again meet faults.  Every chunk that the
  resumed receiver counts as received holds the sender's bytes.\<close>

lemma checkpoint_crash_resume:
  assumes s: "in_session dest ok st file w" and c: "checkpoint pid st file w = (r, w1)"
    and crash: "crashed w1 w2" and h: "resume_decode_hash hash_hex = Inr (object_hash st)"
    and o: "resume_open pid' dest (shape st) hash_hex w2 = (Inr (file', st'), w3)"
    and x: "x \<in> received_set (bitmap st')"
  shows "ok x (chunk_bytes (shape st) (content (inodes w3 ! file')) x)"
proof -
  have st: "wf_state dest st" using s by (simp add: in_session_def)
  have "in_session dest ok st file w1"
    using triple_Inr [OF checkpoint_keeps_session [OF st] s] triple_Inl [OF checkpoint_keeps_session [OF st] s] c
    by (cases r) auto
  then have "crash_safe dest (shape st) (object_hash st) ok w1" by (simp add: in_session_def)
  from crash_safe_crashed [OF this crash] have cs: "crash_safe dest (shape st) (object_hash st) ok w2" .
  have hist: "history w2 = [names w2]" using crash by (simp add: crashed_def)
  from st have l: "wf_layout (shape st)" "is_u64 (size (shape st))" "length (object_hash st) = 32"
    by (simp_all add: wf_state_def)
  show ?thesis by (rule resume_open_claims [OF cs hist l h o x])
qed

end
