(* ===== verification/Feedback.thy ===== *)
theory Feedback
  imports Codec Bitmap
begin

text \<open>
  Receiver telemetry and its wire form (\<open>src/main.rs\<close>): \<open>ReceiverTelemetry\<close>,
  \<open>format_feedback_report\<close>, \<open>parse_feedback_report\<close> and \<open>parse_range\<close>.  The lemmas show
  that the report the receiver formats is the report the sender reads, that the sender only
  accepts consistent counters, and that a report always fits the control channel.
\<close>

section \<open>Telemetry and reports\<close>

record telemetry =
  received_chunks :: nat
  frontier_chunks :: nat
  accepted_datagrams :: nat
  valid_datagrams :: nat
  duplicate_datagrams :: nat
  invalid_datagrams :: nat
  repair_datagrams :: nat
  socket_drops :: "nat option"
  reports :: nat

definition default_telemetry :: telemetry where
  "default_telemetry = \<lparr>received_chunks = 0, frontier_chunks = 0, accepted_datagrams = 0,
     valid_datagrams = 0, duplicate_datagrams = 0, invalid_datagrams = 0, repair_datagrams = 0,
     socket_drops = None, reports = 0\<rparr>"

definition MAX_RANGES_PER_REPORT :: nat where
  "MAX_RANGES_PER_REPORT = 512"

definition MAX_FEEDBACK_REPORT_SIZE :: nat where
  "MAX_FEEDBACK_REPORT_SIZE = 24 * 1024"

abbreviation comma :: char where
  "comma \<equiv> CHR '',''"

abbreviation dash :: char where
  "dash \<equiv> CHR ''-''"

definition show_range :: "nat \<times> nat \<Rightarrow> string" where
  "show_range r = (case r of (start, end) \<Rightarrow>
     if start = end then show_nat start else show_nat start @ dash # show_nat end)"

definition encode_ranges :: "(nat \<times> nat) list \<Rightarrow> string" where
  "encode_ranges ranges = join_with comma (map show_range ranges)"

definition format_feedback_report :: "telemetry \<Rightarrow> (nat \<times> nat) list \<Rightarrow> string" where
  "format_feedback_report t ranges =
     (let drops = (case socket_drops t of None \<Rightarrow> ''-'' | Some d \<Rightarrow> show_nat d);
          encoded = encode_ranges ranges;
          encoded_ranges = (if encoded = [] then ''-'' else encoded)
      in join_with sp
           [''M'', show_nat (received_chunks t), show_nat (frontier_chunks t),
            show_nat (accepted_datagrams t), show_nat (valid_datagrams t),
            show_nat (duplicate_datagrams t), show_nat (invalid_datagrams t),
            show_nat (repair_datagrams t), drops, encoded_ranges])"

definition consistent_counters :: "nat \<Rightarrow> telemetry \<Rightarrow> bool" where
  "consistent_counters chunks t \<longleftrightarrow>
     \<not> (chunks < received_chunks t \<or> chunks < frontier_chunks t
        \<or> received_chunks t < accepted_datagrams t
        \<or> valid_datagrams t < accepted_datagrams t
        \<or> valid_datagrams t < duplicate_datagrams t
        \<or> valid_datagrams t < repair_datagrams t
        \<or> checked_add (accepted_datagrams t) (duplicate_datagrams t) \<noteq> Some (valid_datagrams t))"

definition parse_drops :: "string \<Rightarrow> nat option result" where
  "parse_drops s =
     (if s = ''-'' then Inr None else and_then (parse_canonical_u64 s) (\<lambda>d. Inr (Some d)))"

definition parse_feedback_report :: "string \<Rightarrow> nat \<Rightarrow> (telemetry \<times> string) result" where
  "parse_feedback_report line chunks =
     (let fields = split_whitespace line
      in if length fields \<noteq> 10 \<or> fields ! 0 \<noteq> ''M''
         then Inl (Err ''invalid receiver feedback report'')
         else
           and_then (parse_drops (fields ! 8)) (\<lambda>drops.
           and_then (parse_canonical_u64 (fields ! 1)) (\<lambda>received.
           and_then (parse_canonical_u64 (fields ! 2)) (\<lambda>frontier.
           and_then (parse_canonical_u64 (fields ! 3)) (\<lambda>accepted.
           and_then (parse_canonical_u64 (fields ! 4)) (\<lambda>valid.
           and_then (parse_canonical_u64 (fields ! 5)) (\<lambda>duplicate.
           and_then (parse_canonical_u64 (fields ! 6)) (\<lambda>invalid.
           and_then (parse_canonical_u64 (fields ! 7)) (\<lambda>repair.
             (let t = \<lparr>received_chunks = received, frontier_chunks = frontier,
                accepted_datagrams = accepted, valid_datagrams = valid,
                duplicate_datagrams = duplicate, invalid_datagrams = invalid,
                repair_datagrams = repair, socket_drops = drops, reports = 0\<rparr>
              in if \<not> consistent_counters chunks t
                 then Inl (Err ''inconsistent receiver feedback counters'')
                 else Inr (t, if fields ! 9 = ''-'' then [] else fields ! 9)))))))))))"

definition parse_range :: "string \<Rightarrow> (nat \<times> nat) result" where
  "parse_range value =
     (case split_once dash value of
        Some (start, end) \<Rightarrow>
          and_then (parse_dec start) (\<lambda>s. and_then (parse_dec end) (\<lambda>e.
            if e < s then Inl (Err ''invalid missing range'') else Inr (s, e)))
      | None \<Rightarrow> and_then (parse_dec value) (\<lambda>sequence. Inr (sequence, sequence)))"

section \<open>Ranges\<close>

definition range_ok :: "nat \<times> nat \<Rightarrow> bool" where
  "range_ok r = (case r of (a, b) \<Rightarrow> a \<le> b \<and> is_u64 b)"

lemma parse_range_show: "range_ok r \<Longrightarrow> parse_range (show_range r) = Inr r"
proof -
  assume ok: "range_ok r"
  obtain a b where r: "r = (a, b)" by (cases r)
  with ok have ab: "a \<le> b" "a < 2 ^ 64" "b < 2 ^ 64" by (auto simp: range_ok_def is_u64_def)
  have d: "dash \<notin> set (show_nat n)" for n by (rule show_nat_notin) (simp add: is_ascii_digit_def)
  show ?thesis
  proof (cases "a = b")
    case True
    have "split_once dash (show_nat a) = None" using d by (simp add: split_once_None)
    with True r ab show ?thesis by (simp add: show_range_def parse_range_def parse_dec_show_nat)
  next
    case False
    have "split_once dash (show_nat a @ dash # show_nat b) = Some (show_nat a, show_nat b)"
      by (rule split_once_append [OF d])
    with False r ab show ?thesis by (simp add: show_range_def parse_range_def parse_dec_show_nat)
  qed
qed

interpretation range_codec: codec show_range parse_range range_ok
  by unfold_locales (rule parse_range_show)

lemma parse_range_ok: "parse_range s = Inr (a, b) \<Longrightarrow> a \<le> b"
  by (auto simp: parse_range_def and_then_eq_Inr split: option.splits if_splits)

lemma show_range_chars: "c \<in> set (show_range r) \<Longrightarrow> is_ascii_digit c \<or> c = dash"
  using show_nat_digits by (auto simp: show_range_def split: prod.splits if_splits)

lemma show_range_nonempty [simp]: "show_range r \<noteq> []"
  by (auto simp: show_range_def split: prod.splits)

lemma show_range_no_comma: "comma \<notin> set (show_range r)"
  using show_range_chars [of comma r] by (auto simp: is_ascii_digit_def)

lemma set_join_with: "set (join_with c xs) \<subseteq> insert c (\<Union>(set ` set xs))"
  by (induction c xs rule: join_with.induct) auto

lemma encode_ranges_chars: "c \<in> set (encode_ranges rs) \<Longrightarrow> is_ascii_digit c \<or> c = dash \<or> c = comma"
proof -
  assume "c \<in> set (encode_ranges rs)"
  then have "c = comma \<or> (\<exists>r\<in>set rs. c \<in> set (show_range r))"
    using set_join_with [of comma "map show_range rs"] by (auto simp: encode_ranges_def)
  then show ?thesis using show_range_chars by blast
qed

lemma encode_ranges_empty: "(encode_ranges rs = []) = (rs = [])"
proof (cases rs)
  case (Cons r rest)
  then show ?thesis by (cases rest) (auto simp: encode_ranges_def)
qed (simp add: encode_ranges_def)

lemma encode_ranges_field: "rs \<noteq> [] \<Longrightarrow> field (encode_ranges rs)"
  using encode_ranges_chars encode_ranges_empty by (fastforce simp: field_def is_ascii_digit_def)

lemma split_encode_ranges: "rs \<noteq> [] \<Longrightarrow> split_on comma (encode_ranges rs) = map show_range rs"
  unfolding encode_ranges_def by (rule split_on_join) (auto simp: show_range_no_comma)

lemma encode_ranges_not_dash: "rs \<noteq> [] \<Longrightarrow> encode_ranges rs \<noteq> ''-''"
proof
  assume "rs \<noteq> []" and e: "encode_ranges rs = ''-''"
  then obtain r rest where rs: "rs = r # rest" by (cases rs) auto
  have "hd (show_range r) = dash"
  proof (cases rest)
    case Nil
    with e rs show ?thesis by (simp add: encode_ranges_def)
  next
    case (Cons r' rest')
    with e rs have "show_range r @ comma # join_with comma (map show_range (r' # rest')) = [dash]"
      by (simp add: encode_ranges_def)
    then show ?thesis by (cases "show_range r") auto
  qed
  moreover obtain a b where "r = (a, b)" by (cases r)
  moreover have "hd (show_nat a) \<noteq> dash"
    using show_nat_digits [of "hd (show_nat a)" a] by (auto simp: is_ascii_digit_def)
  ultimately show False by (auto simp: show_range_def split: if_splits)
qed

section \<open>Round trip\<close>

definition telemetry_u64 :: "telemetry \<Rightarrow> bool" where
  "telemetry_u64 t \<longleftrightarrow>
     is_u64 (received_chunks t) \<and> is_u64 (frontier_chunks t) \<and> is_u64 (accepted_datagrams t)
     \<and> is_u64 (valid_datagrams t) \<and> is_u64 (duplicate_datagrams t) \<and> is_u64 (invalid_datagrams t)
     \<and> is_u64 (repair_datagrams t) \<and> (case socket_drops t of None \<Rightarrow> True | Some d \<Rightarrow> is_u64 d)"

definition show_drops :: "nat option \<Rightarrow> string" where
  "show_drops d = (case d of None \<Rightarrow> ''-'' | Some n \<Rightarrow> show_nat n)"

lemma parse_drops_show:
  "(case d of None \<Rightarrow> True | Some n \<Rightarrow> is_u64 n) \<Longrightarrow> parse_drops (show_drops d) = Inr d"
proof (cases d)
  case (Some n)
  assume "case d of None \<Rightarrow> True | Some n \<Rightarrow> is_u64 n"
  moreover have "show_nat n \<noteq> ''-''" using show_nat_no_minus [of n] by auto
  ultimately show ?thesis using Some by (simp add: parse_drops_def show_drops_def u64_codec.dec_enc)
qed (simp add: parse_drops_def show_drops_def)

lemma show_drops_field [simp]: "field (show_drops d)"
  by (auto simp: show_drops_def field_def [of "''-''"] split: option.splits)

definition ranges_field :: "(nat \<times> nat) list \<Rightarrow> string" where
  "ranges_field rs = (if encode_ranges rs = [] then ''-'' else encode_ranges rs)"

lemma ranges_field_field [simp]: "field (ranges_field rs)"
proof (cases "rs = []")
  case True
  then have "ranges_field rs = ''-''" by (simp add: ranges_field_def encode_ranges_empty)
  then show ?thesis by (simp add: field_def)
next
  case False
  then show ?thesis by (simp add: ranges_field_def encode_ranges_empty encode_ranges_field)
qed

lemma split_format_feedback_report:
  "split_whitespace (format_feedback_report t rs) =
     [''M'', show_nat (received_chunks t), show_nat (frontier_chunks t),
      show_nat (accepted_datagrams t), show_nat (valid_datagrams t),
      show_nat (duplicate_datagrams t), show_nat (invalid_datagrams t),
      show_nat (repair_datagrams t), show_drops (socket_drops t), ranges_field rs]"
  unfolding format_feedback_report_def Let_def show_drops_def [symmetric] ranges_field_def [symmetric]
  by (rule split_whitespace_join) (auto simp: field_def [of "''M''"])

lemma parse_format_feedback_report:
  assumes "telemetry_u64 t" "consistent_counters chunks t"
  shows "parse_feedback_report (format_feedback_report t rs) chunks
    = Inr (t\<lparr>reports := 0\<rparr>, encode_ranges rs)"
proof -
  have d: "parse_drops (show_drops (socket_drops t)) = Inr (socket_drops t)"
    using assms(1) by (intro parse_drops_show) (simp add: telemetry_u64_def)
  have c: "consistent_counters chunks (t\<lparr>reports := 0\<rparr>)"
    using assms(2) by (simp add: consistent_counters_def)
  have r: "(if ranges_field rs = ''-'' then [] else ranges_field rs) = encode_ranges rs"
    using encode_ranges_empty [of rs] encode_ranges_not_dash [of rs] by (auto simp: ranges_field_def)
  have t: "\<lparr>received_chunks = received_chunks t, frontier_chunks = frontier_chunks t,
      accepted_datagrams = accepted_datagrams t, valid_datagrams = valid_datagrams t,
      duplicate_datagrams = duplicate_datagrams t, invalid_datagrams = invalid_datagrams t,
      repair_datagrams = repair_datagrams t, socket_drops = socket_drops t, reports = 0\<rparr>
    = t\<lparr>reports := 0\<rparr>" by simp
  show ?thesis
    unfolding parse_feedback_report_def Let_def split_format_feedback_report
    using assms(1) d c r
    by (simp add: telemetry_u64_def u64_codec.dec_enc t split: if_splits)
qed

lemma parse_feedback_report_consistent:
  assumes "parse_feedback_report line chunks = Inr (t, ranges)"
  shows "consistent_counters chunks t \<and> telemetry_u64 t \<and> reports t = 0"
  using assms
  by (auto simp: parse_feedback_report_def Let_def and_then_eq_Inr u64_codec.dec_iff
      telemetry_u64_def parse_drops_def split: if_splits)

section \<open>Report size\<close>

lemma length_join_with:
  "\<forall>x\<in>set xs. length x \<le> k \<Longrightarrow> length (join_with c xs) \<le> length xs * (k + 1)"
proof (induction c xs rule: join_with.induct)
  case (3 c x y ys)
  then have "length (join_with c (y # ys)) \<le> length (y # ys) * (k + 1)" by simp
  moreover have "length x \<le> k" using 3 by simp
  ultimately show ?case by simp
qed auto

lemma length_show_range: "range_ok r \<Longrightarrow> length (show_range r) \<le> 41"
proof -
  assume "range_ok r"
  obtain a b where r: "r = (a, b)" by (cases r)
  with \<open>range_ok r\<close> have "a < 2 ^ 64" "b < 2 ^ 64" by (auto simp: range_ok_def is_u64_def)
  then show ?thesis using r length_show_nat_u64 [of a] length_show_nat_u64 [of b]
    by (auto simp: show_range_def)
qed

lemma length_encode_ranges:
  assumes "\<forall>r\<in>set rs. range_ok r"
  shows "length (encode_ranges rs) \<le> length rs * 42"
proof -
  have "\<forall>x\<in>set (map show_range rs). length x \<le> 41" using assms length_show_range by auto
  from length_join_with [OF this, of comma] show ?thesis by (simp add: encode_ranges_def)
qed

lemma length_format_feedback_report:
  assumes "telemetry_u64 t" "\<forall>r\<in>set rs. range_ok r" "length rs \<le> MAX_RANGES_PER_REPORT"
  shows "length (format_feedback_report t rs) \<le> MAX_FEEDBACK_REPORT_SIZE"
proof -
  have e: "length (encode_ranges rs) \<le> 21504"
    using length_encode_ranges [OF assms(2)] assms(3) by (simp add: MAX_RANGES_PER_REPORT_def)
  have n: "is_u64 n \<Longrightarrow> length (show_nat n) \<le> 20" for n
    using length_show_nat_u64 by (simp add: is_u64_def)
  have d: "length (show_drops (socket_drops t)) \<le> 20"
    using assms(1) n by (auto simp: show_drops_def telemetry_u64_def split: option.splits)
  have r: "length (ranges_field rs) \<le> 21504" using e by (simp add: ranges_field_def)
  have "length (format_feedback_report t rs)
    = 10 + length (show_nat (received_chunks t)) + length (show_nat (frontier_chunks t))
      + length (show_nat (accepted_datagrams t)) + length (show_nat (valid_datagrams t))
      + length (show_nat (duplicate_datagrams t)) + length (show_nat (invalid_datagrams t))
      + length (show_nat (repair_datagrams t)) + length (show_drops (socket_drops t))
      + length (ranges_field rs)"
    by (simp add: format_feedback_report_def Let_def show_drops_def ranges_field_def)
  then show ?thesis
    using assms(1) n [of "received_chunks t"] n [of "frontier_chunks t"] n [of "accepted_datagrams t"]
      n [of "valid_datagrams t"] n [of "duplicate_datagrams t"] n [of "invalid_datagrams t"]
      n [of "repair_datagrams t"] d r
    by (simp add: telemetry_u64_def MAX_FEEDBACK_REPORT_SIZE_def)
qed

lemma missing_ranges_below:
  assumes "r \<in> set (missing_ranges bm end max_ranges)"
  shows "fst r \<le> snd r \<and> snd r < end"
proof -
  obtain a b where r: "r = (a, b)" by (cases r)
  from missing_ranges_spec [of bm "end" max_ranges] obtain k where
    k: "separated (missing_ranges bm end max_ranges)" "k \<le> end"
       "range_members (missing_ranges bm end max_ranges) = {i. i < k \<and> \<not> bitmap_contains bm i}"
    by (auto simp: Let_def)
  then have "a \<le> b" using r assms by (auto simp: separated_def)
  moreover from this have "b \<in> range_members (missing_ranges bm end max_ranges)"
    using r assms by (auto simp: range_members_def intro!: bexI [of _ "(a, b)"])
  ultimately show ?thesis using k r by auto
qed

lemma missing_ranges_ok:
  assumes "is_u64 end" "r \<in> set (missing_ranges bm end max_ranges)"
  shows "range_ok r"
  using missing_ranges_below [OF assms(2)] assms(1) by (cases r) (simp add: range_ok_def is_u64_def)

end
