(* ===== verification/Cdc.thy ===== *)
theory Cdc
  imports Auth
begin

unbundle bit_operations_syntax

text \<open>
  \<open>src/cdc.rs\<close>: content-defined chunking with a rolling gear hash, and the canonical text of a
  chunk manifest.  SHA-256 is the parameter \<open>sha\<close> of \<open>Auth\<close>.

  \<open>scan\<close> cuts a file so that the chunks cover it exactly, within the length bounds, whatever the
  bytes are; \<open>encode\<close> and \<open>parse\<close> form a canonical codec of well-formed manifests.
\<close>

section \<open>Data\<close>

definition MIN_CHUNK_BYTES :: nat where "MIN_CHUNK_BYTES = 16 * 1024"
definition AVERAGE_CHUNK_BYTES :: nat where "AVERAGE_CHUNK_BYTES = 64 * 1024"
definition MAX_CHUNK_BYTES :: nat where "MAX_CHUNK_BYTES = 256 * 1024"
definition CDC_MAX_CHUNKS :: nat where "CDC_MAX_CHUNKS = 1000000"
definition MAX_ENCODED_BYTES :: nat where "MAX_ENCODED_BYTES = 64 * 1024 * 1024"

record chunk =
  ch_offset :: nat
  ch_length :: nat
  ch_hash :: bytes

record manifest =
  m_size :: nat
  m_chunks :: "chunk list"
  m_hash :: bytes

section \<open>Scanning\<close>

definition gear :: "byte \<Rightarrow> u64w" where
  "gear b =
     (let value = ucast b + 0x9e3779b97f4a7c15;
          value = (value XOR drop_bit 30 value) * 0xbf58476d1ce4e5b9;
          value = (value XOR drop_bit 27 value) * 0x94d049bb133111eb
      in value XOR drop_bit 31 value)"

record scanner =
  sc_chunks :: "chunk list"
  sc_offset :: nat
  sc_chunk :: bytes
  sc_rolling :: u64w

definition push_chunk ::
    "(bytes \<Rightarrow> 256 word) \<Rightarrow> chunk list \<Rightarrow> nat \<Rightarrow> bytes \<Rightarrow> chunk list result" where
  "push_chunk sha cs offset bs =
     (if CDC_MAX_CHUNKS \<le> length cs then Inl (Err ''content-defined chunk limit exceeded'')
      else if 2 ^ 32 \<le> length bs then Inl ParseErr
      else Inr (cs @ [\<lparr>ch_offset = offset, ch_length = length bs, ch_hash = digest sha bs\<rparr>]))"

text \<open>Closing a chunk: \<open>push_chunk\<close> and the advance of the offset, which the loop and the end of
  \<open>scan\<close> share.\<close>

definition close_chunk :: "(bytes \<Rightarrow> 256 word) \<Rightarrow> string \<Rightarrow> scanner \<Rightarrow> bytes \<Rightarrow> scanner result" where
  "close_chunk sha msg s bs =
     and_then (push_chunk sha (sc_chunks s) (sc_offset s) bs) (\<lambda>cs.
     and_then (ok_or (checked_add (sc_offset s) (length bs)) msg) (\<lambda>off.
       Inr \<lparr>sc_chunks = cs, sc_offset = off, sc_chunk = [], sc_rolling = 0\<rparr>))"

definition scan_byte :: "(bytes \<Rightarrow> 256 word) \<Rightarrow> scanner \<Rightarrow> byte \<Rightarrow> scanner result" where
  "scan_byte sha s b =
     (let rolling = push_bit 1 (sc_rolling s) + gear b;
          chunk = sc_chunk s @ [b]
      in if MIN_CHUNK_BYTES \<le> length chunk
           \<and> (rolling AND (of_nat AVERAGE_CHUNK_BYTES - 1) = 0 \<or> MAX_CHUNK_BYTES \<le> length chunk)
         then close_chunk sha ''content-defined offset overflow'' s chunk
         else Inr (s\<lparr>sc_chunk := chunk, sc_rolling := rolling\<rparr>))"

fun scan_bytes :: "(bytes \<Rightarrow> 256 word) \<Rightarrow> scanner \<Rightarrow> bytes \<Rightarrow> scanner result" where
  "scan_bytes sha s [] = Inr s"
| "scan_bytes sha s (b # bs) = and_then (scan_byte sha s b) (\<lambda>s'. scan_bytes sha s' bs)"

definition chunk_line :: "chunk \<Rightarrow> string" where
  "chunk_line c = ''C '' @ show_nat (ch_offset c) @ '' '' @ show_nat (ch_length c) @ '' '' @ hex (ch_hash c)"

definition header_line :: "nat \<Rightarrow> nat \<Rightarrow> string" where
  "header_line sz count = ''CDC1 '' @ show_nat sz @ '' '' @ show_nat count"

definition canonical_body :: "nat \<Rightarrow> chunk list \<Rightarrow> string" where
  "canonical_body sz cs = header_line sz (length cs) @ [lf] @ concat (map (\<lambda>c. chunk_line c @ [lf]) cs)"

definition finish_chunk :: "(bytes \<Rightarrow> 256 word) \<Rightarrow> scanner \<Rightarrow> scanner result" where
  "finish_chunk sha s =
     (if sc_chunk s \<noteq> [] then close_chunk sha ''content-defined size overflow'' s (sc_chunk s) else Inr s)"

text \<open>\<open>scan\<close>: \<open>metadata\<close> is whether the path is a regular file and its length, \<open>blocks\<close> what the
  reads returned until the end of the file.\<close>

definition scan :: "(bytes \<Rightarrow> 256 word) \<Rightarrow> bool \<times> nat \<Rightarrow> bytes list \<Rightarrow> manifest result" where
  "scan sha metadata blocks =
     (case metadata of (is_file, len) \<Rightarrow>
      if \<not> is_file then Inl (Err ''content-defined source is not a regular file'')
      else
      and_then (scan_bytes sha \<lparr>sc_chunks = [], sc_offset = 0, sc_chunk = [], sc_rolling = 0\<rparr> (concat blocks)) (\<lambda>s.
      and_then (finish_chunk sha s) (\<lambda>s.
      if sc_offset s \<noteq> len then Inl (Err ''content-defined source changed while it was scanned'')
      else
      let body = canonical_body (sc_offset s) (sc_chunks s) in
      if MAX_ENCODED_BYTES < sat_add (length body) 70
      then Inl (Err ''content-defined manifest byte limit exceeded'')
      else Inr \<lparr>m_size = sc_offset s, m_chunks = sc_chunks s, m_hash = digest sha (as_bytes body)\<rparr>)))"

section \<open>The manifest text\<close>

definition encode :: "manifest \<Rightarrow> string" where
  "encode m = canonical_body (m_size m) (m_chunks m) @ ''CHASH '' @ hex (m_hash m) @ [lf]"

text \<open>The loop of \<open>parse\<close>: the chunks, the lines read, the lines left and the expected offset.\<close>

fun parse_chunks ::
    "nat \<Rightarrow> nat \<Rightarrow> string list \<Rightarrow> nat \<Rightarrow> (chunk list \<times> string list \<times> string list \<times> nat) result" where
  "parse_chunks sz 0 ls expected = Inr ([], [], ls, expected)"
| "parse_chunks sz (Suc n) [] expected = Inl (Err ''content-defined manifest ended early'')"
| "parse_chunks sz (Suc n) (line # ls) expected =
     (let fields = split_on sp line in
      if length fields \<noteq> 4 \<or> fields ! 0 \<noteq> ''C'' then Inl (Err ''invalid content-defined chunk'')
      else
      and_then (cdc_parse_u64 (fields ! 1)) (\<lambda>offset.
      and_then (and_then (cdc_parse_u64 (fields ! 2)) (\<lambda>n. if n < 2 ^ 32 then Inr n else Inl ParseErr)) (\<lambda>len.
      if offset \<noteq> expected \<or> len = 0 \<or> MAX_CHUNK_BYTES < len
        \<or> len < MIN_CHUNK_BYTES \<and> offset + len \<noteq> sz
      then Inl (Err ''invalid content-defined chunk layout'')
      else
      and_then (ok_or (checked_add offset len) ''content-defined offset overflow'') (\<lambda>expected'.
      and_then (cdc_decode_hash (fields ! 3)) (\<lambda>h.
      and_then (parse_chunks sz n ls expected') (\<lambda>(cs, read, rest, final).
        Inr (\<lparr>ch_offset = offset, ch_length = len, ch_hash = h\<rparr> # cs, line # read, rest, final)))))))"

definition ends_with_lf :: "string \<Rightarrow> bool" where
  "ends_with_lf s \<longleftrightarrow> s \<noteq> [] \<and> last s = lf"

text \<open>The end of \<open>parse\<close>: the footer line and the two hash checks.\<close>

definition parse_footer ::
    "(bytes \<Rightarrow> 256 word) \<Rightarrow> nat \<Rightarrow> chunk list \<Rightarrow> string \<Rightarrow> string list \<Rightarrow> manifest result" where
  "parse_footer sha sz cs body rest =
     (case rest of
        [] \<Rightarrow> Inl (Err ''missing content-defined manifest hash'')
      | footer # trailing \<Rightarrow>
          if trailing \<noteq> [] then Inl (Err ''trailing content-defined manifest data'')
          else
          and_then (ok_or (strip_prefix ''CHASH '' footer) ''invalid content-defined hash footer'') (\<lambda>hx.
          and_then (cdc_decode_hash hx) (\<lambda>h.
          if h \<noteq> digest sha (as_bytes body) \<or> canonical_body sz cs \<noteq> body
          then Inl (Err ''content-defined manifest hash or encoding mismatch'')
          else Inr \<lparr>m_size = sz, m_chunks = cs, m_hash = h\<rparr>)))"

definition parse :: "(bytes \<Rightarrow> 256 word) \<Rightarrow> string \<Rightarrow> manifest result" where
  "parse sha encoded =
     (if MAX_ENCODED_BYTES < length encoded \<or> \<not> ends_with_lf encoded \<or> cr \<in> set encoded
      then Inl (Err ''content-defined manifest is not canonically terminated'')
      else case lines encoded of
        [] \<Rightarrow> Inl (Err ''missing content-defined header'')
      | header # ls \<Rightarrow>
       (let fields = split_on sp header in
        if length fields \<noteq> 3 \<or> fields ! 0 \<noteq> ''CDC1'' then Inl (Err ''invalid content-defined header'')
        else
        and_then (cdc_parse_u64 (fields ! 1)) (\<lambda>sz.
        and_then (cdc_parse_u64 (fields ! 2)) (\<lambda>count.
        if CDC_MAX_CHUNKS < count then Inl (Err ''content-defined chunk limit exceeded'')
        else
        and_then (parse_chunks sz count ls 0) (\<lambda>(cs, read, rest, final).
        let body = header @ [lf] @ unlines read in
        if final \<noteq> sz \<or> (sz = 0) \<noteq> (cs = [])
        then Inl (Err ''content-defined chunks do not cover the object'')
        else parse_footer sha sz cs body rest)))))"

section \<open>Well-formed manifests\<close>

text \<open>Chunks that follow each other from \<open>off\<close> to the end, within the bounds.\<close>

fun contiguous :: "nat \<Rightarrow> nat \<Rightarrow> chunk list \<Rightarrow> bool" where
  "contiguous sz off [] = (off = sz)"
| "contiguous sz off (c # cs) =
     (ch_offset c = off \<and> 0 < ch_length c \<and> ch_length c \<le> MAX_CHUNK_BYTES
      \<and> (ch_length c < MIN_CHUNK_BYTES \<longrightarrow> off + ch_length c = sz)
      \<and> length (ch_hash c) = 32 \<and> is_u64 (off + ch_length c)
      \<and> contiguous sz (off + ch_length c) cs)"

definition wf_manifest :: "(bytes \<Rightarrow> 256 word) \<Rightarrow> manifest \<Rightarrow> bool" where
  "wf_manifest sha m \<longleftrightarrow> contiguous (m_size m) 0 (m_chunks m) \<and> is_u64 (m_size m)
     \<and> length (m_chunks m) \<le> CDC_MAX_CHUNKS
     \<and> m_hash m = digest sha (as_bytes (canonical_body (m_size m) (m_chunks m)))"

section \<open>Round trips\<close>

lemma chunk_line_fields:
  "length (ch_hash c) = 32 \<Longrightarrow>
    split_on sp (chunk_line c) = [''C'', show_nat (ch_offset c), show_nat (ch_length c), hex (ch_hash c)]"
  using split_on_join [of "[''C'', show_nat (ch_offset c), show_nat (ch_length c), hex (ch_hash c)]" sp]
  by (simp add: chunk_line_def field_no_space hex_notin lower_hex_def is_ascii_hexdigit_def is_ascii_digit_def)

lemma header_line_fields: "split_on sp (header_line n k) = [''CDC1'', show_nat n, show_nat k]"
  using split_on_join [of "[''CDC1'', show_nat n, show_nat k]" sp]
  by (simp add: header_line_def field_no_space)

lemma header_line_clean: "lf \<notin> set (header_line n k) \<and> cr \<notin> set (header_line n k)"
  using field_no_space [OF show_nat_field [of n]] field_no_space [OF show_nat_field [of k]]
  by (simp add: header_line_def)

lemma hex_clean: "lf \<notin> set (hex bs)" "cr \<notin> set (hex bs)" "sp \<notin> set (hex bs)"
  by (simp_all add: hex_notin lower_hex_def is_ascii_hexdigit_def is_ascii_digit_def)

lemma chunk_line_clean: "lf \<notin> set (chunk_line c) \<and> cr \<notin> set (chunk_line c)"
  using field_no_space [OF show_nat_field [of "ch_offset c"]] field_no_space [OF show_nat_field [of "ch_length c"]]
  by (simp add: chunk_line_def hex_clean)

lemma canonical_body_unlines: "canonical_body sz cs = unlines (header_line sz (length cs) # map chunk_line cs)"
  by (simp add: canonical_body_def unlines_def o_def)

lemma parse_chunks_lines:
  "contiguous sz off cs \<Longrightarrow>
    parse_chunks sz (length cs) (map chunk_line cs @ rest) off = Inr (cs, map chunk_line cs, rest, sz)"
proof (induction cs arbitrary: off)
  case (Cons c cs)
  from Cons.prems have c: "ch_offset c = off" "0 < ch_length c" "ch_length c \<le> MAX_CHUNK_BYTES"
    "ch_length c < MIN_CHUNK_BYTES \<longrightarrow> off + ch_length c = sz" "length (ch_hash c) = 32"
    "is_u64 (off + ch_length c)" "contiguous sz (off + ch_length c) cs" by simp_all
  have u: "is_u64 off" "is_u64 (ch_length c)" "ch_length c < 2 ^ 32"
    using c(3,6) by (simp_all add: is_u64_def MAX_CHUNK_BYTES_def)
  then have p: "cdc_parse_u64 (show_nat off) = Inr off" "cdc_parse_u64 (show_nat (ch_length c)) = Inr (ch_length c)"
    by (simp_all add: cdc_parse_u64_iff)
  have a: "checked_add off (ch_length c) = Some (off + ch_length c)"
    using c(6) by (simp add: is_u64_def)
  have "c = \<lparr>ch_offset = off, ch_length = ch_length c, ch_hash = ch_hash c\<rparr>" using c(1) by simp
  then show ?case
    using Cons.IH [OF c(7)] c u p a
    by (simp add: chunk_line_fields cdc_decode_hash_hex)
qed simp

lemma contiguous_le: "contiguous sz off cs \<Longrightarrow> off \<le> sz"
proof (induction cs arbitrary: off)
  case (Cons c cs)
  from Cons.prems have "off + ch_length c \<le> sz" by (intro Cons.IH) simp
  then show ?case by simp
qed simp

lemma contiguous_empty: "contiguous sz 0 cs \<Longrightarrow> (sz = 0) = (cs = [])"
  by (cases cs) (auto dest: contiguous_le)

lemma parse_encode [codec_simps]:
  assumes w: "wf_manifest sha m" and l: "length (encode m) \<le> MAX_ENCODED_BYTES"
  shows "parse sha (encode m) = Inr m"
proof -
  let ?cs = "m_chunks m" and ?sz = "m_size m"
  let ?h = "header_line ?sz (length ?cs)" and ?f = "''CHASH '' @ hex (m_hash m)"
  let ?ls = "?h # map chunk_line ?cs @ [?f]"
  from w have c: "contiguous ?sz 0 ?cs" "is_u64 ?sz" "length ?cs \<le> CDC_MAX_CHUNKS"
    "m_hash m = digest sha (as_bytes (canonical_body ?sz ?cs))" by (simp_all add: wf_manifest_def)
  have e: "encode m = unlines ?ls"
    by (simp add: encode_def canonical_body_unlines)
  have clean: "\<forall>x\<in>set ?ls. lf \<notin> set x \<and> cr \<notin> set x"
    using header_line_clean chunk_line_clean by (auto simp: hex_clean)
  then have ln: "lines (encode m) = ?ls" unfolding e by (rule lines_unlines)
  have t: "ends_with_lf (encode m)" by (simp add: ends_with_lf_def encode_def)
  have "cr \<notin> set (encode m)" unfolding e using clean by (auto simp: unlines_def)
  moreover have p: "parse_chunks ?sz (length ?cs) (map chunk_line ?cs @ [?f]) 0 = Inr (?cs, map chunk_line ?cs, [?f], ?sz)"
    by (rule parse_chunks_lines [OF c(1)])
  moreover have n: "cdc_parse_u64 (show_nat ?sz) = Inr ?sz" "cdc_parse_u64 (show_nat (length ?cs)) = Inr (length ?cs)"
    using c(2,3) by (simp_all add: cdc_parse_u64_iff is_u64_def CDC_MAX_CHUNKS_def)
  moreover have b: "?h @ lf # unlines (map chunk_line ?cs) = canonical_body ?sz ?cs"
    by (simp add: canonical_body_unlines)
  moreover have "length (m_hash m) = 32" using c(4) by simp
  ultimately show ?thesis
    using l t ln c(3) contiguous_empty [OF c(1)] c(4)
    by (simp add: parse_def parse_footer_def header_line_fields cdc_decode_hash_hex Let_def
        strip_prefix_append [of "''CHASH ''", simplified])
qed

lemma parse_chunks_Inr:
  "parse_chunks sz n ls off = Inr (cs, read, rest, final) \<Longrightarrow> final = sz \<Longrightarrow>
    ls = read @ rest \<and> length cs = n \<and> contiguous sz off cs"
proof (induction n arbitrary: ls off cs read)
  case (Suc n)
  then obtain line ls' where ls: "ls = line # ls'" by (cases ls) auto
  from Suc.prems(1) obtain len expected' h cs' read' where
    p: "0 < len" "len \<le> MAX_CHUNK_BYTES" "len < MIN_CHUNK_BYTES \<longrightarrow> off + len = sz"
      "checked_add off len = Some expected'" "cdc_decode_hash (split_on sp line ! 3) = Inr h"
      "parse_chunks sz n ls' expected' = Inr (cs', read', rest, final)"
      "cs = \<lparr>ch_offset = off, ch_length = len, ch_hash = h\<rparr> # cs'" "read = line # read'"
    unfolding ls by (auto simp: and_then_eq_Inr Let_def split: if_splits prod.splits)
  have e: "expected' = off + len" "off + len < 2 ^ 64" using p(4) by simp_all
  from Suc.IH [OF p(6) Suc.prems(2)] have "ls' = read' @ rest" "length cs' = n" "contiguous sz (off + len) cs'"
    using e by simp_all
  then show ?case using p(1-3,7,8) e(2) cdc_decode_hash_Inr [OF p(5)] by (simp add: ls is_u64_def)
qed simp

lemma parse_Inr:
  assumes "parse sha s = Inr m"
  shows "wf_manifest sha m \<and> length s \<le> MAX_ENCODED_BYTES \<and> encode m = s"
proof -
  from assms have s: "length s \<le> MAX_ENCODED_BYTES" "ends_with_lf s" "cr \<notin> set s"
    by (auto simp: parse_def split: if_splits)
  from assms s obtain header ls sz count cs read rest where
    p: "lines s = header # ls" "cdc_parse_u64 (split_on sp header ! 1) = Inr sz" "\<not> CDC_MAX_CHUNKS < count"
      "parse_chunks sz count ls 0 = Inr (cs, read, rest, sz)"
    and q: "parse_footer sha sz cs (header @ [lf] @ unlines read) rest = Inr m"
    by (auto simp: parse_def and_then_eq_Inr Let_def split: if_splits list.splits prod.splits)
  from q obtain footer hx h where f: "rest = [footer]" "strip_prefix ''CHASH '' footer = Some hx"
    "cdc_decode_hash hx = Inr h" "h = digest sha (as_bytes (header @ [lf] @ unlines read))"
    "canonical_body sz cs = header @ [lf] @ unlines read" "m = \<lparr>m_size = sz, m_chunks = cs, m_hash = h\<rparr>"
    by (auto simp: parse_footer_def and_then_eq_Inr split: list.splits if_splits)
  from parse_chunks_Inr [OF p(4) refl] have c: "ls = read @ rest" "length cs = count" "contiguous sz 0 cs"
    by simp_all
  have "is_u64 sz" using p(2) by (simp add: cdc_parse_u64_iff)
  then have "wf_manifest sha m" using c p(3) f(4-6) by (simp add: wf_manifest_def)
  moreover have "footer = ''CHASH '' @ hex h"
    using f(2) cdc_decode_hash_Inr [OF f(3)] by (simp add: strip_prefix_Some)
  then have "encode m = unlines (lines s)"
    using f(1,5,6) p(1) c(1) by (simp add: encode_def)
  then have "encode m = s" using unlines_lines [of s] s by (simp add: ends_with_lf_def)
  ultimately show ?thesis using s by blast
qed

interpretation cdc_manifest: canonical_codec encode "parse sha"
  "\<lambda>m. wf_manifest sha m \<and> length (encode m) \<le> MAX_ENCODED_BYTES" for sha
  by unfold_locales (auto simp: parse_encode dest: parse_Inr)

section \<open>What scanning guarantees\<close>

text \<open>Closed chunks: they follow each other from \<open>off\<close> to \<open>e\<close>, within both bounds, and carry the
  hash of their bytes.\<close>

fun closed_chunks :: "(bytes \<Rightarrow> 256 word) \<Rightarrow> bytes \<Rightarrow> nat \<Rightarrow> chunk list \<Rightarrow> nat \<Rightarrow> bool" where
  "closed_chunks sha bs off [] e = (off = e)"
| "closed_chunks sha bs off (c # cs) e =
     (ch_offset c = off \<and> MIN_CHUNK_BYTES \<le> ch_length c \<and> ch_length c \<le> MAX_CHUNK_BYTES
      \<and> off + ch_length c \<le> length bs \<and> ch_hash c = digest sha (read_bytes bs off (ch_length c))
      \<and> closed_chunks sha bs (off + ch_length c) cs e)"

definition scan_inv :: "(bytes \<Rightarrow> 256 word) \<Rightarrow> bytes \<Rightarrow> scanner \<Rightarrow> bool" where
  "scan_inv sha bs s \<longleftrightarrow> closed_chunks sha bs 0 (sc_chunks s) (sc_offset s) \<and> sc_offset s \<le> length bs
     \<and> sc_chunk s = drop (sc_offset s) bs \<and> length (sc_chunk s) < MAX_CHUNK_BYTES
     \<and> is_u64 (sc_offset s) \<and> length (sc_chunks s) \<le> CDC_MAX_CHUNKS"

lemma closed_chunks_le: "closed_chunks sha bs off cs e \<Longrightarrow> off \<le> length bs \<Longrightarrow> e \<le> length bs \<and> off \<le> e"
  by (induction cs arbitrary: off) (auto, force)

lemma closed_chunks_append: "closed_chunks sha bs off cs e \<Longrightarrow> closed_chunks sha (bs @ xs) off cs e"
  by (induction cs arbitrary: off) (auto simp: read_bytes_def)

lemma closed_chunks_snoc:
  "closed_chunks sha bs off (cs @ [c]) e =
    (closed_chunks sha bs off cs (ch_offset c) \<and> MIN_CHUNK_BYTES \<le> ch_length c \<and> ch_length c \<le> MAX_CHUNK_BYTES
     \<and> ch_offset c + ch_length c \<le> length bs
     \<and> ch_hash c = digest sha (read_bytes bs (ch_offset c) (ch_length c)) \<and> e = ch_offset c + ch_length c)"
  by (induction cs arbitrary: off) auto

lemma close_chunk_Inr:
  assumes "close_chunk sha msg s bs = Inr s'"
  shows "s' = \<lparr>sc_chunks = sc_chunks s @ [\<lparr>ch_offset = sc_offset s, ch_length = length bs, ch_hash = digest sha bs\<rparr>],
      sc_offset = sc_offset s + length bs, sc_chunk = [], sc_rolling = 0\<rparr>
    \<and> sc_offset s + length bs < 2 ^ 64 \<and> length (sc_chunks s) < CDC_MAX_CHUNKS"
  using assms by (auto simp: close_chunk_def push_chunk_def and_then_eq_Inr split: if_splits)

lemma MIN_MAX: "0 < MIN_CHUNK_BYTES" "MIN_CHUNK_BYTES \<le> MAX_CHUNK_BYTES" "MAX_CHUNK_BYTES < 2 ^ 32"
  by (simp_all add: MIN_CHUNK_BYTES_def MAX_CHUNK_BYTES_def)

lemma scan_byte_inv:
  assumes i: "scan_inv sha bs s" and b: "scan_byte sha s b = Inr s'"
  shows "scan_inv sha (bs @ [b]) s'"
proof -
  let ?c = "sc_chunk s @ [b]"
  have c: "?c = drop (sc_offset s) (bs @ [b])" and o: "sc_offset s \<le> length bs"
    using i by (simp_all add: scan_inv_def)
  have "length (sc_chunk s) < MAX_CHUNK_BYTES" using i unfolding scan_inv_def by blast
  then have l: "length ?c \<le> MAX_CHUNK_BYTES" by simp
  have cl: "closed_chunks sha (bs @ [b]) 0 (sc_chunks s) (sc_offset s)"
    using i by (simp add: scan_inv_def closed_chunks_append)
  show ?thesis
  proof (cases "MIN_CHUNK_BYTES \<le> length ?c
      \<and> ((push_bit 1 (sc_rolling s) + gear b) AND (of_nat AVERAGE_CHUNK_BYTES - 1) = 0 \<or> MAX_CHUNK_BYTES \<le> length ?c)")
    case True
    then have "close_chunk sha ''content-defined offset overflow'' s ?c = Inr s'"
      using b by (simp add: scan_byte_def Let_def)
    note s' = close_chunk_Inr [OF this]
    have "read_bytes (bs @ [b]) (sc_offset s) (length ?c) = ?c" by (simp add: read_bytes_def c)
    moreover have "sc_offset s + length ?c = length (bs @ [b])" using c o by simp
    ultimately have "closed_chunks sha (bs @ [b]) 0 (sc_chunks s') (sc_offset s')"
      using cl True l s' by (simp add: closed_chunks_snoc)
    then show ?thesis using s' \<open>sc_offset s + length ?c = length (bs @ [b])\<close> MIN_MAX
      by (simp add: scan_inv_def is_u64_def)
  next
    case False
    then have s': "s' = s\<lparr>sc_chunk := ?c, sc_rolling := push_bit 1 (sc_rolling s) + gear b\<rparr>"
      using b by (auto simp: scan_byte_def Let_def split: if_splits)
    have "length ?c < MAX_CHUNK_BYTES" using False l MIN_MAX(2) by linarith
    then show ?thesis using i c o cl unfolding s' scan_inv_def by simp
  qed
qed

lemma scan_bytes_inv: "scan_inv sha bs s \<Longrightarrow> scan_bytes sha s xs = Inr s' \<Longrightarrow> scan_inv sha (bs @ xs) s'"
proof (induction xs arbitrary: bs s)
  case (Cons x xs)
  from Cons.prems(2) obtain s1 where "scan_byte sha s x = Inr s1" "scan_bytes sha s1 xs = Inr s'"
    by (auto simp: and_then_eq_Inr)
  then show ?case using Cons.IH [of "bs @ [x]" s1] scan_byte_inv [OF Cons.prems(1)] by simp
qed simp

lemma closed_chunks_contiguous:
  "closed_chunks sha bs off cs e \<Longrightarrow> is_u64 e \<Longrightarrow> contiguous e off cs"
proof (induction cs arbitrary: off)
  case (Cons c cs)
  then have "contiguous e (off + ch_length c) cs" by simp
  moreover from contiguous_le [OF this] Cons.prems(2) have "is_u64 (off + ch_length c)" by (simp add: is_u64_def)
  ultimately show ?case using Cons.prems(1) MIN_MAX by simp
qed simp

lemma contiguous_last:
  "closed_chunks sha bs off cs e \<Longrightarrow> 0 < n \<Longrightarrow> n \<le> MAX_CHUNK_BYTES \<Longrightarrow> is_u64 (e + n) \<Longrightarrow> length h = 32 \<Longrightarrow>
    contiguous (e + n) off (cs @ [\<lparr>ch_offset = e, ch_length = n, ch_hash = h\<rparr>])"
proof (induction cs arbitrary: off)
  case (Cons c cs)
  then have "contiguous (e + n) (off + ch_length c) (cs @ [\<lparr>ch_offset = e, ch_length = n, ch_hash = h\<rparr>])" by simp
  moreover from contiguous_le [OF this] Cons.prems(4) have "is_u64 (off + ch_length c)" by (simp add: is_u64_def)
  ultimately show ?case using Cons.prems(1) MIN_MAX by simp
qed simp

lemma closed_chunks_hash:
  "closed_chunks sha bs off cs e \<Longrightarrow> c \<in> set cs \<Longrightarrow> ch_hash c = digest sha (read_bytes bs (ch_offset c) (ch_length c))"
  by (induction cs arbitrary: off) auto

text \<open>The chunks of a scanned file cover it, lie within the bounds and carry the hashes of their bytes.\<close>

lemma scan_Inr:
  assumes "scan sha (is_file, len) blocks = Inr m"
  shows "is_file \<and> wf_manifest sha m \<and> m_size m = len \<and> len = length (concat blocks)
    \<and> (\<forall>c\<in>set (m_chunks m). ch_hash c = digest sha (read_bytes (concat blocks) (ch_offset c) (ch_length c)))"
proof -
  let ?bs = "concat blocks" and ?s0 = "\<lparr>sc_chunks = [], sc_offset = 0, sc_chunk = [], sc_rolling = 0\<rparr>"
  from assms obtain s s' where
    f: "is_file" and s: "scan_bytes sha ?s0 ?bs = Inr s"
    and s': "finish_chunk sha s = Inr s'"
    and m: "sc_offset s' = len" "m = \<lparr>m_size = sc_offset s', m_chunks = sc_chunks s',
        m_hash = digest sha (as_bytes (canonical_body (sc_offset s') (sc_chunks s')))\<rparr>"
    by (auto simp: scan_def and_then_eq_Inr Let_def split: if_splits)
  have "scan_inv sha [] ?s0" by (simp add: scan_inv_def MAX_CHUNK_BYTES_def is_u64_def)
  from scan_bytes_inv [OF this s] have i: "scan_inv sha ?bs s" by simp
  have "contiguous (sc_offset s') 0 (sc_chunks s') \<and> sc_offset s' = length ?bs \<and> is_u64 (sc_offset s')
    \<and> length (sc_chunks s') \<le> CDC_MAX_CHUNKS
    \<and> (\<forall>c\<in>set (sc_chunks s'). ch_hash c = digest sha (read_bytes ?bs (ch_offset c) (ch_length c)))"
  proof (cases "sc_chunk s = []")
    case True
    then have "s' = s" using s' by (simp add: finish_chunk_def)
    then show ?thesis using i True closed_chunks_contiguous closed_chunks_hash
      by (auto simp: scan_inv_def)
  next
    case False
    then have "close_chunk sha ''content-defined size overflow'' s (sc_chunk s) = Inr s'" using s' by (simp add: finish_chunk_def)
    note c = close_chunk_Inr [OF this]
    have e: "sc_offset s + length (sc_chunk s) = length ?bs" using i by (simp add: scan_inv_def)
    have "read_bytes ?bs (sc_offset s) (length (sc_chunk s)) = sc_chunk s"
      using i by (simp add: scan_inv_def read_bytes_def)
    moreover have "is_u64 (sc_offset s + length (sc_chunk s))" using c by (simp add: is_u64_def)
    moreover have "length (sc_chunk s) < MAX_CHUNK_BYTES" using i unfolding scan_inv_def by blast
    then have "0 < length (sc_chunk s)" "length (sc_chunk s) \<le> MAX_CHUNK_BYTES" using False by simp_all
    ultimately show ?thesis
      using c e contiguous_last [of sha ?bs 0 "sc_chunks s" "sc_offset s" "length (sc_chunk s)" "digest sha (sc_chunk s)"]
        i closed_chunks_hash by (auto simp: scan_inv_def)
  qed
  then show ?thesis using f m by (auto simp: wf_manifest_def)
qed

section \<open>Resynchronisation\<close>

text \<open>Where a chunk ends depends only on the bytes since the last boundary: once two files share a
  boundary and continue alike, their chunks have the same lengths and hashes from there on.\<close>

definition signature :: "chunk list \<Rightarrow> (nat \<times> bytes) list" where
  "signature cs = map (\<lambda>c. (ch_length c, ch_hash c)) cs"

definition aligned :: "scanner \<Rightarrow> scanner \<Rightarrow> bool" where
  "aligned s t \<longleftrightarrow> sc_chunk s = sc_chunk t \<and> sc_rolling s = sc_rolling t"

lemma scan_byte_aligned:
  assumes a: "aligned s t" and s: "scan_byte sha s b = Inr s'" and t: "scan_byte sha t b = Inr t'"
  shows "aligned s' t' \<and> (\<exists>ys. signature (sc_chunks s') = signature (sc_chunks s) @ ys
    \<and> signature (sc_chunks t') = signature (sc_chunks t) @ ys)"
proof -
  let ?c = "sc_chunk t @ [b]" and ?r = "push_bit 1 (sc_rolling t) + gear b"
  have e: "sc_chunk s = sc_chunk t" "sc_rolling s = sc_rolling t" using a by (simp_all add: aligned_def)
  show ?thesis
  proof (cases "MIN_CHUNK_BYTES \<le> length ?c
      \<and> (?r AND (of_nat AVERAGE_CHUNK_BYTES - 1) = 0 \<or> MAX_CHUNK_BYTES \<le> length ?c)")
    case True
    then have "close_chunk sha ''content-defined offset overflow'' s ?c = Inr s'"
      "close_chunk sha ''content-defined offset overflow'' t ?c = Inr t'"
      using s t e by (simp_all add: scan_byte_def Let_def)
    from this [THEN close_chunk_Inr] show ?thesis by (simp add: aligned_def signature_def)
  next
    case False
    then have "s' = s\<lparr>sc_chunk := ?c, sc_rolling := ?r\<rparr>" "t' = t\<lparr>sc_chunk := ?c, sc_rolling := ?r\<rparr>"
      using s t e by (auto simp: scan_byte_def Let_def split: if_splits)
    then show ?thesis by (simp add: aligned_def signature_def)
  qed
qed

lemma scan_bytes_aligned:
  assumes "aligned s t" "scan_bytes sha s xs = Inr s'" "scan_bytes sha t xs = Inr t'"
  shows "aligned s' t' \<and> (\<exists>ys. signature (sc_chunks s') = signature (sc_chunks s) @ ys
    \<and> signature (sc_chunks t') = signature (sc_chunks t) @ ys)"
  using assms
proof (induction xs arbitrary: s t)
  case (Cons x xs)
  from Cons.prems(2,3) obtain s1 t1 where x: "scan_byte sha s x = Inr s1" "scan_byte sha t x = Inr t1"
    "scan_bytes sha s1 xs = Inr s'" "scan_bytes sha t1 xs = Inr t'" by (auto simp: and_then_eq_Inr)
  from scan_byte_aligned [OF Cons.prems(1) x(1,2)] obtain ys where
    ys: "aligned s1 t1" "signature (sc_chunks s1) = signature (sc_chunks s) @ ys"
      "signature (sc_chunks t1) = signature (sc_chunks t) @ ys" by blast
  from Cons.IH [OF ys(1) x(3,4)] ys show ?case by (metis append.assoc)
qed simp

lemma finish_chunk_aligned:
  assumes "aligned s t" "finish_chunk sha s = Inr s'" "finish_chunk sha t = Inr t'"
  shows "\<exists>ys. signature (sc_chunks s') = signature (sc_chunks s) @ ys
    \<and> signature (sc_chunks t') = signature (sc_chunks t) @ ys"
proof (cases "sc_chunk s = []")
  case True
  then show ?thesis using assms by (auto simp: finish_chunk_def aligned_def)
next
  case False
  then have "close_chunk sha ''content-defined size overflow'' s (sc_chunk t) = Inr s'"
    "close_chunk sha ''content-defined size overflow'' t (sc_chunk t) = Inr t'"
    using assms by (auto simp: finish_chunk_def aligned_def)
  from this [THEN close_chunk_Inr] show ?thesis by (simp add: signature_def)
qed

definition new_scanner :: scanner where
  "new_scanner = \<lparr>sc_chunks = [], sc_offset = 0, sc_chunk = [], sc_rolling = 0\<rparr>"

lemma scan_bytes_append:
  "scan_bytes sha s (xs @ ys) = and_then (scan_bytes sha s xs) (\<lambda>s'. scan_bytes sha s' ys)"
  by (induction xs arbitrary: s) (auto simp: and_then_def split: sum.splits)

lemma boundary_rolling: "scan_bytes sha new_scanner xs = Inr s \<Longrightarrow> sc_chunk s = [] \<Longrightarrow> sc_rolling s = 0"
proof (induction xs arbitrary: s rule: rev_induct)
  case (snoc x xs)
  from snoc.prems(1) obtain s1 where s1: "scan_byte sha s1 x = Inr s"
    by (auto simp: scan_bytes_append and_then_eq_Inr)
  show ?case
  proof (cases "MIN_CHUNK_BYTES \<le> length (sc_chunk s1 @ [x])
      \<and> ((push_bit 1 (sc_rolling s1) + gear x) AND (of_nat AVERAGE_CHUNK_BYTES - 1) = 0
         \<or> MAX_CHUNK_BYTES \<le> length (sc_chunk s1 @ [x]))")
    case True
    then have "close_chunk sha ''content-defined offset overflow'' s1 (sc_chunk s1 @ [x]) = Inr s"
      using s1 by (simp add: scan_byte_def Let_def)
    from close_chunk_Inr [OF this] show ?thesis by simp
  next
    case False
    then have "sc_chunk s = sc_chunk s1 @ [x]"
      using s1 by (auto simp: scan_byte_def Let_def split: if_splits)
    then show ?thesis using snoc.prems(2) by simp
  qed
qed (simp add: new_scanner_def)

lemma scan_resynchronises:
  assumes a: "scan_bytes sha new_scanner xs = Inr s" "sc_chunk s = []"
    and b: "scan_bytes sha new_scanner ys = Inr t" "sc_chunk t = []"
    and m: "scan sha (True, n) [xs @ common] = Inr m" and k: "scan sha (True, n') [ys @ common] = Inr k"
  shows "\<exists>tail. signature (m_chunks m) = signature (sc_chunks s) @ tail
    \<and> signature (m_chunks k) = signature (sc_chunks t) @ tail"
proof -
  have al: "aligned s t" using a b boundary_rolling by (simp add: aligned_def)
  from m a obtain s1 s2 where s: "scan_bytes sha s common = Inr s1" "finish_chunk sha s1 = Inr s2" "m_chunks m = sc_chunks s2"
    by (auto simp: scan_def new_scanner_def [symmetric] scan_bytes_append and_then_eq_Inr Let_def split: if_splits)
  from k b obtain t1 t2 where t: "scan_bytes sha t common = Inr t1" "finish_chunk sha t1 = Inr t2" "m_chunks k = sc_chunks t2"
    by (auto simp: scan_def new_scanner_def [symmetric] scan_bytes_append and_then_eq_Inr Let_def split: if_splits)
  from scan_bytes_aligned [OF al s(1) t(1)] obtain u where
    u: "aligned s1 t1" "signature (sc_chunks s1) = signature (sc_chunks s) @ u"
      "signature (sc_chunks t1) = signature (sc_chunks t) @ u" by blast
  from finish_chunk_aligned [OF u(1) s(2) t(2)] u(2,3) s(3) t(3) show ?thesis by fastforce
qed

text \<open>The size check of \<open>scan\<close> counts 70 bytes for a footer of 71: the largest body it lets pass
  has an encoding that \<open>parse\<close> refuses.\<close>

lemma scan_limit_off_by_one:
  assumes "length (canonical_body (m_size m) (m_chunks m)) + 70 = MAX_ENCODED_BYTES" "length (m_hash m) = 32"
  shows "\<not> MAX_ENCODED_BYTES < sat_add (length (canonical_body (m_size m) (m_chunks m))) 70
    \<and> parse sha (encode m) = Inl (Err ''content-defined manifest is not canonically terminated'')"
  using assms by (simp add: parse_def encode_def sat_add_def MAX_ENCODED_BYTES_def)

end
