(* ===== verification/Hello.thy ===== *)
theory Hello
  imports Packet Feedback Cdc
begin

text \<open>
  The negotiation that follows the handshake (\<open>src/main.rs\<close>): the greeting body that \<open>send\<close>
  writes and \<open>parse_hello\<close> reads, the content-reuse manifest (\<open>read_reuse_manifest\<close>), the lane
  split of TCP4, and the receiver's answer - inventory of durable chunks included - that
  \<open>read_acceptance\<close> reads.

  A duration is a number of milliseconds here (both sides exchange whole milliseconds); a control
  stream is the list of payloads still to be received, each possibly failing.
\<close>

section \<open>The greeting\<close>

datatype transport = Tcp | Tcp4 | Udp

definition transport_parse :: "string \<Rightarrow> transport result" where
  "transport_parse value =
     (if value = ''tcp'' then Inr Tcp else if value = ''tcp4'' then Inr Tcp4
      else if value = ''udp'' then Inr Udp
      else Inl (Err ''unknown transport; expected tcp, tcp4, or udp''))"

definition wire_name :: "transport \<Rightarrow> string" where
  "wire_name t = (case t of Tcp \<Rightarrow> ''TCP'' | Tcp4 \<Rightarrow> ''TCP4'' | Udp \<Rightarrow> ''UDP'')"

definition display_name :: "transport \<Rightarrow> string" where
  "display_name t = (case t of Tcp \<Rightarrow> ''tcp'' | Tcp4 \<Rightarrow> ''tcp4'' | Udp \<Rightarrow> ''udp'')"

record hello =
  h_transport :: transport
  h_layout :: chunk_layout
  h_hash :: string
  h_session :: bytes
  h_report_interval :: nat
  h_repair_grace :: nat
  h_reuse :: "(nat \<times> bytes) option"

text \<open>The greeting that \<open>send\<close> formats.\<close>

definition reuse_greeting :: "(nat \<times> bytes) option \<Rightarrow> string list" where
  "reuse_greeting r = (case r of None \<Rightarrow> [''R0''] | Some (count, h) \<Rightarrow> [''R1'', show_nat count, hex h])"

definition format_hello :: "hello \<Rightarrow> string" where
  "format_hello h = join_with sp
     ([wire_name (h_transport h), show_nat (size (h_layout h)), h_hash h, hex (h_session h),
       show_nat (chunks (h_layout h)), show_nat (payload_bytes (h_layout h)),
       show_nat (h_report_interval h), show_nat (h_repair_grace h)] @ reuse_greeting (h_reuse h))"

definition parse_wire_transport :: "string \<Rightarrow> transport result" where
  "parse_wire_transport value =
     (if value = ''TCP'' then Inr Tcp else if value = ''TCP4'' then Inr Tcp4
      else if value = ''UDP'' then Inr Udp else Inl (Err ''invalid transport in greeting''))"

definition parse_reuse :: "string list \<Rightarrow> (nat \<times> bytes) option result" where
  "parse_reuse parts =
     (if parts ! 8 = ''R0'' \<and> length parts = 9 then Inr None
      else if parts ! 8 = ''R1'' \<and> length parts = 11 then
        and_then (parse_canonical_u64 (parts ! 9)) (\<lambda>count.
        if CDC_MAX_CHUNKS < count then Inl (Err ''content-defined chunk limit exceeded'')
        else and_then (decode_array 32 (parts ! 10)) (\<lambda>h. Inr (Some (count, h))))
      else Inl (Err ''invalid content-reuse greeting''))"

text \<open>The checks that \<open>parse_hello\<close> makes on the fields.\<close>

definition check_hello :: "hello \<Rightarrow> hello result" where
  "check_hello h =
     and_then (decode_array 32 (h_hash h)) (\<lambda>_.
      let l = h_layout h in
      if \<not> (256 \<le> payload_bytes l \<and> payload_bytes l \<le> 1424)
      then Inl (Err ''UDP payload size is outside the supported bounds'')
      else if \<not> (10 \<le> h_report_interval h \<and> h_report_interval h \<le> 10000)
      then Inl (Err ''feedback interval is outside the supported bounds'')
      else if chunks l \<noteq> div_ceil (size l) (payload_bytes l)
      then Inl (Err ''chunk count does not match file size'')
      else if max_chunks < chunks l
      then Inl (Err ''file exceeds the bounded receipt-map limit'')
      else if h_repair_grace h < h_report_interval h \<or> 60 * 1000 < h_repair_grace h
      then Inl (Err ''repair grace must cover at least one feedback interval and at most 60 seconds'')
      else if h_reuse h \<noteq> None \<and> h_transport h \<noteq> Udp
      then Inl (Err ''content reuse is supported only by UDP'')
      else Inr h)"

definition parse_hello :: "string \<Rightarrow> hello result" where
  "parse_hello line =
     (let parts = split_whitespace line in
      if length parts < 9 then Inl (Err ''invalid authenticated TSU4 greeting body'')
      else
      and_then (parse_wire_transport (parts ! 0)) (\<lambda>t.
      and_then (parse_reuse parts) (\<lambda>r.
      and_then (parse_canonical_u64 (parts ! 1)) (\<lambda>fsize.
      and_then (decode_array 16 (parts ! 3)) (\<lambda>sid.
      and_then (parse_canonical_u64 (parts ! 4)) (\<lambda>count.
      and_then (parse_canonical_u64 (parts ! 5)) (\<lambda>payload.
      and_then (parse_canonical_u64 (parts ! 6)) (\<lambda>interval.
      and_then (parse_canonical_u64 (parts ! 7)) (\<lambda>grace.
      check_hello
        \<lparr>h_transport = t, h_layout = \<lparr>size = fsize, chunks = count, payload_bytes = payload\<rparr>,
         h_hash = parts ! 2, h_session = sid, h_report_interval = interval,
         h_repair_grace = grace, h_reuse = r\<rparr>)))))))))"

text \<open>What a receiver that accepted a greeting knows.\<close>

definition wf_hello :: "hello \<Rightarrow> bool" where
  "wf_hello h \<longleftrightarrow> wf_layout (h_layout h) \<and> is_u64 (size (h_layout h))
     \<and> is_ok (decode_array 32 (h_hash h)) \<and> length (h_session h) = 16
     \<and> 10 \<le> h_report_interval h \<and> h_report_interval h \<le> h_repair_grace h
     \<and> h_report_interval h \<le> 10000 \<and> h_repair_grace h \<le> 60000
     \<and> (case h_reuse h of None \<Rightarrow> True
        | Some (count, m) \<Rightarrow> h_transport h = Udp \<and> count \<le> CDC_MAX_CHUNKS \<and> length m = 32)"

lemma check_hello_Inr:
  "(check_hello h = Inr h') \<longleftrightarrow> h' = h \<and> is_ok (decode_array 32 (h_hash h)) \<and> wf_layout (h_layout h)
     \<and> 10 \<le> h_report_interval h \<and> h_report_interval h \<le> 10000
     \<and> h_report_interval h \<le> h_repair_grace h \<and> h_repair_grace h \<le> 60000
     \<and> (h_reuse h = None \<or> h_transport h = Udp)"
  by (cases "decode_array 32 (h_hash h)"; cases "h_reuse h")
    (auto simp: check_hello_def wf_layout_def Let_def if_Inl_eq_Inr not_less not_le)

lemma parse_reuse_Inr: "parse_reuse parts = Inr r \<Longrightarrow>
    case r of None \<Rightarrow> True | Some (count, m) \<Rightarrow> count \<le> CDC_MAX_CHUNKS \<and> length m = 32"
  by (auto simp: parse_reuse_def and_then_eq_Inr dest: decode_array_length split: if_splits)

lemma parse_hello_wf: "parse_hello line = Inr h \<Longrightarrow> wf_hello h"
proof -
  assume "parse_hello line = Inr h"
  then obtain t r fsize sid count payload interval grace where
    p: "parse_reuse (split_whitespace line) = Inr r" "parse_canonical_u64 (split_whitespace line ! 1) = Inr fsize"
      "decode_array 16 (split_whitespace line ! 3) = Inr sid"
    and c: "check_hello
        \<lparr>h_transport = t, h_layout = \<lparr>size = fsize, chunks = count, payload_bytes = payload\<rparr>,
         h_hash = split_whitespace line ! 2, h_session = sid, h_report_interval = interval,
         h_repair_grace = grace, h_reuse = r\<rparr> = Inr h"
    by (auto simp: parse_hello_def and_then_eq_Inr Let_def split: if_splits)
  have "is_u64 fsize" using p(2) by (simp add: parse_canonical_u64_iff)
  then show ?thesis
    using c parse_reuse_Inr [OF p(1)] decode_array_length [OF p(3)]
    unfolding check_hello_Inr by (auto simp: wf_hello_def split: option.splits)
qed

lemma wire_name_field [simp]: "field (wire_name t)"
  by (cases t) (simp_all add: wire_name_def field_def)

lemma parse_wire_name [simp]: "parse_wire_transport (wire_name t) = Inr t"
  by (cases t) (simp_all add: wire_name_def parse_wire_transport_def)

lemma reuse_greeting_fields:
  "(case r of None \<Rightarrow> True | Some (_, m) \<Rightarrow> length m = 32) \<Longrightarrow> \<forall>f\<in>set (reuse_greeting r). field f"
proof (cases r)
  case (Some x)
  obtain count m where x: "x = (count, m)" by (cases x)
  moreover assume "case r of None \<Rightarrow> True | Some (_, m) \<Rightarrow> length m = 32"
  ultimately have "field (hex m)" using Some by (intro hex_field_length) simp
  then show ?thesis using Some x by (simp add: reuse_greeting_def field_def [of "''R1''"])
qed (simp add: reuse_greeting_def field_def)

lemma hello_fields:
  assumes "field (h_hash h)" "length (h_session h) = 16"
    "case h_reuse h of None \<Rightarrow> True | Some (_, m) \<Rightarrow> length m = 32"
  shows "split_whitespace (format_hello h) =
     [wire_name (h_transport h), show_nat (size (h_layout h)), h_hash h, hex (h_session h),
       show_nat (chunks (h_layout h)), show_nat (payload_bytes (h_layout h)),
       show_nat (h_report_interval h), show_nat (h_repair_grace h)] @ reuse_greeting (h_reuse h)"
  unfolding format_hello_def
proof (rule split_whitespace_join)
  have "\<forall>f\<in>set (reuse_greeting (h_reuse h)). field f"
    using assms(3) reuse_greeting_fields by blast
  then show "\<forall>f\<in>set ([wire_name (h_transport h), show_nat (size (h_layout h)), h_hash h,
      hex (h_session h), show_nat (chunks (h_layout h)), show_nat (payload_bytes (h_layout h)),
      show_nat (h_report_interval h), show_nat (h_repair_grace h)] @ reuse_greeting (h_reuse h)). field f"
    using assms(1,2) hex_field_length [of "h_session h"] by auto
qed

lemma parse_reuse_greeting:
  assumes "case r of None \<Rightarrow> True | Some (count, m) \<Rightarrow> count \<le> CDC_MAX_CHUNKS \<and> length m = 32"
    "length pre = 8"
  shows "parse_reuse (pre @ reuse_greeting r) = Inr r"
proof (cases r)
  case None
  then show ?thesis using assms(2) by (simp add: parse_reuse_def reuse_greeting_def nth_append)
next
  case (Some x)
  obtain count m where x: "x = (count, m)" by (cases x)
  then have c: "count \<le> CDC_MAX_CHUNKS" "length m = 32" using assms(1) Some by simp_all
  then have "parse_canonical_u64 (show_nat count) = Inr count"
    by (simp add: parse_canonical_u64_iff is_u64_def CDC_MAX_CHUNKS_def)
  then show ?thesis using assms(2) Some x c
    by (simp add: parse_reuse_def reuse_greeting_def nth_append decode_array_hex)
qed

text \<open>The greeting is read back.  The sender prints the hash of the file in lower-case
  hexadecimal.\<close>

lemma parse_hello_format:
  assumes hx: "h_hash h = hex d" "length d = 32" and sid: "length (h_session h) = 16"
    and u: "is_u64 (size (h_layout h))" "is_u64 (chunks (h_layout h))" "is_u64 (payload_bytes (h_layout h))"
      "is_u64 (h_report_interval h)" "is_u64 (h_repair_grace h)"
    and r: "case h_reuse h of None \<Rightarrow> True | Some (count, m) \<Rightarrow> count \<le> CDC_MAX_CHUNKS \<and> length m = 32"
  shows "parse_hello (format_hello h) = check_hello h"
proof -
  let ?l = "h_layout h"
  let ?pre = "[wire_name (h_transport h), show_nat (size ?l), h_hash h, hex (h_session h),
       show_nat (chunks ?l), show_nat (payload_bytes ?l),
       show_nat (h_report_interval h), show_nat (h_repair_grace h)]"
  have "case h_reuse h of None \<Rightarrow> True | Some (_, m) \<Rightarrow> length m = 32"
    using r by (auto split: option.splits)
  then have sw: "split_whitespace (format_hello h) = ?pre @ reuse_greeting (h_reuse h)"
    by (intro hello_fields sid) (simp_all add: hx hex_field_length)
  have ne: "reuse_greeting (h_reuse h) \<noteq> []"
    by (simp add: reuse_greeting_def split: option.split)
  have eta: "\<lparr>h_transport = h_transport h, h_layout = \<lparr>size = size ?l, chunks = chunks ?l,
      payload_bytes = payload_bytes ?l\<rparr>, h_hash = h_hash h, h_session = h_session h,
      h_report_interval = h_report_interval h, h_repair_grace = h_repair_grace h, h_reuse = h_reuse h\<rparr> = h"
    by simp
  have pr: "parse_reuse (?pre @ reuse_greeting (h_reuse h)) = Inr (h_reuse h)"
    by (rule parse_reuse_greeting [OF r]) simp
  have pu: "parse_canonical_u64 (show_nat n) = Inr n" if "is_u64 n" for n
    using that by (simp add: parse_canonical_u64_iff)
  show ?thesis
    unfolding parse_hello_def sw Let_def pr
    using ne u sid by (simp add: pu decode_array_hex eta)
qed

lemma parse_format_hello [codec_simps]:
  assumes w: "wf_hello h" and hx: "h_hash h = hex d"
  shows "parse_hello (format_hello h) = Inr h"
proof -
  obtain bs where d: "decode_array 32 (h_hash h) = Inr bs"
    using w by (cases "decode_array 32 (h_hash h)") (auto simp: wf_hello_def)
  then have "length d = 32" using decode_array_length [OF d] hx by simp
  moreover have "is_u64 (chunks (h_layout h))" "is_u64 (payload_bytes (h_layout h))"
    "is_u64 (h_report_interval h)" "is_u64 (h_repair_grace h)"
    using w by (simp_all add: wf_hello_def wf_layout_def is_u64_def max_chunks_def)
  ultimately have "parse_hello (format_hello h) = check_hello h"
    using w by (intro parse_hello_format [OF hx]) (auto simp: wf_hello_def split: option.splits)
  moreover have "check_hello h = Inr h"
    using w unfolding check_hello_Inr by (auto simp: wf_hello_def split: option.splits)
  ultimately show ?thesis by simp
qed

interpretation greeting: codec format_hello parse_hello "\<lambda>h. wf_hello h \<and> (\<exists>d. h_hash h = hex d)"
  by unfold_locales (auto simp: parse_format_hello)

section \<open>The lanes of TCP4\<close>

text \<open>\<open>tcp4_lane_range\<close>: the half-open byte range of a lane.\<close>

definition tcp4_lane_range :: "nat \<Rightarrow> nat \<Rightarrow> nat \<times> nat" where
  "tcp4_lane_range fsize lane_index =
     (let lanes = 4;
          base = fsize div lanes;
          remainder = fsize mod lanes;
          start = base * lane_index + min remainder lane_index;
          len = base + (if lane_index < remainder then 1 else 0)
      in (start, start + len))"

lemma lane_ranges_chain:
  "fst (tcp4_lane_range n 0) = 0" "snd (tcp4_lane_range n i) = fst (tcp4_lane_range n (Suc i))"
  "snd (tcp4_lane_range n 3) = n"
proof -
  show "fst (tcp4_lane_range n 0) = 0" by (simp add: tcp4_lane_range_def)
  show "snd (tcp4_lane_range n i) = fst (tcp4_lane_range n (Suc i))"
    by (simp add: tcp4_lane_range_def Let_def min_def)
  have "n mod 4 < 4" by simp
  then have "min (n mod 4) 3 + (if 3 < n mod 4 then 1 else 0) = n mod 4" by simp
  moreover have "n = n div 4 * 4 + n mod 4" by simp
  ultimately show "snd (tcp4_lane_range n 3) = n"
    by (simp add: tcp4_lane_range_def Let_def)
qed

lemma lane_range_le: "fst (tcp4_lane_range n i) \<le> snd (tcp4_lane_range n i)"
  by (simp add: tcp4_lane_range_def Let_def)

text \<open>The four lanes partition the file: every byte belongs to exactly one of them.\<close>

lemma lanes_partition:
  assumes "k < n"
  shows "\<exists>!i. i < 4 \<and> fst (tcp4_lane_range n i) \<le> k \<and> k < snd (tcp4_lane_range n i)"
proof -
  let ?s = "\<lambda>i. fst (tcp4_lane_range n i)"
  have step: "snd (tcp4_lane_range n i) = ?s (Suc i)" for i by (rule lane_ranges_chain(2))
  have mono: "?s i \<le> ?s j" if "i \<le> j" for i j
    using that by (rule lift_Suc_mono_le [rotated]) (use lane_range_le step in metis)
  have e: "?s 0 = 0" "?s 4 = n" using lane_ranges_chain(1,3) step [of 3] by simp_all
  have ex: "\<exists>i < 4. ?s i \<le> k \<and> k < ?s (Suc i)"
  proof -
    have "k < ?s 4" "?s 0 \<le> k" using e assms by simp_all
    then show ?thesis
      by (cases "k < ?s 1"; cases "k < ?s 2"; cases "k < ?s 3")
        (auto simp: numeral_2_eq_2 numeral_3_eq_3 eval_nat_numeral not_less intro: exI [of _ 0] exI [of _ 1] exI [of _ "Suc 1"] exI [of _ "Suc (Suc 1)"])
  qed
  moreover have "i = j" if "?s i \<le> k" "k < ?s (Suc i)" "?s j \<le> k" "k < ?s (Suc j)" for i j
  proof (rule ccontr)
    assume "i \<noteq> j"
    then have "Suc i \<le> j \<or> Suc j \<le> i" by linarith
    then show False using mono that by (meson leD order_trans)
  qed
  ultimately show ?thesis unfolding step by (metis (no_types, lifting))
qed

section \<open>The content-reuse manifest on the control stream\<close>

type_synonym inbox = "string result list"

definition recv_line :: "inbox \<Rightarrow> (string \<times> inbox) result" where
  "recv_line inb = (case inb of
      [] \<Rightarrow> Inl (Err ''connection closed during authenticated message'')
    | Inl e # _ \<Rightarrow> Inl e
    | Inr line # rest \<Rightarrow> Inr (line, rest))"

fun collect_manifest :: "nat \<Rightarrow> string \<Rightarrow> inbox \<Rightarrow> (string \<times> inbox) result" where
  "collect_manifest 0 encoded inb = Inr (encoded, inb)"
| "collect_manifest (Suc n) encoded inb =
     and_then (recv_line inb) (\<lambda>(line, inb').
     if MAX_ENCODED_BYTES < sat_add (sat_add (length encoded) (length line)) 1
     then Inl (Err ''content-defined manifest byte limit exceeded'')
     else collect_manifest n (encoded @ line @ [lf]) inb')"

definition read_reuse_manifest ::
    "(bytes \<Rightarrow> 256 word) \<Rightarrow> inbox \<Rightarrow> hello \<Rightarrow> (manifest option \<times> inbox) result" where
  "read_reuse_manifest sha inb h =
     (case h_reuse h of
        None \<Rightarrow> Inr (None, inb)
      | Some (expected_count, expected_hash) \<Rightarrow>
          and_then (collect_manifest (sat_add expected_count 2) [] inb) (\<lambda>(encoded, inb1).
          and_then (recv_line inb1) (\<lambda>(line, inb2).
          if line \<noteq> ''CHUNKS_END''
          then Inl (Err ''content-defined manifest did not terminate correctly'')
          else
          and_then (parse sha encoded) (\<lambda>m.
          if m_size m \<noteq> size (h_layout h) \<or> length (m_chunks m) \<noteq> expected_count \<or> m_hash m \<noteq> expected_hash
          then Inl (Err ''content-defined manifest differs from authenticated greeting'')
          else Inr (Some m, inb2)))))"

text \<open>What \<open>send\<close> writes.\<close>

definition manifest_messages :: "manifest \<Rightarrow> string list" where
  "manifest_messages m = lines (encode m) @ [''CHUNKS_END'']"

lemma recv_line_Inr [simp]: "recv_line (Inr line # rest) = Inr (line, rest)"
  by (simp add: recv_line_def)

lemma collect_manifest_lines:
  assumes "length (encoded @ unlines ls) \<le> MAX_ENCODED_BYTES"
  shows "collect_manifest (length ls) encoded (map Inr ls @ rest) = Inr (encoded @ unlines ls, rest)"
  using assms
proof (induction ls arbitrary: encoded)
  case (Cons l ls)
  then have "length encoded + length l + 1 \<le> MAX_ENCODED_BYTES" by simp
  then have "\<not> MAX_ENCODED_BYTES < sat_add (sat_add (length encoded) (length l)) 1"
    by (auto simp: sat_add_def)
  then show ?case using Cons.IH [of "encoded @ l @ [lf]"] Cons.prems by simp
qed simp

lemma encode_lines:
  "lines (encode m) = header_line (m_size m) (length (m_chunks m)) # map chunk_line (m_chunks m)
    @ [''CHASH '' @ hex (m_hash m)]"
proof -
  let ?ls = "header_line (m_size m) (length (m_chunks m)) # map chunk_line (m_chunks m)
    @ [''CHASH '' @ hex (m_hash m)]"
  have "encode m = unlines ?ls" by (simp add: encode_def canonical_body_unlines)
  moreover have "\<forall>x\<in>set ?ls. lf \<notin> set x \<and> cr \<notin> set x"
    using header_line_clean chunk_line_clean by (auto simp: hex_clean)
  ultimately show ?thesis using lines_unlines by metis
qed

lemma encode_unlines_lines: "unlines (lines (encode m)) = encode m"
  unfolding encode_lines by (simp add: encode_def canonical_body_unlines)

lemma read_reuse_manifest_messages:
  assumes m: "wf_manifest sha m" "length (encode m) \<le> MAX_ENCODED_BYTES"
    and h: "h_reuse h = Some (length (m_chunks m), m_hash m)" "m_size m = size (h_layout h)"
  shows "read_reuse_manifest sha (map Inr (manifest_messages m) @ rest) h = Inr (Some m, rest)"
proof -
  have n: "sat_add (length (m_chunks m)) 2 = length (lines (encode m))"
    using m(1) by (simp add: encode_lines wf_manifest_def CDC_MAX_CHUNKS_def sat_add_def)
  have "collect_manifest (length (lines (encode m))) [] (map Inr (lines (encode m)) @ Inr ''CHUNKS_END'' # rest)
      = Inr (encode m, Inr ''CHUNKS_END'' # rest)"
    using collect_manifest_lines [of "[]" "lines (encode m)"] m(2) by (simp add: encode_unlines_lines)
  then show ?thesis using h parse_encode [OF m]
    by (simp add: read_reuse_manifest_def n manifest_messages_def)
qed

lemma read_reuse_manifest_Inr:
  assumes "read_reuse_manifest sha inb h = Inr (Some m, rest)"
  shows "wf_manifest sha m \<and> m_size m = size (h_layout h) \<and> h_reuse h = Some (length (m_chunks m), m_hash m)"
  using assms
  by (auto simp: read_reuse_manifest_def and_then_eq_Inr dest: parse_Inr split: option.splits if_splits prod.splits)

section \<open>The receiver's answer\<close>

record acceptance =
  durable_chunks :: bitmap
  a_complete :: bool
  a_telemetry :: telemetry
  reused_bytes :: nat
  reused_chunks :: nat

definition ready_line :: "nat \<Rightarrow> nat \<Rightarrow> string" where
  "ready_line payload interval = ''READY '' @ show_nat payload @ '' '' @ show_nat interval"

text \<open>The lines \<open>H index word\<close> of \<open>receive_udp\<close>, the word in 16 hexadecimal digits.\<close>

definition word_line :: "nat \<Rightarrow> u64w \<Rightarrow> string" where
  "word_line i w = ''H '' @ show_nat i @ '' '' @ pad0 16 (show_radix 16 (unat w))"

definition inventory_lines :: "bitmap \<Rightarrow> string list" where
  "inventory_lines bm = concat (map (\<lambda>(i, w). if w \<noteq> 0 then [word_line i w] else []) (enumerate 0 bm))"

definition answer_lines :: "nat \<Rightarrow> nat \<Rightarrow> nat \<Rightarrow> nat \<Rightarrow> bitmap \<Rightarrow> string list" where
  "answer_lines payload interval rb rc bm =
     [ready_line payload interval, ''REUSED '' @ show_nat rb @ '' '' @ show_nat rc]
     @ inventory_lines bm @ [''GO'']"

text \<open>The loop of \<open>read_acceptance\<close>.\<close>

function read_words_loop :: "inbox \<Rightarrow> bitmap \<Rightarrow> (bitmap \<times> inbox) result" where
  "read_words_loop inb bm =
     (case recv_line inb of
        Inl e \<Rightarrow> Inl e
      | Inr (line, inb') \<Rightarrow>
          if line = ''GO'' then Inr (bm, inb')
          else
          let fields = split_whitespace line in
          if length fields \<noteq> 3 \<or> fields ! 0 \<noteq> ''H'' then Inl (Err ''invalid resume response'')
          else
          and_then (parse_dec (fields ! 1)) (\<lambda>index.
          and_then (from_str_radix 16 (2 ^ 64) (fields ! 2)) (\<lambda>v.
          let w = (of_nat v :: u64w) in
          if length bm \<le> index \<or> bm ! index \<noteq> 0 \<or> w = 0
          then Inl (Err ''invalid or duplicate resume bitmap word'')
          else read_words_loop inb' (bm[index := w]))))"
  by pat_completeness auto
termination
  by (relation "measure (\<lambda>(inb, bm). length inb)")
    (auto simp: recv_line_def split: list.splits sum.splits)

declare read_words_loop.simps [simp del]

definition read_acceptance ::
    "inbox \<Rightarrow> transport \<Rightarrow> nat \<Rightarrow> nat \<Rightarrow> nat \<Rightarrow> (acceptance \<times> inbox) result" where
  "read_acceptance inb t count payload interval =
     and_then (recv_line inb) (\<lambda>(line, inb).
     and_then (if starts_with ''M '' line then
         (if t \<noteq> Udp then Inl (Err ''non-UDP receiver sent datagram telemetry'')
          else and_then (parse_feedback_report line count) (\<lambda>(snapshot, ranges).
            if ranges \<noteq> [] then Inl (Err ''completed receiver reported missing chunks'')
            else and_then (recv_line inb) (\<lambda>(line, inb). Inr (snapshot\<lparr>reports := 1\<rparr>, line, inb))))
       else Inr (default_telemetry, line, inb)) (\<lambda>(tel, line, inb).
     if line = ''COMPLETE'' then
       Inr (\<lparr>durable_chunks = [], a_complete = True, a_telemetry = tel,
             reused_bytes = 0, reused_chunks = 0\<rparr>, inb)
     else if line \<noteq> ready_line payload interval then Inl (Err ''receiver rejected transfer'')
     else if t \<noteq> Udp then
       Inr (\<lparr>durable_chunks = [], a_complete = False, a_telemetry = tel,
             reused_bytes = 0, reused_chunks = 0\<rparr>, inb)
     else
     and_then (recv_line inb) (\<lambda>(line, inb).
      let fields = split_on sp line in
      if length fields \<noteq> 3 \<or> fields ! 0 \<noteq> ''REUSED''
      then Inl (Err ''receiver omitted authenticated reuse inventory'')
      else
     and_then (parse_canonical_u64 (fields ! 1)) (\<lambda>rb.
     and_then (parse_canonical_u64 (fields ! 2)) (\<lambda>rc.
      if sat_mul count payload < rb \<or> count < rc
      then Inl (Err ''receiver reuse inventory exceeds the object'')
      else
     and_then (read_words_loop inb (replicate (div_ceil count 64) 0)) (\<lambda>(bm, inb).
      if bits_beyond count bm then Inl (Err ''resume bitmap contains chunks beyond the file'')
      else if count_received bm < rc
      then Inl (Err ''receiver reuse inventory exceeds durable chunks'')
      else Inr (\<lparr>durable_chunks = bm, a_complete = False, a_telemetry = tel,
             reused_bytes = rb, reused_chunks = rc\<rparr>, inb)))))))"

lemma digits_value_zeros: "2 \<le> radix \<Longrightarrow> digits_value radix 0 (replicate k (CHR ''0'') @ s) = digits_value radix 0 s"
  by (induction k) (simp_all add: to_digit_def)

lemma from_str_radix_padded:
  assumes "n < 2 ^ 64"
  shows "from_str_radix 16 (2 ^ 64) (pad0 k (show_radix 16 n)) = Inr n"
proof -
  let ?s = "pad0 k (show_radix 16 n)"
  have v: "digits_value 16 0 ?s = Some n"
    by (simp add: pad0_def digits_value_zeros digits_value_show_radix)
  have ne: "?s \<noteq> []" by (simp add: pad0_def)
  then obtain c cs where c: "?s = c # cs" by (cases ?s) auto
  have "c \<noteq> CHR ''+''"
  proof
    assume p: "c = CHR ''+''"
    have "to_digit 16 (CHR ''+'') = None" by code_simp
    then show False using v unfolding c p by simp
  qed
  then show ?thesis using v assms unfolding c by (simp add: from_str_radix_def)
qed

lemma hex_digits_field: "field (pad0 k (show_radix 16 n))"
proof -
  have "33 \<le> ord c \<and> ord c \<le> 126" if "c \<in> set (pad0 k (show_radix 16 n))" for c
  proof -
    from that have "c = CHR ''0'' \<or> c \<in> set (show_radix 16 n)" by (auto simp: pad0_def)
    then show ?thesis using show_radix_chars [of 16 c n] by (auto simp: ord_digit_char)
  qed
  then show ?thesis by (simp add: field_def pad0_def)
qed

lemma word_line_fields:
  "split_whitespace (word_line i w) = [''H'', show_nat i, pad0 16 (show_radix 16 (unat w))]"
  using split_whitespace_three [of "''H''" "show_nat i" "pad0 16 (show_radix 16 (unat w))"]
  by (simp add: word_line_def hex_digits_field field_def [of "''H''"])

lemma word_line_not_GO: "word_line i w \<noteq> ''GO''"
  by (simp add: word_line_def)

lemma read_words_step:
  assumes "i < length bm" "bm ! i = 0" "w \<noteq> 0" "length bm < 2 ^ 64"
  shows "read_words_loop (Inr (word_line i w) # rest) bm = read_words_loop rest (bm[i := w])"
proof -
  have "unat w < 2 ^ 64" using unsigned_less [of w] by simp
  then have p: "from_str_radix 16 (2 ^ 64) (pad0 16 (show_radix 16 (unat w))) = Inr (unat w)"
    by (rule from_str_radix_padded)
  have i: "parse_dec (show_nat i) = Inr i" using assms by (intro parse_dec_show_nat) simp
  show ?thesis
    using assms(1-3) i p [simplified]
    by (subst read_words_loop.simps) (simp add: word_line_not_GO word_line_fields)
qed

lemma read_words_inventory:
  assumes "length bm < 2 ^ 64" "length pre = k" "bm = pre @ ws"
  shows "read_words_loop (map Inr (concat (map (\<lambda>(i, w). if w \<noteq> 0 then [word_line i w] else [])
      (enumerate k ws))) @ Inr ''GO'' # rest) (pre @ replicate (length ws) 0) = Inr (pre @ ws, rest)"
  using assms
proof (induction ws arbitrary: pre k)
  case Nil
  then show ?case by (subst read_words_loop.simps) simp
next
  case (Cons w ws)
  have ih: "read_words_loop (map Inr (concat (map (\<lambda>(i, w). if w \<noteq> 0 then [word_line i w] else [])
      (enumerate (Suc k) ws))) @ Inr ''GO'' # rest) ((pre @ [w]) @ replicate (length ws) 0)
    = Inr ((pre @ [w]) @ ws, rest)"
    using Cons.prems by (intro Cons.IH) simp_all
  show ?case
  proof (cases "w = 0")
    case True
    then show ?thesis using ih by simp
  next
    case False
    let ?l = "map Inr (concat (map (\<lambda>(i, w). if w \<noteq> 0 then [word_line i w] else [])
      (enumerate (Suc k) ws))) @ Inr ''GO'' # rest"
    have "read_words_loop (Inr (word_line k w) # ?l) (pre @ 0 # replicate (length ws) 0)
        = read_words_loop ?l ((pre @ 0 # replicate (length ws) 0)[k := w])"
      by (rule read_words_step) (use Cons.prems False in \<open>simp_all add: nth_append\<close>)
    also have "(pre @ 0 # replicate (length ws) 0)[k := w] = (pre @ [w]) @ replicate (length ws) 0"
      using Cons.prems(2) by (simp add: list_update_append)
    finally show ?thesis using ih False by simp
  qed
qed

text \<open>The sender learns exactly the receiver's durable chunks.\<close>

lemma read_acceptance_answer:
  assumes bm: "wf_bitmap (chunks l) bm" and l: "wf_layout l" and i: "is_u64 interval"
    and rb: "rb \<le> chunks l * payload_bytes l" and rc: "rc \<le> count_received bm"
  shows "read_acceptance (map Inr (answer_lines (payload_bytes l) interval rb rc bm) @ rest) Udp
      (chunks l) (payload_bytes l) interval
    = Inr (\<lparr>durable_chunks = bm, a_complete = False, a_telemetry = default_telemetry,
        reused_bytes = rb, reused_chunks = rc\<rparr>, rest)"
proof -
  let ?n = "chunks l" and ?p = "payload_bytes l"
  have len: "length bm = div_ceil ?n 64" and nb: "\<not> bits_beyond ?n bm" using bm by (simp_all add: wf_bitmap_iff)
  have "received_set bm \<subseteq> {..<?n}" using bm by (simp add: wf_bitmap_def)
  then have "count_received bm \<le> ?n"
    using card_mono [of "{..<?n}" "received_set bm"] by (simp add: count_received_card)
  then have rcn: "rc \<le> ?n" using rc by simp
  have n: "?n \<le> max_chunks" "?p \<le> 1424" using l by (simp_all add: wf_layout_def)
  have "?n * ?p \<le> max_chunks * 1424" using n by (intro mult_le_mono) simp_all
  then have small: "?n * ?p < 2 ^ 64" by (simp add: max_chunks_def)
  then have "rb \<le> sat_mul ?n ?p" using rb by (simp add: sat_mul_def)
  moreover have "is_u64 rb" "is_u64 rc" using rb rcn small n by (auto simp: is_u64_def max_chunks_def)
  then have "parse_canonical_u64 (show_nat rb) = Inr rb" "parse_canonical_u64 (show_nat rc) = Inr rc"
    by (simp_all add: parse_canonical_u64_iff)
  moreover have "div_ceil ?n 64 \<le> ?n" using div_ceil_le_iff [of 64 ?n ?n] by simp
  then have bl: "length bm < 2 ^ 64" using n(1) len by (simp add: max_chunks_def)
  have inv: "read_words_loop (map Inr (inventory_lines bm) @ Inr ''GO'' # rest) (replicate (div_ceil ?n 64) 0) = Inr (bm, rest)"
    using read_words_inventory [OF bl, of "[]" 0 bm rest] len by (simp add: inventory_lines_def)
  have sr: "split_on sp (''REUSED '' @ show_nat rb @ '' '' @ show_nat rc) = [''REUSED'', show_nat rb, show_nat rc]"
    using split_on_join [of "[''REUSED'', show_nat rb, show_nat rc]" sp] by (simp add: field_no_space)
  have "\<not> starts_with ''M '' (ready_line ?p interval)" "ready_line ?p interval \<noteq> ''COMPLETE''"
    by (simp_all add: ready_line_def starts_with_def)
  ultimately show ?thesis
    using inv sr nb rcn rc
    by (simp add: read_acceptance_def answer_lines_def)
qed

lemma read_acceptance_bounded:
  assumes "read_acceptance inb Udp count payload interval = Inr (a, rest)" "\<not> a_complete a"
  shows "reused_chunks a \<le> count \<and> reused_chunks a \<le> count_received (durable_chunks a)
    \<and> \<not> bits_beyond count (durable_chunks a)"
  using assms
  by (auto simp: read_acceptance_def and_then_eq_Inr Let_def split: if_splits prod.splits)

end
