(* ===== verification/Repairs.thy ===== *)
theory Repairs
  imports Feedback
begin

text \<open>
  The sender's repair queue (\<open>src/main.rs\<close>): \<open>RepairQueue\<close>, \<open>enqueue_repairs\<close>,
  \<open>take_repairs\<close> and the cooldown purge of \<open>read_feedback\<close>.  A \<open>HashMap\<close> is an association
  list with distinct keys; which key its iterator yields first is not specified by Rust, so the
  choice is a parameter \<open>pick\<close>.  An \<open>Instant\<close> is a number of nanoseconds, a \<open>Duration\<close> a
  natural number of nanoseconds, and \<open>Instant::now\<close> a parameter \<open>clock\<close>.

  The locale \<open>bounded_fifo\<close> is the contract the sending loop uses.
\<close>

section \<open>The contract: a bounded queue without duplicates\<close>

locale bounded_fifo =
  fixes items :: "'q \<Rightarrow> nat list" and take_n :: "nat \<Rightarrow> 'q \<Rightarrow> nat list \<times> 'q"
    and invar :: "'q \<Rightarrow> bool" and bound :: nat
  assumes invar_distinct: "invar q \<Longrightarrow> distinct (items q)"
    and invar_bound: "invar q \<Longrightarrow> length (items q) \<le> bound"
    and take_items: "invar q \<Longrightarrow> take_n n q = (r, q') \<Longrightarrow> r = take n (items q) \<and> items q' = drop n (items q)"
    and take_invar: "invar q \<Longrightarrow> take_n n q = (r, q') \<Longrightarrow> invar q'"
begin

lemma take_length: "invar q \<Longrightarrow> take_n n q = (r, q') \<Longrightarrow> length r \<le> n"
  using take_items by fastforce

lemma take_distinct: "invar q \<Longrightarrow> take_n n q = (r, q') \<Longrightarrow> distinct r \<and> set r \<inter> set (items q') = {}"
proof -
  assume h: "invar q" "take_n n q = (r, q')"
  then have "items q = r @ items q'" using take_items [OF h] by simp
  with invar_distinct [OF h(1)] show ?thesis by (metis distinct_append)
qed

lemma take_all: "invar q \<Longrightarrow> take_n bound q = (r, q') \<Longrightarrow> set r = set (items q) \<and> items q' = []"
  using take_items [of q bound r q'] invar_bound [of q] by simp

lemma take_none: "invar q \<Longrightarrow> take_n n q = ([], q') \<Longrightarrow> 0 < n \<Longrightarrow> items q = []"
  using take_items by fastforce

end

section \<open>The repair queue\<close>

definition MAX_QUEUED_REPAIRS :: nat where
  "MAX_QUEUED_REPAIRS = 65536"

type_synonym instant = int

definition duration_since :: "instant \<Rightarrow> instant \<Rightarrow> nat" where
  "duration_since now earlier = nat (now - earlier)"

record repair_queue =
  queue :: "nat list"
  queued :: "nat set"
  last_sent :: "(nat \<times> instant) list"
  cooldown :: nat

definition new_repair_queue :: "nat \<Rightarrow> repair_queue" where
  "new_repair_queue c = \<lparr>queue = [], queued = {}, last_sent = [], cooldown = c\<rparr>"

definition map_keys :: "(nat \<times> instant) list \<Rightarrow> nat list" where
  "map_keys m = map fst m"

definition map_remove :: "nat \<Rightarrow> (nat \<times> instant) list \<Rightarrow> (nat \<times> instant) list" where
  "map_remove k m = filter (\<lambda>(k', _). k' \<noteq> k) m"

definition map_insert :: "nat \<Rightarrow> instant \<Rightarrow> (nat \<times> instant) list \<Rightarrow> (nat \<times> instant) list" where
  "map_insert k v m = (k, v) # map_remove k m"

text \<open>\<open>keys().next()\<close>: some key of a non-empty map.\<close>

definition next_key :: "(nat list \<Rightarrow> nat) \<Rightarrow> (nat \<times> instant) list \<Rightarrow> nat option" where
  "next_key pick m =
     (if m = [] then None else Some (map_keys m ! (pick (map_keys m) mod length m)))"

text \<open>\<open>retain\<close> in \<open>read_feedback\<close>.\<close>

definition purge_cooldown :: "instant \<Rightarrow> repair_queue \<Rightarrow> repair_queue" where
  "purge_cooldown now q =
     q\<lparr>last_sent := filter (\<lambda>(_, sent_at). duration_since now sent_at < cooldown q) (last_sent q)\<rparr>"

text \<open>The inner loop of \<open>enqueue_repairs\<close>; the second component tells whether the loop was left by
  \<open>break 'reports\<close>.\<close>

fun enqueue_sequences :: "repair_queue \<Rightarrow> nat list \<Rightarrow> repair_queue \<times> bool" where
  "enqueue_sequences q [] = (q, False)"
| "enqueue_sequences q (sequence # rest) =
     (if MAX_QUEUED_REPAIRS \<le> card (queued q) then (q, True)
      else if sequence \<notin> set (map_keys (last_sent q)) \<and> sequence \<notin> queued q
      then enqueue_sequences
             (q\<lparr>queued := insert sequence (queued q), queue := queue q @ [sequence]\<rparr>) rest
      else enqueue_sequences q rest)"

fun enqueue_parts :: "repair_queue \<Rightarrow> string list \<Rightarrow> nat \<Rightarrow> repair_queue \<times> unit result" where
  "enqueue_parts q [] chunks = (q, Inr ())"
| "enqueue_parts q (part # rest) chunks =
     (case parse_range part of
        Inl e \<Rightarrow> (q, Inl e)
      | Inr (start, end) \<Rightarrow>
          if chunks \<le> end then (q, Inl (Err ''receiver requested a chunk beyond the file''))
          else (case enqueue_sequences q [start..<Suc end] of
                  (q', True) \<Rightarrow> (q', Inr ())
                | (q', False) \<Rightarrow> enqueue_parts q' rest chunks))"

definition enqueue_repairs :: "repair_queue \<Rightarrow> string \<Rightarrow> nat \<Rightarrow> repair_queue \<times> unit result" where
  "enqueue_repairs q ranges chunks =
     enqueue_parts q (filter (\<lambda>part. part \<noteq> []) (split_on comma ranges)) chunks"

fun take_loop :: "(nat list \<Rightarrow> nat) \<Rightarrow> (nat \<Rightarrow> instant) \<Rightarrow> nat \<Rightarrow> nat \<Rightarrow> repair_queue
    \<Rightarrow> nat list \<times> repair_queue" where
  "take_loop pick clock i 0 q = ([], q)"
| "take_loop pick clock i (Suc limit) q =
     (case queue q of
        [] \<Rightarrow> ([], q)
      | sequence # rest \<Rightarrow>
          (let m = last_sent q;
               m' = (if MAX_QUEUED_REPAIRS \<le> length m
                     then (case next_key pick m of Some oldest \<Rightarrow> map_remove oldest m | None \<Rightarrow> m)
                     else m);
               q' = q\<lparr>queue := rest, queued := queued q - {sequence},
                      last_sent := map_insert sequence (clock i) m'\<rparr>;
               (result, q'') = take_loop pick clock (Suc i) limit q'
           in (sequence # result, q'')))"

definition take_repairs :: "(nat list \<Rightarrow> nat) \<Rightarrow> (nat \<Rightarrow> instant) \<Rightarrow> nat \<Rightarrow> repair_queue
    \<Rightarrow> nat list \<times> repair_queue" where
  "take_repairs pick clock limit q = take_loop pick clock 0 limit q"

section \<open>Invariant\<close>

definition repair_inv :: "nat \<Rightarrow> repair_queue \<Rightarrow> bool" where
  "repair_inv chunks q \<longleftrightarrow>
     distinct (queue q) \<and> set (queue q) = queued q \<and> length (queue q) \<le> MAX_QUEUED_REPAIRS
     \<and> queued q \<subseteq> {..<chunks}
     \<and> distinct (map_keys (last_sent q)) \<and> length (last_sent q) \<le> MAX_QUEUED_REPAIRS"

lemma repair_inv_new [simp, inv_intros]: "repair_inv chunks (new_repair_queue c)"
  by (simp add: repair_inv_def new_repair_queue_def map_keys_def)

lemma distinct_keys_filter: "distinct (map_keys m) \<Longrightarrow> distinct (map_keys (filter P m))"
  by (simp add: map_keys_def distinct_map_filter)

lemma map_keys_remove: "set (map_keys (map_remove k m)) = set (map_keys m) - {k}"
  by (auto simp: map_keys_def map_remove_def)

lemma purge_cooldown_inv [inv_intros]: "repair_inv chunks q \<Longrightarrow> repair_inv chunks (purge_cooldown now q)"
  by (auto simp: repair_inv_def purge_cooldown_def distinct_keys_filter
      intro: order_trans [OF length_filter_le])

lemma map_remove_length:
  "distinct (map_keys m) \<Longrightarrow> k \<in> set (map_keys m) \<Longrightarrow> length (map_remove k m) < length m"
proof -
  assume "k \<in> set (map_keys m)"
  then obtain v where "(k, v) \<in> set m" by (auto simp: map_keys_def)
  then show ?thesis unfolding map_remove_def by (rule length_filter_less) simp
qed

lemma next_key_mem: "next_key pick m = Some k \<Longrightarrow> k \<in> set (map_keys m)"
  by (auto simp: next_key_def map_keys_def split: if_splits)

lemma length_map_remove_le: "length (map_remove k m) \<le> length m"
  by (simp add: map_remove_def)

lemma repair_inv_card: "repair_inv chunks q \<Longrightarrow> card (queued q) = length (queue q)"
  by (metis distinct_card repair_inv_def)

lemma enqueue_sequences_inv:
  "repair_inv chunks q \<Longrightarrow> set seqs \<subseteq> {..<chunks} \<Longrightarrow> enqueue_sequences q seqs = (q', b)
    \<Longrightarrow> repair_inv chunks q'"
proof (induction q seqs rule: enqueue_sequences.induct)
  case (2 q sequence rest)
  show ?case
  proof (cases "MAX_QUEUED_REPAIRS \<le> card (queued q)")
    case True
    with 2 show ?thesis by simp
  next
    case False
    note room = this
    show ?thesis
    proof (cases "sequence \<notin> set (map_keys (last_sent q)) \<and> sequence \<notin> queued q")
      case True
      let ?q = "q\<lparr>queued := insert sequence (queued q), queue := queue q @ [sequence]\<rparr>"
      have "repair_inv chunks ?q"
        using 2(3,4) True room repair_inv_card [OF 2(3)] by (auto simp: repair_inv_def)
      with 2 True room show ?thesis by simp
    next
      case False
      with 2 room show ?thesis by auto
    qed
  qed
qed simp

lemma enqueue_parts_inv:
  "repair_inv chunks q \<Longrightarrow> enqueue_parts q parts chunks = (q', r) \<Longrightarrow> repair_inv chunks q'"
proof (induction q parts chunks rule: enqueue_parts.induct)
  case (2 q part rest chunks)
  show ?case
  proof (cases "parse_range part")
    case (Inl e)
    with 2 show ?thesis by simp
  next
    case (Inr se)
    obtain s e where se: "se = (s, e)" by (cases se)
    show ?thesis
    proof (cases "chunks \<le> e")
      case True
      with 2 Inr se show ?thesis by simp
    next
      case False
      obtain q1 b where q1: "enqueue_sequences q [s..<Suc e] = (q1, b)"
        by (cases "enqueue_sequences q [s..<Suc e]")
      have "repair_inv chunks q1"
        using False by (intro enqueue_sequences_inv [OF 2(2) _ q1]) auto
      with 2 Inr se False q1 show ?thesis by (cases b) auto
    qed
  qed
qed simp

lemma enqueue_repairs_inv [inv_intros]:
  "repair_inv chunks q \<Longrightarrow> repair_inv chunks (fst (enqueue_repairs q ranges chunks))"
  by (metis enqueue_parts_inv enqueue_repairs_def prod.collapse)

lemma take_step_inv:
  assumes "repair_inv chunks q" "queue q = sequence # rest"
  shows "repair_inv chunks (q\<lparr>queue := rest, queued := queued q - {sequence},
      last_sent := map_insert sequence now (if MAX_QUEUED_REPAIRS \<le> length (last_sent q)
         then (case next_key pick (last_sent q) of Some oldest \<Rightarrow> map_remove oldest (last_sent q)
               | None \<Rightarrow> last_sent q)
         else last_sent q)\<rparr>)"
proof -
  let ?m = "last_sent q"
  let ?m' = "if MAX_QUEUED_REPAIRS \<le> length ?m
    then (case next_key pick ?m of Some oldest \<Rightarrow> map_remove oldest ?m | None \<Rightarrow> ?m) else ?m"
  have d: "distinct (map_keys ?m)" "length ?m \<le> MAX_QUEUED_REPAIRS"
    using assms(1) by (simp_all add: repair_inv_def)
  have d': "distinct (map_keys ?m')"
    using d by (auto simp: map_remove_def distinct_keys_filter split: option.splits)
  have l': "length ?m' < MAX_QUEUED_REPAIRS"
  proof (cases "MAX_QUEUED_REPAIRS \<le> length ?m")
    case True
    then have "?m \<noteq> []" by (auto simp: MAX_QUEUED_REPAIRS_def)
    then obtain k where k: "next_key pick ?m = Some k" by (simp add: next_key_def)
    with True d map_remove_length [OF d(1) next_key_mem [OF k]] show ?thesis by simp
  qed simp
  have "distinct (map_keys (map_insert sequence now ?m'))"
    using d' map_keys_remove [of sequence ?m']
    by (simp add: map_insert_def map_keys_def map_remove_def distinct_map_filter)
  moreover have "length (map_insert sequence now ?m') \<le> MAX_QUEUED_REPAIRS"
    using l' length_map_remove_le [of sequence ?m'] by (simp add: map_insert_def)
  ultimately show ?thesis using assms by (auto simp: repair_inv_def)
qed

lemma take_loop_inv:
  "repair_inv chunks q \<Longrightarrow> take_loop pick clock i limit q = (r, q') \<Longrightarrow>
    repair_inv chunks q' \<and> r = take limit (queue q) \<and> queue q' = drop limit (queue q)
    \<and> cooldown q' = cooldown q"
proof (induction limit arbitrary: i q r q')
  case (Suc limit)
  show ?case
  proof (cases "queue q")
    case Nil
    with Suc show ?thesis by simp
  next
    case (Cons sequence rest)
    let ?q = "q\<lparr>queue := rest, queued := queued q - {sequence},
      last_sent := map_insert sequence (clock i) (if MAX_QUEUED_REPAIRS \<le> length (last_sent q)
         then (case next_key pick (last_sent q) of Some oldest \<Rightarrow> map_remove oldest (last_sent q)
               | None \<Rightarrow> last_sent q)
         else last_sent q)\<rparr>"
    obtain r1 q1 where r1: "take_loop pick clock (Suc i) limit ?q = (r1, q1)"
      by (cases "take_loop pick clock (Suc i) limit ?q")
    have "r = sequence # r1" "q' = q1"
      using Suc.prems(2) Cons r1 by (auto simp: Let_def)
    moreover note Suc.IH [OF take_step_inv [OF Suc.prems(1) Cons] r1]
    ultimately show ?thesis using Cons by simp
  qed
qed simp

interpretation repairs: bounded_fifo queue "take_repairs pick clock" "repair_inv chunks"
  MAX_QUEUED_REPAIRS for pick clock chunks
proof unfold_locales
  fix q q' n r
  assume inv: "repair_inv chunks q"
  then show "distinct (queue q)" "length (queue q) \<le> MAX_QUEUED_REPAIRS"
    by (simp_all add: repair_inv_def)
  assume "take_repairs pick clock n q = (r, q')"
  from take_loop_inv [OF inv this [unfolded take_repairs_def]]
  show "r = take n (queue q) \<and> queue q' = drop n (queue q)" "repair_inv chunks q'" by simp_all
qed

section \<open>What is queued\<close>

lemma enqueue_sequences_effect:
  assumes "repair_inv chunks q" "enqueue_sequences q seqs = (q', broke)"
  shows "queued q \<subseteq> queued q' \<and> queued q' \<subseteq> queued q \<union> (set seqs - set (map_keys (last_sent q)))
    \<and> last_sent q' = last_sent q \<and> cooldown q' = cooldown q
    \<and> (broke \<longrightarrow> card (queued q') \<ge> MAX_QUEUED_REPAIRS)
    \<and> (\<not> broke \<longrightarrow> queued q' = queued q \<union> (set seqs - set (map_keys (last_sent q))))"
  using assms(2)
proof (induction q seqs arbitrary: q' rule: enqueue_sequences.induct)
  case (2 q sequence rest)
  show ?case
  proof (cases "MAX_QUEUED_REPAIRS \<le> card (queued q)")
    case True
    with 2(3) show ?thesis by auto
  next
    case False
    note room = this
    show ?thesis
    proof (cases "sequence \<notin> set (map_keys (last_sent q)) \<and> sequence \<notin> queued q")
      case True
      let ?q = "q\<lparr>queued := insert sequence (queued q), queue := queue q @ [sequence]\<rparr>"
      have "enqueue_sequences ?q rest = (q', broke)" using 2(3) True room by simp
      from 2(1) [OF room True this] True show ?thesis by auto
    next
      case False
      have "enqueue_sequences q rest = (q', broke)" using 2(3) False room by auto
      from 2(2) [OF room False this] False show ?thesis by auto
    qed
  qed
qed auto

lemma enqueue_parts_effect:
  assumes "\<forall>r\<in>set rs. range_ok r \<and> snd r < chunks"
    and "repair_inv chunks q"
    and "card (queued q \<union> range_members rs) < MAX_QUEUED_REPAIRS"
  shows "\<exists>q'. enqueue_parts q (map show_range rs) chunks = (q', Inr ())
    \<and> queued q' = queued q \<union> (range_members rs - set (map_keys (last_sent q)))
    \<and> last_sent q' = last_sent q"
  using assms
proof (induction rs arbitrary: q)
  case Nil
  then show ?case by simp
next
  case (Cons r rs)
  obtain s e where r: "r = (s, e)" by (cases r)
  have ok: "range_ok r" "s \<le> e" "e < chunks" using Cons.prems(1) r by (auto simp: range_ok_def)
  obtain q1 broke where q1: "enqueue_sequences q [s..<Suc e] = (q1, broke)"
    by (cases "enqueue_sequences q [s..<Suc e]")
  have inv1: "repair_inv chunks q1"
    using ok by (intro enqueue_sequences_inv [OF Cons.prems(2) _ q1]) auto
  have mem: "range_members (r # rs) = {s..e} \<union> range_members rs"
    by (auto simp: range_members_def r)
  have seqs: "set [s..<Suc e] = {s..e}" by auto
  note eff = enqueue_sequences_effect [OF Cons.prems(2) q1, unfolded seqs]
  have e1: "queued q1 \<subseteq> queued q \<union> ({s..e} - set (map_keys (last_sent q)))"
    and e2: "last_sent q1 = last_sent q" and e3: "broke \<longrightarrow> MAX_QUEUED_REPAIRS \<le> card (queued q1)"
    and e4: "\<not> broke \<longrightarrow> queued q1 = queued q \<union> ({s..e} - set (map_keys (last_sent q)))"
    using eff by blast+
  have fin: "finite (queued q \<union> range_members (r # rs))"
    using Cons.prems(2) finite_subset [of "queued q" "{..<chunks}"]
    by (auto simp: repair_inv_def range_members_def split: prod.splits)
  have "queued q1 \<subseteq> queued q \<union> range_members (r # rs)" using e1 mem by blast
  from card_mono [OF fin this] have "card (queued q1) < MAX_QUEUED_REPAIRS"
    using Cons.prems(3) by linarith
  with e3 have nb: "\<not> broke" by linarith
  with e4 have qd: "queued q1 = queued q \<union> ({s..e} - set (map_keys (last_sent q)))"
    by blast
  have "queued q1 \<union> range_members rs \<subseteq> queued q \<union> range_members (r # rs)" using qd mem by blast
  from card_mono [OF fin this] have "card (queued q1 \<union> range_members rs) < MAX_QUEUED_REPAIRS"
    using Cons.prems(3) by linarith
  from Cons.IH [OF _ inv1 this] Cons.prems(1) obtain q' where
    q': "enqueue_parts q1 (map show_range rs) chunks = (q', Inr ())"
      "queued q' = queued q1 \<union> (range_members rs - set (map_keys (last_sent q1)))"
      "last_sent q' = last_sent q1" by auto
  have "enqueue_parts q (map show_range (r # rs)) chunks = (q', Inr ())"
    using parse_range_show [OF ok(1)] ok(3) nb by (simp add: r q1 q'(1) del: upt_Suc)
  moreover have "queued q' = queued q \<union> (range_members (r # rs) - set (map_keys (last_sent q)))"
    unfolding q'(2) qd e2 mem by auto
  moreover have "last_sent q' = last_sent q" unfolding q'(3) e2 ..
  ultimately show ?case by blast
qed

lemma enqueue_repairs_effect:
  assumes "\<forall>r\<in>set rs. range_ok r \<and> snd r < chunks"
    and "repair_inv chunks q"
    and "card (queued q \<union> range_members rs) < MAX_QUEUED_REPAIRS"
  shows "\<exists>q'. enqueue_repairs q (encode_ranges rs) chunks = (q', Inr ())
    \<and> queued q' = queued q \<union> (range_members rs - set (map_keys (last_sent q)))
    \<and> last_sent q' = last_sent q"
proof (cases "rs = []")
  case True
  then show ?thesis by (simp add: enqueue_repairs_def encode_ranges_def)
next
  case False
  have "filter (\<lambda>part. part \<noteq> []) (map show_range rs) = map show_range rs"
    by (rule filter_True) auto
  then show ?thesis
    using enqueue_parts_effect [OF assms] False
    by (simp add: enqueue_repairs_def split_encode_ranges)
qed

lemma enqueue_repairs_beyond:
  assumes "range_ok r" "chunks \<le> snd r"
  shows "snd (enqueue_repairs q (encode_ranges (r # rs)) chunks)
    = Inl (Err ''receiver requested a chunk beyond the file'')"
proof -
  obtain s e where r: "r = (s, e)" by (cases r)
  have "filter (\<lambda>part. part \<noteq> []) (split_on comma (encode_ranges (r # rs)))
    = show_range r # filter (\<lambda>part. part \<noteq> []) (map show_range rs)"
    by (subst split_encode_ranges) auto
  then show ?thesis using assms r parse_range_show [OF assms(1)] by (simp add: enqueue_repairs_def)
qed

end
