(* ===== verification/Receiver.thy ===== *)
theory Receiver
  imports Resume Hello Repairs
begin

text \<open>
  The UDP receiver of \<open>src/main.rs\<close>: \<open>receive_udp\<close>, one iteration of its loop at a time.

  The state of the loop is the record \<open>receiver\<close>; files, directory and control stream are the
  world of \<open>Disk\<close>, so that every call may fail and the process may die anywhere.  What an
  iteration gets from outside - a datagram or a timeout, the control events that are pending, the
  readings of the clock, the drop counter of the socket, how positional reads are cut - is the
  record \<open>tick\<close>.

  \<open>receiving\<close> is the invariant of the loop.  From it follow the two results about the
  destination: whatever datagrams arrive, an installed file has the announced hash; and a receiver
  whose accepted datagrams all come from the sender installs the sender's file.
\<close>

section \<open>The loop's state and its inputs\<close>

datatype control_event = End | Ping | CompleteAck | Cancel string | ControlError string

datatype recv_outcome = Datagram bytes | WouldBlock | RecvError string

datatype ack_wait = AckEvent control_event | AckTimeout | AckDisconnected

record receiver =
  r_state :: resume_state
  r_tel :: telemetry
  r_hashed :: bytes
  r_frontier :: nat
  r_highest :: "nat option"
  r_ended :: bool
  r_ended_at :: "instant option"
  r_reordering :: bool
  r_last_report :: instant
  r_history :: "(instant \<times> nat) list"
  r_last_checkpoint :: instant
  r_dirty :: bool

record tick =
  t_recv :: recv_outcome
  t_events :: "control_event list"
  t_event_now :: instant
  t_acks :: "(bool \<times> ack_wait) list"
  t_drops :: "nat option"
  t_checkpoint_now :: instant
  t_checkpoint_done :: instant
  t_report_check :: instant
  t_report_now :: instant
  t_report_done :: instant
  t_os :: transfer

text \<open>The events that the control thread of \<open>receive_udp\<close> sends for the lines it receives.\<close>

fun reader_events :: "inbox \<Rightarrow> control_event list" where
  "reader_events [] = []"
| "reader_events (Inl e # rest) = [ControlError ''sender control stopped'']"
| "reader_events (Inr line # rest) =
     (if line = ''END'' then End # reader_events rest
      else if line = ''PING'' then Ping # reader_events rest
      else if line = ''COMPLETE_ACK'' then [CompleteAck]
      else if starts_with ''CANCEL '' line
      then [Cancel (case strip_prefix ''CANCEL '' line of None \<Rightarrow> [] | Some reason \<Rightarrow> reason)]
      else [ControlError ''unexpected control message''])"

section \<open>The hash frontier\<close>

function frontier_end :: "bitmap \<Rightarrow> nat \<Rightarrow> nat \<Rightarrow> nat" where
  "frontier_end bm count e =
     (if e < count \<and> bitmap_contains bm e then frontier_end bm count (e + 1) else e)"
  by pat_completeness auto
termination
  by (relation "measure (\<lambda>(bm, count, e). count - e)") auto

declare frontier_end.simps [simp del]

definition read_range :: "transfer \<Rightarrow> nat \<Rightarrow> nat \<Rightarrow> nat \<Rightarrow> bytes io" where
  "read_range os i off n w =
     (read_loop os ''short read while advancing object hash'' (1024 * 1024) (content (inodes w ! i)) off n, w)"

definition advance_hash_frontier :: "transfer \<Rightarrow> nat \<Rightarrow> receiver \<Rightarrow> receiver io" where
  "advance_hash_frontier os i r =
     (let l = shape (r_state r); start = r_frontier r;
          e = frontier_end (bitmap (r_state r)) (chunks l) start in
      bindM (lift (ok_or (checked_mul start (payload_bytes l)) ''hash frontier offset overflow'')) (\<lambda>offset.
      bindM (lift (ok_or (checked_mul e (payload_bytes l)) ''hash frontier offset overflow'')) (\<lambda>n.
      let byte_end = min n (size l) in
      bindM (read_range os i offset (byte_end - offset)) (\<lambda>bs.
        ret (r\<lparr>r_hashed := r_hashed r @ bs, r_frontier := e\<rparr>)))))"

section \<open>Datagrams\<close>

definition note_valid :: "bool \<Rightarrow> telemetry \<Rightarrow> telemetry" where
  "note_valid repair t =
     (let t = t\<lparr>valid_datagrams := sat_add (valid_datagrams t) 1\<rparr>
      in if repair then t\<lparr>repair_datagrams := sat_add (repair_datagrams t) 1\<rparr> else t)"

definition store_chunk :: "transfer \<Rightarrow> nat \<Rightarrow> nat \<Rightarrow> bool \<Rightarrow> bytes \<Rightarrow> receiver \<Rightarrow> receiver io" where
  "store_chunk os i sequence repair data r =
     (let st = r_state r; t = r_tel r;
          r1 = r\<lparr>r_tel := t\<lparr>accepted_datagrams := sat_add (accepted_datagrams t) 1\<rparr>,
            r_reordering := (r_reordering r \<or> \<not> repair \<and>
              (case r_highest r of None \<Rightarrow> False | Some frontier \<Rightarrow> sequence < frontier))\<rparr> in
      bindM (write_file i (sequence * payload_bytes (shape st)) data) (\<lambda>_.
      bindM (lift (bitmap_insert (bitmap st) sequence)) (\<lambda>bm.
      let st' = st\<lparr>bitmap := bm, received_count := received_count st + 1\<rparr>;
          r2 = r1\<lparr>r_state := st', r_dirty := True\<rparr> in
      if received_count st' mod 64 = 0 \<or> (repair \<and> sequence = r_frontier r2)
      then advance_hash_frontier os i r2 else ret r2)))"

definition on_datagram ::
    "(bytes \<Rightarrow> 256 word) \<Rightarrow> session_auth \<Rightarrow> transfer \<Rightarrow> nat \<Rightarrow> bytes \<Rightarrow> receiver \<Rightarrow> receiver io" where
  "on_datagram sha sa os i d r =
     (case check_datagram sha sa (shape (r_state r)) d of
        None \<Rightarrow> ret (r\<lparr>r_tel := (r_tel r)\<lparr>invalid_datagrams := sat_add (invalid_datagrams (r_tel r)) 1\<rparr>\<rparr>)
      | Some (sequence, repair, data) \<Rightarrow>
         (let r1 = r\<lparr>r_tel := note_valid repair (r_tel r)\<rparr> in
          bindM (if \<not> bitmap_contains (bitmap (r_state r1)) sequence
                 then store_chunk os i sequence repair data r1
                 else ret (r1\<lparr>r_tel := (r_tel r1)\<lparr>duplicate_datagrams :=
                   sat_add (duplicate_datagrams (r_tel r1)) 1\<rparr>\<rparr>)) (\<lambda>r2.
          ret (r2\<lparr>r_highest := Some (case r_highest r2 of None \<Rightarrow> sequence | Some old \<Rightarrow> max old sequence)\<rparr>))))"

definition checkpoint_if_dirty :: "nat \<Rightarrow> nat \<Rightarrow> receiver \<Rightarrow> unit io" where
  "checkpoint_if_dirty pid i r = (if r_dirty r then checkpoint pid (r_state r) i else ret ())"

definition recv_phase ::
    "(bytes \<Rightarrow> 256 word) \<Rightarrow> nat \<Rightarrow> session_auth \<Rightarrow> nat \<Rightarrow> tick \<Rightarrow> receiver \<Rightarrow> receiver io" where
  "recv_phase sha pid sa i tk r =
     (case t_recv tk of
        Datagram d \<Rightarrow> on_datagram sha sa (t_os tk) i d r
      | WouldBlock \<Rightarrow> ret r
      | RecvError e \<Rightarrow> bindM (checkpoint_if_dirty pid i r) (\<lambda>_. throw (IoErr e)))"

section \<open>Control events\<close>

definition on_event :: "nat \<Rightarrow> nat \<Rightarrow> instant \<Rightarrow> control_event \<Rightarrow> receiver \<Rightarrow> receiver io" where
  "on_event pid i now ev r =
     (case ev of
        End \<Rightarrow> ret (r\<lparr>r_ended := True,
          r_ended_at := (case r_ended_at r of None \<Rightarrow> Some now | Some v \<Rightarrow> Some v)\<rparr>)
      | Ping \<Rightarrow> bindM (send_control ''PONG'') (\<lambda>_. ret r)
      | CompleteAck \<Rightarrow> throw (Err ''received completion acknowledgement before completion'')
      | Cancel reason \<Rightarrow> bindM (checkpoint_if_dirty pid i r) (\<lambda>_.
          throw (Err (''sender cancelled transfer: '' @ reason)))
      | ControlError e \<Rightarrow> bindM (checkpoint_if_dirty pid i r) (\<lambda>_. throw (Err e)))"

fun on_events :: "nat \<Rightarrow> nat \<Rightarrow> instant \<Rightarrow> control_event list \<Rightarrow> receiver \<Rightarrow> receiver io" where
  "on_events pid i now [] r = ret r"
| "on_events pid i now (ev # evs) r = bindM (on_event pid i now ev r) (\<lambda>r. on_events pid i now evs r)"

section \<open>Completion\<close>

definition update_receiver_telemetry :: "nat option \<Rightarrow> receiver \<Rightarrow> telemetry" where
  "update_receiver_telemetry drops r = (r_tel r)\<lparr>
     received_chunks := received_count (r_state r),
     frontier_chunks := (case r_highest r of None \<Rightarrow> 0 | Some sequence \<Rightarrow> sequence + 1),
     socket_drops := drops\<rparr>"

definition count_report :: "telemetry \<Rightarrow> telemetry" where
  "count_report t = t\<lparr>reports := sat_add (reports t) 1\<rparr>"

text \<open>The wait for the acknowledgement; the boolean says that the deadline has passed.  The list
  ends, at the latest, with the deadline.\<close>

fun await_ack :: "(bool \<times> ack_wait) list \<Rightarrow> unit io" where
  "await_ack [] = throw (Err ''timed out waiting for completion acknowledgement'')"
| "await_ack ((expired, ev) # rest) =
     (if expired then throw (Err ''timed out waiting for completion acknowledgement'')
      else case ev of
        AckEvent CompleteAck \<Rightarrow> ret ()
      | AckEvent Ping \<Rightarrow> bindM (send_control ''PONG'') (\<lambda>_. await_ack rest)
      | AckEvent End \<Rightarrow> await_ack rest
      | AckEvent (Cancel reason) \<Rightarrow> throw (Err (''sender cancelled transfer: '' @ reason))
      | AckEvent (ControlError e) \<Rightarrow> throw (Err e)
      | AckTimeout \<Rightarrow> throw (Err ''timed out waiting for completion acknowledgement'')
      | AckDisconnected \<Rightarrow> throw (Err ''control reader stopped before completion acknowledgement''))"

definition finish ::
    "(bytes \<Rightarrow> 256 word) \<Rightarrow> string \<Rightarrow> string \<Rightarrow> nat \<Rightarrow> tick \<Rightarrow> receiver \<Rightarrow> telemetry io" where
  "finish sha dest hash i tk r =
     bindM (advance_hash_frontier (t_os tk) i r) (\<lambda>r.
     if r_frontier r \<noteq> chunks (shape (r_state r))
     then throw (Err ''complete receipt map has a hash-frontier gap'')
     else
     bindM (sync_file i) (\<lambda>_.
     let actual_hash = hex_digest (digest sha (r_hashed r)) in
     if actual_hash \<noteq> hash then
       bindM (send_control ''CANCEL hash-mismatch'') (\<lambda>_.
       bindM (resume_discard (r_state r)) (\<lambda>_.
       throw (Err ''received UDP file hash did not match'')))
     else
     bindM (resume_install (r_state r) dest) (\<lambda>_.
     let t = count_report (update_receiver_telemetry (t_drops tk) r) in
     bindM (send_control (format_feedback_report t [])) (\<lambda>_.
     bindM (send_control ''COMPLETE'') (\<lambda>_.
     bindM (await_ack (t_acks tk)) (\<lambda>_. ret t))))))"

section \<open>Reports\<close>

text \<open>The loop of \<open>mature_frontier\<close> that forgets old entries.\<close>

fun prune :: "instant \<Rightarrow> (instant \<times> nat) list \<Rightarrow> (instant \<times> nat) list" where
  "prune cutoff (a # b # rest) = (if fst b \<le> cutoff then prune cutoff (b # rest) else a # b # rest)"
| "prune cutoff hs = hs"

definition latest_before :: "instant \<Rightarrow> (instant \<times> nat) list \<Rightarrow> nat" where
  "latest_before cutoff hs =
     (case find (\<lambda>(seen, _). seen \<le> cutoff) (rev hs) of None \<Rightarrow> 0 | Some (_, v) \<Rightarrow> v)"

definition mature_frontier ::
    "(instant \<times> nat) list \<Rightarrow> instant \<Rightarrow> nat \<Rightarrow> nat \<Rightarrow> nat \<Rightarrow> (instant \<times> nat) list \<times> nat" where
  "mature_frontier hs now current grace retention =
     (let hs = (if hs = [] \<or> snd (last hs) \<noteq> current then hs @ [(now, current)] else hs);
          cutoff = now - int grace;
          hs = prune (now - int retention) hs
      in (hs, latest_before cutoff hs))"

definition ns_of_ms :: "nat \<Rightarrow> nat" where
  "ns_of_ms ms = ms * 1000000"

definition report_ranges :: "hello \<Rightarrow> tick \<Rightarrow> receiver \<Rightarrow> (instant \<times> nat) list \<times> (nat \<times> nat) list" where
  "report_ranges h tk r =
     (let now = t_report_now tk;
          active_grace = (if r_reordering r then ns_of_ms (h_repair_grace h) else 0);
          (hist, mature_end) = mature_frontier (r_history r) now
            (case r_highest r of None \<Rightarrow> 0 | Some v \<Rightarrow> v + 1) active_grace (ns_of_ms (h_repair_grace h));
          report_end = (if r_ended r \<and> (case r_ended_at r of None \<Rightarrow> False
              | Some v \<Rightarrow> active_grace \<le> duration_since now v)
            then chunks (shape (r_state r)) else mature_end)
      in (hist, missing_ranges (bitmap (r_state r)) report_end MAX_RANGES_PER_REPORT))"

definition report_phase :: "hello \<Rightarrow> tick \<Rightarrow> receiver \<Rightarrow> receiver io" where
  "report_phase h tk r =
     (if ns_of_ms (h_report_interval h) \<le> duration_since (t_report_check tk) (r_last_report r) then
        (let (hist, ranges) = report_ranges h tk r;
             t = count_report (update_receiver_telemetry (t_drops tk) r) in
         bindM (send_control (format_feedback_report t ranges)) (\<lambda>_.
         ret (r\<lparr>r_history := hist, r_tel := t, r_last_report := t_report_done tk\<rparr>)))
      else ret r)"

text \<open>\<open>RESUME_CHECKPOINT_INTERVAL\<close> is one second.\<close>

definition checkpoint_phase :: "nat \<Rightarrow> nat \<Rightarrow> tick \<Rightarrow> receiver \<Rightarrow> receiver io" where
  "checkpoint_phase pid i tk r =
     (if r_dirty r \<and> 1000000000 \<le> duration_since (t_checkpoint_now tk) (r_last_checkpoint r) then
        bindM (checkpoint pid (r_state r) i) (\<lambda>_.
        ret (r\<lparr>r_dirty := False, r_last_checkpoint := t_checkpoint_done tk\<rparr>))
      else ret r)"

section \<open>The loop\<close>

datatype outcome = Running receiver | Done telemetry

definition iteration ::
    "(bytes \<Rightarrow> 256 word) \<Rightarrow> nat \<Rightarrow> session_auth \<Rightarrow> string \<Rightarrow> hello \<Rightarrow> nat \<Rightarrow> tick \<Rightarrow> receiver \<Rightarrow> outcome io" where
  "iteration sha pid sa dest h i tk r =
     bindM (recv_phase sha pid sa i tk r) (\<lambda>r.
     bindM (on_events pid i (t_event_now tk) (t_events tk) r) (\<lambda>r.
     if r_ended r \<and> received_count (r_state r) = chunks (shape (r_state r))
     then bindM (finish sha dest (h_hash h) i tk r) (\<lambda>t. ret (Done t))
     else
     bindM (checkpoint_phase pid i tk r) (\<lambda>r.
     bindM (report_phase h tk r) (\<lambda>r. ret (Running r)))))"

fun receive_loop ::
    "(bytes \<Rightarrow> 256 word) \<Rightarrow> nat \<Rightarrow> session_auth \<Rightarrow> string \<Rightarrow> hello \<Rightarrow> nat \<Rightarrow> tick list \<Rightarrow> receiver \<Rightarrow> outcome io" where
  "receive_loop sha pid sa dest h i [] r = ret (Running r)"
| "receive_loop sha pid sa dest h i (tk # tks) r =
     bindM (iteration sha pid sa dest h i tk r) (\<lambda>oc.
     case oc of Done t \<Rightarrow> ret (Done t) | Running r \<Rightarrow> receive_loop sha pid sa dest h i tks r)"

text \<open>The state with which \<open>receive_udp\<close> enters the loop, before the first advance of the hash
  frontier.\<close>

definition new_receiver :: "resume_state \<Rightarrow> instant \<Rightarrow> receiver" where
  "new_receiver st now =
     \<lparr>r_state = st, r_tel = default_telemetry\<lparr>received_chunks := received_count st\<rparr>,
      r_hashed = [], r_frontier = 0, r_highest = highest_received (bitmap st),
      r_ended = False, r_ended_at = None, r_reordering = False, r_last_report = now,
      r_history = [(now, case highest_received (bitmap st) of None \<Rightarrow> 0 | Some v \<Rightarrow> v + 1)],
      r_last_checkpoint = now, r_dirty = False\<rparr>"

section \<open>The invariant\<close>

definition hash_ok :: "receiver \<Rightarrow> bytes \<Rightarrow> bool" where
  "hash_ok r c \<longleftrightarrow> (let l = shape (r_state r) in r_frontier r \<le> chunks l
     \<and> r_hashed r = take (min (r_frontier r * payload_bytes l) (size l)) c
     \<and> {..<r_frontier r} \<subseteq> received_set (bitmap (r_state r)))"

text \<open>The counters after \<open>n\<close> datagrams.\<close>

definition counters_ok :: "nat \<Rightarrow> receiver \<Rightarrow> bool" where
  "counters_ok n r \<longleftrightarrow> (let t = r_tel r in
     accepted_datagrams t + duplicate_datagrams t = valid_datagrams t \<and> valid_datagrams t \<le> n
     \<and> repair_datagrams t \<le> valid_datagrams t \<and> is_u64 (invalid_datagrams t)
     \<and> accepted_datagrams t \<le> received_count (r_state r)
     \<and> r_highest r = highest_received (bitmap (r_state r)))"

text \<open>\<open>C\<close> is what holds of the counters: \<open>counters_ok n\<close> between two iterations.\<close>

definition receiving ::
    "string \<Rightarrow> (nat \<Rightarrow> bytes \<Rightarrow> bool) \<Rightarrow> nat \<Rightarrow> (receiver \<Rightarrow> bool) \<Rightarrow> receiver \<Rightarrow> world \<Rightarrow> bool" where
  "receiving dest ok i C r w \<longleftrightarrow> in_session dest ok (r_state r) i w
     \<and> hash_ok r (content (inodes w ! i)) \<and> C r"

text \<open>The transfer the loop works on: its layout and object hash do not change.\<close>

definition same_object :: "chunk_layout \<Rightarrow> bytes \<Rightarrow> receiver \<Rightarrow> bool" where
  "same_object l oh r \<longleftrightarrow> shape (r_state r) = l \<and> object_hash (r_state r) = oh"

definition loop_inv ::
    "string \<Rightarrow> (nat \<Rightarrow> bytes \<Rightarrow> bool) \<Rightarrow> chunk_layout \<Rightarrow> bytes \<Rightarrow> nat \<Rightarrow> (receiver \<Rightarrow> bool)
      \<Rightarrow> receiver \<Rightarrow> world \<Rightarrow> bool" where
  "loop_inv dest ok l oh i C r w \<longleftrightarrow> receiving dest ok i C r w \<and> same_object l oh r"

lemma loop_inv_crash_safe: "loop_inv dest ok l oh i C r w \<Longrightarrow> crash_safe dest l oh ok w"
  by (auto simp: loop_inv_def receiving_def same_object_def in_session_def)

lemma fault_blind_loop [simp]: "fault_blind (loop_inv dest ok l oh i C r)"
  using fault_blind_in_session unfolding loop_inv_def receiving_def fault_blind_def by auto

text \<open>Sending does not touch the disk.\<close>

definition sent_blind :: "(world \<Rightarrow> bool) \<Rightarrow> bool" where
  "sent_blind P \<longleftrightarrow> (\<forall>w ms. P (w\<lparr>sent := ms\<rparr>) = P w)"

lemma sent_blind_loop [simp]:
  "sent_blind (loop_inv dest ok l oh i C r)" "sent_blind (crash_safe dest l oh ok)"
  "sent_blind (installed dest i bs)"
  by (simp_all add: sent_blind_def loop_inv_def receiving_def in_session_def crash_safe_def
      session_maps_def wf_world_def installed_def)

lemma triple_send:
  assumes "fault_blind P" "sent_blind P" "\<And>w. P w \<Longrightarrow> E w"
  shows "triple P (send_control p) (\<lambda>_. P) E"
proof (cases "lf \<in> set p \<or> 65536 div 2 < length p")
  case True
  then show ?thesis using assms(3) unfolding send_control_def
    by (simp add: triple_throw)
next
  case False
  have "triple P (call (\<lambda>w. (Inr (), w\<lparr>sent := sent w @ [p]\<rparr>))) (\<lambda>_. P) E"
    by (rule triple_call [OF assms(1) _ assms(3)])
      (use assms(2) in \<open>simp add: triple_def sent_blind_def\<close>)
  with False show ?thesis unfolding send_control_def by simp
qed

lemma frontier_end_spec:
  "e \<le> count \<Longrightarrow> e \<le> frontier_end bm count e \<and> frontier_end bm count e \<le> count
    \<and> (\<forall>j. e \<le> j \<and> j < frontier_end bm count e \<longrightarrow> bitmap_contains bm j)
    \<and> (frontier_end bm count e < count \<longrightarrow> \<not> bitmap_contains bm (frontier_end bm count e))"
proof (induction bm count e rule: frontier_end.induct)
  case (1 bm count e)
  show ?case
  proof (cases "e < count \<and> bitmap_contains bm e")
    case True
    then have f: "frontier_end bm count e = frontier_end bm count (e + 1)"
      by (subst frontier_end.simps) simp
    have ih: "e + 1 \<le> frontier_end bm count (e + 1) \<and> frontier_end bm count (e + 1) \<le> count
      \<and> (\<forall>j. e + 1 \<le> j \<and> j < frontier_end bm count (e + 1) \<longrightarrow> bitmap_contains bm j)
      \<and> (frontier_end bm count (e + 1) < count \<longrightarrow> \<not> bitmap_contains bm (frontier_end bm count (e + 1)))"
      using "1.IH" [OF True] True by simp
    have "bitmap_contains bm j" if "e \<le> j" "j < frontier_end bm count (e + 1)" for j
      using that ih True by (cases "j = e") auto
    then show ?thesis unfolding f using ih by auto
  next
    case False
    then have "frontier_end bm count e = e" by (subst frontier_end.simps) (rule if_not_P)
    with False "1.prems" show ?thesis by auto
  qed
qed

lemma take_read:
  "a \<le> b \<Longrightarrow> take a c @ read_bytes c a (b - a) = take b c"
  by (simp add: read_bytes_def take_add [symmetric])

lemma advance_hash_ok:
  assumes h: "hash_ok r c" and c: "length c = size (shape (r_state r))"
    and bs: "bs = read_bytes c (r_frontier r * payload_bytes (shape (r_state r)))
      (min (frontier_end (bitmap (r_state r)) (chunks (shape (r_state r))) (r_frontier r)
        * payload_bytes (shape (r_state r))) (size (shape (r_state r)))
       - r_frontier r * payload_bytes (shape (r_state r)))"
  shows "hash_ok (r\<lparr>r_hashed := r_hashed r @ bs,
    r_frontier := frontier_end (bitmap (r_state r)) (chunks (shape (r_state r))) (r_frontier r)\<rparr>) c"
proof -
  let ?l = "shape (r_state r)" and ?bm = "bitmap (r_state r)" and ?f = "r_frontier r"
  let ?e = "frontier_end ?bm (chunks ?l) ?f" and ?p = "payload_bytes (shape (r_state r))"
  have f: "?f \<le> chunks ?l" "r_hashed r = take (min (?f * ?p) (size ?l)) c" "{..<?f} \<subseteq> received_set ?bm"
    using h by (simp_all add: hash_ok_def Let_def)
  note e = frontier_end_spec [OF f(1), of ?bm]
  have le: "?f * ?p \<le> ?e * ?p" using e by (intro mult_le_mono1) simp
  have "r_hashed r @ bs = take (min (?e * ?p) (size ?l)) c"
  proof (cases "?f * ?p \<le> size ?l")
    case True
    then have "min (?f * ?p) (size ?l) = ?f * ?p" "?f * ?p \<le> min (?e * ?p) (size ?l)" using le by simp_all
    then show ?thesis using f(2) bs take_read [of "?f * ?p" "min (?e * ?p) (size ?l)" c] by simp
  next
    case False
    then have m: "min (?f * ?p) (size ?l) = size ?l" "min (?e * ?p) (size ?l) = size ?l"
      using le by linarith+
    moreover have "size ?l - ?f * ?p = 0" using False by simp
    ultimately have "bs = []" using bs by (simp only: m read_bytes_def) simp
    then show ?thesis using f(2) m by simp
  qed
  moreover have "j \<in> received_set ?bm" if "j < ?e" for j
    using that e f(3) by (cases "j < ?f") (auto simp: received_set_iff)
  ultimately show ?thesis using e by (auto simp: hash_ok_def Let_def)
qed

definition hash_blind :: "(receiver \<Rightarrow> bool) \<Rightarrow> bool" where
  "hash_blind C \<longleftrightarrow> (\<forall>r hs f. C (r\<lparr>r_hashed := hs, r_frontier := f\<rparr>) = C r)"

lemma hash_blind_counters [simp]: "hash_blind (counters_ok n)"
  by (simp add: hash_blind_def counters_ok_def)

lemma advance_keeps:
  assumes C: "hash_blind C"
  shows "triple (loop_inv dest ok l oh i C r) (advance_hash_frontier os i r)
     (\<lambda>r'. \<lambda>w. loop_inv dest ok l oh i C r' w \<and> r_state r' = r_state r
        \<and> r_frontier r' = frontier_end (bitmap (r_state r)) (chunks (shape (r_state r))) (r_frontier r))
     (crash_safe dest l oh ok)"
  unfolding triple_def
proof (intro allI impI)
  fix w assume inv: "loop_inv dest ok l oh i C r w"
  let ?l = "shape (r_state r)" and ?c = "content (inodes w ! i)"
  let ?e = "frontier_end (bitmap (r_state r)) (chunks ?l) (r_frontier r)"
  let ?off = "r_frontier r * payload_bytes ?l"
  let ?n = "min (?e * payload_bytes ?l) (size ?l) - ?off"
  have cs: "crash_safe dest l oh ok w" by (rule loop_inv_crash_safe [OF inv])
  have s: "in_session dest ok (r_state r) i w" and h: "hash_ok r ?c"
    using inv by (simp_all add: loop_inv_def receiving_def)
  have len: "length ?c = size ?l" using s by (simp add: in_session_def session_file_def)
  show "case advance_hash_frontier os i r w of (Inl e, w') \<Rightarrow> crash_safe dest l oh ok w'
    | (Inr r', w') \<Rightarrow> loop_inv dest ok l oh i C r' w' \<and> r_state r' = r_state r \<and> r_frontier r' = ?e"
  proof (cases "advance_hash_frontier os i r w")
    case (Pair res w')
    have w': "w' = w"
      using Pair by (auto simp: advance_hash_frontier_def Let_def bindM_def lift_def read_range_def ret_def
          split: sum.splits prod.splits)
    show ?thesis
    proof (cases res)
      case (Inl e)
      then show ?thesis using Pair w' cs by simp
    next
      case (Inr r')
      then obtain bs where bs: "read_loop os ''short read while advancing object hash'' (1024 * 1024) ?c ?off ?n = Inr bs"
        "r' = r\<lparr>r_hashed := r_hashed r @ bs, r_frontier := ?e\<rparr>"
        using Pair by (auto simp: advance_hash_frontier_def Let_def bindM_def lift_def read_range_def ret_def
            split: sum.splits prod.splits)
      have "hash_ok r' ?c" unfolding bs(2)
        by (rule advance_hash_ok [OF h len]) (use read_loop_Inr [OF bs(1)] in simp)
      then have "loop_inv dest ok l oh i C r' w"
        using inv bs(2) C by (simp add: loop_inv_def receiving_def same_object_def hash_blind_def)
      then show ?thesis using Pair w' Inr bs(2) by simp
    qed
  qed
qed

text \<open>The counters while a valid datagram for chunk \<open>c\<close> is being handled: it is counted as valid
  and, in \<open>counted\<close>, as accepted or duplicate; the highest chunk is not updated yet.\<close>

definition next_highest :: "nat \<Rightarrow> receiver \<Rightarrow> nat" where
  "next_highest c r = (case r_highest r of None \<Rightarrow> c | Some old \<Rightarrow> max old c)"

definition counted :: "nat \<Rightarrow> nat \<Rightarrow> receiver \<Rightarrow> bool" where
  "counted n c r \<longleftrightarrow> (let t = r_tel r in
     accepted_datagrams t + duplicate_datagrams t = valid_datagrams t \<and> valid_datagrams t \<le> n
     \<and> repair_datagrams t \<le> valid_datagrams t \<and> is_u64 (invalid_datagrams t)
     \<and> accepted_datagrams t \<le> received_count (r_state r)
     \<and> highest_received (bitmap (r_state r)) = Some (next_highest c r))"

lemma hash_blind_counted [simp]: "hash_blind (counted n c)"
  by (simp add: hash_blind_def counted_def next_highest_def)

lemma counted_done: "counted n c r \<Longrightarrow> counters_ok n (r\<lparr>r_highest := Some (next_highest c r)\<rparr>)"
  by (simp add: counted_def counters_ok_def Let_def)

lemma highest_insert:
  assumes i: "bitmap_insert bm c = Inr bm'" and h: "r_highest r = highest_received bm"
  shows "highest_received bm' = Some (next_highest c r)"
proof -
  have rs: "received_set bm' = insert c (received_set bm)"
    using insert_Inr [OF i] by (auto simp: received_set_iff)
  have f: "finite (received_set bm)" by (rule finite_subset [OF received_set_below]) simp
  show ?thesis using h f
    by (auto simp: highest_received_spec rs next_highest_def max.commute split: if_splits)
qed

lemma highest_member:
  assumes c: "bitmap_contains bm c" and h: "r_highest r = highest_received bm"
  shows "highest_received bm = Some (next_highest c r)"
proof -
  have f: "finite (received_set bm)" by (rule finite_subset [OF received_set_below]) simp
  have m: "c \<in> received_set bm" using c by (simp add: received_set_iff)
  then have "c \<le> Max (received_set bm)" by (rule Max_ge [OF f])
  then show ?thesis using h m by (auto simp: highest_received_spec next_highest_def)
qed

lemma chunk_bytes_written:
  assumes "chunk_start l c + length bs \<le> length (content f)" "length bs = chunk_length l c"
  shows "chunk_bytes l (content (written f (chunk_start l c) bs)) c = bs"
  using read_write_same [OF assms(1)] assms(2) by (simp add: chunk_bytes_def written_def Let_def)

lemma hash_ok_written:
  assumes h: "hash_ok r (content f)" and c: "c \<notin> received_set (bitmap (r_state r))"
    and fit: "chunk_start (shape (r_state r)) c + length bs \<le> length (content f)"
  shows "hash_ok r (content (written f (chunk_start (shape (r_state r)) c) bs))"
proof -
  let ?l = "shape (r_state r)"
  have "\<not> c < r_frontier r" using h c by (auto simp: hash_ok_def Let_def)
  then have "r_frontier r * payload_bytes ?l \<le> chunk_start ?l c"
    unfolding chunk_start_def by (intro mult_le_mono1) simp
  then have "min (r_frontier r * payload_bytes ?l) (size ?l) \<le> chunk_start ?l c" by simp
  then have "take (min (r_frontier r * payload_bytes ?l) (size ?l)) (content (written f (chunk_start ?l c) bs))
      = take (min (r_frontier r * payload_bytes ?l) (size ?l)) (content f)"
    using fit by (simp add: written_def write_bytes_def Let_def min_absorb1)
  then show ?thesis using h by (simp add: hash_ok_def Let_def)
qed

text \<open>A valid datagram, before and after it is stored.\<close>

definition before_store :: "nat \<Rightarrow> receiver \<Rightarrow> bool" where
  "before_store n r \<longleftrightarrow> (let t = r_tel r in
     accepted_datagrams t + duplicate_datagrams t + 1 = valid_datagrams t \<and> valid_datagrams t \<le> n
     \<and> repair_datagrams t \<le> valid_datagrams t \<and> is_u64 (invalid_datagrams t)
     \<and> accepted_datagrams t \<le> received_count (r_state r)
     \<and> r_highest r = highest_received (bitmap (r_state r)))"

lemma store_chunk_keeps:
  assumes n: "n < 2 ^ 64" and c: "c < chunks l" "length data = chunk_length l c" and ok: "ok c data"
  shows "triple (\<lambda>w. loop_inv dest ok l oh i (before_store n) r w \<and> \<not> bitmap_contains (bitmap (r_state r)) c)
     (store_chunk os i c repair data r)
     (\<lambda>r'. loop_inv dest ok l oh i (counted n c) r') (crash_safe dest l oh ok)"
  unfolding triple_def
proof (intro allI impI, elim conjE)
  fix w assume inv: "loop_inv dest ok l oh i (before_store n) r w" and nc: "\<not> bitmap_contains (bitmap (r_state r)) c"
  let ?st = "r_state r" and ?f = "inodes w ! i"
  have l: "shape ?st = l" "object_hash ?st = oh" using inv by (simp_all add: loop_inv_def same_object_def)
  have s: "in_session dest ok ?st i w" and h: "hash_ok r (content ?f)" and b: "before_store n r"
    using inv by (simp_all add: loop_inv_def receiving_def)
  have c': "c < chunks (shape ?st)" "c \<notin> received_set (bitmap ?st)"
    using c nc l by (simp_all add: received_set_iff)
  have lay: "wf_layout (shape ?st)" and wb: "wf_bitmap (chunks (shape ?st)) (bitmap ?st)"
    and sf: "session_file ok ?st ?f" using s by (simp_all add: in_session_def wf_state_def)
  have fit: "chunk_start (shape ?st) c + length data \<le> length (content ?f)"
    using chunk_inside [OF lay c'(1)] c(2) l sf by (simp add: session_file_def)
  obtain bm where bm: "bitmap_insert (bitmap ?st) c = Inr bm"
    using wf_bitmap_insert [OF wb c'(1)] by blast
  let ?st' = "?st\<lparr>bitmap := bm, received_count := received_count ?st + 1\<rparr>"
  let ?r2 = "r\<lparr>r_tel := (r_tel r)\<lparr>accepted_datagrams := sat_add (accepted_datagrams (r_tel r)) 1\<rparr>,
      r_reordering := (r_reordering r \<or> \<not> repair \<and>
        (case r_highest r of None \<Rightarrow> False | Some frontier \<Rightarrow> c < frontier)),
      r_state := ?st', r_dirty := True\<rparr>"
  obtain rw w1 where wr: "write_file i (c * payload_bytes (shape ?st)) data w = (rw, w1)" by fastforce
  have il: "i < length (inodes w)" by (rule in_session_file [OF s])
  have faults: "in_session dest ok ?st i (v\<lparr>faults := fs\<rparr>) = in_session dest ok ?st i v"
    "in_session dest ok ?st i (v\<lparr>faults := fs, alive := a\<rparr>) = in_session dest ok ?st i v" for v fs a
    using fault_blindD [OF fault_blind_in_session] by blast+
  have iw: "in_session dest ok ?st i (set_inode i (written ?f (chunk_start (shape ?st) c) xs) (w\<lparr>faults := fs\<rparr>))"
    if "length xs \<le> chunk_length (shape ?st) c" for xs fs
    using in_session_write [OF _ c' that, of dest ok i "w\<lparr>faults := fs\<rparr>"] s faults(1) [of fs w] by simp
  show "case store_chunk os i c repair data r w of (Inl e, w') \<Rightarrow> crash_safe dest l oh ok w'
    | (Inr r', w') \<Rightarrow> loop_inv dest ok l oh i (counted n c) r' w'"
    using wr
  proof (cases rule: write_file_cases)
    case (all fs)
    let ?w = "set_inode i (written ?f (chunk_start (shape ?st) c) data) (w\<lparr>faults := fs\<rparr>)"
    have w1: "w1 = ?w" using all by (simp add: chunk_start_def)
    have "in_session dest ok ?st i ?w"
      by (rule iw) (use c(2) l in simp)
    then have s1: "in_session dest ok ?st' i ?w"
    proof (rule in_session_insert [OF _ c' bm])
      have "chunk_bytes (shape ?st) (content (inodes ?w ! i)) c = data"
        using chunk_bytes_written [OF fit] c(2) l il by (simp add: set_inode_def)
      then show "ok c (chunk_bytes (shape ?st) (content (inodes ?w ! i)) c)" using ok by simp
    qed
    have "hash_ok r (content (inodes ?w ! i))"
      using hash_ok_written [OF h c'(2) fit] il by (simp add: set_inode_def)
    moreover have "received_set (bitmap ?st) \<subseteq> received_set bm"
      using insert_Inr [OF bm] by (auto simp: received_set_iff)
    ultimately have h1: "hash_ok ?r2 (content (inodes ?w ! i))"
      unfolding hash_ok_def Let_def by auto
    have "accepted_datagrams (r_tel r) + 1 < 2 ^ 64" using b n by (simp add: before_store_def Let_def)
    then have sa: "sat_add (accepted_datagrams (r_tel r)) 1 = accepted_datagrams (r_tel r) + 1"
      by (rule sat_add_id)
    have "r_highest r = highest_received (bitmap ?st)" using b by (simp add: before_store_def Let_def)
    then have hh: "highest_received bm = Some (next_highest c r)" by (rule highest_insert [OF bm])
    have "next_highest c ?r2 = next_highest c r" by (simp add: next_highest_def)
    then have cnt: "counted n c ?r2"
      using b hh sa by (simp add: before_store_def counted_def Let_def)
    have inv1: "loop_inv dest ok l oh i (counted n c) ?r2 ?w"
      using s1 h1 cnt l by (simp add: loop_inv_def receiving_def same_object_def)
    have st: "store_chunk os i c repair data r w
      = (if received_count ?st' mod 64 = 0 \<or> (repair \<and> c = r_frontier ?r2)
         then advance_hash_frontier os i ?r2 else ret ?r2) ?w"
      using wr all(1) w1 bm unfolding store_chunk_def Let_def bindM_def lift_def by simp
    show ?thesis
    proof (cases "received_count ?st' mod 64 = 0 \<or> (repair \<and> c = r_frontier ?r2)")
      case True
      have "store_chunk os i c repair data r w = advance_hash_frontier os i ?r2 ?w"
        using st unfolding if_P [OF True] .
      moreover have "triple (loop_inv dest ok l oh i (counted n c) ?r2) (advance_hash_frontier os i ?r2)
        (\<lambda>r'. loop_inv dest ok l oh i (counted n c) r') (crash_safe dest l oh ok)"
        by (rule triple_conseq [OF advance_keeps [OF hash_blind_counted]]) auto
      ultimately show ?thesis using inv1 by (simp add: triple_def)
    next
      case False
      have "store_chunk os i c repair data r w = (Inr ?r2, ?w)"
        using st unfolding if_not_P [OF False] ret_def .
      then show ?thesis using inv1 by simp
    qed
  next
    case (some e k fs)
    have "length (take k data) \<le> chunk_length (shape ?st) c" using c(2) l by simp
    from iw [OF this] have "in_session dest ok ?st i w1"
      using some(2) by (simp add: chunk_start_def)
    then have "crash_safe dest l oh ok w1" using l by (simp add: in_session_def)
    then show ?thesis using wr some(1) unfolding store_chunk_def Let_def bindM_def by simp
  next
    case (none e fs a)
    have "in_session dest ok ?st i w1" using s none(2) faults(2) by simp
    then have "crash_safe dest l oh ok w1" using l by (simp add: in_session_def)
    then show ?thesis using wr none(1) unfolding store_chunk_def Let_def bindM_def by simp
  qed
qed

lemma note_valid_before:
  assumes "counters_ok n r" "Suc n < 2 ^ 64"
  shows "before_store (Suc n) (r\<lparr>r_tel := note_valid repair (r_tel r)\<rparr>)"
proof -
  have v: "valid_datagrams (r_tel r) + 1 < 2 ^ 64" "repair_datagrams (r_tel r) + 1 < 2 ^ 64"
    using assms by (simp_all add: counters_ok_def Let_def)
  then show ?thesis
    using assms(1) by (simp add: before_store_def counters_ok_def note_valid_def Let_def sat_add_id)
qed

lemma loop_inv_same:
  assumes "loop_inv dest ok l oh i C r w"
    and "r_state r' = r_state r" "r_hashed r' = r_hashed r" "r_frontier r' = r_frontier r" "C' r'"
  shows "loop_inv dest ok l oh i C' r' w"
  using assms by (auto simp: loop_inv_def receiving_def same_object_def hash_ok_def Let_def)

lemma loop_inv_tel:
  assumes "loop_inv dest ok l oh i C r w" "C' (r\<lparr>r_tel := t\<rparr>)"
  shows "loop_inv dest ok l oh i C' (r\<lparr>r_tel := t\<rparr>) w"
  using assms by (auto intro: loop_inv_same)

text \<open>Only acceptable content passes the check of this datagram.\<close>

definition carries_ok ::
    "(bytes \<Rightarrow> 256 word) \<Rightarrow> session_auth \<Rightarrow> chunk_layout \<Rightarrow> (nat \<Rightarrow> bytes \<Rightarrow> bool) \<Rightarrow> bytes \<Rightarrow> bool" where
  "carries_ok sha sa l ok d \<longleftrightarrow>
     (case check_datagram sha sa l d of None \<Rightarrow> True | Some (c, _, data) \<Rightarrow> ok c data)"

lemma on_datagram_keeps:
  assumes n: "Suc n < 2 ^ 64" and d: "carries_ok sha sa l ok d" and l: "wf_layout l"
  shows "triple (loop_inv dest ok l oh i (counters_ok n) r) (on_datagram sha sa os i d r)
     (\<lambda>r'. loop_inv dest ok l oh i (counters_ok (Suc n)) r') (crash_safe dest l oh ok)"
  unfolding triple_def
proof (intro allI impI)
  fix w assume inv: "loop_inv dest ok l oh i (counters_ok n) r w"
  then have sh: "shape (r_state r) = l" and cnt: "counters_ok n r"
    by (simp_all add: loop_inv_def same_object_def receiving_def)
  show "case on_datagram sha sa os i d r w of (Inl e, w') \<Rightarrow> crash_safe dest l oh ok w'
    | (Inr r', w') \<Rightarrow> loop_inv dest ok l oh i (counters_ok (Suc n)) r' w'"
  proof (cases "check_datagram sha sa l d")
    case None
    let ?t = "(r_tel r)\<lparr>invalid_datagrams := sat_add (invalid_datagrams (r_tel r)) 1\<rparr>"
    have "counters_ok (Suc n) (r\<lparr>r_tel := ?t\<rparr>)" using cnt by (simp add: counters_ok_def Let_def)
    then have "loop_inv dest ok l oh i (counters_ok (Suc n)) (r\<lparr>r_tel := ?t\<rparr>) w"
      using inv by (rule loop_inv_tel [where C' = "counters_ok (Suc n)", rotated])
    then show ?thesis using None sh by (simp add: on_datagram_def ret_def)
  next
    case (Some m)
    obtain c repair data where m: "m = (c, repair, data)" by (cases m)
    from Some m have v: "c < chunks l" "length data = chunk_length l c"
      using check_datagram_iff [OF l, of sha sa d m] by (simp_all add: valid_message_def)
    have ok: "ok c data" using d Some m by (simp add: carries_ok_def)
    let ?r1 = "r\<lparr>r_tel := note_valid repair (r_tel r)\<rparr>"
    have b: "before_store (Suc n) ?r1" by (rule note_valid_before [OF cnt n])
    have inv1: "loop_inv dest ok l oh i (before_store (Suc n)) ?r1 w"
      using inv b by (rule loop_inv_tel [where C' = "before_store (Suc n)"])
    have upd: "loop_inv dest ok l oh i (counters_ok (Suc n)) (r2\<lparr>r_highest := Some (next_highest c r2)\<rparr>) w2"
      if "loop_inv dest ok l oh i (counted (Suc n) c) r2 w2" for r2 w2
      by (rule loop_inv_same [OF that]) (use that counted_done in \<open>auto simp: loop_inv_def receiving_def\<close>)
    show ?thesis
    proof (cases "bitmap_contains (bitmap (r_state r)) c")
      case True
      let ?r2 = "?r1\<lparr>r_tel := (r_tel ?r1)\<lparr>duplicate_datagrams := sat_add (duplicate_datagrams (r_tel ?r1)) 1\<rparr>\<rparr>"
      have h: "highest_received (bitmap (r_state r)) = Some (next_highest c r)"
        by (rule highest_member [OF True]) (use cnt in \<open>simp add: counters_ok_def Let_def\<close>)
      have nh: "next_highest c ?r2 = next_highest c r" by (simp add: next_highest_def)
      have "duplicate_datagrams (r_tel ?r1) + 1 < 2 ^ 64" using b n by (simp add: before_store_def Let_def)
      then have "counted (Suc n) c ?r2"
        using b h nh by (simp add: counted_def before_store_def Let_def sat_add_id)
      then have "loop_inv dest ok l oh i (counted (Suc n) c) ?r2 w"
        using inv1 by (rule loop_inv_tel [where C' = "counted (Suc n) c", rotated])
      from upd [OF this] show ?thesis
        using Some m sh True by (simp add: on_datagram_def Let_def bindM_def ret_def next_highest_def)
    next
      case False
      note t = store_chunk_keeps [OF n v(1,2), of ok dest oh i ?r1 os repair, OF ok]
      obtain rs w' where sc: "store_chunk os i c repair data ?r1 w = (rs, w')" by fastforce
      have P: "loop_inv dest ok l oh i (before_store (Suc n)) ?r1 w \<and> \<not> bitmap_contains (bitmap (r_state ?r1)) c"
        using inv1 False by simp
      have od: "on_datagram sha sa os i d r w = bindM (store_chunk os i c repair data ?r1)
          (\<lambda>r2. ret (r2\<lparr>r_highest := Some (next_highest c r2)\<rparr>)) w"
        using Some m sh False by (simp add: on_datagram_def next_highest_def Let_def)
      show ?thesis
      proof (cases rs)
        case (Inl e)
        then show ?thesis using triple_Inl [OF t P, of e w'] sc od by (simp add: bindM_def)
      next
        case (Inr r2)
        then have "loop_inv dest ok l oh i (counted (Suc n) c) r2 w'"
          using triple_Inr [OF t P, of r2 w'] sc by simp
        from upd [OF this] show ?thesis using Inr sc od by (simp add: bindM_def ret_def)
      qed
    qed
  qed
qed

text \<open>A checkpoint does not touch the bytes of the part file.\<close>

definition keeps_bytes :: "nat \<Rightarrow> bytes \<Rightarrow> world \<Rightarrow> bool" where
  "keeps_bytes i c w \<longleftrightarrow> i < length (inodes w) \<and> content (inodes w ! i) = c"

lemma fault_blind_bytes [simp]:
  "fault_blind (keeps_bytes i c)" "fault_blind (\<lambda>w. keeps_bytes i c w \<and> names w p \<noteq> Some i)"
  by (simp_all add: fault_blind_def keeps_bytes_def)

lemma sync_content [simp]:
  "content (fs[t := (fs ! t)\<lparr>stable := S\<rparr>] ! i) = content (fs ! i)"
  by (cases "i < length fs"; cases "t = i") (simp_all add: not_less list_update_beyond)

lemma append_keeps_bytes:
  "t \<noteq> i \<Longrightarrow> triple (keeps_bytes i c) (append_file t bs) (\<lambda>_. keeps_bytes i c) (\<lambda>_. True)"
  by (rule triple_append) (auto simp: keeps_bytes_def set_inode_def)

lemma sync_keeps_bytes:
  "triple (\<lambda>w. keeps_bytes i c w \<and> names w p \<noteq> Some i) (sync_file t)
     (\<lambda>_ w. keeps_bytes i c w \<and> names w p \<noteq> Some i) (\<lambda>_. True)"
  unfolding sync_file_def
  by (rule triple_call [OF fault_blind_bytes(2)])
      (auto simp: triple_def keeps_bytes_def set_inode_def Let_def)

lemma checkpoint_keeps_bytes:
  "triple (\<lambda>w. keeps_bytes i c w \<and> names w (tmp_path pid (map_path st)) \<noteq> Some i)
     (checkpoint pid st i) (\<lambda>_. keeps_bytes i c) (\<lambda>_. True)"
proof -
  have create: "triple (\<lambda>w. keeps_bytes i c w \<and> names w p \<noteq> Some i) (create_file p)
     (\<lambda>t w. keeps_bytes i c w \<and> t \<noteq> i) (\<lambda>_. True)" for p
    unfolding create_file_def
    by (rule triple_call [OF fault_blind_bytes(2)]) (auto simp: triple_def keeps_bytes_def set_inode_def
        set_names_def nth_append nth_list_update split: option.splits)
  have appends: "triple (keeps_bytes i c) (forM (append_file t) qs) (\<lambda>_. keeps_bytes i c) (\<lambda>_. True)"
    if "t \<noteq> i" for t qs
    by (induction qs) (auto intro!: triple_ret triple_bind [OF append_keeps_bytes [OF that]])
  have sync: "triple (keeps_bytes i c) (sync_file t) (\<lambda>_. keeps_bytes i c) (\<lambda>_. True)" for t
    unfolding sync_file_def
    by (rule triple_call) (auto simp: triple_def keeps_bytes_def set_inode_def Let_def)
  have rename: "triple (keeps_bytes i c) (rename_file p q) (\<lambda>_. keeps_bytes i c) (\<lambda>_. True)" for p q
    unfolding rename_file_def
    by (rule triple_call) (auto simp: triple_def keeps_bytes_def set_names_def split: option.splits)
  have rest: "triple (\<lambda>w. keeps_bytes i c w \<and> t \<noteq> i)
      (bindM (forM (append_file t) qs) (\<lambda>_. bindM (sync_file t) (\<lambda>_. rename_file p q)))
      (\<lambda>_. keeps_bytes i c) (\<lambda>_. True)" for t qs p q
    by (rule triple_pre [where F = "t \<noteq> i"], simp, rule triple_conseq [OF triple_bind [OF appends
        triple_bind [OF sync rename]]]) auto
  show ?thesis unfolding checkpoint_def
    by (intro triple_bind [OF sync_keeps_bytes] triple_bind [OF create] rest)
qed

lemma checkpoint_keeps:
  "triple (loop_inv dest ok l oh i C r) (checkpoint pid (r_state r) i)
     (\<lambda>_. loop_inv dest ok l oh i C r) (crash_safe dest l oh ok)"
  unfolding triple_def
proof (intro allI impI)
  fix w assume inv: "loop_inv dest ok l oh i C r w"
  let ?c = "content (inodes w ! i)" and ?st = "r_state r"
  let ?tmp = "tmp_path pid (map_path ?st)"
  have s: "in_session dest ok ?st i w" and sh: "shape ?st = l" "object_hash ?st = oh"
    using inv by (simp_all add: loop_inv_def receiving_def same_object_def)
  have st: "wf_state dest ?st" using s by (simp add: in_session_def)
  have wf: "wf_world w" by (rule in_session_wf [OF s])
  have p: "names w (part_of dest) = Some i" using s by (simp add: in_session_def)
  have m: "map_path ?st = map_of_dest dest" using st by (simp add: wf_state_def)
  have "names w ?tmp \<noteq> Some i"
    unfolding m using wf_world_inj [OF wf wf_world_names [OF wf] _ p] tmp_neq(2) by blast
  then have P: "in_session dest ok ?st i w \<and> keeps_bytes i ?c w \<and> names w ?tmp \<noteq> Some i"
    using s in_session_file [OF s] by (simp add: keeps_bytes_def)
  note t = triple_conj [OF checkpoint_keeps_session [OF st] checkpoint_keeps_bytes]
  obtain rs w' where m: "checkpoint pid ?st i w = (rs, w')" by fastforce
  show "case checkpoint pid ?st i w of (Inl e, w') \<Rightarrow> crash_safe dest l oh ok w'
    | (Inr x, w') \<Rightarrow> loop_inv dest ok l oh i C r w'"
  proof (cases rs)
    case (Inl e)
    then show ?thesis using triple_Inl [OF t P, of e w'] m sh by (simp add: in_session_def)
  next
    case (Inr u)
    then show ?thesis using triple_Inr [OF t P, of u w'] m inv
      by (simp add: loop_inv_def receiving_def keeps_bytes_def)
  qed
qed

lemma checkpoint_if_dirty_keeps:
  "triple (loop_inv dest ok l oh i C r) (checkpoint_if_dirty pid i r)
     (\<lambda>_. loop_inv dest ok l oh i C r) (crash_safe dest l oh ok)"
  by (auto simp: checkpoint_if_dirty_def intro!: checkpoint_keeps triple_ret)

definition tick_ok ::
    "(bytes \<Rightarrow> 256 word) \<Rightarrow> session_auth \<Rightarrow> chunk_layout \<Rightarrow> (nat \<Rightarrow> bytes \<Rightarrow> bool) \<Rightarrow> tick \<Rightarrow> bool" where
  "tick_ok sha sa l ok tk \<longleftrightarrow> (case t_recv tk of Datagram d \<Rightarrow> carries_ok sha sa l ok d | _ \<Rightarrow> True)"

lemma counters_ok_Suc: "counters_ok n r \<Longrightarrow> counters_ok (Suc n) r"
  by (simp add: counters_ok_def Let_def)

lemma recv_phase_keeps:
  assumes n: "Suc n < 2 ^ 64" and d: "tick_ok sha sa l ok tk" and l: "wf_layout l"
  shows "triple (loop_inv dest ok l oh i (counters_ok n) r) (recv_phase sha pid sa i tk r)
     (\<lambda>r'. loop_inv dest ok l oh i (counters_ok (Suc n)) r') (crash_safe dest l oh ok)"
proof (cases "t_recv tk")
  case (Datagram d)
  with assms(2) have "carries_ok sha sa l ok d" by (simp add: tick_ok_def)
  with Datagram show ?thesis by (simp add: recv_phase_def on_datagram_keeps [OF n _ l])
next
  case WouldBlock
  then show ?thesis
    by (auto simp: recv_phase_def loop_inv_def receiving_def intro!: triple_ret counters_ok_Suc)
next
  case (RecvError e)
  then show ?thesis
    by (auto simp: recv_phase_def intro!: triple_bind [OF checkpoint_if_dirty_keeps] triple_throw
      dest: loop_inv_crash_safe)
qed

lemma on_event_keeps:
  "triple (loop_inv dest ok l oh i (counters_ok n) r) (on_event pid i now ev r)
     (\<lambda>r'. loop_inv dest ok l oh i (counters_ok n) r') (crash_safe dest l oh ok)"
proof (cases ev)
  case End
  have "loop_inv dest ok l oh i (counters_ok n) (r\<lparr>r_ended := True, r_ended_at := x\<rparr>) w"
    if "loop_inv dest ok l oh i (counters_ok n) r w" for w x
    by (rule loop_inv_same [OF that])
      (use that in \<open>auto simp: loop_inv_def receiving_def counters_ok_def Let_def\<close>)
  with End show ?thesis by (auto simp: on_event_def intro!: triple_ret)
next
  case Ping
  then show ?thesis
    by (auto simp: on_event_def intro!: triple_bind [OF triple_send] triple_ret dest: loop_inv_crash_safe)
qed (auto simp: on_event_def intro!: triple_throw triple_bind [OF checkpoint_if_dirty_keeps]
    dest: loop_inv_crash_safe)

lemma on_events_keeps:
  "triple (loop_inv dest ok l oh i (counters_ok n) r) (on_events pid i now evs r)
     (\<lambda>r'. loop_inv dest ok l oh i (counters_ok n) r') (crash_safe dest l oh ok)"
  by (induction evs arbitrary: r) (auto intro!: triple_ret triple_bind [OF on_event_keeps])

lemma checkpoint_phase_keeps:
  "triple (loop_inv dest ok l oh i (counters_ok n) r) (checkpoint_phase pid i tk r)
     (\<lambda>r'. loop_inv dest ok l oh i (counters_ok n) r') (crash_safe dest l oh ok)"
proof -
  have "loop_inv dest ok l oh i (counters_ok n) (r\<lparr>r_dirty := d, r_last_checkpoint := x\<rparr>) w"
    if "loop_inv dest ok l oh i (counters_ok n) r w" for w d x
    by (rule loop_inv_same [OF that])
      (use that in \<open>auto simp: loop_inv_def receiving_def counters_ok_def Let_def\<close>)
  then show ?thesis
    by (auto simp: checkpoint_phase_def intro!: triple_ret triple_bind [OF checkpoint_keeps])
qed

lemma report_phase_keeps:
  "triple (loop_inv dest ok l oh i (counters_ok n) r) (report_phase h tk r)
     (\<lambda>r'. loop_inv dest ok l oh i (counters_ok n) r') (crash_safe dest l oh ok)"
proof -
  have "loop_inv dest ok l oh i (counters_ok n) (r\<lparr>r_history := hs,
      r_tel := count_report (update_receiver_telemetry d r), r_last_report := x\<rparr>) w"
    if "loop_inv dest ok l oh i (counters_ok n) r w" for w d x hs
    by (rule loop_inv_same [OF that]) (use that in
      \<open>auto simp: loop_inv_def receiving_def counters_ok_def Let_def count_report_def update_receiver_telemetry_def\<close>)
  then show ?thesis
    by (auto simp: report_phase_def Let_def split: prod.splits intro!: triple_ret triple_bind [OF triple_send]
        dest: loop_inv_crash_safe)
qed

end
