(* ===== verification/Delivery.thy ===== *)
theory Delivery
  imports Receiver
begin

text \<open>
  What the receiving loop of \<open>Receiver\<close> delivers.

  \<open>delivered\<close> says what is at the destination after a completed transfer, \<open>quiet\<close> that no
  \<open>COMPLETE\<close> message has been sent.  The lemmas carry the invariant of the loop through
  \<open>finish\<close>, \<open>iteration\<close> and \<open>receive_loop\<close> and end with the initial state that
  \<open>receive_udp\<close> builds from an opened \<open>ResumeState\<close>.
\<close>

section \<open>Completion\<close>

text \<open>What a receiver has delivered: the installed bytes have the announced hash and size, and
  every chunk of them is acceptable.\<close>

definition delivered ::
    "(bytes \<Rightarrow> 256 word) \<Rightarrow> string \<Rightarrow> string \<Rightarrow> chunk_layout \<Rightarrow> (nat \<Rightarrow> bytes \<Rightarrow> bool) \<Rightarrow> nat \<Rightarrow> world \<Rightarrow> bool" where
  "delivered sha dest hash l ok i w \<longleftrightarrow> (\<exists>bs. installed dest i bs w \<and> length bs = size l
     \<and> hex_digest (digest sha bs) = hash \<and> (\<forall>s<chunks l. ok s (chunk_bytes l bs s)))"

text \<open>No completion has been announced yet.\<close>

definition quiet :: "world \<Rightarrow> bool" where
  "quiet w \<longleftrightarrow> ''COMPLETE'' \<notin> set (sent w)"

abbreviation quietly :: "'a io \<Rightarrow> bool" where
  "quietly m \<equiv> triple quiet m (\<lambda>_. quiet) quiet"

named_theorems quiet_intros

lemma quietly_basic [quiet_intros]:
  "quietly (ret x)" "quietly (throw e)" "quietly (lift r)"
  by (auto intro: triple_ret triple_throw triple_lift)

lemma quietly_bind [quiet_intros]: "quietly m \<Longrightarrow> (\<And>x. quietly (f x)) \<Longrightarrow> quietly (bindM m f)"
  by (rule triple_bind)

lemma quietly_try [quiet_intros]: "quietly m \<Longrightarrow> (\<And>x. quietly (f x)) \<Longrightarrow> quietly (tryM m f)"
  by (rule triple_try [where R = "\<lambda>_. quiet"]) (auto elim: triple_conseq)

lemma quietly_forM [quiet_intros]: "(\<And>x. quietly (f x)) \<Longrightarrow> quietly (forM f xs)"
  by (induction xs) (auto intro: quiet_intros)

lemma fault_blind_quiet [simp]: "fault_blind quiet"
  by (simp add: fault_blind_def quiet_def)

lemma quietly_files [quiet_intros]:
  "quietly (sync_file i)" "quietly (create_file p)" "quietly (rename_file p q)" "quietly (remove_file p)"
  unfolding sync_file_def create_file_def rename_file_def remove_file_def
  by (rule triple_call; auto simp: triple_def quiet_def set_inode_def set_names_def Let_def
      split: option.splits)+

lemma quietly_write [quiet_intros]:
  "quietly (write_file i off bs)" "quietly (append_file i bs)"
  by (auto intro!: triple_write [where off = "\<lambda>_. off"] triple_append simp: quiet_def set_inode_def)

lemma quietly_send: "p \<noteq> ''COMPLETE'' \<Longrightarrow> quietly (send_control p)"
proof (cases "lf \<in> set p \<or> 65536 div 2 < length p")
  case True
  then show ?thesis unfolding send_control_def by (simp add: quiet_intros)
next
  case False
  assume "p \<noteq> ''COMPLETE''"
  then have "quietly (call (\<lambda>w. (Inr (), w\<lparr>sent := sent w @ [p]\<rparr>)))"
    by (intro triple_call) (simp_all add: triple_def quiet_def)
  with False show ?thesis unfolding send_control_def by simp
qed

lemma quietly_checkpoint [quiet_intros]: "quietly (checkpoint pid st i)"
  unfolding checkpoint_def by (intro quiet_intros)

lemma quietly_advance [quiet_intros]: "quietly (advance_hash_frontier os i r)"
  by (auto simp: triple_def advance_hash_frontier_def Let_def bindM_def lift_def read_range_def ret_def
      split: sum.splits prod.splits)

lemma quietly_on_datagram [quiet_intros]: "quietly (on_datagram sha sa os i d r)"
  unfolding on_datagram_def store_chunk_def Let_def
  by (auto intro!: quiet_intros split: option.splits)

lemma quietly_recv_phase [quiet_intros]: "quietly (recv_phase sha pid sa i tk r)"
  unfolding recv_phase_def checkpoint_if_dirty_def
  by (auto intro!: quiet_intros split: recv_outcome.splits)

lemma quietly_on_event [quiet_intros]: "quietly (on_event pid i now ev r)"
  unfolding on_event_def checkpoint_if_dirty_def
  by (auto intro!: quiet_intros quietly_send split: control_event.splits)

lemma quietly_on_events [quiet_intros]: "quietly (on_events pid i now evs r)"
  by (induction evs arbitrary: r) (auto intro!: quiet_intros)

lemma quietly_checkpoint_phase [quiet_intros]: "quietly (checkpoint_phase pid i tk r)"
  unfolding checkpoint_phase_def by (auto intro!: quiet_intros)

lemma report_not_complete: "format_feedback_report t ranges \<noteq> ''COMPLETE''"
  by (simp add: format_feedback_report_def Let_def)

lemma quietly_report_phase [quiet_intros]: "quietly (report_phase h tk r)"
  unfolding report_phase_def Let_def
  by (auto intro!: quiet_intros quietly_send simp: report_not_complete split: prod.splits)

section \<open>The last steps\<close>

lemma layout_covers: "wf_layout l \<Longrightarrow> size l \<le> chunks l * payload_bytes l"
  using wf_layout_chunk [of l "chunks l"] by simp

text \<open>With the frontier at the end, the hashed bytes are the file.\<close>

lemma hash_complete:
  assumes h: "hash_ok r c" and l: "wf_layout (shape (r_state r))" "length c = size (shape (r_state r))"
    and f: "r_frontier r = chunks (shape (r_state r))"
  shows "r_hashed r = c \<and> {..<chunks (shape (r_state r))} \<subseteq> received_set (bitmap (r_state r))"
  using h f layout_covers [OF l(1)] l(2) by (simp add: hash_ok_def Let_def)

text \<open>The invariant with the bytes of the part file fixed; what holds before the installation.\<close>

definition complete_with ::
    "string \<Rightarrow> (nat \<Rightarrow> bytes \<Rightarrow> bool) \<Rightarrow> chunk_layout \<Rightarrow> bytes \<Rightarrow> nat \<Rightarrow> receiver \<Rightarrow> world \<Rightarrow> bool" where
  "complete_with dest ok l oh i r w \<longleftrightarrow> in_session dest ok (r_state r) i w \<and> same_object l oh r
     \<and> keeps_bytes i (r_hashed r) w \<and> {..<chunks l} \<subseteq> received_set (bitmap (r_state r)) \<and> quiet w"

lemma complete_with_parts:
  assumes "complete_with dest ok l oh i r w"
  shows "crash_safe dest l oh ok w" "quiet w" "wf_state dest (r_state r)"
    "length (r_hashed r) = size l" "\<forall>s<chunks l. ok s (chunk_bytes l (r_hashed r) s)"
  using assms
  by (auto simp: complete_with_def in_session_def same_object_def session_file_def keeps_bytes_def)

lemma fault_blind_complete [simp]: "fault_blind (complete_with dest ok l oh i r)"
  using fault_blind_in_session [of dest ok "r_state r" i]
  by (simp add: complete_with_def fault_blind_def keeps_bytes_def quiet_def)

lemma loop_inv_complete:
  assumes inv: "loop_inv dest ok l oh i C r w" and f: "r_frontier r = chunks l" and q: "quiet w"
  shows "complete_with dest ok l oh i r w"
proof -
  have s: "in_session dest ok (r_state r) i w" and h: "hash_ok r (content (inodes w ! i))"
    and o': "same_object l oh r" using inv by (simp_all add: loop_inv_def receiving_def)
  have sh: "shape (r_state r) = l" using o' by (simp add: same_object_def)
  have "wf_layout l" "length (content (inodes w ! i)) = size l"
    using s sh by (simp_all add: in_session_def wf_state_def session_file_def)
  then show ?thesis
    using hash_complete [OF h] f sh s o' q in_session_file [OF s]
    by (simp add: complete_with_def keeps_bytes_def)
qed

lemma sync_complete:
  "triple (complete_with dest ok l oh i r) (sync_file i) (\<lambda>_. complete_with dest ok l oh i r)
     (\<lambda>w. crash_safe dest l oh ok w \<and> quiet w)"
  unfolding sync_file_def
proof (rule triple_call)
  show "triple (complete_with dest ok l oh i r) (\<lambda>w. let f = inodes w ! i in
      (Inr (), set_inode i (f\<lparr>stable := {..<length (content f)}\<rparr>) w))
    (\<lambda>_. complete_with dest ok l oh i r) (\<lambda>w. crash_safe dest l oh ok w \<and> quiet w)"
    unfolding triple_def Let_def prod.case sum.case
  proof (intro allI impI)
    fix w assume c: "complete_with dest ok l oh i r w"
    let ?f = "(inodes w ! i)\<lparr>stable := {..<length (content (inodes w ! i))}\<rparr>"
    have "in_session dest ok (r_state r) i (set_inode i ?f w)"
      by (rule in_session_sync_part) (use c in \<open>simp add: complete_with_def\<close>)
    then show "complete_with dest ok l oh i r (set_inode i ?f w)"
      using c by (simp add: complete_with_def keeps_bytes_def set_inode_def quiet_def)
  qed
qed (auto dest: complete_with_parts)

text \<open>What an ended run leaves behind, whether it failed or not.\<close>

definition sound_end ::
    "(bytes \<Rightarrow> 256 word) \<Rightarrow> string \<Rightarrow> string \<Rightarrow> chunk_layout \<Rightarrow> bytes \<Rightarrow> (nat \<Rightarrow> bytes \<Rightarrow> bool) \<Rightarrow> nat
      \<Rightarrow> world \<Rightarrow> bool" where
  "sound_end sha dest hash l oh ok i w \<longleftrightarrow>
     crash_safe dest l oh ok w \<and> (quiet w \<or> delivered sha dest hash l ok i w)"

abbreviation done_well ::
    "(bytes \<Rightarrow> 256 word) \<Rightarrow> string \<Rightarrow> string \<Rightarrow> chunk_layout \<Rightarrow> bytes \<Rightarrow> (nat \<Rightarrow> bytes \<Rightarrow> bool) \<Rightarrow> nat
      \<Rightarrow> world \<Rightarrow> bool" where
  "done_well sha dest hash l oh ok i w \<equiv> crash_safe dest l oh ok w \<and> delivered sha dest hash l ok i w"

lemma blind_crash_safe: "fault_blind (crash_safe dest l oh ok)"
  by (simp add: fault_blind_def crash_safe_def wf_world_def)

lemma done_sound:
  "done_well sha dest hash l oh ok i w \<Longrightarrow> sound_end sha dest hash l oh ok i w"
  by (simp add: sound_end_def)

lemma blind_done:
  "fault_blind (\<lambda>w. done_well sha dest hash l oh ok i w)" "sent_blind (\<lambda>w. done_well sha dest hash l oh ok i w)"
  by (simp_all add: fault_blind_def sent_blind_def crash_safe_def wf_world_def delivered_def installed_def)

lemma send_done:
  "triple (\<lambda>w. done_well sha dest hash l oh ok i w) (send_control p)
     (\<lambda>_ w. done_well sha dest hash l oh ok i w) (sound_end sha dest hash l oh ok i)"
  by (rule triple_send) (simp_all add: blind_done sound_end_def)

lemma await_ack_done:
  "triple (\<lambda>w. done_well sha dest hash l oh ok i w) (await_ack acks)
     (\<lambda>_ w. done_well sha dest hash l oh ok i w) (sound_end sha dest hash l oh ok i)"
proof (induction acks)
  case (Cons a acks)
  obtain expired ev where a: "a = (expired, ev)" by (cases a)
  show ?case
    using Cons unfolding a
    by (cases ev) (auto split: control_event.splits intro: done_sound
        intro!: triple_throw triple_ret triple_bind [OF send_done])
qed (auto intro!: triple_throw done_sound)

lemma install_complete:
  assumes "hex_digest (digest sha (r_hashed r)) = hash"
  shows "triple (complete_with dest ok l oh i r) (resume_install (r_state r) dest)
     (\<lambda>_ w. done_well sha dest hash l oh ok i w) (sound_end sha dest hash l oh ok i)"
proof (rule triple_pre [where F = "wf_state dest (r_state r) \<and> same_object l oh r \<and>
      length (r_hashed r) = size l \<and> (\<forall>s<chunks l. ok s (chunk_bytes l (r_hashed r) s))"])
  fix w assume "complete_with dest ok l oh i r w"
  then show "wf_state dest (r_state r) \<and> same_object l oh r \<and> length (r_hashed r) = size l
      \<and> (\<forall>s<chunks l. ok s (chunk_bytes l (r_hashed r) s))"
    using complete_with_parts [of dest ok l oh i r w] by (simp add: complete_with_def)
next
  assume F: "wf_state dest (r_state r) \<and> same_object l oh r \<and>
      length (r_hashed r) = size l \<and> (\<forall>s<chunks l. ok s (chunk_bytes l (r_hashed r) s))"
  then have sh: "shape (r_state r) = l" "object_hash (r_state r) = oh" by (simp_all add: same_object_def)
  have q: "quietly (resume_install (r_state r) dest)"
    unfolding resume_install_def by (auto intro!: quiet_intros split: sum.splits error.splits)
  note t = triple_conj [OF install_safe [OF conjunct1 [OF F], where bs = "r_hashed r" and ok = ok] q]
  show "triple (complete_with dest ok l oh i r) (resume_install (r_state r) dest)
     (\<lambda>_ w. done_well sha dest hash l oh ok i w) (sound_end sha dest hash l oh ok i)"
    by (rule triple_conseq [OF t])
      (use F assms in \<open>auto simp: sh complete_with_def keeps_bytes_def delivered_def sound_end_def\<close>)
qed

text \<open>Whatever the finish reports, it leaves a sound state; when it succeeds the file is there.\<close>

lemma finish_delivers:
  "triple (\<lambda>w. loop_inv dest ok l oh i C r w \<and> quiet w) (finish sha dest hash i tk r)
     (\<lambda>_ w. done_well sha dest hash l oh ok i w) (sound_end sha dest hash l oh ok i)" if C: "hash_blind C" for C
proof -
  have quiet_end: "crash_safe dest l oh ok w \<and> quiet w \<Longrightarrow> sound_end sha dest hash l oh ok i w" for w
    by (simp add: sound_end_def)
  have adv: "triple (\<lambda>w. loop_inv dest ok l oh i C r w \<and> quiet w) (advance_hash_frontier (t_os tk) i r)
      (\<lambda>r' w. loop_inv dest ok l oh i C r' w \<and> quiet w) (sound_end sha dest hash l oh ok i)"
    by (rule triple_conseq [OF triple_conj [OF advance_keeps [OF C] quietly_advance]])
      (auto intro: quiet_end)
  have sync: "triple (complete_with dest ok l oh i r') (sync_file i)
      (\<lambda>_. complete_with dest ok l oh i r') (sound_end sha dest hash l oh ok i)" for r'
    by (rule triple_conseq [OF sync_complete]) (auto intro: quiet_end)
  have bad: "triple (complete_with dest ok l oh i r')
      (bindM (send_control ''CANCEL hash-mismatch'') (\<lambda>_. bindM (resume_discard (r_state r')) (\<lambda>_. throw e)))
      Q (sound_end sha dest hash l oh ok i)" for r' e and Q :: "telemetry \<Rightarrow> world \<Rightarrow> bool"
  proof (rule triple_pre [where F = "wf_state dest (r_state r')"])
    assume st: "wf_state dest (r_state r')"
    have send: "triple (\<lambda>w. crash_safe dest l oh ok w \<and> quiet w) (send_control ''CANCEL hash-mismatch'')
        (\<lambda>_ w. crash_safe dest l oh ok w \<and> quiet w) (\<lambda>w. crash_safe dest l oh ok w \<and> quiet w)"
      by (rule triple_conj [OF triple_send quietly_send]) (simp_all add: blind_crash_safe)
    have discard: "triple (\<lambda>w. crash_safe dest l oh ok w \<and> quiet w) (resume_discard (r_state r'))
        (\<lambda>_ w. crash_safe dest l oh ok w \<and> quiet w) (\<lambda>w. crash_safe dest l oh ok w \<and> quiet w)"
      by (rule triple_conj [OF discard_safe [OF st]]) (auto simp: resume_discard_def intro!: quiet_intros)
    show ?thesis
      by (rule triple_conseq [OF triple_bind [OF send triple_bind [OF discard triple_throw]]])
        (auto intro: quiet_end dest: complete_with_parts)
  qed (auto dest: complete_with_parts)
  show ?thesis
    unfolding finish_def Let_def
  proof (rule triple_bind [OF adv])
    fix r'
    let ?bad = "triple (complete_with dest ok l oh i r')"
    show "triple (\<lambda>w. loop_inv dest ok l oh i C r' w \<and> quiet w)
      (if r_frontier r' \<noteq> chunks (shape (r_state r'))
       then throw (Err ''complete receipt map has a hash-frontier gap'')
       else bindM (sync_file i) (\<lambda>_.
         if hex_digest (digest sha (r_hashed r')) \<noteq> hash then
           bindM (send_control ''CANCEL hash-mismatch'') (\<lambda>_. bindM (resume_discard (r_state r')) (\<lambda>_.
             throw (Err ''received UDP file hash did not match'')))
         else bindM (resume_install (r_state r') dest) (\<lambda>_.
           bindM (send_control (format_feedback_report
             (count_report (update_receiver_telemetry (t_drops tk) r')) [])) (\<lambda>_.
           bindM (send_control ''COMPLETE'') (\<lambda>_. bindM (await_ack (t_acks tk)) (\<lambda>_.
             ret (count_report (update_receiver_telemetry (t_drops tk) r'))))))))
      (\<lambda>_ w. done_well sha dest hash l oh ok i w) (sound_end sha dest hash l oh ok i)"
    proof (cases "r_frontier r' = chunks (shape (r_state r'))")
      case False
      then show ?thesis
        by (auto intro!: triple_throw quiet_end dest: loop_inv_crash_safe)
    next
      case True
      have pre: "complete_with dest ok l oh i r' w" if "loop_inv dest ok l oh i C r' w \<and> quiet w" for w
        using that True by (intro loop_inv_complete) (auto simp: loop_inv_def same_object_def)
      have good: "triple (complete_with dest ok l oh i r')
        (bindM (resume_install (r_state r') dest) (\<lambda>_.
           bindM (send_control (format_feedback_report t [])) (\<lambda>_.
           bindM (send_control ''COMPLETE'') (\<lambda>_. bindM (await_ack (t_acks tk)) (\<lambda>_. ret t)))))
        (\<lambda>_ w. done_well sha dest hash l oh ok i w) (sound_end sha dest hash l oh ok i)"
        if "hex_digest (digest sha (r_hashed r')) = hash" for t
        by (intro triple_bind [OF install_complete [OF that]] triple_bind [OF send_done]
            triple_bind [OF await_ack_done] triple_ret)
      have "triple (complete_with dest ok l oh i r')
        (if hex_digest (digest sha (r_hashed r')) \<noteq> hash then
           bindM (send_control ''CANCEL hash-mismatch'') (\<lambda>_. bindM (resume_discard (r_state r')) (\<lambda>_.
             throw (Err ''received UDP file hash did not match'')))
         else bindM (resume_install (r_state r') dest) (\<lambda>_.
           bindM (send_control (format_feedback_report t [])) (\<lambda>_.
           bindM (send_control ''COMPLETE'') (\<lambda>_. bindM (await_ack (t_acks tk)) (\<lambda>_. ret t)))))
        (\<lambda>_ w. done_well sha dest hash l oh ok i w) (sound_end sha dest hash l oh ok i)" for t
        by (simp add: bad good)
      from triple_conseq [OF triple_bind [OF sync this] pre] show ?thesis
        by (simp add: True)
    qed
  qed
qed

section \<open>The loop\<close>

definition running_inv ::
    "string \<Rightarrow> (nat \<Rightarrow> bytes \<Rightarrow> bool) \<Rightarrow> chunk_layout \<Rightarrow> bytes \<Rightarrow> nat \<Rightarrow> nat \<Rightarrow> receiver \<Rightarrow> world \<Rightarrow> bool" where
  "running_inv dest ok l oh i n r w \<longleftrightarrow> loop_inv dest ok l oh i (counters_ok n) r w \<and> quiet w"

definition outcome_ok ::
    "(bytes \<Rightarrow> 256 word) \<Rightarrow> string \<Rightarrow> string \<Rightarrow> chunk_layout \<Rightarrow> bytes \<Rightarrow> (nat \<Rightarrow> bytes \<Rightarrow> bool) \<Rightarrow> nat
      \<Rightarrow> nat \<Rightarrow> outcome \<Rightarrow> world \<Rightarrow> bool" where
  "outcome_ok sha dest hash l oh ok i n oc w \<longleftrightarrow>
     (case oc of Running r \<Rightarrow> running_inv dest ok l oh i n r w
       | Done t \<Rightarrow> done_well sha dest hash l oh ok i w)"

lemma outcome_ok_simps [simp]:
  "outcome_ok sha dest hash l oh ok i n (Running r) = running_inv dest ok l oh i n r"
  "outcome_ok sha dest hash l oh ok i n (Done t) = (\<lambda>w. done_well sha dest hash l oh ok i w)"
  by (auto simp: outcome_ok_def)

lemma keeps_running:
  assumes "triple (loop_inv dest ok l oh i (counters_ok n) r) m
      (\<lambda>r'. loop_inv dest ok l oh i (counters_ok n') r') (crash_safe dest l oh ok)" "quietly m"
  shows "triple (running_inv dest ok l oh i n r) m (\<lambda>r'. running_inv dest ok l oh i n' r')
      (sound_end sha dest hash l oh ok i)"
  by (rule triple_conseq [OF triple_conj [OF assms]]) (auto simp: running_inv_def sound_end_def)

lemma iteration_keeps:
  assumes "Suc n < 2 ^ 64" "tick_ok sha sa l ok tk" "wf_layout l"
  shows "triple (running_inv dest ok l oh i n r) (iteration sha pid sa dest h i tk r)
     (outcome_ok sha dest (h_hash h) l oh ok i (Suc n)) (sound_end sha dest (h_hash h) l oh ok i)"
proof -
  let ?S = "sound_end sha dest (h_hash h) l oh ok i"
  note recv = keeps_running [OF recv_phase_keeps [OF assms] quietly_recv_phase]
  note evs = keeps_running [OF on_events_keeps quietly_on_events]
  note cps = keeps_running [OF checkpoint_phase_keeps quietly_checkpoint_phase]
  note reps = keeps_running [OF report_phase_keeps quietly_report_phase]
  have fin: "triple (running_inv dest ok l oh i (Suc n) r) (finish sha dest (h_hash h) i tk r)
      (\<lambda>_ w. done_well sha dest (h_hash h) l oh ok i w) ?S" for r
    by (rule triple_conseq [OF finish_delivers [OF hash_blind_counters]]) (auto simp: running_inv_def)
  have last: "triple (running_inv dest ok l oh i (Suc n) r)
      (if b then bindM (finish sha dest (h_hash h) i tk r) (\<lambda>t. ret (Done t))
       else bindM (checkpoint_phase pid i tk r) (\<lambda>r. bindM (report_phase h tk r) (\<lambda>r. ret (Running r))))
      (outcome_ok sha dest (h_hash h) l oh ok i (Suc n)) ?S" for r b
    by (auto intro!: triple_bind [OF fin] triple_bind [OF cps] triple_bind [OF reps] triple_ret)
  show ?thesis unfolding iteration_def
    by (intro triple_bind [OF recv] triple_bind [OF evs] last)
qed

text \<open>The sum of the datagrams must stay below the width of the counters.\<close>

lemma receive_loop_keeps:
  assumes "n + length tks < 2 ^ 64" "\<forall>tk\<in>set tks. tick_ok sha sa l ok tk" "wf_layout l"
  shows "triple (running_inv dest ok l oh i n r) (receive_loop sha pid sa dest h i tks r)
     (outcome_ok sha dest (h_hash h) l oh ok i (n + length tks)) (sound_end sha dest (h_hash h) l oh ok i)"
  using assms
proof (induction tks arbitrary: n r)
  case Nil
  then show ?case by (auto intro: triple_ret)
next
  case (Cons tk tks)
  have it: "triple (running_inv dest ok l oh i n r) (iteration sha pid sa dest h i tk r)
     (outcome_ok sha dest (h_hash h) l oh ok i (Suc n)) (sound_end sha dest (h_hash h) l oh ok i)"
    by (rule iteration_keeps) (use Cons.prems in simp_all)
  have ih: "triple (running_inv dest ok l oh i (Suc n) r') (receive_loop sha pid sa dest h i tks r')
     (outcome_ok sha dest (h_hash h) l oh ok i (Suc n + length tks)) (sound_end sha dest (h_hash h) l oh ok i)" for r'
    by (rule Cons.IH) (use Cons.prems in simp_all)
  show ?case unfolding receive_loop.simps
  proof (rule triple_bind [OF it])
    fix oc
    show "triple (outcome_ok sha dest (h_hash h) l oh ok i (Suc n) oc)
      (case oc of Running r \<Rightarrow> receive_loop sha pid sa dest h i tks r | Done t \<Rightarrow> ret (Done t))
      (outcome_ok sha dest (h_hash h) l oh ok i (n + length (tk # tks))) (sound_end sha dest (h_hash h) l oh ok i)"
    proof (cases oc)
      case (Running r')
      then show ?thesis using ih [of r']
        by simp
    next
      case (Done t)
      then show ?thesis by (auto intro: triple_ret)
    qed
  qed
qed

section \<open>The start\<close>

lemma start_running:
  assumes "in_session dest ok st i w" "shape st = l" "object_hash st = oh" "quiet w"
  shows "running_inv dest ok l oh i 0 (new_receiver st now) w"
  using assms
  by (simp add: running_inv_def loop_inv_def receiving_def same_object_def hash_ok_def counters_ok_def
      new_receiver_def default_telemetry_def is_u64_def Let_def)

text \<open>The sender's file is recovered from its chunks.\<close>

lemma chunks_determine:
  assumes l: "wf_layout l" and a: "length a = size l" and b: "length b = size l"
    and same: "\<And>s. s < chunks l \<Longrightarrow> chunk_bytes l a s = chunk_bytes l b s"
  shows "a = b"
proof (rule nth_equalityI)
  show "length a = length b" using a b by simp
  fix k assume k: "k < length a"
  let ?p = "payload_bytes l"
  let ?s = "k div ?p"
  have p: "0 < ?p" using l by (simp add: wf_layout_def)
  have kk: "k = ?s * ?p + k mod ?p" by simp
  have s: "?s * ?p < size l" using k a kk by linarith
  then have sc: "?s < chunks l" using wf_layout_chunk [OF l] by simp
  have "k mod ?p < chunk_length l ?s"
    unfolding chunk_length_def using p k a kk by (simp add: less_diff_conv add.commute)
  moreover have "chunk_bytes l f ?s ! (k mod ?p) = f ! k" if "length f = size l" "k mod ?p < chunk_length l ?s" for f
  proof -
    have "chunk_start l ?s + k mod ?p = k" unfolding chunk_start_def using kk by simp
    then show ?thesis using that s by (simp add: chunk_bytes_def read_bytes_def chunk_start_def)
  qed
  ultimately show "a ! k = b ! k" using same [OF sc] a b by metis
qed

end
