(* ===== verification/Reuse.thy ===== *)
theory Reuse
  imports Resume Cdc
begin

text \<open>
  \<open>apply_reusable_content\<close> of \<open>src/main.rs\<close>: before the transfer, the receiver scans a
  candidate file, copies the content-defined chunks that the target manifest and the candidate have
  in common into the part file, and marks the packets these copies cover completely as received.

  The candidate is outside of the modelled directory: \<open>candidate\<close> holds what the calls on it
  return.  The lemmas show that every packet marked is right, that the whole step keeps the crash
  invariant of the session, and which packets are marked.
\<close>

section \<open>The code\<close>

record candidate =
  c_meta :: "bool \<times> nat"
  c_reads :: "bytes list"
  c_gone :: bool
  c_open :: "unit result"
  c_bytes :: bytes
  c_os :: transfer

definition available :: "chunk list \<Rightarrow> (nat \<times> bytes) \<rightharpoonup> nat" where
  "available cs = foldl (\<lambda>m c. let k = (ch_length c, ch_hash c) in
     (case m k of None \<Rightarrow> m(k \<mapsto> ch_offset c) | Some _ \<Rightarrow> m)) Map.empty cs"

text \<open>The buffer has \<open>MAX_CHUNK_BYTES\<close> bytes; a longer chunk would make the slice panic.\<close>

fun copy_chunks ::
    "(bytes \<Rightarrow> 256 word) \<Rightarrow> candidate \<Rightarrow> ((nat \<times> bytes) \<rightharpoonup> nat) \<Rightarrow> nat \<Rightarrow> chunk list
      \<Rightarrow> (nat \<times> nat) list \<Rightarrow> (nat \<times> nat) list io" where
  "copy_chunks sha cand av i [] copied = ret copied"
| "copy_chunks sha cand av i (c # cs) copied =
     (case av (ch_length c, ch_hash c) of
        None \<Rightarrow> copy_chunks sha cand av i cs copied
      | Some offset \<Rightarrow>
          if MAX_CHUNK_BYTES < ch_length c then throw Panic
          else bindM (lift (read_loop (c_os cand) ''reuse candidate changed while it was read''
              (ch_length c) (c_bytes cand) offset (ch_length c))) (\<lambda>bs.
            if digest sha bs \<noteq> ch_hash c then copy_chunks sha cand av i cs copied
            else bindM (write_file i (ch_offset c) bs) (\<lambda>_.
              copy_chunks sha cand av i cs (copied @ [(ch_offset c, ch_offset c + ch_length c)]))))"

definition merge_range :: "(nat \<times> nat) list \<Rightarrow> nat \<times> nat \<Rightarrow> (nat \<times> nat) list" where
  "merge_range merged r =
     (if merged \<noteq> [] \<and> fst r \<le> snd (last merged)
      then butlast merged @ [(fst (last merged), max (snd (last merged)) (snd r))]
      else merged @ [r])"

definition merge_ranges :: "(nat \<times> nat) list \<Rightarrow> (nat \<times> nat) list" where
  "merge_ranges copied = foldl merge_range [] copied"

text \<open>The variables of the marking loop; \<open>mk_ranges\<close> is \<open>merged[range_index..]\<close>.\<close>

record marking =
  mk_state :: resume_state
  mk_ranges :: "(nat \<times> nat) list"
  mk_bytes :: nat
  mk_chunks :: nat

definition mark_chunk :: "chunk_layout \<Rightarrow> marking \<Rightarrow> nat \<Rightarrow> marking result" where
  "mark_chunk l mk sequence =
     (if bitmap_contains (bitmap (mk_state mk)) sequence then Inr mk
      else
        and_then (ok_or (checked_mul sequence (payload_bytes l)) ''reuse packet offset overflow'') (\<lambda>start.
        and_then (ok_or (checked_add start (payload_bytes l)) ''reuse packet offset overflow'') (\<lambda>e.
        let e = min e (size l);
            ranges = dropWhile (\<lambda>r. snd r \<le> start) (mk_ranges mk)
        in if ranges \<noteq> [] \<and> fst (hd ranges) \<le> start \<and> e \<le> snd (hd ranges)
           then and_then (bitmap_insert (bitmap (mk_state mk)) sequence) (\<lambda>bm.
             Inr (mk\<lparr>mk_state := (mk_state mk)\<lparr>bitmap := bm,
                 received_count := sat_add (received_count (mk_state mk)) 1\<rparr>,
               mk_ranges := ranges, mk_bytes := sat_add (mk_bytes mk) (e - start),
               mk_chunks := sat_add (mk_chunks mk) 1\<rparr>))
           else Inr (mk\<lparr>mk_ranges := ranges\<rparr>))))"

fun mark_chunks :: "chunk_layout \<Rightarrow> nat list \<Rightarrow> marking \<Rightarrow> marking result" where
  "mark_chunks l [] mk = Inr mk"
| "mark_chunks l (s # ss) mk = and_then (mark_chunk l mk s) (mark_chunks l ss)"

definition apply_reusable_content ::
    "(bytes \<Rightarrow> 256 word) \<Rightarrow> nat \<Rightarrow> nat \<Rightarrow> resume_state \<Rightarrow> manifest \<Rightarrow> candidate \<Rightarrow> chunk_layout
      \<Rightarrow> (resume_state \<times> nat \<times> nat) io" where
  "apply_reusable_content sha pid i st target cand l =
     (case scan sha (c_meta cand) (c_reads cand) of
        Inl e \<Rightarrow> if c_gone cand then ret (st, 0, 0) else throw e
      | Inr manifest \<Rightarrow>
          bindM (lift (c_open cand)) (\<lambda>_.
          bindM (copy_chunks sha cand (available (m_chunks manifest)) i (m_chunks target) []) (\<lambda>copied.
          if copied = [] then ret (st, 0, 0)
          else
          bindM (lift (mark_chunks l [0..<chunks l]
            \<lparr>mk_state = st, mk_ranges = merge_ranges copied, mk_bytes = 0, mk_chunks = 0\<rparr>)) (\<lambda>mk.
          if 0 < mk_chunks mk
          then bindM (checkpoint pid (mk_state mk) i) (\<lambda>_. ret (mk_state mk, mk_bytes mk, mk_chunks mk))
          else ret (mk_state mk, mk_bytes mk, mk_chunks mk)))))"

section \<open>Copying\<close>

text \<open>The bytes of \<open>c\<close> are those of \<open>obj\<close> in all these ranges.\<close>

definition agrees :: "bytes \<Rightarrow> bytes \<Rightarrow> (nat \<times> nat) list \<Rightarrow> bool" where
  "agrees obj c rs \<longleftrightarrow> (\<forall>(a, b)\<in>set rs. \<forall>k. a \<le> k \<and> k < b \<longrightarrow> c ! k = obj ! k)"

text \<open>The target manifest describes \<open>obj\<close>, and the candidate has no other bytes of one of its
  hashes at the offsets that are copied.\<close>

definition describes :: "(bytes \<Rightarrow> 256 word) \<Rightarrow> bytes \<Rightarrow> chunk list \<Rightarrow> bool" where
  "describes sha obj cs \<longleftrightarrow> (\<forall>c\<in>set cs. ch_offset c + ch_length c \<le> length obj
     \<and> ch_hash c = digest sha (read_bytes obj (ch_offset c) (ch_length c)))"

definition no_collision :: "(bytes \<Rightarrow> 256 word) \<Rightarrow> bytes \<Rightarrow> bytes \<Rightarrow> chunk list \<Rightarrow> bool" where
  "no_collision sha obj cand cs \<longleftrightarrow> (\<forall>c\<in>set cs. \<forall>a.
     digest sha (read_bytes cand a (ch_length c)) = digest sha (read_bytes obj (ch_offset c) (ch_length c))
       \<longrightarrow> read_bytes cand a (ch_length c) = read_bytes obj (ch_offset c) (ch_length c))"

lemma received_agree:
  assumes s: "in_session dest (sent_by l obj) st i w" and l: "shape st = l" "length obj = size l"
    and x: "x \<in> received_set (bitmap st)" and k: "k \<in> chunk_range l x"
  shows "content (inodes w ! i) ! k = obj ! k"
proof -
  let ?c = "content (inodes w ! i)"
  have lay: "wf_layout l" and sf: "session_file (sent_by l obj) st (inodes w ! i)"
    and wb: "wf_bitmap (chunks l) (bitmap st)" using s l by (simp_all add: in_session_def wf_state_def)
  have xc: "x < chunks l" using wb x by (auto simp: wf_bitmap_def)
  have in': "chunk_start l x + chunk_length l x \<le> size l" by (rule chunk_inside [OF lay xc])
  have len: "length ?c = size l" using sf l by (simp add: session_file_def)
  have "read_bytes ?c (chunk_start l x) (chunk_length l x) = read_bytes obj (chunk_start l x) (chunk_length l x)"
    using sf x l by (auto simp: session_file_def sent_by_def chunk_bytes_def)
  then show ?thesis
    using k in' len l(2) by (subst (asm) nth_range_eq_read) (auto simp: chunk_range_def)
qed

lemma nth_read: "k < length bs \<Longrightarrow> bs = read_bytes obj off n \<Longrightarrow> bs ! k = obj ! (off + k)"
  by (auto simp: read_bytes_def)

text \<open>Writing bytes of the object where they belong.\<close>

lemma write_object:
  assumes s: "in_session dest (sent_by l obj) st i w" and l: "shape st = l" "length obj = size l"
    and bs: "bs = read_bytes obj off n" "off + n \<le> length obj"
  shows "in_session dest (sent_by l obj) st i (set_inode i (written (inodes w ! i) off (take k bs)) w)"
    "agrees obj (content (inodes w ! i)) rs \<Longrightarrow> set rs \<subseteq> {(a, b). b \<le> size l} \<Longrightarrow>
      agrees obj (content (written (inodes w ! i) off bs)) ((off, off + n) # rs)"
proof -
  let ?c = "content (inodes w ! i)"
  have len: "length ?c = size l" using s l by (simp add: in_session_def session_file_def)
  have lb: "length bs = n" using bs by (simp add: length_read_bytes)
  have at: "write_bytes ?c off (take k bs) ! j = (if off \<le> j \<and> j < off + length (take k bs) then obj ! j else ?c ! j)"
    if "j < size l" for j k
    using that len l(2) bs lb by (subst nth_write_bytes) (auto simp: nth_read)
  have lay: "wf_layout l" and wb: "wf_bitmap (chunks l) (bitmap st)"
    using s l by (simp_all add: in_session_def wf_state_def)
  show "in_session dest (sent_by l obj) st i (set_inode i (written (inodes w ! i) off (take k bs)) w)"
  proof (rule in_session_rewrite [OF s])
    show "off + length (take k bs) \<le> size (shape st)" using bs lb l by simp
    show "\<forall>x\<in>received_set (bitmap st). \<forall>j\<in>chunk_range (shape st) x.
        write_bytes ?c off (take k bs) ! j = ?c ! j"
    proof (intro ballI)
      fix x j assume x: "x \<in> received_set (bitmap st)" and j: "j \<in> chunk_range (shape st) x"
      then have "x < chunks l" using wb by (auto simp: wf_bitmap_def)
      then have "j < size l" using j l chunk_inside [OF lay] by (fastforce simp: chunk_range_def)
      then show "write_bytes ?c off (take k bs) ! j = ?c ! j"
        using at received_agree [OF s l x] j l by simp
    qed
  qed
  assume a: "agrees obj ?c rs" and sub: "set rs \<subseteq> {(a, b). b \<le> size l}"
  have w: "content (written (inodes w ! i) off bs) ! j = (if off \<le> j \<and> j < off + n then obj ! j else ?c ! j)"
    if "j < size l" for j using at [OF that, of n] lb by (simp add: written_def Let_def)
  show "agrees obj (content (written (inodes w ! i) off bs)) ((off, off + n) # rs)"
    unfolding agrees_def
  proof (intro ballI, split prod.splits, intro allI impI)
    fix r x y k assume r: "r \<in> set ((off, off + n) # rs)" "r = (x, y)" and k: "x \<le> k \<and> k < y"
    show "content (written (inodes w ! i) off bs) ! k = obj ! k"
    proof (cases "r \<in> set rs")
      case True
      then have "k < size l" "?c ! k = obj ! k" using a sub r(2) k by (auto simp: agrees_def)
      then show ?thesis using w by simp
    next
      case False
      then have "off \<le> k" "k < off + n" using r k by auto
      then show ?thesis using w bs(2) l(2) by simp
    qed
  qed
qed

definition copying ::
    "string \<Rightarrow> chunk_layout \<Rightarrow> bytes \<Rightarrow> resume_state \<Rightarrow> nat \<Rightarrow> (nat \<times> nat) list \<Rightarrow> world \<Rightarrow> bool" where
  "copying dest l obj st i copied w \<longleftrightarrow> in_session dest (sent_by l obj) st i w \<and> shape st = l
     \<and> agrees obj (content (inodes w ! i)) copied \<and> set copied \<subseteq> {(a, b). b \<le> size l}"

lemma fault_blind_copying [simp]: "fault_blind (copying dest l obj st i copied)"
  using fault_blind_in_session [of dest "sent_by l obj" st i]
  by (simp add: fault_blind_def copying_def)

lemma copying_safe: "copying dest l obj st i copied w \<Longrightarrow> crash_safe dest l (object_hash st) (sent_by l obj) w"
  by (auto simp: copying_def in_session_def)

lemma agrees_snoc: "agrees obj c (r # rs) = agrees obj c (rs @ [r])"
  by (auto simp: agrees_def)

lemma write_copy:
  assumes len: "length obj = size l" and bs: "bs = read_bytes obj off n" "off + n \<le> length obj"
  shows "triple (copying dest l obj st i copied) (write_file i off bs)
     (\<lambda>_. copying dest l obj st i (copied @ [(off, off + n)]))
     (crash_safe dest l (object_hash st) (sent_by l obj))"
proof (rule triple_write [where off = "\<lambda>_. off"])
  fix w assume c: "copying dest l obj st i copied w"
  then have s: "in_session dest (sent_by l obj) st i w" "shape st = l" by (simp_all add: copying_def)
  have il: "i < length (inodes w)" by (rule in_session_file [OF s(1)])
  note w = write_object [OF s len bs]
  have "length bs = n" using bs by (simp add: length_read_bytes)
  then have "in_session dest (sent_by l obj) st i (set_inode i (written (inodes w ! i) off bs) w)"
    using w(1) [of n] by simp
  moreover have "agrees obj (content (written (inodes w ! i) off bs)) (copied @ [(off, off + n)])"
    using w(2) c unfolding agrees_snoc [symmetric] by (simp add: copying_def)
  ultimately show "copying dest l obj st i (copied @ [(off, off + n)])
      (set_inode i (written (inodes w ! i) off bs) w)"
    using c il bs(2) len by (auto simp: copying_def set_inode_def)
next
  fix w k assume c: "copying dest l obj st i copied w"
  then have s: "in_session dest (sent_by l obj) st i w" "shape st = l" by (simp_all add: copying_def)
  from write_object(1) [OF s len bs] s(2)
  show "crash_safe dest l (object_hash st) (sent_by l obj) (set_inode i (written (inodes w ! i) off (take k bs)) w)"
    by (simp add: in_session_def)
qed (simp_all add: copying_safe)

lemma copy_chunks_copies:
  assumes "length obj = size l" "describes sha obj cs" "no_collision sha obj (c_bytes cand) cs"
  shows "triple (copying dest l obj st i copied) (copy_chunks sha cand av i cs copied)
     (\<lambda>copied'. copying dest l obj st i copied')
     (crash_safe dest l (object_hash st) (sent_by l obj))"
  using assms(2,3)
proof (induction cs arbitrary: copied)
  case Nil
  then show ?case by (auto intro: triple_ret)
next
  case (Cons c cs)
  have ih: "triple (copying dest l obj st i copied') (copy_chunks sha cand av i cs copied')
     (\<lambda>copied'. copying dest l obj st i copied') (crash_safe dest l (object_hash st) (sent_by l obj))" for copied'
    by (rule Cons.IH) (use Cons.prems in \<open>auto simp: describes_def no_collision_def\<close>)
  show ?case
  proof (cases "av (ch_length c, ch_hash c)")
    case None
    then show ?thesis using ih by simp
  next
    case (Some a)
    let ?rd = "read_loop (c_os cand) ''reuse candidate changed while it was read''
      (ch_length c) (c_bytes cand) a (ch_length c)"
    have step: "triple (copying dest l obj st i copied)
      (if digest sha bs \<noteq> ch_hash c then copy_chunks sha cand av i cs copied
       else bindM (write_file i (ch_offset c) bs) (\<lambda>_.
         copy_chunks sha cand av i cs (copied @ [(ch_offset c, ch_offset c + ch_length c)])))
      (\<lambda>copied'. copying dest l obj st i copied') (crash_safe dest l (object_hash st) (sent_by l obj))"
      if bs: "?rd = Inr bs" for bs
    proof (cases "digest sha bs = ch_hash c")
      case True
      have "bs = read_bytes (c_bytes cand) a (ch_length c)" using read_loop_Inr [OF bs] by simp
      then have "bs = read_bytes obj (ch_offset c) (ch_length c)"
        using True Cons.prems by (auto simp: describes_def no_collision_def)
      moreover have "ch_offset c + ch_length c \<le> length obj" using Cons.prems by (auto simp: describes_def)
      ultimately show ?thesis using True triple_bind [OF write_copy [OF assms(1)] ih] by simp
    qed (simp add: ih)
    have rd: "triple (copying dest l obj st i copied) (lift ?rd)
      (\<lambda>bs w. copying dest l obj st i copied w \<and> ?rd = Inr bs) (crash_safe dest l (object_hash st) (sent_by l obj))"
      by (rule triple_lift) (auto dest: copying_safe)
    have "triple (copying dest l obj st i copied) (bindM (lift ?rd) (\<lambda>bs.
      if digest sha bs \<noteq> ch_hash c then copy_chunks sha cand av i cs copied
       else bindM (write_file i (ch_offset c) bs) (\<lambda>_.
         copy_chunks sha cand av i cs (copied @ [(ch_offset c, ch_offset c + ch_length c)]))))
      (\<lambda>copied'. copying dest l obj st i copied') (crash_safe dest l (object_hash st) (sent_by l obj))"
    proof (rule triple_bind [OF rd])
      fix bs
      show "triple (\<lambda>w. copying dest l obj st i copied w \<and> ?rd = Inr bs)
        (if digest sha bs \<noteq> ch_hash c then copy_chunks sha cand av i cs copied
         else bindM (write_file i (ch_offset c) bs) (\<lambda>_.
           copy_chunks sha cand av i cs (copied @ [(ch_offset c, ch_offset c + ch_length c)])))
        (\<lambda>copied'. copying dest l obj st i copied') (crash_safe dest l (object_hash st) (sent_by l obj))"
        by (cases "?rd = Inr bs") (use step in \<open>auto simp: triple_def\<close>)
    qed
    then show ?thesis using Some by (auto intro: triple_throw copying_safe)
  qed
qed

section \<open>Merging\<close>

definition covered :: "(nat \<times> nat) list \<Rightarrow> nat set" where
  "covered rs = (\<Union>(a, b)\<in>set rs. {a..<b})"

lemma agrees_covered: "agrees obj c rs = (\<forall>k\<in>covered rs. c ! k = obj ! k)"
  by (fastforce simp: agrees_def covered_def)

lemma covered_append [simp]: "covered (rs @ qs) = covered rs \<union> covered qs"
  by (simp add: covered_def)

lemma covered_simps [simp]: "covered [] = {}" "covered (r # rs) = {fst r..<snd r} \<union> covered rs"
  by (auto simp: covered_def split: prod.splits)

text \<open>Ranges in order, not touching.\<close>

fun apart :: "nat \<Rightarrow> (nat \<times> nat) list \<Rightarrow> bool" where
  "apart m [] = True"
| "apart m ((a, b) # rs) = (m \<le> a \<and> a < b \<and> apart (Suc b) rs)"

lemma apart_append: "apart m (rs @ [(a, b)]) =
    (apart m rs \<and> a < b \<and> (if rs = [] then m \<le> a else snd (last rs) < a))"
  by (induction m rs rule: apart.induct) auto

lemma merge_range_sound: "covered (merge_range merged r) \<subseteq> covered merged \<union> {fst r..<snd r}"
  by (cases merged rule: rev_cases) (auto simp: merge_range_def)

lemma merge_ranges_sound: "covered (merge_ranges copied) \<subseteq> covered copied"
  by (induction copied rule: rev_induct) (use merge_range_sound in \<open>fastforce simp: merge_ranges_def\<close>)+

text \<open>The target's chunks come in order, and so do the ranges copied for them.\<close>

fun ascending :: "nat \<Rightarrow> (nat \<times> nat) list \<Rightarrow> bool" where
  "ascending m [] = True"
| "ascending m ((a, b) # rs) = (m \<le> a \<and> a < b \<and> ascending b rs)"

lemma ascending_mono: "ascending m rs \<Longrightarrow> k \<le> m \<Longrightarrow> ascending k rs"
  by (cases rs) auto

lemma merge_ranges_step:
  assumes "apart 0 merged" "merged \<noteq> [] \<Longrightarrow> snd (last merged) \<le> m" "ascending m rs"
  shows "apart 0 (foldl merge_range merged rs)
    \<and> covered (foldl merge_range merged rs) = covered merged \<union> covered rs"
  using assms
proof (induction rs arbitrary: merged m)
  case (Cons r rs)
  obtain a b where r: "r = (a, b)" by (cases r)
  have ab: "m \<le> a" "a < b" "ascending b rs" using Cons.prems r by simp_all
  let ?m = "merge_range merged r"
  have step: "apart 0 ?m \<and> ?m \<noteq> [] \<and> snd (last ?m) = b \<and> covered ?m = covered merged \<union> {a..<b}"
  proof (cases merged rule: rev_cases)
    case Nil
    then show ?thesis using ab r by (simp add: merge_range_def)
  next
    case (snoc ys y)
    obtain c d where y: "y = (c, d)" by (cases y)
    have d: "d \<le> m" "c < d" using Cons.prems(1,2) snoc y by (simp_all add: apart_append)
    show ?thesis
    proof (cases "a \<le> d")
      case True
      then show ?thesis using Cons.prems(1) snoc y r ab d
        by (auto simp: merge_range_def apart_append split: if_splits)
    next
      case False
      have "apart 0 (merged @ [(a, b)])"
        using Cons.prems(1) False snoc y ab by (subst apart_append) simp
      moreover have "merge_range merged r = merged @ [(a, b)]"
        using False snoc y r by (simp add: merge_range_def)
      ultimately show ?thesis by simp
    qed
  qed
  have "apart 0 (foldl merge_range ?m rs) \<and> covered (foldl merge_range ?m rs) = covered ?m \<union> covered rs"
    by (rule Cons.IH [of _ b]) (use step ab in simp_all)
  then show ?case using step r by auto
qed simp

lemma merge_ranges_spec:
  "ascending 0 copied \<Longrightarrow> apart 0 (merge_ranges copied) \<and> covered (merge_ranges copied) = covered copied"
  unfolding merge_ranges_def using merge_ranges_step [of "[]" 0 copied] by simp

lemma apart_above: "apart m rs \<Longrightarrow> k \<in> covered rs \<Longrightarrow> m \<le> k"
  by (induction m rs rule: apart.induct) fastforce+

lemma dropWhile_apart: "apart m rs \<Longrightarrow> dropWhile (\<lambda>r. snd r \<le> 0) rs = rs"
  by (cases rs) auto

text \<open>The first range that ends behind \<open>a\<close> decides.\<close>

lemma apart_decides:
  assumes "apart m rs" "a < e"
  shows "({a..<e} \<subseteq> covered rs) = (dropWhile (\<lambda>r. snd r \<le> a) rs \<noteq> []
    \<and> fst (hd (dropWhile (\<lambda>r. snd r \<le> a) rs)) \<le> a \<and> e \<le> snd (hd (dropWhile (\<lambda>r. snd r \<le> a) rs)))"
  using assms(1)
proof (induction m rs rule: apart.induct)
  case (1 m)
  then show ?case using assms(2) by simp
next
  case (2 m c d rs)
  show ?case
  proof (cases "d \<le> a")
    case True
    have "({a..<e} \<subseteq> {c..<d} \<union> covered rs) = ({a..<e} \<subseteq> covered rs)" using True by auto
    then show ?thesis using 2 True by simp
  next
    case False
    have above: "Suc d \<le> k" if "k \<in> covered rs" for k using apart_above [OF _ that, of "Suc d"] 2 by simp
    have "({a..<e} \<subseteq> {c..<d} \<union> covered rs) = (c \<le> a \<and> e \<le> d)"
    proof
      assume sub: "{a..<e} \<subseteq> {c..<d} \<union> covered rs"
      have "a \<in> {c..<d} \<union> covered rs" using sub assms(2) by auto
      then have "c \<le> a" using above [of a] False by auto
      moreover have "e \<le> d"
      proof (rule ccontr)
        assume "\<not> e \<le> d"
        then have "d \<in> {c..<d} \<union> covered rs" using False by (intro subsetD [OF sub]) simp
        then show False using above [of d] by auto
      qed
      ultimately show "c \<le> a \<and> e \<le> d" ..
    qed auto
    then show ?thesis using False by simp
  qed
qed

lemma dropWhile_twice:
  "(\<And>x. P x \<Longrightarrow> Q x) \<Longrightarrow> dropWhile Q (dropWhile P xs) = dropWhile Q xs"
  by (induction xs) auto

section \<open>Marking\<close>

text \<open>The packets that the ranges cover, below \<open>n\<close>.\<close>

definition covered_packets :: "chunk_layout \<Rightarrow> nat \<Rightarrow> (nat \<times> nat) list \<Rightarrow> nat set" where
  "covered_packets l n rs = {s. s < n \<and> chunk_range l s \<subseteq> covered rs}"

definition marked ::
    "string \<Rightarrow> (nat \<Rightarrow> bytes \<Rightarrow> bool) \<Rightarrow> nat \<Rightarrow> chunk_layout \<Rightarrow> resume_state \<Rightarrow> (nat \<times> nat) list \<Rightarrow> nat
      \<Rightarrow> marking \<Rightarrow> world \<Rightarrow> bool" where
  "marked dest ok i l st merged n mk w \<longleftrightarrow> in_session dest ok (mk_state mk) i w
     \<and> shape (mk_state mk) = l \<and> object_hash (mk_state mk) = object_hash st
     \<and> received_set (bitmap (mk_state mk)) = received_set (bitmap st) \<union> covered_packets l n merged
     \<and> (\<exists>T \<le> n * payload_bytes l. mk_ranges mk = dropWhile (\<lambda>r. snd r \<le> T) merged)
     \<and> (let fresh = covered_packets l n merged - received_set (bitmap st)
        in mk_chunks mk = card fresh \<and> mk_bytes mk = (\<Sum>s\<in>fresh. chunk_length l s))"

lemma covered_packets_Suc:
  "covered_packets l (Suc n) rs = covered_packets l n rs \<union> (if chunk_range l n \<subseteq> covered rs then {n} else {})"
  by (auto simp: covered_packets_def less_Suc_eq)

lemma covered_packets_finite [simp]: "finite (covered_packets l n rs)"
  by (simp add: covered_packets_def)

lemma covered_packets_card: "card (covered_packets l n rs - X) \<le> n"
proof -
  have "covered_packets l n rs - X \<subseteq> {..<n}" by (auto simp: covered_packets_def)
  from card_mono [OF _ this] show ?thesis by simp
qed

lemma covered_packets_bytes: "(\<Sum>s\<in>covered_packets l n rs - X. chunk_length l s) \<le> n * payload_bytes l"
proof -
  have "(\<Sum>s\<in>covered_packets l n rs - X. chunk_length l s) \<le> card (covered_packets l n rs - X) * payload_bytes l"
    using sum_bounded_above [of "covered_packets l n rs - X" "chunk_length l" "payload_bytes l"]
    by (simp add: chunk_length_def)
  also have "\<dots> \<le> n * payload_bytes l" by (rule mult_le_mono1 [OF covered_packets_card])
  finally show ?thesis .
qed

lemma layout_u64: "wf_layout l \<Longrightarrow> n \<le> chunks l \<Longrightarrow> n < 2 ^ 63 \<and> n * payload_bytes l < 2 ^ 63"
proof -
  assume l: "wf_layout l" "n \<le> chunks l"
  then have "n \<le> 2 ^ 29" "payload_bytes l \<le> 1424" by (simp_all add: wf_layout_def max_chunks_def)
  then have "n * payload_bytes l \<le> 2 ^ 29 * 1424" by (rule mult_le_mono)
  then show ?thesis using \<open>n \<le> 2 ^ 29\<close> by simp
qed

lemma mark_chunk_marks:
  assumes inv: "marked dest ok i l st merged n mk w" and n: "n < chunks l" and m: "apart 0 merged"
    and ok: "\<And>s. s < chunks l \<Longrightarrow> chunk_range l s \<subseteq> covered merged
      \<Longrightarrow> ok s (chunk_bytes l (content (inodes w ! i)) s)"
  shows "\<exists>mk'. mark_chunk l mk n = Inr mk' \<and> marked dest ok i l st merged (Suc n) mk' w"
proof -
  let ?st = "mk_state mk" and ?start = "n * payload_bytes l"
  let ?e = "min (?start + payload_bytes l) (size l)"
  let ?F = "\<lambda>n. covered_packets l n merged - received_set (bitmap st)"
  from inv have s: "in_session dest ok ?st i w" and sh: "shape ?st = l" "object_hash ?st = object_hash st"
    and rs: "received_set (bitmap ?st) = received_set (bitmap st) \<union> covered_packets l n merged"
    and cnt: "mk_chunks mk = card (?F n)" "mk_bytes mk = (\<Sum>s\<in>?F n. chunk_length l s)"
    by (simp_all add: marked_def Let_def)
  from inv obtain T where T: "T \<le> ?start" "mk_ranges mk = dropWhile (\<lambda>r. snd r \<le> T) merged"
    by (auto simp: marked_def)
  have wst: "wf_state dest ?st" using s by (simp add: in_session_def)
  have lay: "wf_layout l" and wb: "wf_bitmap (chunks l) (bitmap ?st)"
    and rc: "received_count ?st = count_received (bitmap ?st)" using wst sh by (simp_all add: wf_state_def)
  have start: "?start < size l" using wf_layout_chunk [OF lay, of n] n by simp
  have range_n: "chunk_range l n = {?start..<?e}" "?start < ?e" "chunk_length l n = ?e - ?start"
    using start lay by (auto simp: chunk_range_def chunk_start_def chunk_length_def wf_layout_def)
  show ?thesis
  proof (cases "bitmap_contains (bitmap ?st) n")
    case True
    then have "n \<in> received_set (bitmap st)"
      using rs by (auto simp: received_set_iff [symmetric] covered_packets_def)
    then have "received_set (bitmap st) \<union> covered_packets l (Suc n) merged
        = received_set (bitmap st) \<union> covered_packets l n merged" "?F (Suc n) = ?F n"
      by (auto simp: covered_packets_Suc)
    moreover have "\<exists>T \<le> Suc n * payload_bytes l. mk_ranges mk = dropWhile (\<lambda>r. snd r \<le> T) merged"
      by (rule exI [of _ T]) (use T in simp)
    ultimately have "marked dest ok i l st merged (Suc n) mk w"
      using s sh rs cnt by (simp add: marked_def Let_def)
    then show ?thesis using True by (simp add: mark_chunk_def)
  next
    case False
    let ?ranges = "dropWhile (\<lambda>r. snd r \<le> ?start) merged"
    have rg: "dropWhile (\<lambda>r. snd r \<le> ?start) (mk_ranges mk) = ?ranges"
      unfolding T(2) by (rule dropWhile_twice) (use T(1) in simp)
    have dec: "(chunk_range l n \<subseteq> covered merged)
        = (?ranges \<noteq> [] \<and> fst (hd ?ranges) \<le> ?start \<and> ?e \<le> snd (hd ?ranges))"
      unfolding range_n(1) by (rule apart_decides [OF m range_n(2)])
    have u: "?start < 2 ^ 64" "?start + payload_bytes l < 2 ^ 64"
      using layout_u64 [OF lay, of n] lay n by (simp_all add: wf_layout_def)
    have mc: "mark_chunk l mk n = (if chunk_range l n \<subseteq> covered merged
        then and_then (bitmap_insert (bitmap ?st) n) (\<lambda>bm.
          Inr (mk\<lparr>mk_state := ?st\<lparr>bitmap := bm, received_count := sat_add (received_count ?st) 1\<rparr>,
            mk_ranges := ?ranges, mk_bytes := sat_add (mk_bytes mk) (?e - ?start),
            mk_chunks := sat_add (mk_chunks mk) 1\<rparr>))
        else Inr (mk\<lparr>mk_ranges := ?ranges\<rparr>))"
      using False u rg unfolding mark_chunk_def dec by (simp add: Let_def del: dropWhile_eq_Nil_conv)
    have T': "\<exists>T \<le> Suc n * payload_bytes l. ?ranges = dropWhile (\<lambda>r. snd r \<le> T) merged"
      by (rule exI [of _ ?start]) simp
    show ?thesis
    proof (cases "chunk_range l n \<subseteq> covered merged")
      case no: False
      have "mark_chunk l mk n = Inr (mk\<lparr>mk_ranges := ?ranges\<rparr>)"
        using no mc by simp
      moreover have "marked dest ok i l st merged (Suc n) (mk\<lparr>mk_ranges := ?ranges\<rparr>) w"
        using inv no T' by (simp add: marked_def covered_packets_Suc Let_def)
      ultimately show ?thesis by blast
    next
      case yes: True
      obtain bm where bm: "bitmap_insert (bitmap ?st) n = Inr bm"
        using wf_bitmap_insert [OF wb n] by blast
      have nr: "n \<notin> received_set (bitmap ?st)" using False by (simp add: received_set_iff)
      have "card (received_set (bitmap ?st)) \<le> card {..<chunks l}"
        using wb by (intro card_mono) (auto simp: wf_bitmap_def)
      then have c1: "sat_add (received_count ?st) 1 = received_count ?st + 1"
        using rc layout_u64 [OF lay, of "chunks l"] by (intro sat_add_id) (simp add: count_received_card)
      have c2: "sat_add (mk_chunks mk) 1 = mk_chunks mk + 1"
        using cnt(1) covered_packets_card [of l n merged "received_set (bitmap st)"]
          layout_u64 [OF lay, of n] n by (intro sat_add_id) simp
      have c3: "sat_add (mk_bytes mk) (?e - ?start) = mk_bytes mk + chunk_length l n"
        using cnt(2) covered_packets_bytes [of l n merged "received_set (bitmap st)"]
          layout_u64 [OF lay, of n] n range_n(3) lay by (subst sat_add_id) (auto simp: wf_layout_def)
      let ?st' = "?st\<lparr>bitmap := bm, received_count := received_count ?st + 1\<rparr>"
      let ?mk = "mk\<lparr>mk_state := ?st', mk_ranges := ?ranges, mk_bytes := mk_bytes mk + chunk_length l n,
          mk_chunks := mk_chunks mk + 1\<rparr>"
      have "mark_chunk l mk n = Inr ?mk"
        using yes mc bm c1 c2 c3 by simp
      moreover have "in_session dest ok ?st' i w"
        by (rule in_session_insert [OF s _ nr bm]) (use n ok yes sh in simp_all)
      moreover have "received_set bm = insert n (received_set (bitmap ?st))"
        using insert_Inr [OF bm] by (auto simp: received_set_iff)
      moreover have "?F (Suc n) = insert n (?F n)" "n \<notin> ?F n"
        using yes nr rs by (auto simp: covered_packets_Suc covered_packets_def)
      ultimately show ?thesis
        using sh rs cnt yes T' by (simp add: marked_def Let_def covered_packets_Suc)
    qed
  qed
qed

lemma mark_chunks_marks:
  assumes "marked dest ok i l st merged n mk w" "n + k = chunks l" "apart 0 merged"
    and "\<And>s. s < chunks l \<Longrightarrow> chunk_range l s \<subseteq> covered merged
      \<Longrightarrow> ok s (chunk_bytes l (content (inodes w ! i)) s)"
  shows "\<exists>mk'. mark_chunks l [n..<chunks l] mk = Inr mk' \<and> marked dest ok i l st merged (chunks l) mk' w"
  using assms(1,2)
proof (induction k arbitrary: n mk)
  case 0
  then show ?case by auto
next
  case (Suc k)
  then have n: "n < chunks l" by simp
  from mark_chunk_marks [OF Suc.prems(1) n assms(3,4)] obtain mk' where
    mk': "mark_chunk l mk n = Inr mk'" "marked dest ok i l st merged (Suc n) mk' w" by blast
  with Suc.IH [OF mk'(2)] Suc.prems(2) show ?case by (simp add: upt_conv_Cons [OF n])
qed

section \<open>The whole step\<close>

text \<open>The ranges copied are those of some of the target's chunks.\<close>

lemma copy_chunks_ranges:
  "copy_chunks sha cand av i cs copied w = (Inr copied', w') \<Longrightarrow>
    \<exists>bs. length bs = length cs \<and> copied' = copied
      @ map (\<lambda>c. (ch_offset c, ch_offset c + ch_length c)) (map snd (filter fst (zip bs cs)))"
proof (induction cs arbitrary: copied w)
  case Nil
  then show ?case by (simp add: ret_def)
next
  case (Cons c cs)
  let ?r = "(ch_offset c, ch_offset c + ch_length c)"
  consider (skip) w1 where "copy_chunks sha cand av i cs copied w1 = (Inr copied', w')"
    | (copy) w1 where "copy_chunks sha cand av i cs (copied @ [?r]) w1 = (Inr copied', w')"
    using Cons.prems
    by (auto simp: bindM_def lift_def throw_def split: option.splits if_splits sum.splits prod.splits)
  then show ?case
  proof cases
    case skip
    from Cons.IH [OF this] obtain bs where "length bs = length cs" "copied' = copied
      @ map (\<lambda>c. (ch_offset c, ch_offset c + ch_length c)) (map snd (filter fst (zip bs cs)))" by blast
    then show ?thesis by (intro exI [of _ "False # bs"]) simp
  next
    case copy
    from Cons.IH [OF this] obtain bs where "length bs = length cs" "copied' = (copied @ [?r])
      @ map (\<lambda>c. (ch_offset c, ch_offset c + ch_length c)) (map snd (filter fst (zip bs cs)))" by blast
    then show ?thesis by (intro exI [of _ "True # bs"]) simp
  qed
qed

lemma ascending_selected:
  assumes "contiguous sz off cs" "length bs = length cs"
  shows "ascending off (map (\<lambda>c. (ch_offset c, ch_offset c + ch_length c)) (map snd (filter fst (zip bs cs))))"
  using assms
proof (induction sz off cs arbitrary: bs rule: contiguous.induct)
  case (2 sz off c cs)
  then obtain b bs' where bs: "bs = b # bs'" "length bs' = length cs" by (cases bs) auto
  with 2 have "ascending (off + ch_length c)
      (map (\<lambda>c. (ch_offset c, ch_offset c + ch_length c)) (map snd (filter fst (zip bs' cs))))" by simp
  with 2 bs show ?case using ascending_mono [of "off + ch_length c" _ off] by (cases b) auto
qed simp

text \<open>What the reuse leaves: the crash invariant, and nothing marked but right packets.\<close>

definition reused ::
    "string \<Rightarrow> (nat \<Rightarrow> bytes \<Rightarrow> bool) \<Rightarrow> nat \<Rightarrow> chunk_layout \<Rightarrow> resume_state \<Rightarrow> resume_state \<times> nat \<times> nat
      \<Rightarrow> world \<Rightarrow> bool" where
  "reused dest ok i l st res w \<longleftrightarrow> (case res of (st', nbytes, nchunks) \<Rightarrow>
     in_session dest ok st' i w \<and> shape st' = l \<and> object_hash st' = object_hash st
     \<and> received_set (bitmap st) \<subseteq> received_set (bitmap st')
     \<and> (let fresh = received_set (bitmap st') - received_set (bitmap st)
        in nchunks = card fresh \<and> nbytes = (\<Sum>s\<in>fresh. chunk_length l s)))"

lemma covered_packets_0: "covered_packets l 0 rs = {}"
  by (simp add: covered_packets_def)

lemma reused_unchanged:
  "in_session dest ok st i w \<Longrightarrow> shape st = l \<Longrightarrow> reused dest ok i l st (st, 0, 0) w"
  by (simp add: reused_def)

lemma marked_reused:
  "marked dest ok i l st merged n mk w \<Longrightarrow> reused dest ok i l st (mk_state mk, mk_bytes mk, mk_chunks mk) w"
proof -
  assume m: "marked dest ok i l st merged n mk w"
  then have "received_set (bitmap (mk_state mk)) - received_set (bitmap st)
      = covered_packets l n merged - received_set (bitmap st)"
    unfolding marked_def by blast
  with m show ?thesis by (simp add: marked_def reused_def Let_def)
qed

lemma apply_reusable_content_reuses:
  assumes t: "contiguous (size l) 0 (m_chunks target)" and len: "length obj = size l"
    and d: "describes sha obj (m_chunks target)" "no_collision sha obj (c_bytes cand) (m_chunks target)"
    and l: "shape st = l"
  shows "triple (in_session dest (sent_by l obj) st i) (apply_reusable_content sha pid i st target cand l)
     (reused dest (sent_by l obj) i l st) (crash_safe dest l (object_hash st) (sent_by l obj))"
  unfolding triple_def
proof (intro allI impI)
  fix w assume s: "in_session dest (sent_by l obj) st i w"
  have cs: "crash_safe dest l (object_hash st) (sent_by l obj) w" using s l by (simp add: in_session_def)
  have c0: "copying dest l obj st i [] w" using s l by (simp add: copying_def agrees_def)
  let ?ok = "sent_by l obj"
  note u = reused_unchanged [of dest ?ok st i _ l, OF _ l]
  show "case apply_reusable_content sha pid i st target cand l w of
      (Inl e, w') \<Rightarrow> crash_safe dest l (object_hash st) ?ok w' | (Inr x, w') \<Rightarrow> reused dest ?ok i l st x w'"
  proof (cases "scan sha (c_meta cand) (c_reads cand)")
    case (Inl e)
    then show ?thesis using u [OF s] cs by (simp add: apply_reusable_content_def ret_def throw_def)
  next
    case (Inr m)
    show ?thesis
    proof (cases "c_open cand")
      case (Inl e)
      then show ?thesis using Inr cs by (simp add: apply_reusable_content_def bindM_def lift_def)
    next
      case open': (Inr x)
      obtain rc w1 where cp: "copy_chunks sha cand (available (m_chunks m)) i (m_chunks target) [] w = (rc, w1)"
        by fastforce
      note tr = copy_chunks_copies [OF len d, of dest st i "[]" "available (m_chunks m)"]
      show ?thesis
      proof (cases rc)
        case (Inl e)
        then show ?thesis using triple_Inl [OF tr c0] cp Inr open'
          by (simp add: apply_reusable_content_def bindM_def lift_def)
      next
        case copied: (Inr copied)
        have c1: "copying dest l obj st i copied w1" using triple_Inr [OF tr c0] cp copied by simp
        then have s1: "in_session dest ?ok st i w1" and ag: "agrees obj (content (inodes w1 ! i)) copied"
          by (simp_all add: copying_def)
        let ?mk0 = "\<lparr>mk_state = st, mk_ranges = merge_ranges copied, mk_bytes = 0, mk_chunks = 0\<rparr>"
        have asc: "ascending 0 copied"
          using copy_chunks_ranges [of sha cand "available (m_chunks m)" i "m_chunks target" "[]" w copied w1]
            cp copied ascending_selected [OF t] by auto
        note mr = merge_ranges_spec [OF asc]
        have m0: "marked dest ?ok i l st (merge_ranges copied) 0 ?mk0 w1"
          using s1 l dropWhile_apart [OF conjunct1 [OF mr]]
          by (auto simp: marked_def covered_packets_0 intro!: exI [of _ 0])
        have right: "?ok x (chunk_bytes l (content (inodes w1 ! i)) x)"
          if "x < chunks l" "chunk_range l x \<subseteq> covered (merge_ranges copied)" for x
        proof -
          have "\<forall>k\<in>chunk_range l x. content (inodes w1 ! i) ! k = obj ! k"
            using ag that(2) mr by (auto simp: agrees_covered)
          moreover have "length (content (inodes w1 ! i)) = size l" "wf_layout l"
            using s1 l by (simp_all add: in_session_def session_file_def wf_state_def)
          ultimately show ?thesis unfolding sent_by_def using chunk_bytes_same that(1) len by blast
        qed
        obtain mk where mk: "mark_chunks l [0..<chunks l] ?mk0 = Inr mk"
          "marked dest ?ok i l st (merge_ranges copied) (chunks l) mk w1"
          using mark_chunks_marks [OF m0 _ _ right, of "chunks l"] mr by auto
        have re: "reused dest ?ok i l st (mk_state mk, mk_bytes mk, mk_chunks mk) w1" by (rule marked_reused [OF mk(2)])
        have smk: "in_session dest ?ok (mk_state mk) i w1" "shape (mk_state mk) = l"
          "object_hash (mk_state mk) = object_hash st" using mk(2) by (simp_all add: marked_def)
        have wst: "wf_state dest (mk_state mk)" using smk by (simp add: in_session_def)
        have run: "apply_reusable_content sha pid i st target cand l w = (if copied = [] then ret (st, 0, 0)
          else if 0 < mk_chunks mk
          then bindM (checkpoint pid (mk_state mk) i) (\<lambda>_. ret (mk_state mk, mk_bytes mk, mk_chunks mk))
          else ret (mk_state mk, mk_bytes mk, mk_chunks mk)) w1"
          using Inr open' cp copied mk(1) by (simp add: apply_reusable_content_def bindM_def lift_def)
        note ck = checkpoint_keeps_session [OF wst, of ?ok i pid]
        show ?thesis
        proof (cases "copied \<noteq> [] \<and> 0 < mk_chunks mk")
          case True
          obtain rk w2 where k: "checkpoint pid (mk_state mk) i w1 = (rk, w2)" by fastforce
          have s2: "in_session dest ?ok (mk_state mk) i w2"
            using triple_Inr [OF ck smk(1)] triple_Inl [OF ck smk(1)] k by (cases rk) auto
          then have "reused dest ?ok i l st (mk_state mk, mk_bytes mk, mk_chunks mk) w2"
            using re by (simp add: reused_def)
          moreover have "crash_safe dest l (object_hash st) ?ok w2"
            using s2 smk by (simp add: in_session_def)
          ultimately show ?thesis using run True k by (cases rk) (auto simp: bindM_def ret_def)
        next
          case False
          then show ?thesis using run re u [OF s1] by (auto simp: ret_def)
        qed
      qed
    qed
  qed
qed

end
