(* ===== verification/Session.thy ===== *)
theory Session
  imports Delivery Reuse
begin

text \<open>
  A whole UDP transfer at the receiver: \<open>receive_udp\<close> of \<open>src/main.rs\<close>, from the check
  whether the file is already there over the opening of the saved state, the reuse of content and
  the answer to the sender, to the loop.

  The theorems compose the results about opening (\<open>Resume\<close>), reuse (\<open>Reuse\<close>) and the
  loop (\<open>Delivery\<close>).
\<close>

section \<open>The code\<close>

text \<open>\<open>hash_file\<close>: open, seek to the start, read to the end.\<close>

definition hash_file :: "(bytes \<Rightarrow> 256 word) \<Rightarrow> string \<Rightarrow> string io" where
  "hash_file sha p = bindM (open_file p) (\<lambda>i. bindM (read_file i) (\<lambda>bs. ret (hex_digest (digest sha bs))))"

definition already_complete :: "(bytes \<Rightarrow> 256 word) \<Rightarrow> string \<Rightarrow> hello \<Rightarrow> bool io" where
  "already_complete sha dest h =
     tryM (file_len dest) (\<lambda>r.
     if r = Inr (size (h_layout h)) then bindM (hash_file sha dest) (\<lambda>hash. ret (hash = h_hash h)) else ret False)"

text \<open>\<open>send_completion_and_wait\<close>; \<open>reply\<close> is what \<open>ControlReader::recv\<close> returns.\<close>

definition send_completion_and_wait :: "string result \<Rightarrow> unit io" where
  "send_completion_and_wait reply =
     bindM (send_control ''COMPLETE'') (\<lambda>_.
     bindM (lift reply) (\<lambda>acknowledgement.
     if acknowledgement \<noteq> ''COMPLETE_ACK''
     then throw (Err (''expected completion acknowledgement, got '' @ acknowledgement)) else ret ()))"

text \<open>What a transfer gets from outside; \<open>u_now\<close> is the clock when the loop starts.\<close>

record udp_inputs =
  u_drops :: "nat option"
  u_reply :: "string result"
  u_reuse :: "(manifest \<times> candidate) option"
  u_os :: transfer
  u_now :: instant
  u_ticks :: "tick list"

definition receive_opened ::
    "(bytes \<Rightarrow> 256 word) \<Rightarrow> nat \<Rightarrow> session_auth \<Rightarrow> string \<Rightarrow> hello \<Rightarrow> udp_inputs \<Rightarrow> nat
      \<Rightarrow> resume_state \<times> nat \<times> nat \<Rightarrow> outcome io" where
  "receive_opened sha pid sa dest h inp i res =
     (case res of (st, rbytes, rchunks) \<Rightarrow>
       bindM (advance_hash_frontier (u_os inp) i (new_receiver st (u_now inp))) (\<lambda>r.
       bindM (forM send_control (answer_lines (payload_bytes (h_layout h)) (h_report_interval h) rbytes rchunks
         (bitmap st))) (\<lambda>_.
       receive_loop sha pid sa dest h i (u_ticks inp) r)))"

definition receive_udp ::
    "(bytes \<Rightarrow> 256 word) \<Rightarrow> nat \<Rightarrow> session_auth \<Rightarrow> string \<Rightarrow> hello \<Rightarrow> udp_inputs \<Rightarrow> outcome io" where
  "receive_udp sha pid sa dest h inp =
     bindM (already_complete sha dest h) (\<lambda>done.
     if done then
       (let t = default_telemetry\<lparr>received_chunks := chunks (h_layout h), frontier_chunks := chunks (h_layout h),
          socket_drops := u_drops inp, reports := 1\<rparr> in
        bindM (send_control (format_feedback_report t [])) (\<lambda>_.
        bindM (send_completion_and_wait (u_reply inp)) (\<lambda>_. ret (Done t))))
     else
       bindM (resume_open pid dest (h_layout h) (h_hash h)) (\<lambda>(i, st).
       bindM (case u_reuse inp of
           Some (target, cand) \<Rightarrow> apply_reusable_content sha pid i st target cand (h_layout h)
         | None \<Rightarrow> ret (st, 0, 0)) (\<lambda>res.
       receive_opened sha pid sa dest h inp i res)))"

section \<open>Opening\<close>

lemma call_fine:
  assumes "alive w" "set (take (Suc n) (faults w)) \<subseteq> {Fine}"
  shows "\<exists>fs. call body w = body (w\<lparr>faults := fs\<rparr>) \<and> set (take n fs) \<subseteq> {Fine}"
proof (cases "faults w")
  case Nil
  then have e: "w\<lparr>faults := []\<rparr> = w" by (cases w) simp
  show ?thesis using Nil assms(1) by (intro exI [of _ "[]"], subst e) (simp add: call_def)
next
  case (Cons f fs)
  then have "f = Fine" "set (take n fs) \<subseteq> {Fine}" using assms(2) by simp_all
  then show ?thesis using Cons assms(1) by (intro exI [of _ fs]) (simp add: call_def)
qed

text \<open>What a later transfer finds on disk: the map, if it is usable, has its part file, and the
  calls that open the two succeed.\<close>

definition reopenable :: "string \<Rightarrow> chunk_layout \<Rightarrow> bytes \<Rightarrow> nat \<Rightarrow> world \<Rightarrow> bool" where
  "reopenable dest l h n w \<longleftrightarrow> usable_map dest l h w \<noteq> None \<longrightarrow>
     set (take n (faults w)) \<subseteq> {Fine} \<and>
     (\<exists>file. names w (part_of dest) = Some file \<and> length (content (inodes w ! file)) = size l)"

definition opened ::
    "string \<Rightarrow> (nat \<Rightarrow> bytes \<Rightarrow> bool) \<Rightarrow> chunk_layout \<Rightarrow> bytes \<Rightarrow> nat \<times> resume_state \<Rightarrow> world \<Rightarrow> bool" where
  "opened dest ok l h res w \<longleftrightarrow> (case res of (i, st) \<Rightarrow>
     in_session dest ok st i w \<and> shape st = l \<and> object_hash st = h)"

lemma dead_call: "\<not> alive w \<Longrightarrow> call body w = (Inl Panic, w)"
  by (simp add: call_def)

lemma same_disk_open:
  assumes "same_disk w w'" "crash_safe dest l h ok w" "history w = [names w]"
  shows "crash_safe dest l h ok w'" "history w' = [names w']" "usable_map dest l h w' = usable_map dest l h w"
    "names w' = names w" "inodes w' = inodes w"
  using assms by (auto simp: same_disk_def crash_safe_def wf_world_def usable_map_def split: option.splits)

lemma start_afresh_dead: "\<not> alive w \<Longrightarrow> start_afresh pid dest l h w = (Inl Panic, w)"
  by (simp add: start_afresh_def bindM_def create_file_def dead_call)

lemma load_map_fine:
  assumes "load_map (map_of_dest dest) l h w = (Inr (Some bm), w1)"
  shows "alive w \<and> (set (take 3 (faults w)) \<subseteq> {Fine} \<longrightarrow> alive w1 \<and> set (take 1 (faults w1)) \<subseteq> {Fine})"
proof -
  have a: "alive w" using assms
    by (cases "alive w") (auto simp: load_map_def tryM_def open_file_def dead_call throw_def)
  moreover have "alive w1 \<and> set (take 1 (faults w1)) \<subseteq> {Fine}" if f: "set (take 3 (faults w)) \<subseteq> {Fine}"
  proof -
    let ?b = "\<lambda>w. case names w (map_of_dest dest) of None \<Rightarrow> (Inl NotFound, w) | Some i \<Rightarrow> (Inr i, w)"
    obtain fs where fs: "call ?b w = ?b (w\<lparr>faults := fs\<rparr>)" "set (take 2 fs) \<subseteq> {Fine}"
      using call_fine [OF a, of 2 ?b] f by auto
    have m: "names w (map_of_dest dest) \<noteq> None"
      using assms fs(1)
      by (cases "names w (map_of_dest dest)") (auto simp: load_map_def tryM_def open_file_def ret_def)
    then obtain i where i: "names w (map_of_dest dest) = Some i" by blast
    let ?w = "w\<lparr>faults := fs\<rparr>"
    let ?r = "\<lambda>w. (Inr (content (inodes w ! i)), w)"
    obtain gs where gs: "call ?r ?w = ?r (?w\<lparr>faults := gs\<rparr>)" "set (take 1 gs) \<subseteq> {Fine}"
      using call_fine [of ?w 1 ?r] a fs(2) by (auto simp: numeral_2_eq_2)
    have "w1 = w\<lparr>faults := gs\<rparr>"
      using assms fs(1) gs(1) i
      by (auto simp: load_map_def tryM_def open_file_def ret_def bindM_def lift_def read_file_def
          split: sum.splits)
    then show ?thesis using a gs(2) by simp
  qed
  ultimately show ?thesis by blast
qed

lemma file_len_fine:
  assumes "alive w" "set (take 1 (faults w)) \<subseteq> {Fine}" "names w p = Some i"
  shows "fst (file_len p w) = Inr (length (content (inodes w ! i)))"
proof -
  let ?b = "\<lambda>w. case names w p of None \<Rightarrow> (Inl NotFound, w)
     | Some i \<Rightarrow> (Inr (length (content (inodes w ! i))), w)"
  obtain fs where "call ?b w = ?b (w\<lparr>faults := fs\<rparr>)"
    using call_fine [OF assms(1), of 0 ?b] assms(2) by auto
  then show ?thesis using assms(3) by (simp add: file_len_def)
qed

lemma resume_open_opens:
  assumes cs: "crash_safe dest l h ok w" and hist: "history w = [names w]"
    and l: "wf_layout l" "is_u64 (size l)" "length h = 32" and d: "resume_decode_hash hash_hex = Inr h"
    and re: "reopenable dest l h 3 w"
  shows "case resume_open pid dest l hash_hex w of (Inl e, w') \<Rightarrow> crash_safe dest l h ok w'
    | (Inr res, w') \<Rightarrow> opened dest ok l h res w'"
proof -
  have afresh: "case start_afresh pid dest l h v of (Inl e, w') \<Rightarrow> crash_safe dest l h ok w'
      | (Inr res, w') \<Rightarrow> opened dest ok l h res w'"
    if v: "same_disk w v" "usable_map dest l h w = None \<or> \<not> alive v" for v
  proof (cases "usable_map dest l h w")
    case None
    note o' = same_disk_open [OF v(1) cs hist]
    have "no_usable_map dest l h ok v" using o' None by (simp add: no_usable_map_def)
    note t = start_afresh_in_session [OF l, of dest ok pid]
    obtain rs w' where run: "start_afresh pid dest l h v = (rs, w')" by fastforce
    show ?thesis
    proof (cases rs)
      case (Inl e)
      then show ?thesis using triple_Inl [OF t \<open>no_usable_map dest l h ok v\<close>] run by simp
    next
      case (Inr res)
      obtain i st where res: "res = (i, st)" by (cases res)
      have "st = new_state dest l h (replicate (div_ceil (chunks l) 64) 0) 0"
        using run Inr res
        by (auto simp: start_afresh_def bindM_def ret_def Let_def split: prod.splits sum.splits)
      then show ?thesis using triple_Inr [OF t \<open>no_usable_map dest l h ok v\<close>] run Inr res
        by (simp add: opened_def new_state_def)
    qed
  next
    case (Some bm)
    then show ?thesis using v same_disk_open(1) [OF v(1) cs hist] start_afresh_dead by simp
  qed
  obtain rl w1 where lm: "load_map (map_of_dest dest) l h w = (rl, w1)" by fastforce
  note ll = load_map_looks [OF lm]
  note o1 = same_disk_open [OF ll(1) cs hist]
  show ?thesis
  proof (cases rl)
    case (Inl e)
    then show ?thesis using lm o1 d by (simp add: resume_open_def bindM_def lift_def)
  next
    case loaded: (Inr loaded)
    show ?thesis
    proof (cases loaded)
      case None
      then have "usable_map dest l h w = None" using ll(2) loaded by simp
      then show ?thesis using afresh [OF ll(1)] lm loaded None d
        by (simp add: resume_open_def bindM_def lift_def)
    next
      case (Some bm)
      have um: "usable_map dest l h w = Some bm" using ll(2) loaded Some by simp
      obtain rf w2 where fl: "file_len (part_of dest) w1 = (rf, w2)" by fastforce
      note lf = file_len_looks [OF fl]
      have d2: "same_disk w w2" using same_disk_trans ll(1) lf(1) by blast
      show ?thesis
      proof (cases "rf = Inr (size l)")
        case False
        obtain k where f: "names w (part_of dest) = Some k" "length (content (inodes w ! k)) = size l"
          and fine: "set (take 3 (faults w)) \<subseteq> {Fine}" using re um by (auto simp: reopenable_def)
        have "alive w1" "set (take 1 (faults w1)) \<subseteq> {Fine}"
          using load_map_fine [OF lm [unfolded loaded Some]] fine by simp_all
        from file_len_fine [OF this, of "part_of dest" k] f o1 fl False show ?thesis by simp
      next
        case True
        obtain k where f: "names w (part_of dest) = Some k" "length (content (inodes w ! k)) = size l"
          using re um by (auto simp: reopenable_def)
        let ?st = "new_state dest l h bm (count_received bm)"
        obtain ro w3 where op: "open_file (part_of dest) w2 = (ro, w3)" by fastforce
        note lo = open_file_looks [OF op]
        have d3: "same_disk w w3" using same_disk_trans d2 lo(1) by blast
        note o3 = same_disk_open [OF d3 cs hist]
        have run: "resume_open pid dest l hash_hex w = (case ro of Inl e \<Rightarrow> (Inl e, w3) | Inr file \<Rightarrow> (Inr (file, ?st), w3))"
          using lm loaded Some fl True op d
          by (auto simp: resume_open_def bindM_def lift_def tryM_def ret_def split: sum.splits)
        have "in_session dest ok ?st k w3"
          by (rule resume_in_session [OF o3(1,2) l]) (use o3 um f in simp_all)
        moreover have "ro = Inr g \<Longrightarrow> g = k" for g
          using lo(2) f(1) same_disk_open(4) [OF d2 cs hist] by simp
        ultimately show ?thesis using run o3(1) by (cases ro) (auto simp: opened_def new_state_def)
      qed
    qed
  qed
qed

section \<open>From the opened file to the end\<close>

lemma answer_not_complete: "line \<in> set (answer_lines p n rb rc bm) \<Longrightarrow> line \<noteq> ''COMPLETE''"
  by (auto simp: answer_lines_def ready_line_def inventory_lines_def word_line_def split: if_splits)

lemma send_lines_keep:
  assumes "fault_blind P" "sent_blind P" "\<And>w. P w \<Longrightarrow> E w" "\<forall>m\<in>set ms. m \<noteq> ''COMPLETE''"
  shows "triple (\<lambda>w. P w \<and> quiet w) (forM send_control ms) (\<lambda>_ w. P w \<and> quiet w) (\<lambda>w. E w \<and> quiet w)"
  using assms(4)
proof (induction ms)
  case Nil
  then show ?case by (auto intro: triple_ret)
next
  case (Cons m ms)
  then have "quietly (send_control m)" by (simp add: quietly_send)
  from triple_bind [OF triple_conj [OF triple_send [OF assms(1-3)] this] Cons.IH] Cons.prems
  show ?case by simp
qed

lemma receive_opened_ends:
  assumes t: "length (u_ticks inp) < 2 ^ 64" "\<forall>tk\<in>set (u_ticks inp). tick_ok sha sa l ok tk" and l: "wf_layout l"
  shows "triple (\<lambda>w. reused dest ok i l st0 (st, rb, rc) w \<and> object_hash st0 = oh \<and> quiet w)
     (receive_opened sha pid sa dest h inp i (st, rb, rc))
     (outcome_ok sha dest (h_hash h) l oh ok i (length (u_ticks inp)))
     (sound_end sha dest (h_hash h) l oh ok i)"
proof -
  let ?r0 = "new_receiver st (u_now inp)" and ?S = "sound_end sha dest (h_hash h) l oh ok i"
  let ?lines = "answer_lines (payload_bytes (h_layout h)) (h_report_interval h) rb rc (bitmap st)"
  have adv: "triple (running_inv dest ok l oh i 0 ?r0) (advance_hash_frontier (u_os inp) i ?r0)
      (\<lambda>r. running_inv dest ok l oh i 0 r) ?S"
    by (rule triple_conseq [OF triple_conj [OF advance_keeps [OF hash_blind_counters] quietly_advance]])
      (auto simp: running_inv_def sound_end_def)
  have sends: "triple (running_inv dest ok l oh i 0 r) (forM send_control ?lines)
      (\<lambda>_. running_inv dest ok l oh i 0 r) ?S" for r
    by (rule triple_conseq [OF send_lines_keep [where P = "loop_inv dest ok l oh i (counters_ok 0) r"
        and E = "crash_safe dest l oh ok"]])
      (auto simp: running_inv_def sound_end_def dest: loop_inv_crash_safe answer_not_complete)
  have loop: "triple (running_inv dest ok l oh i 0 r) (receive_loop sha pid sa dest h i (u_ticks inp) r)
      (outcome_ok sha dest (h_hash h) l oh ok i (length (u_ticks inp))) ?S" for r
    using receive_loop_keeps [of 0 "u_ticks inp" sha sa l ok dest oh i r pid h] t l by simp
  have "triple (running_inv dest ok l oh i 0 ?r0) (receive_opened sha pid sa dest h inp i (st, rb, rc))
      (outcome_ok sha dest (h_hash h) l oh ok i (length (u_ticks inp))) ?S"
    unfolding receive_opened_def prod.case by (intro triple_bind [OF adv] triple_bind [OF sends] loop)
  then show ?thesis
    by (rule triple_conseq) (auto simp: reused_def intro: start_running)
qed

section \<open>The whole transfer\<close>

definition has_hash :: "(bytes \<Rightarrow> 256 word) \<Rightarrow> string \<Rightarrow> hello \<Rightarrow> world \<Rightarrow> bool" where
  "has_hash sha dest h w \<longleftrightarrow> (\<exists>i bs. installed dest i bs w \<and> length bs = size (h_layout h)
     \<and> hex_digest (digest sha bs) = h_hash h)"

lemma delivered_has_hash:
  "delivered sha dest (h_hash h) (h_layout h) ok i w \<Longrightarrow> has_hash sha dest h w"
  by (auto simp: delivered_def has_hash_def)

lemma call_drops:
  assumes "call body w = (r, w')" "\<And>v. \<exists>x. body v = (x, v)"
  shows "\<exists>k\<le>1. faults w' = drop k (faults w)"
proof (cases "alive w")
  case False
  then show ?thesis using assms(1) by (intro exI [of _ 0]) (auto simp: call_def)
next
  case True
  show ?thesis
  proof (cases "faults w")
    case Nil
    obtain x where "body w = (x, w)" using assms(2) by blast
    then show ?thesis using assms(1) True Nil by (intro exI [of _ 0]) (auto simp: call_def)
  next
    case (Cons f fs)
    obtain x where "body (w\<lparr>faults := fs\<rparr>) = (x, w\<lparr>faults := fs\<rparr>)" using assms(2) by blast
    then show ?thesis using assms(1) True Cons
      by (intro exI [of _ 1]) (auto simp: call_def split: fault.splits)
  qed
qed

lemma open_drops: "open_file p w = (r, w') \<Longrightarrow> \<exists>k\<le>1. faults w' = drop k (faults w)"
  unfolding open_file_def by (rule call_drops) (auto split: option.splits)

lemma len_drops: "file_len p w = (r, w') \<Longrightarrow> \<exists>k\<le>1. faults w' = drop k (faults w)"
  unfolding file_len_def by (rule call_drops) (auto split: option.splits)

lemma read_drops: "read_file i w = (r, w') \<Longrightarrow> \<exists>k\<le>1. faults w' = drop k (faults w)"
  unfolding read_file_def by (rule call_drops) auto

lemma already_complete_looks:
  assumes "already_complete sha dest h w = (r, w')"
  shows "same_disk w w' \<and> (\<exists>k\<le>3. faults w' = drop k (faults w)) \<and> (r = Inr True \<longrightarrow> has_hash sha dest h w)"
proof -
  obtain rl w1 where fl: "file_len dest w = (rl, w1)" by fastforce
  note ll = file_len_looks [OF fl]
  obtain k1 where k1: "k1 \<le> 1" "faults w1 = drop k1 (faults w)" using len_drops [OF fl] by blast
  show ?thesis
  proof (cases "rl = Inr (size (h_layout h))")
    case False
    then have "w' = w1" "r = Inr False" using assms fl by (simp_all add: already_complete_def tryM_def ret_def)
    then show ?thesis using ll(1) k1 by (auto intro: exI [of _ k1])
  next
    case True
    obtain ro w2 where op: "open_file dest w1 = (ro, w2)" by fastforce
    note lo = open_file_looks [OF op]
    obtain k2 where k2: "k2 \<le> 1" "faults w2 = drop k2 (faults w1)" using open_drops [OF op] by blast
    have d2: "same_disk w w2" using same_disk_trans ll(1) lo(1) by blast
    show ?thesis
    proof (cases ro)
      case (Inl e)
      then have "w' = w2" "r = Inl e" using assms fl True op
        by (simp_all add: already_complete_def tryM_def hash_file_def bindM_def)
      then show ?thesis using d2 k1 k2 by (auto intro!: exI [of _ "k1 + k2"] simp: add.commute)
    next
      case (Inr i)
      obtain rr w3 where rd: "read_file i w2 = (rr, w3)" by fastforce
      note lr = read_file_looks [OF rd]
      obtain k3 where k3: "k3 \<le> 1" "faults w3 = drop k3 (faults w2)" using read_drops [OF rd] by blast
      have d3: "same_disk w w3" using same_disk_trans d2 lr(1) by blast
      have w': "w' = w3" using assms fl True op Inr rd
        by (auto simp: already_complete_def tryM_def hash_file_def bindM_def ret_def split: sum.splits)
      have h: "has_hash sha dest h w" if rt: "r = Inr True"
      proof -
        obtain bs where bs: "rr = Inr bs" "hex_digest (digest sha bs) = h_hash h"
          using assms fl True op Inr rd rt
          by (auto simp: already_complete_def tryM_def hash_file_def bindM_def ret_def split: sum.splits)
        have "names w dest = Some i" "content (inodes w ! i) = bs" "length bs = size (h_layout h)"
          using lo(2) Inr lr(2) bs(1) ll(2) True same_diskD [OF ll(1)] same_diskD [OF d2] by auto
        then show ?thesis using bs(2) by (auto simp: has_hash_def installed_def)
      qed
      show ?thesis using d3 w' h k1 k2 k3
        by (auto intro!: exI [of _ "k1 + k2 + k3"] simp: add.commute add.left_commute)
    qed
  qed
qed

text \<open>The target manifest, when content is reused, describes the object, and the candidate does
  not collide with it.\<close>

definition reuse_ok ::
    "(bytes \<Rightarrow> 256 word) \<Rightarrow> chunk_layout \<Rightarrow> (nat \<Rightarrow> bytes \<Rightarrow> bool) \<Rightarrow> (manifest \<times> candidate) option \<Rightarrow> bool" where
  "reuse_ok sha l ok ru \<longleftrightarrow> (case ru of None \<Rightarrow> True | Some (target, cand) \<Rightarrow>
     \<exists>obj. ok = sent_by l obj \<and> length obj = size l \<and> contiguous (size l) 0 (m_chunks target)
       \<and> describes sha obj (m_chunks target) \<and> no_collision sha obj (c_bytes cand) (m_chunks target))"

lemma quietly_of_frame:
  assumes "\<And>w. sent (snd (m w)) = sent w"
  shows "quietly m"
  unfolding triple_def
proof (intro allI impI)
  fix w assume "quiet w"
  then show "case m w of (Inl e, w') \<Rightarrow> quiet w' | (Inr x, w') \<Rightarrow> quiet w'"
    using assms [of w] by (cases "m w"; cases "fst (m w)") (auto simp: quiet_def)
qed

lemma quietly_more [quiet_intros]:
  "quietly (open_file p)" "quietly (file_len p)" "quietly (read_file i)" "quietly (set_len i n)"
  unfolding open_file_def file_len_def read_file_def set_len_def
  by (rule triple_call; auto simp: triple_def quiet_def set_inode_def Let_def split: option.splits)+

lemma quietly_resume_open: "quietly (resume_open pid dest l hash_hex)"
  unfolding resume_open_def load_map_def start_afresh_def Let_def
  by (auto intro!: quiet_intros split: option.splits sum.splits error.splits)

lemma quietly_copy_chunks [quiet_intros]: "quietly (copy_chunks sha cand av i cs copied)"
  by (induction cs arbitrary: copied) (auto intro!: quiet_intros split: option.splits)

lemma quietly_apply_reusable: "quietly (apply_reusable_content sha pid i st target cand l)"
  unfolding apply_reusable_content_def
  by (auto intro!: quiet_intros split: sum.splits)

lemma reuse_step:
  assumes r: "reuse_ok sha l ok ru" and sh: "shape st = l" "object_hash st = oh"
  shows "triple (\<lambda>w. in_session dest ok st i w \<and> quiet w)
    (case ru of Some (target, cand) \<Rightarrow> apply_reusable_content sha pid i st target cand l | None \<Rightarrow> ret (st, 0, 0))
    (\<lambda>res w. reused dest ok i l st res w \<and> object_hash st = oh \<and> quiet w)
    (\<lambda>w. crash_safe dest l oh ok w \<and> quiet w)"
proof (cases ru)
  case None
  then show ?thesis using sh by (auto intro!: triple_ret reused_unchanged)
next
  case (Some tc)
  obtain target cand where tc: "tc = (target, cand)" by (cases tc)
  with r Some obtain obj where o': "ok = sent_by l obj" "length obj = size l" "contiguous (size l) 0 (m_chunks target)"
    "describes sha obj (m_chunks target)" "no_collision sha obj (c_bytes cand) (m_chunks target)"
    by (auto simp: reuse_ok_def)
  note t = apply_reusable_content_reuses [OF o'(3,2,4,5) sh(1), of dest i pid]
  show ?thesis unfolding Some tc option.case prod.case o'(1)
    by (rule triple_conseq [OF triple_conj [OF t quietly_apply_reusable]]) (use sh in auto)
qed

text \<open>What a transfer that began in \<open>w0\<close> leaves: a safe disk; and when it succeeds or
  has announced completion, the delivered file, or the one that was there.\<close>

definition transfer_end ::
    "(bytes \<Rightarrow> 256 word) \<Rightarrow> string \<Rightarrow> hello \<Rightarrow> bytes \<Rightarrow> (nat \<Rightarrow> bytes \<Rightarrow> bool) \<Rightarrow> world
      \<Rightarrow> outcome result \<Rightarrow> world \<Rightarrow> bool" where
  "transfer_end sha dest h oh ok w0 r w \<longleftrightarrow> crash_safe dest (h_layout h) oh ok w
     \<and> (''COMPLETE'' \<in> set (sent w) \<or> (\<exists>t. r = Inr (Done t))
         \<longrightarrow> (\<exists>i. delivered sha dest (h_hash h) (h_layout h) ok i w)
            \<or> has_hash sha dest h w0 \<and> has_hash sha dest h w)"

lemma transfer_end_triple:
  assumes "triple P m (\<lambda>oc. outcome_ok sha dest (h_hash h) (h_layout h) oh ok i n oc)
      (sound_end sha dest (h_hash h) (h_layout h) oh ok i)" "P w" "m w = (r, w')"
  shows "transfer_end sha dest h oh ok w0 r w'"
proof (cases r)
  case (Inl e)
  then have "sound_end sha dest (h_hash h) (h_layout h) oh ok i w'" using triple_Inl [OF assms(1,2)] assms(3) by simp
  then show ?thesis using Inl by (auto simp: transfer_end_def sound_end_def quiet_def)
next
  case (Inr oc)
  then have "outcome_ok sha dest (h_hash h) (h_layout h) oh ok i n oc w'"
    using triple_Inr [OF assms(1,2)] assms(3) by simp
  then show ?thesis using Inr
    by (cases oc) (auto simp: transfer_end_def running_inv_def quiet_def dest: loop_inv_crash_safe)
qed

lemma transfer_end_quiet:
  "crash_safe dest (h_layout h) oh ok w \<Longrightarrow> quiet w \<Longrightarrow> transfer_end sha dest h oh ok w0 (Inl e) w"
  by (simp add: transfer_end_def quiet_def)

text \<open>The branch for a file that is already there.\<close>

lemma complete_branch:
  assumes cs: "crash_safe dest (h_layout h) oh ok w" and hh: "has_hash sha dest h w0" "has_hash sha dest h w"
    and run: "bindM (send_control m) (\<lambda>_. bindM (send_completion_and_wait reply) (\<lambda>_. ret (Done t))) w = (r, w')"
  shows "transfer_end sha dest h oh ok w0 r w'"
proof -
  let ?P = "\<lambda>w. crash_safe dest (h_layout h) oh ok w \<and> has_hash sha dest h w"
  have b: "fault_blind ?P" "sent_blind ?P"
    by (simp_all add: fault_blind_def sent_blind_def crash_safe_def wf_world_def has_hash_def installed_def)
  have send: "triple ?P (send_control p) (\<lambda>_. ?P) ?P" for p by (rule triple_send [OF b])
  have lift: "triple ?P (lift reply) (\<lambda>_. ?P) ?P" by (rule triple_lift) auto
  have wait: "triple ?P (send_completion_and_wait reply) (\<lambda>_. ?P) ?P"
    unfolding send_completion_and_wait_def
    by (rule triple_bind [OF send triple_bind [OF lift]]) (auto intro!: triple_throw triple_ret)
  have t: "triple ?P (bindM (send_control m) (\<lambda>_. bindM (send_completion_and_wait reply) (\<lambda>_. ret (Done t))))
      (\<lambda>_. ?P) ?P"
    by (intro triple_bind [OF send] triple_bind [OF wait] triple_ret)
  have "?P w'" using triple_Inr [OF t _, of w _ w'] triple_Inl [OF t _, of w _ w'] cs hh run by (cases r) auto
  then show ?thesis using hh(1) by (simp add: transfer_end_def)
qed

lemma receive_udp_ends:
  assumes cs: "crash_safe dest (h_layout h) oh ok w" and hist: "history w = [names w]" and q: "quiet w"
    and l: "wf_layout (h_layout h)" "is_u64 (size (h_layout h))" "length oh = 32"
    and d: "resume_decode_hash (h_hash h) = Inr oh"
    and re: "reopenable dest (h_layout h) oh 6 w"
    and ru: "reuse_ok sha (h_layout h) ok (u_reuse inp)"
    and t: "length (u_ticks inp) < 2 ^ 64" "\<forall>tk\<in>set (u_ticks inp). tick_ok sha sa (h_layout h) ok tk"
    and run: "receive_udp sha pid sa dest h inp w = (r, w')"
  shows "transfer_end sha dest h oh ok w r w'"
proof -
  let ?l = "h_layout h"
  obtain rb w1 where ac: "already_complete sha dest h w = (rb, w1)" by fastforce
  note la = already_complete_looks [OF ac]
  have sd: "same_disk w w1" using la by blast
  note o1 = same_disk_open [OF sd cs hist]
  have q1: "quiet w1" using sd q by (auto simp: same_disk_def quiet_def)
  show ?thesis
  proof (cases rb)
    case (Inl e)
    then have "r = Inl e" "w' = w1" using run ac by (simp_all add: receive_udp_def bindM_def)
    then show ?thesis using o1(1) q1 transfer_end_quiet by blast
  next
    case (Inr b)
    show ?thesis
    proof (cases b)
      case True
      then have hh: "has_hash sha dest h w" using la Inr by simp
      then have "has_hash sha dest h w1" using o1 by (simp add: has_hash_def installed_def)
      then show ?thesis
        using complete_branch [OF o1(1) hh] run ac Inr True by (auto simp: receive_udp_def bindM_def Let_def)
    next
      case False
      obtain k where k: "k \<le> 3" "faults w1 = drop k (faults w)" using la by blast
      have "set (take 3 (drop k (faults w))) \<subseteq> set (take 6 (faults w))"
        unfolding take_drop
        using set_drop_subset [of k] set_take_subset_set_take [of "3 + k" 6 "faults w"] k(1) by force
      then have "reopenable dest ?l oh 3 w1" using re k(2) o1 by (auto simp: reopenable_def)
      note ro = resume_open_opens [OF o1(1,2) l d this, of pid]
      obtain rp w2 where op: "resume_open pid dest ?l (h_hash h) w1 = (rp, w2)" by fastforce
      have q2: "quiet w2"
        using triple_Inr [OF quietly_resume_open q1] triple_Inl [OF quietly_resume_open q1] op by (cases rp) auto
      show ?thesis
      proof (cases rp)
        case (Inl e)
        then have "r = Inl e" "w' = w2" using run ac Inr False op
          by (simp_all add: receive_udp_def bindM_def)
        moreover have "crash_safe dest ?l oh ok w2" using ro op Inl by simp
        ultimately show ?thesis using q2 transfer_end_quiet by blast
      next
        case opened': (Inr res)
        obtain i st where res: "res = (i, st)" by (cases res)
        then have s2: "in_session dest ok st i w2" "shape st = ?l" "object_hash st = oh"
          using ro op opened' by (simp_all add: opened_def)
        let ?R = "case u_reuse inp of
            Some (target, cand) \<Rightarrow> apply_reusable_content sha pid i st target cand ?l | None \<Rightarrow> ret (st, 0, 0)"
        note tr = reuse_step [OF ru s2(2,3), of dest i pid]
        have P2: "in_session dest ok st i w2 \<and> quiet w2" using s2(1) q2 by simp
        obtain rr w3 where rr: "?R w2 = (rr, w3)" by fastforce
        have full: "receive_udp sha pid sa dest h inp w
            = (case rr of Inl e \<Rightarrow> (Inl e, w3) | Inr x \<Rightarrow> receive_opened sha pid sa dest h inp i x w3)"
          using ac Inr False op opened' res rr by (auto simp: receive_udp_def bindM_def split: sum.splits)
        show ?thesis
        proof (cases rr)
          case (Inl e)
          then show ?thesis using full run triple_Inl [OF tr P2] rr transfer_end_quiet by auto
        next
          case reused': (Inr x)
          obtain st' nb nc where x: "x = (st', nb, nc)" by (cases x)
          have P3: "reused dest ok i ?l st (st', nb, nc) w3 \<and> object_hash st = oh \<and> quiet w3"
            using triple_Inr [OF tr P2] rr reused' x by simp
          have "receive_opened sha pid sa dest h inp i (st', nb, nc) w3 = (r, w')"
            using full run reused' x by simp
          then show ?thesis by (rule transfer_end_triple [OF receive_opened_ends [OF t l(1)] P3])
        qed
      qed
    qed
  qed
qed

end
