(* ===== verification/Completion.thy ===== *)
theory Completion
  imports Session
begin

text \<open>
  A transfer that nothing disturbs completes: when no system call fails and the sender's messages
  arrive, \<open>receive_udp\<close> installs the file, announces it and returns.

  \<open>runs P m Q\<close> says that an operation returns successfully from every undisturbed world in \<open>P\<close>.
  What it then reaches is already known from the triples of \<open>Delivery\<close> and \<open>Session\<close>, so the
  lemmas here only add that it gets there.
\<close>

section \<open>Operations that return\<close>

definition calm :: "world \<Rightarrow> bool" where
  "calm w \<longleftrightarrow> faults w = [] \<and> alive w"

definition runs :: "(world \<Rightarrow> bool) \<Rightarrow> 'a io \<Rightarrow> ('a \<Rightarrow> world \<Rightarrow> bool) \<Rightarrow> bool" where
  "runs P m Q \<longleftrightarrow> (\<forall>w. P w \<and> calm w \<longrightarrow> (\<exists>x w'. m w = (Inr x, w') \<and> calm w' \<and> Q x w'))"

lemma runsE:
  assumes "runs P m Q" "P w" "calm w"
  obtains x w' where "m w = (Inr x, w')" "calm w'" "Q x w'"
  using assms unfolding runs_def by blast

lemma runs_ret: "(\<And>w. P w \<Longrightarrow> Q x w) \<Longrightarrow> runs P (ret x) Q"
  by (simp add: runs_def ret_def)

lemma runs_lift: "(\<And>w. P w \<Longrightarrow> Q x w) \<Longrightarrow> r = Inr x \<Longrightarrow> runs P (lift r) Q"
  by (simp add: runs_def lift_def)

lemma runs_bind: "runs P m R \<Longrightarrow> (\<And>x. runs (R x) (f x) Q) \<Longrightarrow> runs P (bindM m f) Q"
  by (fastforce simp: runs_def bindM_def)

lemma runs_conseq:
  "runs P m Q \<Longrightarrow> (\<And>w. P' w \<Longrightarrow> P w) \<Longrightarrow> (\<And>x w. Q x w \<Longrightarrow> Q' x w) \<Longrightarrow> runs P' m Q'"
  by (fastforce simp: runs_def)

lemma runs_pre: "(\<And>w. P w \<Longrightarrow> F) \<Longrightarrow> (F \<Longrightarrow> runs P m Q) \<Longrightarrow> runs P m Q"
  by (auto simp: runs_def)

lemma runs_and: "(F \<Longrightarrow> runs P m Q) \<Longrightarrow> runs (\<lambda>w. P w \<and> F) m Q"
  by (auto simp: runs_def)

lemma runs_triple:
  assumes r: "runs P m Q" and t: "triple P m Q' E"
  shows "runs P m (\<lambda>x w. Q x w \<and> Q' x w)"
  unfolding runs_def
proof (intro allI impI)
  fix w assume "P w \<and> calm w"
  then obtain x w' where "m w = (Inr x, w')" "calm w'" "Q x w'" using runsE [OF r] by blast
  then show "\<exists>x w'. m w = (Inr x, w') \<and> calm w' \<and> Q x w' \<and> Q' x w'"
    using triple_Inr [OF t, of w x w'] \<open>P w \<and> calm w\<close> by blast
qed

lemma runs_forM: "(\<And>x. x \<in> set xs \<Longrightarrow> runs P (f x) (\<lambda>_. P)) \<Longrightarrow> runs P (forM f xs) (\<lambda>_. P)"
  by (induction xs) (auto intro!: runs_ret runs_bind)

section \<open>System calls\<close>

lemma call_calm: "calm w \<Longrightarrow> call body w = body w"
  by (simp add: call_def calm_def)

lemma calm_updates [simp]:
  "calm (set_inode i f w) = calm w" "calm (set_names nm w) = calm w" "calm (w\<lparr>sent := ms\<rparr>) = calm w"
  "calm (w\<lparr>inodes := fs\<rparr>) = calm w"
  by (simp_all add: calm_def set_inode_def set_names_def)

lemma runs_create: "runs P (create_file p) (\<lambda>_ w. names w p \<noteq> None)"
  by (auto simp: runs_def create_file_def call_calm set_names_def set_inode_def calm_def split: option.splits)

lemma runs_sync: "runs (\<lambda>w. names w p \<noteq> None) (sync_file i) (\<lambda>_ w. names w p \<noteq> None)"
  by (simp add: runs_def sync_file_def call_calm Let_def set_inode_def)

lemma runs_sync_any: "runs P (sync_file i) (\<lambda>_ _. True)"
  by (simp add: runs_def sync_file_def call_calm Let_def)

lemma write_calm: "calm w \<Longrightarrow> write_file i off bs w = (Inr (), set_inode i (written (inodes w ! i) off bs) w)"
  by (simp add: write_file_def call_def calm_def)

lemma runs_append: "runs (\<lambda>w. names w p \<noteq> None) (append_file i bs) (\<lambda>_ w. names w p \<noteq> None)"
  by (simp add: runs_def append_file_def write_calm) (simp add: set_inode_def)

lemma runs_rename: "runs (\<lambda>w. names w p \<noteq> None) (rename_file p q) (\<lambda>_ _. True)"
  by (auto simp: runs_def rename_file_def call_calm)

lemma runs_checkpoint: "runs P (checkpoint pid st i) (\<lambda>_ _. True)"
  unfolding checkpoint_def
  by (rule runs_bind [OF runs_sync_any] runs_bind [OF runs_create] runs_bind [OF runs_forM]
      runs_bind [OF runs_sync] runs_append runs_rename)+

text \<open>A line that \<open>ControlWriter::send\<close> does not refuse.\<close>

definition sendable :: "string \<Rightarrow> bool" where
  "sendable p \<longleftrightarrow> lf \<notin> set p \<and> length p \<le> 32768"

lemma send_calm: "sendable p \<Longrightarrow> calm w \<Longrightarrow> send_control p w = (Inr (), w\<lparr>sent := sent w @ [p]\<rparr>)"
  by (simp add: send_control_def sendable_def call_calm)

lemma runs_send: "sendable p \<Longrightarrow> runs P (send_control p) (\<lambda>_ w. p \<in> set (sent w))"
  by (simp add: runs_def send_calm)

lemma runs_send_keeps:
  "sendable p \<Longrightarrow> (\<And>w ms. P w \<Longrightarrow> P (w\<lparr>sent := ms\<rparr>)) \<Longrightarrow> runs P (send_control p) (\<lambda>_. P)"
  by (simp add: runs_def send_calm)

section \<open>One iteration\<close>

text \<open>Reads that transfer something every time.\<close>

definition steady :: "transfer \<Rightarrow> bool" where
  "steady os \<longleftrightarrow> (\<forall>off n. is_ok (os off n))"

lemma read_loop_steady:
  "steady os \<Longrightarrow> off + n \<le> length f \<Longrightarrow> 0 < buf \<Longrightarrow> read_loop os msg buf f off n = Inr (read_bytes f off n)"
  by (rule read_loop_reliable) (simp_all add: steady_def)

text \<open>What a phase adds: chunks received and the end of the first pass.\<close>

definition advanced :: "receiver \<Rightarrow> nat set \<Rightarrow> bool \<Rightarrow> receiver \<Rightarrow> bool" where
  "advanced r S e r' \<longleftrightarrow> received_set (bitmap (r_state r)) \<union> S \<subseteq> received_set (bitmap (r_state r'))
     \<and> r_ended r' = (r_ended r \<or> e) \<and> r_history r' = r_history r"

definition carried :: "(bytes \<Rightarrow> 256 word) \<Rightarrow> session_auth \<Rightarrow> chunk_layout \<Rightarrow> tick \<Rightarrow> nat set" where
  "carried sha sa l tk = (case t_recv tk of
     Datagram d \<Rightarrow> (case check_datagram sha sa l d of Some (s, _, _) \<Rightarrow> {s} | None \<Rightarrow> {}) | _ \<Rightarrow> {})"

lemma advanced_refl [simp]: "advanced r {} False r"
  by (simp add: advanced_def)

lemma layout_product: "wf_layout l \<Longrightarrow> e \<le> chunks l \<Longrightarrow> e * payload_bytes l < 2 ^ 64"
proof -
  assume "wf_layout l" "e \<le> chunks l"
  then have "e \<le> 536870912" "payload_bytes l \<le> 1424" by (simp_all add: wf_layout_def max_chunks_def)
  then have "e * payload_bytes l \<le> 536870912 * 1424" by (rule mult_le_mono)
  then show ?thesis by simp
qed

lemma advance_calm:
  assumes l: "wf_layout l" "shape (r_state r) = l" and f: "r_frontier r \<le> chunks l"
    and c: "length (content (inodes w ! i)) = size l" and os: "steady os"
  shows "\<exists>hs. advance_hash_frontier os i r w
    = (Inr (r\<lparr>r_hashed := hs, r_frontier := frontier_end (bitmap (r_state r)) (chunks l) (r_frontier r)\<rparr>), w)"
proof -
  let ?e = "frontier_end (bitmap (r_state r)) (chunks l) (r_frontier r)" and ?p = "payload_bytes l"
  let ?a = "r_frontier r * ?p" and ?b = "min (?e * ?p) (size l)"
  have e: "?e \<le> chunks l" using frontier_end_spec [OF f] by blast
  have bounds: "?a < 2 ^ 64" "?e * ?p < 2 ^ 64"
    using layout_product [OF l(1) f] layout_product [OF l(1) e] .
  have "\<exists>bs. read_loop os ''short read while advancing object hash'' (1024 * 1024) (content (inodes w ! i)) ?a (?b - ?a) = Inr bs"
  proof (cases "?b \<le> ?a")
    case False
    then have "?a + (?b - ?a) \<le> length (content (inodes w ! i))" using c by simp
    from read_loop_steady [OF os this, of "1024 * 1024" "''short read while advancing object hash''"]
    show ?thesis by (intro exI) simp
  qed (subst read_loop.simps, simp)
  then obtain bs where "read_range os i ?a (?b - ?a) w = (Inr bs, w)" by (auto simp: read_range_def)
  then show ?thesis
    using l(2) bounds by (intro exI [of _ "r_hashed r @ bs"]) (simp add: advance_hash_frontier_def Let_def bindM_def lift_def ret_def)
qed

lemma runs_on_datagram:
  assumes l: "wf_layout l" and os: "steady os"
  shows "runs (loop_inv dest ok l oh i (counters_ok n) r) (on_datagram sha sa os i d r)
    (\<lambda>r' _. advanced r (case check_datagram sha sa l d of Some (s, _, _) \<Rightarrow> {s} | None \<Rightarrow> {}) False r')"
  unfolding runs_def
proof (intro allI impI, elim conjE)
  fix w assume inv: "loop_inv dest ok l oh i (counters_ok n) r w" and calm: "calm w"
  have sh: "shape (r_state r) = l" and f: "r_frontier r \<le> chunks l"
    and c: "length (content (inodes w ! i)) = size l" and i: "i < length (inodes w)"
    and wf: "wf_bitmap (chunks l) (bitmap (r_state r))"
    using inv in_session_file
    by (auto simp: loop_inv_def receiving_def same_object_def hash_ok_def Let_def in_session_def session_file_def
        wf_state_def)
  show "\<exists>x w'. on_datagram sha sa os i d r w = (Inr x, w') \<and> calm w'
    \<and> advanced r (case check_datagram sha sa l d of Some (s, _, _) \<Rightarrow> {s} | None \<Rightarrow> {}) False x"
  proof (cases "check_datagram sha sa l d")
    case None
    then show ?thesis using sh calm by (simp add: on_datagram_def ret_def advanced_def)
  next
    case (Some m)
    obtain s repair data where m: "m = (s, repair, data)" by (cases m)
    have s: "s < chunks l" "length data = chunk_length l s"
      using Some m check_datagram_Some [OF l Some [unfolded m]] by (auto simp: valid_message_def)
    show ?thesis
    proof (cases "bitmap_contains (bitmap (r_state r)) s")
      case True
      then show ?thesis using Some m sh calm
        by (simp add: on_datagram_def ret_def bindM_def advanced_def received_set_iff)
    next
      case False
      have "wf_bitmap (chunks l) (bitmap (r_state r))" by (rule wf)
      from wf_bitmap_insert [OF this s(1)] obtain bm where bm: "bitmap_insert (bitmap (r_state r)) s = Inr bm" by blast
      let ?off = "s * payload_bytes l"
      let ?w = "set_inode i (written (inodes w ! i) ?off data) w"
      have len: "length (content (inodes ?w ! i)) = size l"
        using chunk_inside [OF l s(1)] s(2) c i
        by (simp add: set_inode_def written_def Let_def length_write_bytes chunk_start_def)
      have adv: "\<exists>hs. advance_hash_frontier os i r2 ?w = (Inr (r2\<lparr>r_hashed := hs,
          r_frontier := frontier_end (bitmap (r_state r2)) (chunks l) (r_frontier r2)\<rparr>), ?w)"
        if "shape (r_state r2) = l" "r_frontier r2 = r_frontier r" for r2
        by (rule advance_calm [OF l that(1) _ len os]) (use f that in simp)
      then have "\<exists>F. \<forall>r2. shape (r_state r2) = l \<and> r_frontier r2 = r_frontier r \<longrightarrow>
          advance_hash_frontier os i r2 ?w = (Inr (r2\<lparr>r_hashed := F r2,
            r_frontier := frontier_end (bitmap (r_state r2)) (chunks l) (r_frontier r2)\<rparr>), ?w)"
        by metis
      then obtain F where F: "shape (r_state r2) = l \<Longrightarrow> r_frontier r2 = r_frontier r \<Longrightarrow>
          advance_hash_frontier os i r2 ?w = (Inr (r2\<lparr>r_hashed := F r2,
            r_frontier := frontier_end (bitmap (r_state r2)) (chunks l) (r_frontier r2)\<rparr>), ?w)" for r2
        by blast
      have "\<exists>r3. store_chunk os i s repair data r1 w = (Inr r3, ?w)
          \<and> bitmap (r_state r3) = bm \<and> r_ended r3 = r_ended r1 \<and> r_history r3 = r_history r1"
        if "r_state r1 = r_state r" "r_frontier r1 = r_frontier r" for r1
        by (simp add: store_chunk_def Let_def bindM_def lift_def write_calm calm ret_def that bm sh F)
      from this [of "r\<lparr>r_tel := note_valid repair (r_tel r)\<rparr>"] obtain r3 where
        r3: "store_chunk os i s repair data (r\<lparr>r_tel := note_valid repair (r_tel r)\<rparr>) w = (Inr r3, ?w)"
          "bitmap (r_state r3) = bm" "r_ended r3 = r_ended r" "r_history r3 = r_history r"
        by auto
      have "insert s (received_set (bitmap (r_state r))) = received_set bm"
        using insert_Inr [OF bm] by (auto simp: received_set_iff)
      then show ?thesis using False Some m sh calm r3
        by (auto simp: on_datagram_def bindM_def ret_def advanced_def)
    qed
  qed
qed

text \<open>What a tick of an undisturbed transfer looks like: the socket and the reads work, the sender
  only says \<open>END\<close> and \<open>PING\<close>, and acknowledges a completion in time.\<close>

fun acknowledged :: "(bool \<times> ack_wait) list \<Rightarrow> bool" where
  "acknowledged [] = False"
| "acknowledged ((expired, ev) # rest) =
     (\<not> expired \<and> (ev = AckEvent CompleteAck \<or> ev \<in> {AckEvent Ping, AckEvent End} \<and> acknowledged rest))"

definition undisturbed :: "tick \<Rightarrow> bool" where
  "undisturbed tk \<longleftrightarrow> (\<forall>e. t_recv tk \<noteq> RecvError e) \<and> set (t_events tk) \<subseteq> {End, Ping} \<and> steady (t_os tk)
     \<and> acknowledged (t_acks tk) \<and> (case t_drops tk of None \<Rightarrow> True | Some d \<Rightarrow> is_u64 d)"

lemma runs_recv_phase:
  assumes l: "wf_layout l" and u: "undisturbed tk"
  shows "runs (loop_inv dest ok l oh i (counters_ok n) r) (recv_phase sha pid sa i tk r)
    (\<lambda>r' _. advanced r (carried sha sa l tk) False r')"
proof (cases "t_recv tk")
  case (Datagram d)
  have "steady (t_os tk)" using u by (simp add: undisturbed_def)
  from runs_on_datagram [OF l this] Datagram show ?thesis by (simp add: recv_phase_def carried_def)
next
  case WouldBlock
  then show ?thesis by (auto simp: recv_phase_def carried_def intro: runs_ret)
qed (use u in \<open>simp add: undisturbed_def\<close>)

lemma sendable_short:
  "sendable ''PONG''" "sendable ''COMPLETE''"
  by (simp_all add: sendable_def)

lemma runs_on_events:
  assumes "set evs \<subseteq> {End, Ping}"
  shows "runs P (on_events pid i now evs r) (\<lambda>r' _. r_state r' = r_state r \<and> advanced r {} (End \<in> set evs) r')"
  using assms
proof (induction evs arbitrary: P r)
  case Nil
  then show ?case by (auto intro: runs_ret)
next
  case (Cons ev evs)
  have "runs P (on_event pid i now ev r) (\<lambda>r' _. r_state r' = r_state r \<and> advanced r {} (ev = End) r')"
  proof (cases "ev = End")
    case True
    then show ?thesis by (auto simp: on_event_def advanced_def intro!: runs_ret)
  next
    case False
    then have "ev = Ping" using Cons.prems by auto
    then show ?thesis
      by (auto simp: on_event_def intro!: runs_bind [OF runs_send [OF sendable_short(1)]] runs_ret)
  qed
  moreover have "runs (\<lambda>_. r_state r' = r_state r \<and> advanced r {} (ev = End) r') (on_events pid i now evs r')
      (\<lambda>r2 _. r_state r2 = r_state r \<and> advanced r {} (End \<in> set (ev # evs)) r2)" for r'
  proof (rule runs_pre)
    assume r': "r_state r' = r_state r \<and> advanced r {} (ev = End) r'"
    show ?thesis
      by (rule runs_conseq [OF Cons.IH [where P = "\<lambda>_. True" and r = r']])
        (use Cons.prems r' in \<open>auto simp: advanced_def\<close>)
  qed assumption
  ultimately show ?case by (auto intro: runs_bind)
qed

lemma runs_checkpoint_phase:
  "runs P (checkpoint_phase pid i tk r) (\<lambda>r' _. r_state r' = r_state r \<and> advanced r {} False r')"
  by (auto simp: checkpoint_phase_def advanced_def intro!: runs_bind [OF runs_checkpoint] runs_ret)

text \<open>Reports fit: the counters and the ranges are those of the file.\<close>

definition history_ok :: "nat \<Rightarrow> receiver \<Rightarrow> bool" where
  "history_ok count r \<longleftrightarrow> (\<forall>(_, v)\<in>set (r_history r). v \<le> count)"

lemma report_sendable:
  assumes "telemetry_u64 t" "\<forall>r\<in>set rs. range_ok r" "length rs \<le> MAX_RANGES_PER_REPORT"
  shows "sendable (format_feedback_report t rs)"
proof -
  have "lf \<notin> set (format_feedback_report t rs)"
    using field_no_space [OF show_nat_field] field_no_space [OF show_drops_field]
      field_no_space [OF ranges_field_field]
    by (auto simp: format_feedback_report_def Let_def show_drops_def ranges_field_def)
  then show ?thesis using length_format_feedback_report [OF assms] by (simp add: sendable_def MAX_FEEDBACK_REPORT_SIZE_def)
qed

lemma received_bounds:
  assumes "loop_inv dest ok l oh i C r w"
  shows "received_count (r_state r) \<le> chunks l"
    "r_highest r = highest_received (bitmap (r_state r)) \<Longrightarrow>
      (case r_highest r of None \<Rightarrow> 0 | Some v \<Rightarrow> v + 1) \<le> chunks l"
    "(received_count (r_state r) = chunks l) = ({..<chunks l} \<subseteq> received_set (bitmap (r_state r)))"
proof -
  have wf: "wf_state dest (r_state r)" "shape (r_state r) = l"
    using assms by (simp_all add: loop_inv_def receiving_def in_session_def same_object_def)
  then have s: "received_set (bitmap (r_state r)) \<subseteq> {..<chunks l}"
    and c: "received_count (r_state r) = count_received (bitmap (r_state r))"
    by (auto simp: wf_state_def wf_bitmap_def)
  show "received_count (r_state r) \<le> chunks l" unfolding c by (rule bitmap.count_le [OF s])
  show "(received_count (r_state r) = chunks l) = ({..<chunks l} \<subseteq> received_set (bitmap (r_state r)))"
    unfolding c using bitmap.count_full [OF s] s by auto
  assume h: "r_highest r = highest_received (bitmap (r_state r))"
  show "(case r_highest r of None \<Rightarrow> 0 | Some v \<Rightarrow> v + 1) \<le> chunks l"
  proof (cases "received_set (bitmap (r_state r)) = {}")
    case False
    then have "Max (received_set (bitmap (r_state r))) \<in> received_set (bitmap (r_state r))"
      by (rule Max_in [OF finite_subset [OF s finite_lessThan]])
    then show ?thesis using s h False by (auto simp: highest_received_spec)
  qed (simp add: h highest_received_spec)
qed

lemma chunks_u64: "wf_layout l \<Longrightarrow> chunks l < 2 ^ 64"
  by (simp add: wf_layout_def max_chunks_def)

lemma telemetry_ready:
  assumes inv: "loop_inv dest ok l oh i (counters_ok n) r w" and n: "n < 2 ^ 64" and l: "wf_layout l"
    and u: "undisturbed tk"
  shows "telemetry_u64 (count_report (update_receiver_telemetry (t_drops tk) r))"
proof -
  have c: "counters_ok n r" using inv by (simp add: loop_inv_def receiving_def)
  then have h: "r_highest r = highest_received (bitmap (r_state r))" by (simp add: counters_ok_def Let_def)
  show ?thesis using received_bounds(1) [OF inv] received_bounds(2) [OF inv h] chunks_u64 [OF l] c n u
    by (auto simp: telemetry_u64_def is_u64_def count_report_def update_receiver_telemetry_def counters_ok_def
        undisturbed_def Let_def)
qed

lemma latest_before_le: "\<forall>(_, v)\<in>set hs. v \<le> (c::nat) \<Longrightarrow> latest_before cutoff hs \<le> c"
proof -
  assume hs: "\<forall>(_, v)\<in>set hs. v \<le> c"
  show ?thesis
  proof (cases "find (\<lambda>(seen, _). seen \<le> cutoff) (rev hs)")
    case (Some p)
    then have "p \<in> set (rev hs)" unfolding find_Some_iff by (metis nth_mem)
    then have "p \<in> set hs" by simp
    then show ?thesis using Some hs by (auto simp: latest_before_def)
  qed (simp add: latest_before_def)
qed

lemma prune_subset: "set (prune cutoff hs) \<subseteq> set hs"
  by (induction cutoff hs rule: prune.induct) auto

lemma mature_frontier_le:
  assumes "\<forall>(_, v)\<in>set hs. v \<le> c" "current \<le> c" "mature_frontier hs now current grace retention = (hs', e)"
  shows "(\<forall>(_, v)\<in>set hs'. v \<le> c) \<and> e \<le> c"
proof -
  let ?hs = "if hs = [] \<or> snd (last hs) \<noteq> current then hs @ [(now, current)] else hs"
  have "\<forall>(_, v)\<in>set ?hs. v \<le> c" using assms(1,2) by auto
  then have p: "\<forall>(_, v)\<in>set (prune (now - int retention) ?hs). v \<le> c"
    using prune_subset [of "now - int retention" ?hs] by blast
  have "hs' = prune (now - int retention) ?hs" "e = latest_before (now - int grace) hs'"
    using assms(3) by (auto simp: mature_frontier_def Let_def)
  then show ?thesis using p latest_before_le by blast
qed

lemma runs_report_phase:
  assumes n: "n < 2 ^ 64" and l: "wf_layout l" and u: "undisturbed tk" and h: "history_ok (chunks l) r"
  shows "runs (loop_inv dest ok l oh i (counters_ok n) r) (report_phase h tk r)
    (\<lambda>r' _. r_state r' = r_state r \<and> r_ended r' = r_ended r \<and> history_ok (chunks l) r')"
  unfolding runs_def
proof (intro allI impI, elim conjE)
  fix w assume inv: "loop_inv dest ok l oh i (counters_ok n) r w" and calm: "calm w"
  have hi: "r_highest r = highest_received (bitmap (r_state r))" and sh: "shape (r_state r) = l"
    using inv by (simp_all add: loop_inv_def receiving_def counters_ok_def same_object_def Let_def)
  let ?t = "count_report (update_receiver_telemetry (t_drops tk) r)"
  obtain hist ranges where rr: "report_ranges h tk r = (hist, ranges)" by fastforce
  obtain hs e where mf: "mature_frontier (r_history r) (t_report_now tk)
      (case r_highest r of None \<Rightarrow> 0 | Some v \<Rightarrow> v + 1)
      (if r_reordering r then ns_of_ms (h_repair_grace h) else 0) (ns_of_ms (h_repair_grace h)) = (hs, e)" by fastforce
  have m: "(\<forall>(_, v)\<in>set hs. v \<le> chunks l) \<and> e \<le> chunks l"
    by (rule mature_frontier_le [OF _ received_bounds(2) [OF inv hi] mf]) (use h in \<open>simp add: history_ok_def\<close>)
  obtain e' where e': "ranges = missing_ranges (bitmap (r_state r)) e' MAX_RANGES_PER_REPORT" "e' \<le> chunks l"
      and hs: "hist = hs"
    using rr mf m sh by (auto simp: report_ranges_def Let_def split: if_splits)
  have "is_u64 e'" using e'(2) chunks_u64 [OF l] by (simp add: is_u64_def)
  then have "\<forall>r\<in>set ranges. range_ok r" using e'(1) missing_ranges_ok by blast
  moreover have "length ranges \<le> MAX_RANGES_PER_REPORT"
    using e'(1) missing_ranges_spec [of "bitmap (r_state r)" e' MAX_RANGES_PER_REPORT] by (auto simp: Let_def)
  ultimately have "sendable (format_feedback_report ?t ranges)"
    using telemetry_ready [OF inv n l u] by (intro report_sendable)
  then show "\<exists>x w'. report_phase h tk r w = (Inr x, w') \<and> calm w' \<and> r_state x = r_state r
      \<and> r_ended x = r_ended r \<and> history_ok (chunks l) x"
    using calm m hs h by (auto simp: report_phase_def rr bindM_def send_calm ret_def history_ok_def Let_def)
qed

section \<open>The end\<close>

lemma runs_await: "acknowledged acks \<Longrightarrow> runs (\<lambda>w. m \<in> set (sent w)) (await_ack acks) (\<lambda>_ w. m \<in> set (sent w))"
proof (induction acks rule: acknowledged.induct)
  case (2 expired ev rest)
  have ping: "runs (\<lambda>w. m \<in> set (sent w)) (send_control ''PONG'') (\<lambda>_ w. m \<in> set (sent w))"
    by (auto simp: runs_def send_calm [OF sendable_short(1)])
  consider "ev = AckEvent CompleteAck" | "ev = AckEvent Ping" | "ev = AckEvent End" using 2 by auto
  then show ?case
    using 2 by cases (auto intro!: runs_ret runs_bind [OF ping])
qed simp

lemma runs_remove_ignored:
  "runs P (tryM (remove_file p) (\<lambda>r. case r of Inr u \<Rightarrow> ret () | Inl NotFound \<Rightarrow> ret () | Inl e \<Rightarrow> throw e)) (\<lambda>_ _. True)"
  by (auto simp: runs_def tryM_def remove_file_def call_calm ret_def split: option.splits)

lemma runs_install: "runs (\<lambda>w. names w (part_path st) \<noteq> None) (resume_install st dest) (\<lambda>_ _. True)"
  unfolding resume_install_def by (rule runs_bind [OF runs_rename]) (rule runs_remove_ignored)

text \<open>With every chunk received the file is the sender's, so the hash is the announced one.\<close>

lemma runs_finish:
  assumes l: "wf_layout l" and u: "undisturbed tk" and n: "n < 2 ^ 64"
    and obj: "length obj = size l" "hash = hex_digest (digest sha obj)"
  shows "runs (\<lambda>w. loop_inv dest (sent_by l obj) l oh i (counters_ok n) r w \<and> received_count (r_state r) = chunks l)
    (finish sha dest hash i tk r) (\<lambda>_ w. ''COMPLETE'' \<in> set (sent w))"
  unfolding runs_def
proof (intro allI impI, elim conjE)
  fix w assume inv: "loop_inv dest (sent_by l obj) l oh i (counters_ok n) r w" and calm: "calm w"
    and all: "received_count (r_state r) = chunks l"
  let ?c = "content (inodes w ! i)"
  have sh: "shape (r_state r) = l" and f: "r_frontier r \<le> chunks l" and c: "length ?c = size l"
    and part: "names w (part_path (r_state r)) = Some i"
    and data: "\<And>s. s \<in> received_set (bitmap (r_state r)) \<Longrightarrow> chunk_bytes l ?c s = chunk_bytes l obj s"
    using inv by (auto simp: loop_inv_def receiving_def same_object_def hash_ok_def Let_def in_session_def session_file_def
        wf_state_def sent_by_def)
  have full: "{..<chunks l} \<subseteq> received_set (bitmap (r_state r))" using received_bounds(3) [OF inv] all by blast
  have same: "?c = obj" by (rule chunks_determine [OF l c obj(1)]) (use data full in auto)
  have end_frontier: "frontier_end (bitmap (r_state r)) (chunks l) (r_frontier r) = chunks l"
  proof (rule ccontr)
    assume "frontier_end (bitmap (r_state r)) (chunks l) (r_frontier r) \<noteq> chunks l"
    then have "frontier_end (bitmap (r_state r)) (chunks l) (r_frontier r) < chunks l"
      using frontier_end_spec [OF f, of "bitmap (r_state r)"] by simp
    then show False using frontier_end_spec [OF f, of "bitmap (r_state r)"] full by (auto simp: received_set_iff [symmetric])
  qed
  have os: "steady (t_os tk)" using u by (simp add: undisturbed_def)
  obtain hs where adv: "advance_hash_frontier (t_os tk) i r w = (Inr (r\<lparr>r_hashed := hs, r_frontier := chunks l\<rparr>), w)"
    using advance_calm [OF l sh f c os] end_frontier by auto
  let ?r = "r\<lparr>r_hashed := hs, r_frontier := chunks l\<rparr>"
  have inv': "loop_inv dest (sent_by l obj) l oh i (counters_ok n) ?r w"
    by (rule conjunct1 [OF triple_Inr [OF advance_keeps [OF hash_blind_counters] inv adv]])
  then have "hash_ok ?r ?c" by (simp add: loop_inv_def receiving_def)
  from hash_complete [OF this] sh l c same have hashed: "hs = obj" by simp
  have rep: "sendable (format_feedback_report (count_report (update_receiver_telemetry (t_drops tk) ?r)) [])"
    by (rule report_sendable [OF telemetry_ready [OF inv' n l u]]) (simp_all add: MAX_RANGES_PER_REPORT_def)
  have "runs (\<lambda>w. names w (part_path (r_state r)) \<noteq> None)
      (bindM (sync_file i) (\<lambda>_. bindM (resume_install (r_state r) dest) (\<lambda>_.
        bindM (send_control (format_feedback_report (count_report (update_receiver_telemetry (t_drops tk) ?r)) [])) (\<lambda>_.
        bindM (send_control ''COMPLETE'') (\<lambda>_.
        bindM (await_ack (t_acks tk)) (\<lambda>_. ret (count_report (update_receiver_telemetry (t_drops tk) ?r))))))))
      (\<lambda>_ w. ''COMPLETE'' \<in> set (sent w))"
    by (intro runs_bind [OF runs_sync] runs_bind [OF runs_install] runs_bind [OF runs_send [OF rep]]
        runs_bind [OF runs_send [OF sendable_short(2)]] runs_bind [OF runs_await] runs_ret)
      (use u in \<open>simp add: undisturbed_def\<close>)
  then have "\<exists>x w'. finish sha dest hash i tk r w = (Inr x, w') \<and> calm w' \<and> ''COMPLETE'' \<in> set (sent w')"
    using part calm sh hashed obj(2) adv
    by (auto simp: runs_def finish_def bindM_def [of "advance_hash_frontier (t_os tk) i r"] Let_def)
  then show "\<exists>x w'. finish sha dest hash i tk r w = (Inr x, w') \<and> calm w' \<and> ''COMPLETE'' \<in> set (sent w')" .
qed

text \<open>A running receiver after some chunks, and what an iteration makes of it.\<close>

definition receiving_well :: "string \<Rightarrow> chunk_layout \<Rightarrow> bytes \<Rightarrow> bytes \<Rightarrow> nat \<Rightarrow> nat \<Rightarrow> nat set \<Rightarrow> bool \<Rightarrow> receiver \<Rightarrow> world \<Rightarrow> bool" where
  "receiving_well dest l oh obj i n S e r w \<longleftrightarrow> running_inv dest (sent_by l obj) l oh i n r w
     \<and> history_ok (chunks l) r \<and> S \<subseteq> received_set (bitmap (r_state r)) \<and> (e \<longrightarrow> r_ended r)"

lemma receiving_well_step:
  assumes "receiving_well dest l oh obj i n S e r w" "advanced r S' e' r'" "running_inv dest (sent_by l obj) l oh i n' r' w'"
  shows "receiving_well dest l oh obj i n' (S \<union> S') (e \<or> e') r' w'"
  using assms by (auto simp: receiving_well_def advanced_def history_ok_def)

lemma runs_phase:
  assumes r: "\<And>r. history_ok (chunks l) r \<Longrightarrow> runs (loop_inv dest (sent_by l obj) l oh i (counters_ok n) r) (m r)
      (\<lambda>r' _. received_set (bitmap (r_state r)) \<union> S' \<subseteq> received_set (bitmap (r_state r'))
        \<and> (r_ended r \<or> e' \<longrightarrow> r_ended r') \<and> history_ok (chunks l) r' \<and> K r r')"
    and t: "\<And>r. triple (loop_inv dest (sent_by l obj) l oh i (counters_ok n) r) (m r)
      (\<lambda>r'. loop_inv dest (sent_by l obj) l oh i (counters_ok n') r') (crash_safe dest l oh (sent_by l obj))"
    and q: "\<And>r. quietly (m r)"
  shows "runs (receiving_well dest l oh obj i n S e r) (m r)
    (\<lambda>r' w. receiving_well dest l oh obj i n' (S \<union> S') (e \<or> e') r' w \<and> K r r')"
proof (rule runs_pre)
  fix w assume "receiving_well dest l oh obj i n S e r w"
  then show "history_ok (chunks l) r \<and> S \<subseteq> received_set (bitmap (r_state r)) \<and> (e \<longrightarrow> r_ended r)"
    by (simp add: receiving_well_def)
next
  assume s: "history_ok (chunks l) r \<and> S \<subseteq> received_set (bitmap (r_state r)) \<and> (e \<longrightarrow> r_ended r)"
  have "runs (running_inv dest (sent_by l obj) l oh i n r) (m r)
      (\<lambda>r' _. received_set (bitmap (r_state r)) \<union> S' \<subseteq> received_set (bitmap (r_state r'))
        \<and> (r_ended r \<or> e' \<longrightarrow> r_ended r') \<and> history_ok (chunks l) r' \<and> K r r')"
    by (rule runs_conseq [OF r]) (use s in \<open>simp_all add: running_inv_def\<close>)
  from runs_triple [OF this keeps_running [OF t q]]
  show "runs (receiving_well dest l oh obj i n S e r) (m r)
      (\<lambda>r' w. receiving_well dest l oh obj i n' (S \<union> S') (e \<or> e') r' w \<and> K r r')"
    by (rule runs_conseq) (use s in \<open>auto simp: receiving_well_def\<close>)
qed

lemma runs_iteration:
  assumes l: "wf_layout l" and u: "undisturbed tk" and n: "Suc n < 2 ^ 64" and d: "tick_ok sha sa l (sent_by l obj) tk"
    and obj: "length obj = size l" "h_hash h = hex_digest (digest sha obj)"
  shows "runs (receiving_well dest l oh obj i n S e r) (iteration sha pid sa dest h i tk r)
    (\<lambda>oc w. case oc of Done t \<Rightarrow> ''COMPLETE'' \<in> set (sent w)
      | Running r' \<Rightarrow> receiving_well dest l oh obj i (Suc n) (S \<union> carried sha sa l tk) (e \<or> End \<in> set (t_events tk)) r' w
          \<and> \<not> (r_ended r' \<and> received_count (r_state r') = chunks l))"
proof -
  let ?W = "receiving_well dest l oh obj i"
  let ?S = "S \<union> carried sha sa l tk" and ?e = "e \<or> End \<in> set (t_events tk)"
  have recv: "runs (?W n S e r) (recv_phase sha pid sa i tk r) (\<lambda>r' w. ?W (Suc n) ?S (e \<or> False) r' w \<and> True)"
    by (rule runs_phase [where K = "\<lambda>_ _. True", OF runs_conseq [OF runs_recv_phase [OF l u]] recv_phase_keeps [OF n d l] quietly_recv_phase])
      (auto simp: advanced_def history_ok_def)
  have ev: "set (t_events tk) \<subseteq> {End, Ping}" using u by (simp add: undisturbed_def)
  have evs: "runs (?W (Suc n) ?S (e \<or> False) r) (on_events pid i (t_event_now tk) (t_events tk) r)
      (\<lambda>r' w. ?W (Suc n) (?S \<union> {}) ((e \<or> False) \<or> End \<in> set (t_events tk)) r' w \<and> True)" for r
    by (rule runs_phase [where K = "\<lambda>_ _. True", OF runs_conseq [OF runs_on_events [OF ev]] on_events_keeps quietly_on_events])
      (auto simp: advanced_def history_ok_def)
  let ?K = "\<lambda>r r'. r_state r' = r_state r \<and> r_ended r' = r_ended r"
  have cps: "runs (?W (Suc n) ?S ?e r) (checkpoint_phase pid i tk r)
      (\<lambda>r' w. ?W (Suc n) (?S \<union> {}) (?e \<or> False) r' w \<and> ?K r r')" for r
    by (rule runs_phase [OF runs_conseq [OF runs_checkpoint_phase] checkpoint_phase_keeps quietly_checkpoint_phase])
      (auto simp: advanced_def history_ok_def)
  have reps: "runs (?W (Suc n) ?S ?e r) (report_phase h tk r)
      (\<lambda>r' w. ?W (Suc n) (?S \<union> {}) (?e \<or> False) r' w \<and> ?K r r')" for r
    by (rule runs_phase [OF runs_conseq [OF runs_report_phase [OF n l u]] report_phase_keeps quietly_report_phase]) auto
  have go: "runs (?W (Suc n) ?S ?e r) (bindM (checkpoint_phase pid i tk r) (\<lambda>r. bindM (report_phase h tk r) (\<lambda>r. ret (Running r))))
      (\<lambda>oc w. \<exists>r'. oc = Running r' \<and> ?W (Suc n) ?S ?e r' w \<and> ?K r r')" for r
  proof (rule runs_bind [OF cps [simplified]], rule runs_and)
    fix r1 :: receiver assume k: "?K r r1"
    show "runs (?W (Suc n) ?S ?e r1) (bindM (report_phase h tk r1) (\<lambda>r. ret (Running r)))
        (\<lambda>oc w. \<exists>r'. oc = Running r' \<and> ?W (Suc n) ?S ?e r' w \<and> ?K r r')"
      by (rule runs_bind [OF reps [simplified]], rule runs_ret) (use k in simp)
  qed
  have fin: "runs (\<lambda>w. ?W (Suc n) ?S ?e r w \<and> received_count (r_state r) = chunks l)
      (bindM (finish sha dest (h_hash h) i tk r) (\<lambda>t. ret (Done t)))
      (\<lambda>oc w. (\<exists>t. oc = Done t) \<and> ''COMPLETE'' \<in> set (sent w))" for r
    by (rule runs_bind [where R = "\<lambda>_ w. ''COMPLETE'' \<in> set (sent w)",
          OF runs_conseq [OF runs_finish [OF l u n obj, of dest oh i r]]])
      (auto simp: receiving_well_def running_inv_def intro: runs_ret)
  have last: "runs (?W (Suc n) ?S ?e r)
      (if r_ended r \<and> received_count (r_state r) = chunks (shape (r_state r))
       then bindM (finish sha dest (h_hash h) i tk r) (\<lambda>t. ret (Done t))
       else bindM (checkpoint_phase pid i tk r) (\<lambda>r. bindM (report_phase h tk r) (\<lambda>r. ret (Running r))))
      (\<lambda>oc w. case oc of Done t \<Rightarrow> ''COMPLETE'' \<in> set (sent w)
        | Running r' \<Rightarrow> ?W (Suc n) ?S ?e r' w \<and> \<not> (r_ended r' \<and> received_count (r_state r') = chunks l))" for r
  proof (rule runs_pre)
    fix w assume "?W (Suc n) ?S ?e r w"
    then show "shape (r_state r) = l"
      by (simp add: receiving_well_def running_inv_def loop_inv_def same_object_def)
  next
    assume sh: "shape (r_state r) = l"
    show ?thesis
    proof (cases "r_ended r \<and> received_count (r_state r) = chunks l")
      case True
      have "runs (?W (Suc n) ?S ?e r) (bindM (finish sha dest (h_hash h) i tk r) (\<lambda>t. ret (Done t)))
          (\<lambda>oc w. case oc of Done t \<Rightarrow> ''COMPLETE'' \<in> set (sent w)
            | Running r' \<Rightarrow> ?W (Suc n) ?S ?e r' w \<and> \<not> (r_ended r' \<and> received_count (r_state r') = chunks l))"
        by (rule runs_conseq [OF fin [of r]]) (use True in auto)
      then show ?thesis using True sh by simp
    next
      case False
      have "runs (?W (Suc n) ?S ?e r) (bindM (checkpoint_phase pid i tk r) (\<lambda>r. bindM (report_phase h tk r) (\<lambda>r. ret (Running r))))
          (\<lambda>oc w. case oc of Done t \<Rightarrow> ''COMPLETE'' \<in> set (sent w)
            | Running r' \<Rightarrow> ?W (Suc n) ?S ?e r' w \<and> \<not> (r_ended r' \<and> received_count (r_state r') = chunks l))"
        by (rule runs_conseq [OF go [of r]]) (use False in auto)
      then show ?thesis by (simp only: sh False if_False)
    qed
  qed
  show ?thesis unfolding iteration_def
    by (rule runs_bind [OF recv [simplified]], rule runs_bind [OF evs [simplified]], rule last)
qed

text \<open>The loop: once every chunk has been carried and \<open>END\<close> received, it has finished.\<close>

lemma runs_receive_loop:
  assumes l: "wf_layout l" and obj: "length obj = size l" "h_hash h = hex_digest (digest sha obj)"
  shows "\<lbrakk>\<forall>tk\<in>set tks. undisturbed tk \<and> tick_ok sha sa l (sent_by l obj) tk; n + length tks < 2 ^ 64;
      {..<chunks l} \<subseteq> S \<union> (\<Union>tk\<in>set tks. carried sha sa l tk); e \<or> (\<exists>tk\<in>set tks. End \<in> set (t_events tk));
      tks = [] \<Longrightarrow> \<not> (r_ended r \<and> received_count (r_state r) = chunks l)\<rbrakk>
    \<Longrightarrow> runs (receiving_well dest l oh obj i n S e r) (receive_loop sha pid sa dest h i tks r)
      (\<lambda>oc w. (\<exists>t. oc = Done t) \<and> ''COMPLETE'' \<in> set (sent w))"
proof (induction tks arbitrary: n S e r)
  case Nil
  show ?case
  proof (rule runs_pre)
    fix w assume w: "receiving_well dest l oh obj i n S e r w"
    then have "loop_inv dest (sent_by l obj) l oh i (counters_ok n) r w"
      by (simp add: receiving_well_def running_inv_def)
    from received_bounds(3) [OF this] have "r_ended r \<and> received_count (r_state r) = chunks l"
      using w Nil.prems(3,4) by (auto simp: receiving_well_def)
    then show False using Nil.prems(5) by simp
  qed simp
next
  case (Cons tk tks)
  have it: "runs (receiving_well dest l oh obj i n S e r) (iteration sha pid sa dest h i tk r)
    (\<lambda>oc w. case oc of Done t \<Rightarrow> ''COMPLETE'' \<in> set (sent w)
      | Running r' \<Rightarrow> receiving_well dest l oh obj i (Suc n) (S \<union> carried sha sa l tk) (e \<or> End \<in> set (t_events tk)) r' w
          \<and> \<not> (r_ended r' \<and> received_count (r_state r') = chunks l))"
    by (rule runs_iteration [OF l _ _ _ obj]) (use Cons.prems in auto)
  have rest: "runs (receiving_well dest l oh obj i (Suc n) (S \<union> carried sha sa l tk) (e \<or> End \<in> set (t_events tk)) r')
      (receive_loop sha pid sa dest h i tks r') (\<lambda>oc w. (\<exists>t. oc = Done t) \<and> ''COMPLETE'' \<in> set (sent w))"
    if "\<not> (r_ended r' \<and> received_count (r_state r') = chunks l)" for r'
    by (rule Cons.IH) (use Cons.prems that in auto)
  show ?case unfolding receive_loop.simps
  proof (rule runs_bind [OF it])
    fix oc
    show "runs (\<lambda>w. case oc of Done t \<Rightarrow> ''COMPLETE'' \<in> set (sent w)
      | Running r' \<Rightarrow> receiving_well dest l oh obj i (Suc n) (S \<union> carried sha sa l tk) (e \<or> End \<in> set (t_events tk)) r' w
          \<and> \<not> (r_ended r' \<and> received_count (r_state r') = chunks l))
      (case oc of Done t \<Rightarrow> ret (Done t) | Running r \<Rightarrow> receive_loop sha pid sa dest h i tks r)
      (\<lambda>oc w. (\<exists>t. oc = Done t) \<and> ''COMPLETE'' \<in> set (sent w))"
      by (cases oc) (simp_all add: runs_ret runs_and [OF rest])
  qed
qed

section \<open>From the beginning\<close>

lemma already_complete_calm:
  assumes "calm w"
  shows "\<exists>b. already_complete sha dest h w = (Inr b, w)"
  using assms
  by (auto simp: already_complete_def tryM_def file_len_def call_calm hash_file_def open_file_def read_file_def
      bindM_def ret_def split: option.splits)

lemma runs_start_afresh: "runs P (start_afresh pid dest l h) (\<lambda>_ _. True)"
proof -
  have len: "runs P (set_len i n) (\<lambda>_ _. True)" for P i n
    by (simp add: runs_def set_len_def call_calm Let_def)
  show ?thesis unfolding start_afresh_def Let_def
    by (rule runs_bind [OF runs_create] runs_bind [OF len] runs_bind [OF runs_checkpoint] runs_ret TrueI)+
qed

lemma load_map_calm:
  assumes "calm w" "wf_layout l"
  shows "\<exists>bm. load_map p l h w = (Inr bm, w)"
proof -
  have "div_ceil (chunks l) 64 \<le> chunks l" by (simp add: div_ceil_le_iff)
  then have "div_ceil (chunks l) 64 * 8 < 2 ^ 63" using assms(2) by (simp add: wf_layout_def max_chunks_def)
  then show ?thesis using assms(1)
    by (auto simp: load_map_def tryM_def open_file_def call_calm read_file_def bindM_def lift_def ret_def header_len_def
        split: option.splits)
qed

lemma runs_resume_open:
  assumes "wf_layout l" "resume_decode_hash hash_hex = Inr h"
  shows "runs P (resume_open pid dest l hash_hex) (\<lambda>_ _. True)"
  unfolding runs_def
proof (intro allI impI, elim conjE)
  fix w assume calm: "calm w"
  obtain bm where bm: "load_map (map_of_dest dest) l h w = (Inr bm, w)" using load_map_calm [OF calm assms(1)] by blast
  obtain x w' where fresh: "start_afresh pid dest l h w = (Inr x, w')" "calm w'"
    using runsE [OF runs_start_afresh TrueI calm] by blast
  show "\<exists>x w'. resume_open pid dest l hash_hex w = (Inr x, w') \<and> calm w' \<and> True"
    using assms(2) bm fresh calm
    by (auto simp: resume_open_def bindM_def lift_def tryM_def file_len_def open_file_def call_calm ret_def
        split: option.splits)
qed

lemma answer_sendable:
  assumes "is_u64 payload" "is_u64 interval" "is_u64 rb" "is_u64 rc" "length bm < 2 ^ 64"
    "line \<in> set (answer_lines payload interval rb rc bm)"
  shows "sendable line"
proof -
  have n: "length (show_nat k) \<le> 20" "lf \<notin> set (show_nat k)" if "is_u64 k" for k
    using that length_show_nat_u64 field_no_space [OF show_nat_field] by (simp_all add: is_u64_def)
  have w: "length (pad0 16 (show_radix 16 (unat (x :: u64w)))) \<le> 16" for x
  proof -
    have "unat x < 16 ^ 16" using unsigned_less [of x] by simp
    from length_show_radix_le [OF _ this] show ?thesis by (simp add: pad0_def)
  qed
  have word: "sendable (word_line i x)" if "i < length bm" for i x
    using n [of i] w [of x] field_no_space [OF hex_digits_field [of 16 "unat x"]] that assms(5)
    by (auto simp: word_line_def sendable_def is_u64_def)
  consider "line = ready_line payload interval" | "line = ''REUSED '' @ show_nat rb @ '' '' @ show_nat rc"
    | "line = ''GO''" | i where "i < length bm" "line = word_line i (bm ! i)"
    using assms(6) by (auto simp: answer_lines_def inventory_lines_def in_set_enumerate_eq split: if_splits)
  then show ?thesis
    by cases (use n [OF assms(1)] n [OF assms(2)] n [OF assms(3)] n [OF assms(4)] word in
      \<open>auto simp: ready_line_def sendable_def\<close>)
qed

lemma delivered_sent:
  assumes l: "wf_layout l" and obj: "length obj = size l" and d: "delivered sha dest hash l (sent_by l obj) i w"
  shows "installed dest i obj w"
proof -
  obtain bs where bs: "installed dest i bs w" "length bs = size l" "\<forall>s<chunks l. sent_by l obj s (chunk_bytes l bs s)"
    using d by (auto simp: delivered_def)
  have "bs = obj" by (rule chunks_determine [OF l bs(2) obj]) (use bs(3) in \<open>simp add: sent_by_def\<close>)
  then show ?thesis using bs(1) by simp
qed

lemma runs_receive_opened:
  assumes h: "wf_hello h" "length obj = size (h_layout h)" "h_hash h = hex_digest (digest sha obj)"
    and os: "steady (u_os inp)" and t: "length (u_ticks inp) < 2 ^ 64"
      "\<forall>tk\<in>set (u_ticks inp). undisturbed tk \<and> tick_ok sha sa (h_layout h) (sent_by (h_layout h) obj) tk"
      "{..<chunks (h_layout h)} \<subseteq> (\<Union>tk\<in>set (u_ticks inp). carried sha sa (h_layout h) tk)"
      "\<exists>tk\<in>set (u_ticks inp). End \<in> set (t_events tk)"
    and s: "shape st = h_layout h" "object_hash st = oh"
  shows "runs (\<lambda>w. in_session dest (sent_by (h_layout h) obj) st i w \<and> quiet w)
    (receive_opened sha pid sa dest h inp i (st, 0, 0)) (\<lambda>oc w. (\<exists>t. oc = Done t) \<and> ''COMPLETE'' \<in> set (sent w))"
  unfolding runs_def
proof (intro allI impI, elim conjE)
  let ?l = "h_layout h" and ?ok = "sent_by (h_layout h) obj"
  let ?r0 = "new_receiver st (u_now inp)"
  let ?lines = "answer_lines (payload_bytes ?l) (h_report_interval h) 0 0 (bitmap st)"
  fix w assume ses: "in_session dest ?ok st i w" and q: "quiet w" and calm: "calm w"
  have l: "wf_layout ?l" and iv: "h_report_interval h \<le> 10000" using h(1) by (simp_all add: wf_hello_def)
  have c: "length (content (inodes w ! i)) = size ?l" and wfb: "wf_bitmap (chunks ?l) (bitmap st)"
    using ses s by (simp_all add: in_session_def session_file_def wf_state_def)
  have run0: "running_inv dest ?ok ?l oh i 0 ?r0 w" by (rule start_running [OF ses s q])
  obtain hs where adv: "advance_hash_frontier (u_os inp) i ?r0 w = (Inr (?r0\<lparr>r_hashed := hs,
      r_frontier := frontier_end (bitmap (r_state ?r0)) (chunks ?l) (r_frontier ?r0)\<rparr>), w)"
    using advance_calm [OF l _ _ c os, of ?r0] s by (auto simp: new_receiver_def)
  let ?r1 = "?r0\<lparr>r_hashed := hs, r_frontier := frontier_end (bitmap (r_state ?r0)) (chunks ?l) (r_frontier ?r0)\<rparr>"
  have inv0: "loop_inv dest ?ok ?l oh i (counters_ok 0) ?r0 w" using run0 by (simp add: running_inv_def)
  have "loop_inv dest ?ok ?l oh i (counters_ok 0) ?r1 w"
    by (rule conjunct1 [OF triple_Inr [OF advance_keeps [OF hash_blind_counters] inv0 adv]])
  then have run1: "running_inv dest ?ok ?l oh i 0 ?r1 w" using q by (simp add: running_inv_def)
  have "(case r_highest ?r0 of None \<Rightarrow> 0 | Some v \<Rightarrow> v + 1) \<le> chunks ?l"
    by (rule received_bounds(2) [OF inv0]) (simp add: new_receiver_def)
  then have hist: "history_ok (chunks ?l) ?r1" by (simp add: history_ok_def new_receiver_def)
  have "length (bitmap st) < 2 ^ 64"
    using wfb l div_ceil_le_iff [of 64 "chunks ?l" "chunks ?l"] by (simp add: wf_bitmap_def wf_layout_def max_chunks_def)
  then have "sendable m" if "m \<in> set ?lines" for m
    using answer_sendable [OF _ _ _ _ _ that] l iv by (simp add: is_u64_def wf_layout_def)
  then have sends: "runs (\<lambda>_. True) (forM send_control ?lines) (\<lambda>_ _. True)"
    by (intro runs_forM runs_conseq [OF runs_send]) simp_all
  have keep: "triple (\<lambda>w. loop_inv dest ?ok ?l oh i (counters_ok 0) ?r1 w \<and> quiet w) (forM send_control ?lines)
      (\<lambda>_ w. loop_inv dest ?ok ?l oh i (counters_ok 0) ?r1 w \<and> quiet w) (\<lambda>w. crash_safe dest ?l oh ?ok w \<and> quiet w)"
    by (rule send_lines_keep) (auto dest: loop_inv_crash_safe answer_not_complete)
  obtain u w1 where w1: "forM send_control ?lines w = (Inr u, w1)" "calm w1"
    using runsE [OF sends TrueI calm] by blast
  have "loop_inv dest ?ok ?l oh i (counters_ok 0) ?r1 w1 \<and> quiet w1"
    using triple_Inr [OF keep _ w1(1)] run1 by (simp add: running_inv_def)
  then have well: "receiving_well dest ?l oh obj i 0 {} False ?r1 w1"
    using hist by (simp add: receiving_well_def running_inv_def)
  have "runs (receiving_well dest ?l oh obj i 0 {} False ?r1) (receive_loop sha pid sa dest h i (u_ticks inp) ?r1)
      (\<lambda>oc w. (\<exists>t. oc = Done t) \<and> ''COMPLETE'' \<in> set (sent w))"
    by (rule runs_receive_loop [OF l h(2,3)]) (use t in \<open>auto simp: new_receiver_def\<close>)
  from runsE [OF this well w1(2)] obtain oc w2 where
    "receive_loop sha pid sa dest h i (u_ticks inp) ?r1 w1 = (Inr oc, w2)" "calm w2"
      "\<exists>t. oc = Done t" "''COMPLETE'' \<in> set (sent w2)"
    by blast
  then show "\<exists>x w'. receive_opened sha pid sa dest h inp i (st, 0, 0) w = (Inr x, w') \<and> calm w'
      \<and> (\<exists>t. x = Done t) \<and> ''COMPLETE'' \<in> set (sent w')"
    using adv w1 by (simp add: receive_opened_def bindM_def)
qed

text \<open>The whole of \<open>receive_udp\<close>.\<close>

lemma receive_udp_completes:
  assumes calm: "calm w" and disk: "crash_safe dest (h_layout h) (digest sha obj) (sent_by (h_layout h) obj) w"
      "history w = [names w]" "quiet w" "reopenable dest (h_layout h) (digest sha obj) 6 w" "\<not> has_hash sha dest h w"
    and h: "wf_hello h" "length obj = size (h_layout h)" "h_hash h = hex_digest (digest sha obj)"
    and inp: "u_reuse inp = None" "steady (u_os inp)" "length (u_ticks inp) < 2 ^ 64"
      "\<forall>tk\<in>set (u_ticks inp). undisturbed tk \<and> tick_ok sha sa (h_layout h) (sent_by (h_layout h) obj) tk"
      "{..<chunks (h_layout h)} \<subseteq> (\<Union>tk\<in>set (u_ticks inp). carried sha sa (h_layout h) tk)"
      "\<exists>tk\<in>set (u_ticks inp). End \<in> set (t_events tk)"
  shows "\<exists>t w'. receive_udp sha pid sa dest h inp w = (Inr (Done t), w') \<and> ''COMPLETE'' \<in> set (sent w')
    \<and> (\<exists>i. installed dest i obj w')"
proof -
  let ?l = "h_layout h" and ?ok = "sent_by (h_layout h) obj" and ?oh = "digest sha obj"
  have l: "wf_layout ?l" "is_u64 (size ?l)" using h(1) by (simp_all add: wf_hello_def)
  have d: "resume_decode_hash (h_hash h) = Inr ?oh"
    using resume_decode_hash_hex [of ?oh] by (simp add: h(3) hex_digest_eq)
  obtain b where b: "already_complete sha dest h w = (Inr b, w)" using already_complete_calm [OF calm] by blast
  then have nb: "\<not> b" using already_complete_looks [OF b] disk(5) by auto
  obtain i st w1 where op: "resume_open pid dest ?l (h_hash h) w = (Inr (i, st), w1)" "calm w1"
    using runsE [OF runs_resume_open [OF l(1) d] TrueI calm] by (metis prod.exhaust)
  have "reopenable dest ?l ?oh 3 w" using disk(4) calm by (simp add: reopenable_def calm_def)
  from resume_open_opens [OF disk(1,2) l length_digest d this, of pid] op
  have s: "in_session dest ?ok st i w1" "shape st = ?l" "object_hash st = ?oh" by (simp_all add: opened_def)
  have q: "quiet w1" by (rule triple_Inr [OF quietly_resume_open disk(3) op(1)])
  obtain oc w2 where run: "receive_opened sha pid sa dest h inp i (st, 0, 0) w1 = (Inr oc, w2)"
      "\<exists>t. oc = Done t" "''COMPLETE'' \<in> set (sent w2)"
    using runsE [OF runs_receive_opened [OF h inp(2-6) s(2,3)] conjI [OF s(1) q] op(2), of pid] by blast
  have all: "receive_udp sha pid sa dest h inp w = (Inr oc, w2)"
    using b nb op(1) run(1) inp(1) by (simp add: receive_udp_def bindM_def ret_def)
  have "transfer_end sha dest h ?oh ?ok w (Inr oc) w2"
    by (rule receive_udp_ends [OF disk(1,2,3) l length_digest d disk(4) _ inp(3) _ all])
      (use inp in \<open>simp_all add: reuse_ok_def\<close>)
  then obtain j where "delivered sha dest (h_hash h) ?l ?ok j w2" using run disk(5) by (auto simp: transfer_end_def)
  then show ?thesis using delivered_sent [OF l(1) h(2)] all run by blast
qed

end
