(* ===== verification/Rate.thy ===== *)
theory Rate
  imports Complex_Main Repairs
begin

text \<open>
  \<open>RateController\<close> and \<open>Pacer\<close> of \<open>src/main.rs\<close>.

  An \<open>f64\<close> is the rational number it denotes; \<open>rnd\<close> is the rounding of an operation's
  result, so \<open>a * b\<close> is \<open>rnd (a * b)\<close>.  The model covers rates for which no operation
  overflows to an infinity: the configured rates are finite and positive
  (\<open>validate_rate_configuration\<close>), the time between decisions is at least 200 ms, the counters
  are below \<open>2^64\<close>, so a maximum rate of \<open>10^300\<close> Mbit/s is far inside.  The lemmas hold for every \<open>rnd\<close>, or for every
  monotone one, which rounding to nearest is.
\<close>

section \<open>The controller\<close>

definition MAX_RATE_DECISIONS :: nat where "MAX_RATE_DECISIONS = 4096"

datatype decision_kind = Increase | Decrease | Hold

record decision =
  d_elapsed_ms :: nat
  d_kind :: decision_kind
  d_old :: rat
  d_new :: rat
  d_useful :: rat
  d_waste :: rat
  d_reason :: string

record rate_controller =
  c_fixed :: bool
  c_rate :: rat
  c_min :: rat
  c_max :: rat
  c_interval :: nat
  c_started :: instant
  c_last :: instant
  c_telemetry :: telemetry
  c_decisions :: "decision list"
  c_count :: nat
  c_increases :: nat
  c_decreases :: nat
  c_holds :: nat

definition new_controller :: "instant \<Rightarrow> rat option \<Rightarrow> rat \<Rightarrow> rat \<Rightarrow> nat \<Rightarrow> rate_controller" where
  "new_controller now fixed_rate lo hi report_interval =
     (let fixed = (fixed_rate \<noteq> None); rate = (case fixed_rate of None \<Rightarrow> lo | Some r \<Rightarrow> r) in
      \<lparr>c_fixed = fixed, c_rate = rate, c_min = (if fixed then rate else lo),
       c_max = (if fixed then rate else hi), c_interval = max (report_interval * 4) 200000000,
       c_started = now, c_last = now, c_telemetry = default_telemetry, c_decisions = [],
       c_count = 0, c_increases = 0, c_decreases = 0, c_holds = 0\<rparr>)"

text \<open>\<open>Duration::as_secs_f64\<close>.\<close>

definition secs_f64 :: "(rat \<Rightarrow> rat) \<Rightarrow> nat \<Rightarrow> rat" where
  "secs_f64 rnd ns = rnd (rnd (of_nat (ns div 1000000000)) + rnd (of_nat (ns mod 1000000000) / 1000000000))"

definition new_drops :: "telemetry \<Rightarrow> telemetry \<Rightarrow> nat" where
  "new_drops now before = (case (socket_drops now, socket_drops before) of
     (Some current, Some previous) \<Rightarrow> current - previous
   | (Some current, None) \<Rightarrow> current
   | _ \<Rightarrow> 0)"

definition useful_rate :: "(rat \<Rightarrow> rat) \<Rightarrow> nat \<Rightarrow> nat \<Rightarrow> rat \<Rightarrow> rat" where
  "useful_rate rnd accepted payload elapsed =
     rnd (rnd (rnd (rnd (rnd (of_nat accepted) * rnd (of_nat payload)) * 8) / elapsed) / 1000000)"

definition waste_of :: "(rat \<Rightarrow> rat) \<Rightarrow> nat \<Rightarrow> nat \<Rightarrow> nat \<Rightarrow> rat" where
  "waste_of rnd duplicates drops valid =
     (if valid = 0 then 0 else rnd (rnd (of_nat (sat_add duplicates drops)) / rnd (of_nat valid)))"

text \<open>The candidate rate and the reason for it.\<close>

definition next_rate :: "(rat \<Rightarrow> rat) \<Rightarrow> rat \<Rightarrow> nat \<Rightarrow> nat \<Rightarrow> rat \<Rightarrow> rat \<Rightarrow> rat \<times> string" where
  "next_rate rnd old accepted drops waste useful =
     (if accepted = 0 then (rnd (old * rnd (7 / 10)), ''stalled_progress'')
      else if rnd (3 / 100) < waste \<or> 0 < drops then (rnd (old * rnd (7 / 10)), ''receiver_waste'')
      else if rnd (old * rnd (8 / 10)) \<le> useful
      then (max (rnd (old * rnd (125 / 100))) (rnd (old + 1)), ''useful_throughput_followed_load'')
      else if useful < rnd (old * rnd (5 / 10)) then (rnd (old * rnd (85 / 100)), ''throughput_fell_behind_load'')
      else (old, ''insufficient_signal''))"

definition clamp :: "rat \<Rightarrow> rat \<Rightarrow> rat \<Rightarrow> rat" where
  "clamp lo hi x = (if x < lo then lo else if hi < x then hi else x)"

definition kind_of :: "rat \<Rightarrow> rat \<Rightarrow> decision_kind" where
  "kind_of old new = (if old < new then Increase else if new < old then Decrease else Hold)"

text \<open>The end of \<open>observe\<close>: the new rate, the counters and the list of decisions.\<close>

definition note_decision :: "instant \<Rightarrow> telemetry \<Rightarrow> decision \<Rightarrow> rate_controller \<Rightarrow> rate_controller" where
  "note_decision now t d c =
     c\<lparr>c_rate := d_new d, c_count := sat_add (c_count c) 1,
       c_increases := (if d_kind d = Increase then sat_add (c_increases c) 1 else c_increases c),
       c_decreases := (if d_kind d = Decrease then sat_add (c_decreases c) 1 else c_decreases c),
       c_holds := (if d_kind d = Hold then sat_add (c_holds c) 1 else c_holds c),
       c_decisions := (if length (c_decisions c) < MAX_RATE_DECISIONS
         then c_decisions c @ [d] else c_decisions c),
       c_last := now, c_telemetry := t\<rparr>"

definition decide :: "(rat \<Rightarrow> rat) \<Rightarrow> telemetry \<Rightarrow> instant \<Rightarrow> nat \<Rightarrow> rate_controller \<Rightarrow> decision" where
  "decide rnd t now payload c =
     (let elapsed = secs_f64 rnd (duration_since now (c_last c));
          accepted = accepted_datagrams t - accepted_datagrams (c_telemetry c);
          valid = valid_datagrams t - valid_datagrams (c_telemetry c);
          drops = new_drops t (c_telemetry c);
          duplicates = valid - accepted;
          useful = useful_rate rnd accepted payload elapsed;
          waste = waste_of rnd duplicates drops valid;
          old = c_rate c;
          candidate = next_rate rnd old accepted drops waste useful;
          new = clamp (c_min c) (c_max c) (fst candidate)
      in \<lparr>d_elapsed_ms = duration_since now (c_started c) div 1000000, d_kind = kind_of old new,
           d_old = old, d_new = new, d_useful = useful, d_waste = waste, d_reason = snd candidate\<rparr>)"

text \<open>\<open>clamp\<close> panics when the bounds are the wrong way round.\<close>

definition observe ::
    "(rat \<Rightarrow> rat) \<Rightarrow> telemetry \<Rightarrow> instant \<Rightarrow> nat \<Rightarrow> rate_controller \<Rightarrow> rate_controller result" where
  "observe rnd t now payload c =
     (if c_fixed c \<or> duration_since now (c_last c) < c_interval c then Inr c
      else if c_max c < c_min c then Inl Panic
      else Inr (note_decision now t (decide rnd t now payload c) c))"

section \<open>The pacer\<close>

text \<open>\<open>batch_of\<close> is the cast of the clamped product, \<open>secs\<close> the conversion
  \<open>Duration::from_secs_f64\<close> to nanoseconds.\<close>

record pacer =
  p_rate :: rat
  p_started :: instant
  p_sent :: nat
  p_since :: nat
  p_batch :: nat

definition batch_of :: "(rat \<Rightarrow> rat) \<Rightarrow> rat \<Rightarrow> nat" where
  "batch_of rnd rate = nat \<lfloor>clamp 1200 65536 (rnd (rate * rnd (2 / 1000)))\<rfloor>"

definition new_pacer :: "(rat \<Rightarrow> rat) \<Rightarrow> instant \<Rightarrow> rat \<Rightarrow> pacer" where
  "new_pacer rnd now rate = \<lparr>p_rate = rate, p_started = now, p_sent = 0, p_since = 0, p_batch = batch_of rnd rate\<rparr>"

definition set_bytes_per_second :: "(rat \<Rightarrow> rat) \<Rightarrow> instant \<Rightarrow> rat \<Rightarrow> pacer \<Rightarrow> pacer" where
  "set_bytes_per_second rnd now rate p = (if p_rate p = rate then p else new_pacer rnd now rate)"

definition pace_target :: "(rat \<Rightarrow> rat) \<Rightarrow> (rat \<Rightarrow> nat) \<Rightarrow> pacer \<Rightarrow> nat" where
  "pace_target rnd secs p = secs (rnd (rnd (of_nat (p_sent p)) / p_rate p))"

text \<open>The pacer and the nanoseconds slept; \<open>now\<close> is the clock when it is read.\<close>

definition account_and_wait ::
    "(rat \<Rightarrow> rat) \<Rightarrow> (rat \<Rightarrow> nat) \<Rightarrow> instant \<Rightarrow> nat \<Rightarrow> pacer \<Rightarrow> pacer \<times> nat" where
  "account_and_wait rnd secs now n p =
     (let p = p\<lparr>p_sent := p_sent p + n, p_since := p_since p + n\<rparr>
      in if p_since p < p_batch p then (p, 0)
         else (p\<lparr>p_since := 0\<rparr>, pace_target rnd secs p - duration_since now (p_started p)))"

section \<open>Properties\<close>

definition rate_inv :: "rate_controller \<Rightarrow> bool" where
  "rate_inv c \<longleftrightarrow> c_min c \<le> c_rate c \<and> c_rate c \<le> c_max c
     \<and> c_increases c + c_decreases c + c_holds c = c_count c
     \<and> length (c_decisions c) = min (c_count c) MAX_RATE_DECISIONS
     \<and> (\<forall>d\<in>set (c_decisions c). d_kind d = kind_of (d_old d) (d_new d) \<and> c_min c \<le> d_new d \<and> d_new d \<le> c_max c)"

lemma clamp_bounds: "lo \<le> hi \<Longrightarrow> lo \<le> clamp lo hi x \<and> clamp lo hi x \<le> hi"
  by (auto simp: clamp_def)

lemma new_controller_inv: "lo \<le> hi \<Longrightarrow> rate_inv (new_controller now fixed lo hi interval)"
  by (auto simp: rate_inv_def new_controller_def Let_def split: option.splits)

lemma note_decision_inv:
  assumes inv: "rate_inv c" and n: "c_count c + 1 < 2 ^ 64"
    and d: "d_kind d = kind_of (d_old d) (d_new d)" "c_min c \<le> d_new d" "d_new d \<le> c_max c"
  shows "rate_inv (note_decision now t d c)"
proof -
  have "c_increases c + c_decreases c + c_holds c = c_count c" using inv by (simp add: rate_inv_def)
  then have s: "sat_add (c_count c) 1 = c_count c + 1" "sat_add (c_increases c) 1 = c_increases c + 1"
    "sat_add (c_decreases c) 1 = c_decreases c + 1" "sat_add (c_holds c) 1 = c_holds c + 1"
    using n by (intro sat_add_id; linarith)+
  show ?thesis
    using inv d unfolding note_decision_def s
    by (cases "d_kind d") (auto simp: rate_inv_def)
qed

lemma observe_cases:
  assumes "observe rnd t now payload c = Inr c'"
  obtains (unchanged) "c' = c"
  | (decided) d where "c' = note_decision now t d c" "d_kind d = kind_of (d_old d) (d_new d)" "d_old d = c_rate c"
      "c_min c \<le> c_max c" "\<not> c_fixed c"
      "d_new d = clamp (c_min c) (c_max c) (fst (next_rate rnd (c_rate c)
        (accepted_datagrams t - accepted_datagrams (c_telemetry c)) (new_drops t (c_telemetry c)) (d_waste d) (d_useful d)))"
proof (cases "c_fixed c \<or> duration_since now (c_last c) < c_interval c")
  case True
  then show thesis using assms unchanged by (simp add: observe_def)
next
  case False
  then have "c_min c \<le> c_max c" using assms by (simp add: observe_def split: if_splits)
  with assms False show thesis
    by (intro decided [of "decide rnd t now payload c"]) (auto simp: observe_def decide_def Let_def)
qed

lemma observe_inv:
  assumes inv: "rate_inv c" and n: "c_count c + 1 < 2 ^ 64" and o': "observe rnd t now payload c = Inr c'"
  shows "rate_inv c'"
  using o'
proof (cases rule: observe_cases)
  case unchanged
  with inv show ?thesis by simp
next
  case (decided d)
  note b = clamp_bounds [OF decided(4)]
  show ?thesis unfolding decided(1)
    by (rule note_decision_inv [OF inv n]) (use decided b in simp_all)
qed

lemma observe_total: "rate_inv c \<Longrightarrow> \<exists>c'. observe rnd t now payload c = Inr c'"
  by (auto simp: observe_def rate_inv_def Let_def split: prod.splits)

text \<open>The rate never leaves its bounds, whatever the reports say.\<close>

definition rate_bounded :: "rate_controller \<Rightarrow> bool" where
  "rate_bounded c \<longleftrightarrow> c_min c \<le> c_rate c \<and> c_rate c \<le> c_max c"

lemma new_controller_bounded: "lo \<le> hi \<Longrightarrow> rate_bounded (new_controller now fixed lo hi interval)"
  by (auto simp: rate_bounded_def new_controller_def Let_def split: option.splits)

lemma observe_bounded:
  assumes "rate_bounded c"
  shows "\<exists>c'. observe rnd t now payload c = Inr c' \<and> rate_bounded c'"
proof -
  have "c_min c \<le> c_max c" using assms by (simp add: rate_bounded_def)
  from clamp_bounds [OF this] show ?thesis using assms
    by (auto simp: observe_def rate_bounded_def note_decision_def decide_def Let_def)
qed

lemma observe_fixed: "c_fixed c \<Longrightarrow> observe rnd t now payload c = Inr c"
  by (simp add: observe_def)

text \<open>No increase while the receiver drops or makes no progress.\<close>

lemma observe_backs_off:
  assumes inv: "rate_inv c" and o': "observe rnd t now payload c = Inr c'"
    and r: "mono rnd" "rnd (c_rate c) = c_rate c" "rnd 1 = 1" "0 \<le> c_rate c"
    and sig: "accepted_datagrams t \<le> accepted_datagrams (c_telemetry c) \<or> 0 < new_drops t (c_telemetry c)"
  shows "c_rate c' \<le> c_rate c"
  using o'
proof (cases rule: observe_cases)
  case unchanged
  then show ?thesis by simp
next
  case (decided d)
  have "rnd (7 / 10) \<le> rnd 1" by (rule monoD [OF r(1)]) simp
  then have "c_rate c * rnd (7 / 10) \<le> c_rate c * 1" using r(3,4) by (intro mult_left_mono) simp_all
  then have "rnd (c_rate c * rnd (7 / 10)) \<le> rnd (c_rate c)" by (intro monoD [OF r(1)]) simp
  then have "clamp (c_min c) (c_max c) (rnd (c_rate c * rnd (7 / 10))) \<le> c_rate c"
    using inv r(2) by (auto simp: clamp_def rate_inv_def)
  moreover have "fst (next_rate rnd (c_rate c) (accepted_datagrams t - accepted_datagrams (c_telemetry c))
      (new_drops t (c_telemetry c)) (d_waste d) (d_useful d)) = rnd (c_rate c * rnd (7 / 10))"
    using sig by (auto simp: next_rate_def)
  ultimately show ?thesis using decided by (simp add: note_decision_def)
qed

text \<open>The batch is bounded, and the pacer never runs ahead of its schedule by more than a batch.\<close>

lemma batch_bounds: "1200 \<le> batch_of rnd rate \<and> batch_of rnd rate \<le> 65536"
proof -
  let ?x = "clamp 1200 65536 (rnd (rate * rnd (2 / 1000)))"
  have "1200 \<le> ?x \<and> ?x \<le> 65536" by (rule clamp_bounds) simp
  then have "1200 \<le> \<lfloor>?x\<rfloor> \<and> \<lfloor>?x\<rfloor> \<le> 65536" by linarith
  then show ?thesis unfolding batch_of_def by linarith
qed

lemma account_bounded:
  assumes "p_since p \<le> p_batch p" "account_and_wait rnd secs now n p = (p', ns)" "0 < p_batch p"
  shows "p_since p' < p_batch p' \<and> p_sent p' = p_sent p + n"
  using assms by (auto simp: account_and_wait_def Let_def split: if_splits)

text \<open>When the pacer waits, the bytes sent are due afterwards.\<close>

lemma account_on_schedule:
  assumes "account_and_wait rnd secs now n p = (p', ns)" "p_since p' = 0" "0 < n" "p_started p \<le> now"
  shows "pace_target rnd secs p' \<le> duration_since (now + int ns) (p_started p')"
  using assms
  by (auto simp: account_and_wait_def Let_def pace_target_def duration_since_def split: if_splits)

end
