(* ===== verification/Sender.thy ===== *)
theory Sender
  imports Resume Hello Rate
begin

text \<open>
  The UDP sender of \<open>src/main.rs\<close>: \<open>send_udp_inner\<close>, which sends the file and then the
  repairs, and \<open>read_feedback\<close>, the thread that reads the receiver's reports.

  The two threads share the repair queue, the completion flag, the error, the telemetry and the
  rate controller, each behind a lock.  \<open>main_step\<close> is one step of the sending thread between
  two accesses to shared state, \<open>feed\<close> the handling of one line by the other thread, and
  \<open>sender_step\<close> interleaves them arbitrarily.  The time the pacer sleeps is an output of
  \<open>account_and_wait\<close> (\<open>Rate\<close>) that no later step depends on but through the clock,
  which is an input of every step.
\<close>

section \<open>State\<close>

text \<open>Where the sending thread is: \<open>First n\<close> before chunk \<open>n\<close> of the first pass,
  \<open>Taking n\<close> before the repairs taken every 16 chunks, \<open>Burst\<close> while it sends them;
  \<open>Waiting\<close>, \<open>Checking\<close>, \<open>Polling\<close> and \<open>Repairing\<close> in the loop after \<open>END\<close>.\<close>

datatype pc = First nat | Taking nat | Burst "nat list" nat | Waiting | Checking | Polling
  | Repairing "nat list" | Joining | Finished | Failed error

record sender =
  x_pc :: pc
  x_pending :: repair_queue
  x_complete :: bool
  x_error :: "error option"
  x_telemetry :: telemetry
  x_controller :: rate_controller
  x_poisoned :: bool
  x_pacer :: pacer
  x_reading :: bool
  x_socket :: "(nat \<times> bool \<times> bytes) list"
  x_control :: "string list"
  x_datagrams :: nat
  x_repairs :: nat
  x_offered :: nat

record send_config =
  f_layout :: chunk_layout
  f_auth :: session_auth
  f_durable :: bitmap
  f_adaptive :: bool
  f_sha :: "bytes \<Rightarrow> 256 word"
  f_file :: bytes

text \<open>What one step gets from outside: whether a heartbeat is due, how the control connection,
  the socket and the file behave, the choices of the repair queue, and the arithmetic and the
  clock of the pacer.\<close>

record main_input =
  i_due :: bool
  i_control :: "unit result"
  i_cancel :: "unit result"
  i_send :: "unit result"
  i_os :: transfer
  i_pick :: "nat list \<Rightarrow> nat"
  i_clock :: "nat \<Rightarrow> instant"
  i_rnd :: "rat \<Rightarrow> rat"
  i_secs :: "rat \<Rightarrow> nat"
  i_restarted :: instant
  i_paced :: instant

text \<open>The pacer starts at the controller's rate, in bytes per second.\<close>

definition byte_rate :: "(rat \<Rightarrow> rat) \<Rightarrow> rate_controller \<Rightarrow> rat" where
  "byte_rate rnd c = rnd (rnd (c_rate c * 1000000) / 8)"

definition new_sender :: "(rat \<Rightarrow> rat) \<Rightarrow> instant \<Rightarrow> nat \<Rightarrow> rate_controller \<Rightarrow> sender" where
  "new_sender rnd now cool c =
     \<lparr>x_pc = First 0, x_pending = new_repair_queue cool, x_complete = False, x_error = None,
      x_telemetry = default_telemetry, x_controller = c, x_poisoned = False,
      x_pacer = new_pacer rnd now (byte_rate rnd c), x_reading = True, x_socket = [],
      x_control = [], x_datagrams = 0, x_repairs = 0, x_offered = 0\<rparr>"

section \<open>The sending thread\<close>

text \<open>An error ends \<open>send_udp_inner\<close>; \<open>send_udp\<close> then sends a cancellation, whose own
  failure is ignored.\<close>

definition fail :: "main_input \<Rightarrow> error \<Rightarrow> sender \<Rightarrow> sender" where
  "fail inp e s = s\<lparr>x_pc := Failed e,
     x_control := x_control s @ (if is_ok (i_cancel inp) then [''CANCEL sender-error''] else [])\<rparr>"

definition send_message :: "main_input \<Rightarrow> string \<Rightarrow> (sender \<Rightarrow> sender) \<Rightarrow> sender \<Rightarrow> sender" where
  "send_message inp m k s = (case i_control inp of
     Inl e \<Rightarrow> fail inp e s
   | Inr _ \<Rightarrow> k (s\<lparr>x_control := x_control s @ [m]\<rparr>))"

text \<open>\<open>check_feedback_error\<close> and \<open>send_heartbeat_if_due\<close>.\<close>

definition check_feedback_error :: "main_input \<Rightarrow> (sender \<Rightarrow> sender) \<Rightarrow> sender \<Rightarrow> sender" where
  "check_feedback_error inp k s = (case x_error s of Some e \<Rightarrow> fail inp e s | None \<Rightarrow> k s)"

definition send_heartbeat_if_due :: "main_input \<Rightarrow> (sender \<Rightarrow> sender) \<Rightarrow> sender \<Rightarrow> sender" where
  "send_heartbeat_if_due inp k s = (if i_due inp then send_message inp ''PING'' k s else k s)"

text \<open>Pacing: an adaptive sender takes the controller's current rate first, which panics when
  the other thread panicked while it held the lock.\<close>

definition pace_with_controller :: "send_config \<Rightarrow> main_input \<Rightarrow> nat \<Rightarrow> pc \<Rightarrow> sender \<Rightarrow> sender" where
  "pace_with_controller cfg inp n after s =
     (if f_adaptive cfg \<and> x_poisoned s then s\<lparr>x_pc := Failed Panic\<rparr>
      else
      let p = (if f_adaptive cfg
               then set_bytes_per_second (i_rnd inp) (i_restarted inp) (byte_rate (i_rnd inp) (x_controller s)) (x_pacer s)
               else x_pacer s)
      in s\<lparr>x_pc := after, x_pacer := fst (account_and_wait (i_rnd inp) (i_secs inp) (i_paced inp) n p)\<rparr>)"

text \<open>Building a packet, sending it, counting it and pacing.\<close>

definition send_packet :: "send_config \<Rightarrow> main_input \<Rightarrow> nat \<Rightarrow> bool \<Rightarrow> pc \<Rightarrow> sender \<Rightarrow> sender" where
  "send_packet cfg inp sequence repair after s =
     (let l = f_layout cfg in
      case build_packet (f_sha cfg) (i_os inp) (f_file cfg) (size l) (f_auth cfg) sequence repair (payload_bytes l) of
        Inl e \<Rightarrow> fail inp e s
      | Inr d \<Rightarrow> (case i_send inp of
          Inl e \<Rightarrow> fail inp e s
        | Inr _ \<Rightarrow> pace_with_controller cfg inp (length d + 28) after
            (s\<lparr>x_socket := x_socket s @ [(sequence, repair, d)],
               x_datagrams := x_datagrams s + 1,
               x_repairs := (if repair then x_repairs s + 1 else x_repairs s),
               x_offered := x_offered s + length d + 28\<rparr>)))"

definition main_step :: "send_config \<Rightarrow> main_input \<Rightarrow> sender \<Rightarrow> sender" where
  "main_step cfg inp s =
     (case x_pc s of
        First n \<Rightarrow>
          if n < chunks (f_layout cfg) then
            check_feedback_error inp (send_heartbeat_if_due inp (\<lambda>s.
              if bitmap_contains (f_durable cfg) n then s\<lparr>x_pc := First (n + 1)\<rparr>
              else send_packet cfg inp n False (if n mod 16 = 15 then Taking (n + 1) else First (n + 1)) s)) s
          else send_message inp ''END'' (\<lambda>s. s\<lparr>x_pc := Waiting\<rparr>) s
      | Taking n \<Rightarrow>
          (case take_repairs (i_pick inp) (i_clock inp) 4 (x_pending s) of
             (rs, q) \<Rightarrow> s\<lparr>x_pc := Burst rs n, x_pending := q\<rparr>)
      | Burst [] n \<Rightarrow> s\<lparr>x_pc := First n\<rparr>
      | Burst (r # rs) n \<Rightarrow> send_packet cfg inp r True (Burst rs n) s
      | Waiting \<Rightarrow> if x_complete s then s\<lparr>x_pc := Joining\<rparr> else s\<lparr>x_pc := Checking\<rparr>
      | Checking \<Rightarrow>
          check_feedback_error inp (send_heartbeat_if_due inp (\<lambda>s. s\<lparr>x_pc := Polling\<rparr>)) s
      | Polling \<Rightarrow>
          (case take_repairs (i_pick inp) (i_clock inp) 1024 (x_pending s) of
             (rs, q) \<Rightarrow> s\<lparr>x_pc := (if rs = [] then Waiting else Repairing rs), x_pending := q\<rparr>)
      | Repairing [] \<Rightarrow> s\<lparr>x_pc := Waiting\<rparr>
      | Repairing (r # rs) \<Rightarrow> send_packet cfg inp r True (Repairing rs) s
      | Joining \<Rightarrow> if x_reading s then s else send_message inp ''COMPLETE_ACK'' (\<lambda>s. s\<lparr>x_pc := Finished\<rparr>) s
      | Finished \<Rightarrow> s
      | Failed e \<Rightarrow> s)"

section \<open>The feedback thread\<close>

definition stop_reading :: "error \<Rightarrow> sender \<Rightarrow> sender" where
  "stop_reading e s = s\<lparr>x_error := Some e, x_reading := False\<rparr>"

text \<open>A report.  A panic of \<open>observe\<close> would end the thread with the controller's lock
  poisoned; the invariant below excludes it.\<close>

definition feed_report ::
    "(rat \<Rightarrow> rat) \<Rightarrow> instant \<Rightarrow> instant \<Rightarrow> send_config \<Rightarrow> telemetry \<Rightarrow> string \<Rightarrow> sender \<Rightarrow> sender" where
  "feed_report rnd now1 now2 cfg snapshot ranges s =
     (case (if f_adaptive cfg then observe rnd snapshot now1 (payload_bytes (f_layout cfg)) (x_controller s)
            else Inr (x_controller s)) of
        Inl e \<Rightarrow> s\<lparr>x_poisoned := True, x_reading := False\<rparr>
      | Inr c \<Rightarrow>
          (case enqueue_repairs (purge_cooldown now2 (x_pending s)) ranges (chunks (f_layout cfg)) of
             (q, r) \<Rightarrow>
               let s' = s\<lparr>x_controller := c,
                 x_telemetry := snapshot\<lparr>reports := sat_add (reports (x_telemetry s)) 1\<rparr>, x_pending := q\<rparr>
               in (case r of Inl e \<Rightarrow> stop_reading e s' | Inr _ \<Rightarrow> s')))"

definition feed ::
    "(rat \<Rightarrow> rat) \<Rightarrow> instant \<Rightarrow> instant \<Rightarrow> send_config \<Rightarrow> string result \<Rightarrow> sender \<Rightarrow> sender" where
  "feed rnd now1 now2 cfg line s =
     (case line of
        Inl e \<Rightarrow> stop_reading (Err ''receiver feedback stopped'') s
      | Inr line \<Rightarrow>
          if line = ''COMPLETE'' then s\<lparr>x_complete := True, x_reading := False\<rparr>
          else if starts_with ''M '' line then
            (case parse_feedback_report line (chunks (f_layout cfg)) of
               Inl e \<Rightarrow> stop_reading e s
             | Inr (snapshot, ranges) \<Rightarrow> feed_report rnd now1 now2 cfg snapshot ranges s)
          else (case strip_prefix ''CANCEL '' line of
              Some m \<Rightarrow> stop_reading (Err (''receiver cancelled transfer: '' @ m)) s
            | None \<Rightarrow> (case strip_prefix ''ERROR '' line of
                Some m \<Rightarrow> stop_reading (Err (''receiver error: '' @ m)) s
              | None \<Rightarrow> if line = ''PONG'' then s
                  else stop_reading (Err (''unexpected receiver feedback: '' @ line)) s)))"

inductive sender_step :: "send_config \<Rightarrow> sender \<Rightarrow> sender \<Rightarrow> bool" for cfg where
  Main: "sender_step cfg s (main_step cfg inp s)"
| Feedback: "x_reading s \<Longrightarrow> sender_step cfg s (feed rnd now1 now2 cfg line s)"

inductive sender_reaches :: "send_config \<Rightarrow> sender \<Rightarrow> sender \<Rightarrow> bool" for cfg where
  Start: "sender_reaches cfg s s"
| Step: "sender_reaches cfg s t \<Longrightarrow> sender_step cfg t u \<Longrightarrow> sender_reaches cfg s u"

inductive_cases sender_stepE: "sender_step cfg s t"

section \<open>The invariant\<close>

text \<open>The chunks that the first pass has sent when it reaches \<open>n\<close>.\<close>

definition first_pass :: "send_config \<Rightarrow> nat \<Rightarrow> nat list" where
  "first_pass cfg n = filter (\<lambda>i. \<not> bitmap_contains (f_durable cfg) i) [0..<n]"

definition firsts :: "(nat \<times> bool \<times> bytes) list \<Rightarrow> nat list" where
  "firsts ps = map fst (filter (\<lambda>(_, repair, _). \<not> repair) ps)"

definition packet_ok :: "send_config \<Rightarrow> nat \<times> bool \<times> bytes \<Rightarrow> bool" where
  "packet_ok cfg p \<longleftrightarrow> (case p of (c, repair, d) \<Rightarrow>
     c < chunks (f_layout cfg)
     \<and> chunk_start (f_layout cfg) c + chunk_length (f_layout cfg) c \<le> length (f_file cfg)
     \<and> d = packet_of (f_sha cfg) (f_auth cfg) (c, repair, chunk_bytes (f_layout cfg) (f_file cfg) c))"

definition base_inv :: "send_config \<Rightarrow> nat \<Rightarrow> sender \<Rightarrow> bool" where
  "base_inv cfg n s \<longleftrightarrow> n \<le> chunks (f_layout cfg) \<and> repair_inv (chunks (f_layout cfg)) (x_pending s)
     \<and> (\<forall>p\<in>set (x_socket s). packet_ok cfg p) \<and> firsts (x_socket s) = first_pass cfg n
     \<and> x_datagrams s = length (x_socket s)
     \<and> x_repairs s = length (filter (\<lambda>(_, repair, _). repair) (x_socket s))
     \<and> x_offered s = (\<Sum>(_, _, d)\<leftarrow>x_socket s. length d + 28)
     \<and> (x_complete s \<longrightarrow> \<not> x_reading s)
     \<and> rate_bounded (x_controller s) \<and> \<not> x_poisoned s"

fun pc_progress :: "nat \<Rightarrow> pc \<Rightarrow> nat \<Rightarrow> bool" where
  "pc_progress bound (First k) n = (n = k)"
| "pc_progress bound (Taking k) n = (n = k)"
| "pc_progress bound (Burst rs k) n = (n = k \<and> set rs \<subseteq> {..<bound})"
| "pc_progress bound (Repairing rs) n = (n = bound \<and> set rs \<subseteq> {..<bound})"
| "pc_progress bound (Failed e) n = True"
| "pc_progress bound _ n = (n = bound)"

text \<open>The control messages other than heartbeats.\<close>

definition messages :: "sender \<Rightarrow> string list" where
  "messages s = filter (\<lambda>m. m \<noteq> ''PING'') (x_control s)"

lemma messages_updates [simp]:
  "messages (s\<lparr>x_pc := v0\<rparr>) = messages s"
  "messages (s\<lparr>x_pending := v1\<rparr>) = messages s"
  "messages (s\<lparr>x_complete := v2\<rparr>) = messages s"
  "messages (s\<lparr>x_error := v3\<rparr>) = messages s"
  "messages (s\<lparr>x_telemetry := v4\<rparr>) = messages s"
  "messages (s\<lparr>x_controller := v5\<rparr>) = messages s"
  "messages (s\<lparr>x_poisoned := v6\<rparr>) = messages s"
  "messages (s\<lparr>x_pacer := v7\<rparr>) = messages s"
  "messages (s\<lparr>x_reading := v8\<rparr>) = messages s"
  "messages (s\<lparr>x_socket := v9\<rparr>) = messages s"
  "messages (s\<lparr>x_datagrams := v10\<rparr>) = messages s"
  "messages (s\<lparr>x_repairs := v11\<rparr>) = messages s"
  "messages (s\<lparr>x_offered := v12\<rparr>) = messages s"
  "messages (s\<lparr>x_control := ms\<rparr>) = filter (\<lambda>m. m \<noteq> ''PING'') ms"
  "filter (\<lambda>m. m \<noteq> ''PING'') (x_control s) = messages s"
  by (simp_all add: messages_def)

fun pc_messages :: "pc \<Rightarrow> string list \<Rightarrow> bool" where
  "pc_messages (First k) ms = (ms = [])"
| "pc_messages (Taking k) ms = (ms = [])"
| "pc_messages (Burst rs k) ms = (ms = [])"
| "pc_messages Finished ms = (ms = [''END'', ''COMPLETE_ACK''])"
| "pc_messages (Failed e) ms = (ms \<in> {[], [''END''], [''CANCEL sender-error''], [''END'', ''CANCEL sender-error'']})"
| "pc_messages _ ms = (ms = [''END''])"

text \<open>What can be sent next: nothing but heartbeats so far, or \<open>END\<close> after the whole first pass.\<close>

definition open_messages :: "send_config \<Rightarrow> nat \<Rightarrow> sender \<Rightarrow> bool" where
  "open_messages cfg n s \<longleftrightarrow> messages s = [] \<or> messages s = [''END''] \<and> n = chunks (f_layout cfg)"

definition sender_inv :: "send_config \<Rightarrow> sender \<Rightarrow> bool" where
  "sender_inv cfg s \<longleftrightarrow> (\<exists>n. base_inv cfg n s \<and> pc_progress (chunks (f_layout cfg)) (x_pc s) n
       \<and> (''END'' \<in> set (messages s) \<longrightarrow> n = chunks (f_layout cfg)))
     \<and> pc_messages (x_pc s) (messages s)
     \<and> (x_pc s \<in> {Joining, Finished} \<longrightarrow> x_complete s)"

lemma new_sender_inv: "rate_bounded c \<Longrightarrow> sender_inv cfg (new_sender rnd now cool c)"
  by (auto simp: sender_inv_def base_inv_def new_sender_def firsts_def first_pass_def messages_def
      intro!: exI [of _ 0])

text \<open>An error: the two messages it can follow are those of a thread that has not finished.\<close>

definition unfinished :: "pc \<Rightarrow> bool" where
  "unfinished p \<longleftrightarrow> (case p of Finished \<Rightarrow> False | Failed _ \<Rightarrow> False | _ \<Rightarrow> True)"

lemma unfinished_messages: "unfinished p \<Longrightarrow> pc_messages p ms \<Longrightarrow> ms = [] \<or> ms = [''END'']"
  by (cases p) (auto simp: unfinished_def)

lemma fail_inv:
  assumes "base_inv cfg n s" "open_messages cfg n s"
  shows "sender_inv cfg (fail inp e s)"
  using assms by (auto simp: sender_inv_def fail_def base_inv_def open_messages_def)

lemma send_message_inv:
  assumes "base_inv cfg n s" "open_messages cfg n s"
    and "\<And>s'. base_inv cfg n s' \<Longrightarrow> s' = s\<lparr>x_control := x_control s @ [m]\<rparr> \<Longrightarrow> sender_inv cfg (k s')"
  shows "sender_inv cfg (send_message inp m k s)"
  using assms fail_inv [OF assms(1,2)]
  by (cases "i_control inp") (auto simp: send_message_def base_inv_def)

text \<open>The check for an error and the heartbeat, before a step that works for every control output.\<close>

lemma checked_step_inv:
  assumes "base_inv cfg n s" "open_messages cfg n s"
    and "\<And>s'. base_inv cfg n s' \<Longrightarrow> messages s' = messages s \<Longrightarrow> x_pc s' = x_pc s \<Longrightarrow> x_pending s' = x_pending s
      \<Longrightarrow> x_complete s' = x_complete s \<Longrightarrow> sender_inv cfg (k s')"
  shows "sender_inv cfg (check_feedback_error inp (send_heartbeat_if_due inp k) s)"
proof (cases "x_error s")
  case (Some e)
  then show ?thesis using fail_inv [OF assms(1,2)] by (simp add: check_feedback_error_def)
next
  case None
  have "sender_inv cfg (send_message inp ''PING'' k s)"
    by (rule send_message_inv [OF assms(1,2)]) (simp add: assms(3))
  then show ?thesis using None assms(1,3)
    by (simp add: check_feedback_error_def send_heartbeat_if_due_def)
qed

lemma firsts_snoc: "firsts (ps @ [(c, repair, d)]) = firsts ps @ (if repair then [] else [c])"
  by (simp add: firsts_def)

lemma pace_inv:
  assumes b: "base_inv cfg n s" and p: "pc_progress (chunks (f_layout cfg)) after n"
    and m: "pc_messages after (messages s)" "''END'' \<in> set (messages s) \<longrightarrow> n = chunks (f_layout cfg)"
    and a: "after \<notin> {Joining, Finished}"
  shows "sender_inv cfg (pace_with_controller cfg inp k after s)"
proof -
  have "sender_inv cfg (s\<lparr>x_pc := after, x_pacer := p'\<rparr>)" for p'
    using b p m a by (auto simp: sender_inv_def base_inv_def)
  moreover have "\<not> x_poisoned s" using b by (simp add: base_inv_def)
  ultimately show ?thesis by (simp add: pace_with_controller_def Let_def)
qed

lemma send_packet_inv:
  assumes l: "wf_layout (f_layout cfg)" and b: "base_inv cfg n s" and c: "c < chunks (f_layout cfg)"
    and m: "open_messages cfg n s" "pc_messages after (messages s)" "''END'' \<in> set (messages s) \<longrightarrow> n' = chunks (f_layout cfg)"
    and p: "pc_progress (chunks (f_layout cfg)) after n'" "n' \<le> chunks (f_layout cfg)"
      "first_pass cfg n' = first_pass cfg n @ (if repair then [] else [c])"
    and a: "after \<notin> {Joining, Finished}"
  shows "sender_inv cfg (send_packet cfg inp c repair after s)"
proof (cases "build_packet (f_sha cfg) (i_os inp) (f_file cfg) (size (f_layout cfg)) (f_auth cfg) c repair
    (payload_bytes (f_layout cfg))")
  case (Inl e)
  then show ?thesis using fail_inv [OF b m(1)] by (simp add: send_packet_def)
next
  case (Inr d)
  note bp = build_packet_Inr [OF Inr l c]
  show ?thesis
  proof (cases "i_send inp")
    case (Inl e)
    then show ?thesis using Inr fail_inv [OF b m(1)] by (simp add: send_packet_def)
  next
    case sent: (Inr u)
    let ?s = "s\<lparr>x_socket := x_socket s @ [(c, repair, d)], x_datagrams := x_datagrams s + 1,
        x_repairs := (if repair then x_repairs s + 1 else x_repairs s), x_offered := x_offered s + length d + 28\<rparr>"
    have "packet_ok cfg (c, repair, d)" using bp c by (simp add: packet_ok_def chunk_bytes_def)
    then have "base_inv cfg n' ?s"
      using b p by (auto simp: base_inv_def firsts_snoc)
    moreover have "messages ?s = messages s" by simp
    ultimately have "sender_inv cfg (pace_with_controller cfg inp (length d + 28) after ?s)"
      using p m a by (intro pace_inv [of cfg n']) simp_all
    then show ?thesis using Inr sent by (simp add: send_packet_def)
  qed
qed

lemma first_pass_Suc:
  "first_pass cfg (Suc n) = first_pass cfg n @ (if bitmap_contains (f_durable cfg) n then [] else [n])"
  by (simp add: first_pass_def)

lemma take_repairs_below:
  assumes "repair_inv bound q" "take_repairs pick clock limit q = (rs, q')"
  shows "repair_inv bound q' \<and> set rs \<subseteq> {..<bound}"
  using take_loop_inv [OF assms(1) assms(2) [unfolded take_repairs_def]] assms(1)
  by (auto simp: repair_inv_def dest: in_set_takeD)

lemma first_step_inv:
  assumes l: "wf_layout (f_layout cfg)" and b: "base_inv cfg n s" and pc: "x_pc s = First n" and m: "messages s = []"
  shows "sender_inv cfg (main_step cfg inp s)"
proof (cases "n < chunks (f_layout cfg)")
  case False
  then have n: "n = chunks (f_layout cfg)" using b by (simp add: base_inv_def)
  have "sender_inv cfg (send_message inp ''END'' (\<lambda>s. s\<lparr>x_pc := Waiting\<rparr>) s)"
    by (rule send_message_inv [OF b]) (use m n in \<open>auto simp: sender_inv_def base_inv_def open_messages_def\<close>)
  then show ?thesis using False pc by (simp add: main_step_def)
next
  case True
  let ?k = "\<lambda>s. if bitmap_contains (f_durable cfg) n then s\<lparr>x_pc := First (n + 1)\<rparr>
      else send_packet cfg inp n False (if n mod 16 = 15 then Taking (n + 1) else First (n + 1)) s"
  have "sender_inv cfg (check_feedback_error inp (send_heartbeat_if_due inp ?k) s)"
  proof (rule checked_step_inv [OF b])
    fix s' assume s': "base_inv cfg n s'" "messages s' = messages s"
    show "sender_inv cfg (?k s')"
    proof (cases "bitmap_contains (f_durable cfg) n")
      case skip: True
      have "base_inv cfg (n + 1) (s'\<lparr>x_pc := First (n + 1)\<rparr>)"
        using s'(1) skip True by (simp add: base_inv_def first_pass_Suc)
      then show ?thesis using skip s'(2) m by (auto simp: sender_inv_def)
    next
      case send: False
      have "sender_inv cfg (send_packet cfg inp n False (if n mod 16 = 15 then Taking (n + 1) else First (n + 1)) s')"
        by (rule send_packet_inv [OF l s'(1) True, where n' = "n + 1"])
          (use s'(2) m send True in \<open>auto simp: first_pass_Suc open_messages_def\<close>)
      then show ?thesis using send by simp
    qed
  qed (simp add: m open_messages_def)
  then show ?thesis using True pc by (simp add: main_step_def)
qed

lemma take_step_inv':
  assumes b: "base_inv cfg n s" and t: "take_repairs pick clock limit (x_pending s) = (rs, q)"
    and p: "pc_progress (chunks (f_layout cfg)) p n \<or> set rs \<subseteq> {..<chunks (f_layout cfg)} \<longrightarrow> pc_progress (chunks (f_layout cfg)) p n"
    and m: "pc_messages p (messages s)" "p \<notin> {Joining, Finished}" "''END'' \<in> set (messages s) \<longrightarrow> n = chunks (f_layout cfg)"
  shows "sender_inv cfg (s\<lparr>x_pc := p, x_pending := q\<rparr>)"
proof -
  have r: "repair_inv (chunks (f_layout cfg)) (x_pending s)" using b by (simp add: base_inv_def)
  note tr = take_repairs_below [OF r t]
  have "base_inv cfg n (s\<lparr>x_pc := p, x_pending := q\<rparr>)" using b tr by (simp add: base_inv_def)
  then show ?thesis using p tr m by (auto simp: sender_inv_def)
qed

lemma main_step_inv:
  assumes l: "wf_layout (f_layout cfg)" and inv: "sender_inv cfg s"
  shows "sender_inv cfg (main_step cfg inp s)"
proof -
  let ?C = "chunks (f_layout cfg)"
  from inv obtain n where b: "base_inv cfg n s" and p: "pc_progress ?C (x_pc s) n"
    and e: "''END'' \<in> set (messages s) \<longrightarrow> n = ?C"
    and m: "pc_messages (x_pc s) (messages s)" and j: "x_pc s \<in> {Joining, Finished} \<longrightarrow> x_complete s"
    by (auto simp: sender_inv_def)
  have o': "open_messages cfg n s" if "unfinished (x_pc s)"
    using unfinished_messages [OF that m] e by (auto simp: open_messages_def)
  have repair: "sender_inv cfg (send_packet cfg inp r True after s)"
    if "r < ?C" "pc_messages after (messages s)" "open_messages cfg n s"
      "pc_progress ?C after n" "after \<notin> {Joining, Finished}" for r after
    by (rule send_packet_inv [OF l b that(1,3,2) e that(4) _ _ that(5)]) (use b in \<open>simp_all add: base_inv_def\<close>)
  have goto: "sender_inv cfg (s\<lparr>x_pc := q\<rparr>)"
    if "pc_progress ?C q n" "pc_messages q (messages s)" "q \<in> {Joining, Finished} \<longrightarrow> x_complete s" for q
    using b e that by (auto simp: sender_inv_def base_inv_def)
  show ?thesis
  proof (cases "x_pc s")
    case (First k)
    then show ?thesis using first_step_inv [OF l b] p m by simp
  next
    case (Taking k)
    obtain rs q where t: "take_repairs (i_pick inp) (i_clock inp) 4 (x_pending s) = (rs, q)" by fastforce
    show ?thesis using take_step_inv' [OF b t, of "Burst rs k"] Taking p m e t by (simp add: main_step_def)
  next
    case (Burst rs k)
    then show ?thesis
      using goto [of "First k"] repair [of "hd rs" "Burst (tl rs) k"] p m o'
      by (cases rs) (auto simp: main_step_def unfinished_def)
  next
    case Waiting
    then show ?thesis using goto [of Joining] goto [of Checking] p m by (auto simp: main_step_def)
  next
    case Checking
    have "sender_inv cfg (check_feedback_error inp (send_heartbeat_if_due inp (\<lambda>s. s\<lparr>x_pc := Polling\<rparr>)) s)"
      by (rule checked_step_inv [OF b])
        (use Checking p m o' in \<open>auto simp: sender_inv_def base_inv_def unfinished_def\<close>)
    then show ?thesis using Checking by (simp add: main_step_def)
  next
    case Polling
    obtain rs q where t: "take_repairs (i_pick inp) (i_clock inp) 1024 (x_pending s) = (rs, q)" by fastforce
    show ?thesis using take_step_inv' [OF b t, of Waiting] take_step_inv' [OF b t, of "Repairing rs"] Polling p m e t
      by (auto simp: main_step_def)
  next
    case (Repairing rs)
    then show ?thesis
      using goto [of Waiting] repair [of "hd rs" "Repairing (tl rs)"] p m o'
      by (cases rs) (auto simp: main_step_def unfinished_def)
  next
    case Joining
    have "sender_inv cfg (send_message inp ''COMPLETE_ACK'' (\<lambda>s. s\<lparr>x_pc := Finished\<rparr>) s)"
      by (rule send_message_inv [OF b])
        (use Joining p m j o' in \<open>auto simp: sender_inv_def base_inv_def unfinished_def\<close>)
    then show ?thesis using Joining inv by (simp add: main_step_def)
  qed (use inv in \<open>simp_all add: main_step_def\<close>)
qed

lemma stop_reading_inv: "sender_inv cfg s \<Longrightarrow> sender_inv cfg (stop_reading e s)"
  by (fastforce simp: sender_inv_def stop_reading_def base_inv_def)

lemma feed_report_inv:
  assumes "sender_inv cfg s"
  shows "sender_inv cfg (feed_report rnd now1 now2 cfg snapshot ranges s)"
proof -
  from assms obtain n where b: "base_inv cfg n s" and p: "pc_progress (chunks (f_layout cfg)) (x_pc s) n"
    by (auto simp: sender_inv_def)
  obtain q r where e: "enqueue_repairs (purge_cooldown now2 (x_pending s)) ranges (chunks (f_layout cfg)) = (q, r)"
    by fastforce
  have "repair_inv (chunks (f_layout cfg)) (purge_cooldown now2 (x_pending s))"
    using b by (simp add: base_inv_def purge_cooldown_inv)
  from enqueue_repairs_inv [OF this, of ranges] have q: "repair_inv (chunks (f_layout cfg)) q" by (simp add: e)
  have c: "rate_bounded (x_controller s)" using b by (simp add: base_inv_def)
  obtain c where o': "observe rnd snapshot now1 (payload_bytes (f_layout cfg)) (x_controller s) = Inr c" "rate_bounded c"
    using observe_bounded [OF c] by blast
  have "sender_inv cfg (s\<lparr>x_controller := c', x_telemetry := t, x_pending := q\<rparr>)"
    "sender_inv cfg (s\<lparr>x_telemetry := t, x_pending := q\<rparr>)" if "rate_bounded c'" for c' t
    using assms b p q that by (auto simp: sender_inv_def base_inv_def)
  then show ?thesis using e o' c
    by (auto simp: feed_report_def Let_def intro: stop_reading_inv split: sum.splits)
qed

lemma feed_inv:
  assumes "sender_inv cfg s"
  shows "sender_inv cfg (feed rnd now1 now2 cfg line s)"
proof -
  have "sender_inv cfg (s\<lparr>x_complete := True, x_reading := False\<rparr>)"
    using assms by (auto simp: sender_inv_def base_inv_def)
  then show ?thesis using assms
    by (auto simp: feed_def intro: stop_reading_inv feed_report_inv split: sum.splits option.splits)
qed

lemma sender_reaches_inv:
  assumes "sender_reaches cfg (new_sender rnd now cool c) s" "wf_layout (f_layout cfg)" "rate_bounded c"
  shows "sender_inv cfg s"
  using assms(1)
proof (induction "new_sender rnd now cool c" s rule: sender_reaches.induct)
  case Start
  show ?case by (rule new_sender_inv [OF assms(3)])
next
  case (Step t u)
  have i: "sender_inv cfg t" using Step.hyps by simp
  have "sender_step cfg t u" using Step.hyps by simp
  then show ?case
    by (rule sender_stepE) (use main_step_inv [OF assms(2) i] feed_inv [OF i] in blast)+
qed

text \<open>What the invariant says of the messages and of the datagrams.\<close>

lemma end_message: "(''END'' \<in> set (x_control s)) = (''END'' \<in> set (messages s))"
  "(''COMPLETE_ACK'' \<in> set (x_control s)) = (''COMPLETE_ACK'' \<in> set (messages s))"
proof -
  have "set (messages s) = {m \<in> set (x_control s). m \<noteq> ''PING''}" unfolding messages_def by (rule set_filter)
  then show "(''END'' \<in> set (x_control s)) = (''END'' \<in> set (messages s))"
    "(''COMPLETE_ACK'' \<in> set (x_control s)) = (''COMPLETE_ACK'' \<in> set (messages s))" by auto
qed

lemma acknowledged_finished: "pc_messages p ms \<Longrightarrow> ''COMPLETE_ACK'' \<in> set ms \<Longrightarrow> p = Finished \<and> ms = [''END'', ''COMPLETE_ACK'']"
  by (cases p) auto

lemma sender_inv_first_pass:
  assumes "sender_inv cfg s"
  obtains n where "n \<le> chunks (f_layout cfg)" "firsts (x_socket s) = first_pass cfg n"
    "''END'' \<in> set (x_control s) \<longrightarrow> n = chunks (f_layout cfg)"
  using assms by (auto simp: sender_inv_def base_inv_def end_message)

lemma sender_inv_datagrams:
  assumes "sender_inv cfg s"
  shows "(\<forall>p\<in>set (x_socket s). packet_ok cfg p) \<and> x_datagrams s = length (x_socket s)
    \<and> x_repairs s = length (filter (\<lambda>(_, repair, _). repair) (x_socket s))
    \<and> x_offered s = (\<Sum>(_, _, d)\<leftarrow>x_socket s. length d + 28)"
proof -
  obtain n where "base_inv cfg n s" using assms by (auto simp: sender_inv_def)
  then show ?thesis by (simp add: base_inv_def)
qed

lemma sender_inv_acknowledged:
  assumes "sender_inv cfg s" "''COMPLETE_ACK'' \<in> set (x_control s)"
  shows "messages s = [''END'', ''COMPLETE_ACK''] \<and> x_complete s"
  using assms acknowledged_finished [of "x_pc s" "messages s"] by (auto simp: sender_inv_def end_message)

text \<open>What the receiver accepts of the sender's datagrams.\<close>

lemma packet_ok_carries:
  assumes l: "wf_layout (f_layout cfg)" and p: "packet_ok cfg (c, repair, d)"
    and a: "check_datagram (f_sha cfg) (f_auth cfg) (f_layout cfg) d = Some (c', repair', data)"
  shows "c' = c \<and> sent_by (f_layout cfg) (f_file cfg) c' data"
proof -
  have "valid_message (f_layout cfg) (c, repair, chunk_bytes (f_layout cfg) (f_file cfg) c)"
    using p by (simp add: packet_ok_def valid_message_def chunk_bytes_def length_read_bytes)
  from check_datagram_packet [OF l this, of "f_sha cfg" "f_auth cfg"] a p show ?thesis
    by (auto simp: packet_ok_def sent_by_def)
qed

lemma sender_carries_ok:
  assumes "sender_inv cfg s" "wf_layout (f_layout cfg)" "(c, r, d) \<in> set (x_socket s)"
    "check_datagram (f_sha cfg) (f_auth cfg) (f_layout cfg) d = Some (c', r', data)"
  shows "sent_by (f_layout cfg) (f_file cfg) c' data"
proof -
  have "packet_ok cfg (c, r, d)" using assms(1,3) by (auto simp: sender_inv_def base_inv_def)
  from packet_ok_carries [OF assms(2) this assms(4)] show ?thesis by (rule conjunct2)
qed

text \<open>The thread always has a step to take, except while it waits for the other one to end.\<close>

lemma main_step_progress:
  assumes "unfinished (x_pc s)" "x_pc s = Joining \<longrightarrow> \<not> x_reading s"
  shows "main_step cfg inp s \<noteq> s"
proof
  assume eq: "main_step cfg inp s = s"
  then have "x_pc (main_step cfg inp s) = x_pc s" by simp
  then show False using assms
    by (cases "x_pc s") (auto simp: main_step_def unfinished_def check_feedback_error_def
        send_heartbeat_if_due_def send_message_def send_packet_def pace_with_controller_def fail_def Let_def
        split: option.splits sum.splits list.splits prod.splits if_splits)
qed

end
