(* ===== verification/Examples.thy ===== *)
theory Examples
  imports Completion Sender
begin

text \<open>
  A small transfer, the concrete inputs on which the properties are instantiated: a file of two
  bytes in one chunk, its sender, the receiver's hello, and an empty disk.  The hash is a toy
  function; no property depends on which one it is.
\<close>

definition ex_sha :: "bytes \<Rightarrow> 256 word" where
  "ex_sha bs = of_nat (length bs + sum_list (map unat bs))"

definition ex_auth :: session_auth where
  "ex_auth = derive_session ex_sha (replicate 32 7) [1, 2, 3]"

definition ex_file :: bytes where
  "ex_file = [104, 105]"

definition ex_layout :: chunk_layout where
  "ex_layout = \<lparr>size = 2, chunks = 1, payload_bytes = 256\<rparr>"

definition ex_hash :: bytes where
  "ex_hash = digest ex_sha ex_file"

definition ex_hello :: hello where
  "ex_hello = \<lparr>h_transport = Udp, h_layout = ex_layout, h_hash = hex ex_hash,
     h_session = replicate 16 0, h_report_interval = 50, h_repair_grace = 50, h_reuse = None\<rparr>"

definition ex_cfg :: send_config where
  "ex_cfg = \<lparr>f_layout = ex_layout, f_auth = ex_auth, f_durable = [0], f_adaptive = True, f_sha = ex_sha, f_file = ex_file\<rparr>"

definition ex_input :: main_input where
  "ex_input = \<lparr>i_due = False, i_control = Inr (), i_cancel = Inr (), i_send = Inr (), i_os = (\<lambda>_ n. Inr n),
     i_pick = (\<lambda>_. 0), i_clock = (\<lambda>_. 0), i_rnd = (\<lambda>x. x), i_secs = (\<lambda>x. nat \<lfloor>x\<rfloor>), i_restarted = 0, i_paced = 0\<rparr>"

definition ex_controller :: rate_controller where
  "ex_controller = new_controller 0 None 10 1000 50000000"

definition ex_start :: sender where
  "ex_start = new_sender (\<lambda>x. x) 0 100 ex_controller"

definition ex_sent :: sender where
  "ex_sent = main_step ex_cfg ex_input ex_start"

definition ex_packet :: bytes where
  "ex_packet = packet_of ex_sha ex_auth (0, False, ex_file)"

text \<open>One iteration of the receiver in which the control connection ends with an acknowledgement.\<close>

definition ex_tick :: "recv_outcome \<Rightarrow> control_event list \<Rightarrow> tick" where
  "ex_tick rv evs = \<lparr>t_recv = rv, t_events = evs, t_event_now = 0, t_acks = [(False, AckEvent CompleteAck)],
     t_drops = None, t_checkpoint_now = 0, t_checkpoint_done = 0, t_report_check = 0, t_report_now = 0,
     t_report_done = 0, t_os = (\<lambda>_ n. Inr n)\<rparr>"

definition ex_inputs :: udp_inputs where
  "ex_inputs = \<lparr>u_drops = None, u_reply = Inr ''COMPLETE_ACK'', u_reuse = None, u_os = (\<lambda>_ n. Inr n), u_now = 0,
     u_ticks = [ex_tick (Datagram ex_packet) [], ex_tick WouldBlock [End]]\<rparr>"

definition ex_world :: world where
  "ex_world = \<lparr>inodes = [], names = Map.empty, history = [Map.empty], faults = [], alive = True, sent = []\<rparr>"

section \<open>Facts about the example\<close>

lemma ex_hello_simps [simp]:
  "h_layout ex_hello = ex_layout" "h_hash ex_hello = hex ex_hash" "h_reuse ex_hello = None"
  by (simp_all add: ex_hello_def)

lemma ex_cfg_simps [simp]:
  "f_layout ex_cfg = ex_layout" "f_auth ex_cfg = ex_auth" "f_sha ex_cfg = ex_sha" "f_file ex_cfg = ex_file"
  by (simp_all add: ex_cfg_def)

lemma ex_layout_simps [simp]: "size ex_layout = 2" "chunks ex_layout = 1" "payload_bytes ex_layout = 256"
  by (simp_all add: ex_layout_def)

lemma wf_ex_layout [simp]: "wf_layout ex_layout"
  by (simp add: wf_layout_def div_ceil_def max_chunks_def)

lemma length_ex_file [simp]: "length ex_file = 2"
  by (simp add: ex_file_def)

lemma length_ex_hash [simp]: "length ex_hash = 32"
  by (simp add: ex_hash_def)

lemma ex_chunk: "chunk_bytes ex_layout ex_file 0 = ex_file"
  by (simp add: chunk_bytes_def chunk_start_def chunk_length_def read_bytes_def)

lemma ex_check: "check_datagram ex_sha ex_auth ex_layout ex_packet = Some (0, False, ex_file)"
  unfolding ex_packet_def by (rule check_datagram_packet) (simp_all add: valid_message_def chunk_length_def)

lemma ex_build: "build_packet ex_sha (i_os ex_input) ex_file 2 ex_auth 0 False 256 = Inr ex_packet"
proof -
  have "is_ok (i_os ex_input o' n')" for o' n' by (simp add: ex_input_def is_ok_def)
  from build_packet_reliable [of ex_layout 0 ex_file "i_os ex_input" ex_sha ex_auth False] this
  show ?thesis
    by (simp add: ex_packet_def chunk_start_def chunk_length_def read_bytes_def)
qed

lemma ex_sent_socket: "x_socket ex_sent = [(0, False, ex_packet)]"
  unfolding ex_sent_def ex_start_def
  by (simp add: main_step_def new_sender_def check_feedback_error_def send_heartbeat_if_due_def
      bitmap_contains_def send_packet_def ex_build Let_def)
    (simp add: ex_input_def ex_cfg_def pace_with_controller_def Let_def)

lemma ex_controller_bounded [simp]: "rate_bounded ex_controller"
  by (simp add: ex_controller_def new_controller_bounded)

lemma ex_sent_reached: "sender_reaches ex_cfg ex_start ex_sent"
  unfolding ex_sent_def by (rule sender_reaches.Step [OF sender_reaches.Start sender_step.Main])

lemma ex_world_safe [simp]: "crash_safe ''f'' l h ok ex_world"
  by (simp add: crash_safe_def trusted_def wf_world_def ex_world_def)

lemma ex_world_simps [simp]: "history ex_world = [names ex_world]" "quiet ex_world" "calm ex_world" "names ex_world p = None"
  by (simp_all add: ex_world_def quiet_def calm_def)

lemma ex_reopenable [simp]: "reopenable ''f'' ex_layout h n ex_world"
  by (simp add: reopenable_def usable_map_def)

lemma ex_no_file [simp]: "\<not> has_hash sha ''f'' h ex_world"
  by (simp add: has_hash_def installed_def)

lemma wf_ex_hello [simp]: "wf_hello ex_hello"
  using decode_array_hex [of ex_hash 32]
  by (simp add: wf_hello_def ex_hello_def is_u64_def)

lemma ex_decode_hash [simp]: "resume_decode_hash (hex ex_hash) = Inr ex_hash"
  by (rule resume_decode_hash_hex) simp

lemma ex_ticks:
  "tk \<in> set (u_ticks ex_inputs) \<Longrightarrow> undisturbed tk \<and> tick_ok ex_sha ex_auth ex_layout (sent_by ex_layout ex_file) tk"
  by (auto simp: ex_inputs_def ex_tick_def undisturbed_def steady_def tick_ok_def carries_ok_def ex_check sent_by_def ex_chunk)

lemma ex_carried: "(\<Union>tk\<in>set (u_ticks ex_inputs). carried ex_sha ex_auth ex_layout tk) = {0}"
  by (simp add: ex_inputs_def ex_tick_def carried_def ex_check)

lemma ex_inputs_simps [simp]: "u_reuse ex_inputs = None" "length (u_ticks ex_inputs) = 2" "steady (u_os ex_inputs)"
  "\<exists>tk\<in>set (u_ticks ex_inputs). End \<in> set (t_events tk)"
  by (simp_all add: ex_inputs_def ex_tick_def steady_def)

lemma ex_genuine:
  "tk \<in> set (u_ticks ex_inputs) \<Longrightarrow> t_recv tk = Datagram d \<Longrightarrow> (0, False, d) \<in> set (x_socket ex_sent)"
  by (auto simp: ex_inputs_def ex_tick_def ex_sent_socket)

lemma ex_run: "''COMPLETE'' \<in> set (sent (snd (receive_udp ex_sha 1 ex_auth ''f'' ex_hello ex_inputs ex_world)))"
  using receive_udp_completes [of ex_world "''f''" ex_hello ex_sha ex_file ex_inputs ex_auth 1] ex_ticks ex_carried
  by (auto simp: ex_hash_def hex_digest_eq lessThan_Suc)

section \<open>A checkpoint, a crash and a resumption\<close>

definition ex_state :: resume_state where
  "ex_state = new_state ''f'' ex_layout ex_hash [1] 1"

definition ex_map :: bytes where
  "ex_map = concat (map_pieces ex_layout ex_hash [1])"

definition ex_halfway :: world where
  "ex_halfway = \<lparr>inodes = [\<lparr>content = ex_file, stable = {}\<rparr>], names = [''f.part'' \<mapsto> 0],
     history = [[''f.part'' \<mapsto> 0]], faults = [], alive = True, sent = []\<rparr>"

text \<open>The disk after the checkpoint and a crash.\<close>

definition ex_resumed :: world where
  "ex_resumed = \<lparr>inodes = [\<lparr>content = ex_file, stable = {..<2}\<rparr>, \<lparr>content = ex_map, stable = {..<length ex_map}\<rparr>],
     names = [''f.part'' \<mapsto> 0, ''f.part.map'' \<mapsto> 1], history = [[''f.part'' \<mapsto> 0, ''f.part.map'' \<mapsto> 1]],
     faults = [], alive = True, sent = []\<rparr>"

lemma ex_received: "received_set [1] = {0}"
proof -
  have "bitmap_contains [1] i = (i = 0)" for i
    by (auto simp: contains_iff bit_1_iff)
  then show ?thesis by (auto simp: received_set_def)
qed

lemma ex_wf_bitmap: "wf_bitmap (Suc 0) [1]"
  unfolding wf_bitmap_def ex_received by (simp add: div_ceil_def)

lemma ex_map_decodes: "decode_map ex_layout ex_hash ex_map = Some [1]"
  unfolding ex_map_def by (rule decode_map_pieces) (simp_all add: ex_wf_bitmap is_u64_def)

lemma ex_in_session: "in_session ''f'' (sent_by ex_layout ex_file) ex_state 0 ex_halfway"
  by (auto simp: in_session_def crash_safe_def trusted_def wf_world_def wf_inode_def session_maps_def session_file_def
      wf_state_def ex_halfway_def ex_state_def new_state_def appended_path_def ex_received ex_wf_bitmap sent_by_def
      is_u64_def bitmap.count_card split: if_splits)

lemma append_all_calm:
  assumes "calm w" "t < length (inodes w)" "inodes w ! t = \<lparr>content = c, stable = {}\<rparr>"
  shows "forM (append_file t) ps w = (Inr (), set_inode t \<lparr>content = c @ concat ps, stable = {}\<rparr> w)"
  using assms
proof (induction ps arbitrary: c w)
  case Nil
  then show ?case by (simp add: ret_def set_inode_def) (metis list_update_id world.surjective world.update_convs(1))
next
  case (Cons q ps)
  let ?w = "set_inode t \<lparr>content = c @ q, stable = {}\<rparr> w"
  have "append_file t q w = (Inr (), ?w)"
    using Cons.prems by (simp add: append_file_def write_calm written_def Let_def write_bytes_def)
  moreover have "forM (append_file t) ps ?w = (Inr (), set_inode t \<lparr>content = (c @ q) @ concat ps, stable = {}\<rparr> ?w)"
    by (rule Cons.IH) (use Cons.prems in \<open>simp_all add: set_inode_def\<close>)
  ultimately show ?case by (simp add: bindM_def set_inode_def)
qed

lemma ex_state_simps [simp]: "map_path ex_state = ''f.part.map''" "shape ex_state = ex_layout"
  "object_hash ex_state = ex_hash" "bitmap ex_state = [1]"
  by (simp_all add: ex_state_def new_state_def appended_path_def)

definition ex_history :: "dirent_map list" where
  "ex_history = [(Map.empty(''f.part'' \<mapsto> 0, ''f.part.map.tmp.7'' \<mapsto> 1, ''f.part.map.tmp.7'' := None, ''f.part.map'' \<mapsto> 1)),
     [''f.part'' \<mapsto> 0, ''f.part.map.tmp.7'' \<mapsto> 1], [''f.part'' \<mapsto> 0]]"

lemma ex_checkpoint:
  "checkpoint 7 ex_state 0 ex_halfway = (Inr (), ex_resumed\<lparr>history := ex_history\<rparr>)"
proof -
  have tmp: "tmp_path 7 ''f.part.map'' = ''f.part.map.tmp.7''"
    by code_simp
  let ?names = "[''f.part'' \<mapsto> 0, ''f.part.map.tmp.7'' \<mapsto> 1]"
  let ?w = "\<lparr>inodes = [\<lparr>content = ex_file, stable = {..<2}\<rparr>, \<lparr>content = [], stable = {}\<rparr>], names = ?names,
      history = [?names, [''f.part'' \<mapsto> 0]], faults = [], alive = True, sent = []\<rparr>"
  have app: "forM (append_file 1) (map_pieces ex_layout ex_hash [1]) ?w
      = (Inr (), set_inode 1 \<lparr>content = [] @ ex_map, stable = {}\<rparr> ?w)"
    unfolding ex_map_def by (rule append_all_calm) (simp_all add: calm_def)
  have "forM (append_file (Suc 0)) (map_pieces ex_layout ex_hash [1]) ?w
      = (Inr (), set_inode 1 \<lparr>content = ex_map, stable = {}\<rparr> ?w)" using app by simp
  then show ?thesis
    by (simp add: checkpoint_def bindM_def sync_file_def create_file_def rename_file_def call_def ex_halfway_def tmp
        set_inode_def set_names_def ex_resumed_def ex_history_def Let_def fun_eq_iff)
qed

lemma ex_crashed: "crashed (ex_resumed\<lparr>history := ex_history\<rparr>) ex_resumed"
proof -
  have "names ex_resumed = hd ex_history" by (simp add: ex_resumed_def ex_history_def fun_eq_iff)
  then have "names ex_resumed \<in> set ex_history" by (simp add: ex_history_def)
  then show ?thesis
    by (auto simp: crashed_def survives_def ex_resumed_def less_Suc_eq numeral_2_eq_2)
qed

lemma ex_reopened: "resume_open 8 ''f'' ex_layout (hex ex_hash) ex_resumed = (Inr (0, ex_state), ex_resumed)"
  using ex_map_decodes ex_received
  by (simp add: resume_open_def bindM_def lift_def tryM_def load_map_def open_file_def file_len_def call_def read_file_def
      ret_def ex_resumed_def appended_path_def ex_state_def bitmap.count_card header_len_def div_ceil_def)

section \<open>The sender to the end\<close>

text \<open>The steps of the sender when the receiver announces completion after the first pass.\<close>

definition ex_ended :: sender where
  "ex_ended = main_step ex_cfg ex_input ex_sent"

definition ex_finished :: sender where
  "ex_finished = main_step ex_cfg ex_input (main_step ex_cfg ex_input
     (feed (\<lambda>x. x) 0 0 ex_cfg (Inr ''COMPLETE'') ex_ended))"

lemma ex_sent_simps: "x_pc ex_sent = First 1" "x_control ex_sent = []" "x_reading ex_sent"
  unfolding ex_sent_def ex_start_def
  by (simp_all add: main_step_def new_sender_def check_feedback_error_def send_heartbeat_if_due_def
      bitmap_contains_def send_packet_def ex_build Let_def)
    (simp_all add: ex_input_def ex_cfg_def pace_with_controller_def Let_def)

lemma ex_ended_simps: "x_pc ex_ended = Waiting" "x_control ex_ended = [''END'']" "x_reading ex_ended"
  using ex_sent_simps by (simp_all add: ex_ended_def main_step_def send_message_def ex_input_def)

lemma ex_finished_reached: "sender_reaches ex_cfg ex_start ex_finished"
proof -
  have m: "sender_reaches ex_cfg ex_start (main_step ex_cfg ex_input s)" if "sender_reaches ex_cfg ex_start s" for s
    by (rule sender_reaches.Step [OF that sender_step.Main])
  have "sender_reaches ex_cfg ex_start (feed (\<lambda>x. x) 0 0 ex_cfg (Inr ''COMPLETE'') ex_ended)"
    unfolding ex_ended_def
    by (rule sender_reaches.Step [OF m [OF ex_sent_reached] sender_step.Feedback [OF ex_ended_simps(3) [unfolded ex_ended_def]]])
  then show ?thesis unfolding ex_finished_def by (intro m)
qed

lemma ex_finished_control: "x_control ex_finished = [''END'', ''COMPLETE_ACK'']"
  using ex_ended_simps by (simp add: ex_finished_def feed_def main_step_def send_message_def ex_input_def)

section \<open>A manifest\<close>

definition ex_manifest :: manifest where
  "ex_manifest = \<lparr>m_size = 2, m_chunks = [\<lparr>ch_offset = 0, ch_length = 2, ch_hash = ex_hash\<rparr>],
     m_hash = digest ex_sha (as_bytes (canonical_body 2 [\<lparr>ch_offset = 0, ch_length = 2, ch_hash = ex_hash\<rparr>]))\<rparr>"

lemma ex_manifest_contiguous: "contiguous (size ex_layout) 0 (m_chunks ex_manifest)"
  by (simp add: ex_manifest_def is_u64_def MAX_CHUNK_BYTES_def)

lemma ex_manifest_wf: "wf_manifest ex_sha ex_manifest"
  using ex_manifest_contiguous by (simp add: wf_manifest_def ex_manifest_def is_u64_def CDC_MAX_CHUNKS_def)

lemma ex_manifest_length: "length (encode ex_manifest) \<le> MAX_ENCODED_BYTES"
proof -
  have "length (show_nat 2) = 1" "length (show_nat 1) = 1" "length (show_nat 0) = 1" by code_simp+
  then show ?thesis by (simp add: encode_def canonical_body_def header_line_def chunk_line_def ex_manifest_def MAX_ENCODED_BYTES_def)
qed

lemma ex_manifest_describes: "describes ex_sha ex_file (m_chunks ex_manifest)"
  by (simp add: describes_def ex_manifest_def ex_hash_def read_bytes_def)

text \<open>The candidate is the same file.\<close>

definition ex_candidate :: candidate where
  "ex_candidate = \<lparr>c_meta = (True, 2), c_reads = [ex_file], c_gone = False, c_open = Inr (), c_bytes = ex_file,
     c_os = (\<lambda>_ n. Inr n)\<rparr>"

lemma ex_scan: "scan ex_sha (True, 2) [ex_file] = Inr ex_manifest"
proof -
  let ?cs = "[\<lparr>ch_offset = 0, ch_length = 2, ch_hash = ex_hash\<rparr>]"
  have "length (canonical_body 2 ?cs) + 71 \<le> MAX_ENCODED_BYTES"
    using ex_manifest_length by (simp add: encode_def ex_manifest_def length_hex)
  then have len: "\<not> MAX_ENCODED_BYTES < sat_add (length (canonical_body 2 ?cs)) 70"
    by (simp add: sat_add_def MAX_ENCODED_BYTES_def)
  have "scan_bytes ex_sha \<lparr>sc_chunks = [], sc_offset = 0, sc_chunk = [], sc_rolling = 0\<rparr> ex_file
      = Inr \<lparr>sc_chunks = [], sc_offset = 0, sc_chunk = ex_file, sc_rolling = push_bit 1 (gear 104) + gear 105\<rparr>"
    by (simp add: ex_file_def scan_byte_def Let_def MIN_CHUNK_BYTES_def)
  moreover have "finish_chunk ex_sha \<lparr>sc_chunks = [], sc_offset = 0, sc_chunk = ex_file, sc_rolling = r\<rparr>
      = Inr \<lparr>sc_chunks = ?cs, sc_offset = 2, sc_chunk = [], sc_rolling = 0\<rparr>" for r
    by (simp add: finish_chunk_def close_chunk_def push_chunk_def CDC_MAX_CHUNKS_def ex_hash_def)
      (simp add: ex_file_def checked_add_def is_u64_def)
  ultimately show ?thesis
    using len by (simp add: scan_def Let_def ex_manifest_def)
qed

lemma ex_hash_value: "ex_hash = replicate 30 0 @ [0, 211]"
  by (simp add: ex_hash_def digest_def ex_sha_def ex_file_def) code_simp

lemma ex_no_collision: "no_collision ex_sha ex_file (c_bytes ex_candidate) (m_chunks ex_manifest)"
proof -
  have "read_bytes ex_file a 2 = (if a = 0 then ex_file else if a = 1 then [105] else [])" for a
    by (auto simp: read_bytes_def ex_file_def drop_Cons' neq_Nil_conv numeral_2_eq_2)
  moreover have "digest ex_sha [105] \<noteq> ex_hash" "digest ex_sha [] \<noteq> ex_hash"
    unfolding ex_hash_value by (simp_all add: digest_def ex_sha_def) code_simp+
  ultimately show ?thesis
    by (auto simp: no_collision_def ex_manifest_def ex_candidate_def ex_hash_def)
qed

text \<open>A resumption in which nothing has arrived yet.\<close>

definition ex_fresh :: resume_state where
  "ex_fresh = new_state ''f'' ex_layout ex_hash [0] 0"

definition ex_blank :: world where
  "ex_blank = ex_halfway\<lparr>inodes := [\<lparr>content = [0, 0], stable = {}\<rparr>]\<rparr>"

lemma ex_received_none: "received_set [0] = {}"
proof -
  have "\<not> bitmap_contains [0] i" for i by (auto simp: contains_iff)
  then show ?thesis by (auto simp: received_set_def)
qed

lemma ex_wf_blank: "wf_bitmap (Suc 0) [0]"
  unfolding wf_bitmap_def ex_received_none by (simp add: div_ceil_def)

lemma ex_fresh_session: "in_session ''f'' (sent_by ex_layout ex_file) ex_fresh 0 ex_blank"
  by (auto simp: in_session_def crash_safe_def trusted_def wf_world_def wf_inode_def session_maps_def session_file_def
      wf_state_def ex_halfway_def ex_blank_def ex_fresh_def new_state_def appended_path_def ex_received_none ex_wf_blank
      is_u64_def bitmap.count_card split: if_splits)

lemma ex_copied: "copy_chunks ex_sha ex_candidate (available (m_chunks ex_manifest)) 0 (m_chunks ex_manifest) [] ex_blank
    = (Inr [(0, 2)], ex_halfway)"
proof -
  have "read_loop (c_os ex_candidate) m 2 ex_file 0 2 = Inr ex_file" for m
    using read_loop_reliable [of "c_os ex_candidate"]
    by (simp add: ex_candidate_def is_ok_def read_bytes_def)
  then show ?thesis
    by (simp add: ex_manifest_def available_def MAX_CHUNK_BYTES_def bindM_def lift_def ret_def ex_hash_def)
      (simp add: ex_candidate_def ex_blank_def ex_halfway_def write_calm calm_def set_inode_def written_def write_bytes_def
        Let_def ex_file_def bindM_def ret_def numeral_2_eq_2)
qed

lemma ex_marked: "mark_chunks ex_layout [0] \<lparr>mk_state = ex_fresh, mk_ranges = merge_ranges [(0, 2)], mk_bytes = 0, mk_chunks = 0\<rparr>
    = Inr \<lparr>mk_state = ex_state, mk_ranges = [(0, 2)], mk_bytes = 2, mk_chunks = Suc 0\<rparr>"
  using ex_received_none
  by (simp add: mark_chunk_def merge_ranges_def merge_range_def ex_fresh_def ex_state_def new_state_def Let_def
      bitmap_insert_def received_set_def checked_mul_def checked_add_def is_u64_def sat_add_def)

lemma ex_reuse: "apply_reusable_content ex_sha 7 0 ex_fresh ex_manifest ex_candidate ex_layout ex_blank
    = (Inr (ex_state, 2, Suc 0), ex_resumed\<lparr>history := ex_history\<rparr>)"
  using ex_scan ex_copied ex_marked ex_checkpoint
  by (simp add: apply_reusable_content_def ex_candidate_def bindM_def lift_def ret_def)

end
