(* ===== verification/Dir_Manifest.thy ===== *)
theory Dir_Manifest
  imports Auth "HOL-Library.List_Lexorder" "HOL-Library.Sublist"
begin

text \<open>
  The manifest of a directory tree (\<open>src/directory.rs\<close>): its entries, the canonical text
  \<open>PTM1\<close>, its parser and \<open>validate_entries\<close>, the check that the entries form a tree of safe
  relative paths.  SHA-256 is the parameter \<open>sha\<close> of \<open>Auth\<close>.

  The lemmas show that text and manifest determine each other, what the check amounts to
  (\<open>tree_shaped\<close>, a statement without the loop and its table), and that no accepted path leaves
  the directory it is joined to.
\<close>

section \<open>Data\<close>

definition MAX_MANIFEST_ENTRIES :: nat where "MAX_MANIFEST_ENTRIES = 1000000"
definition MAX_RELATIVE_PATH_BYTES :: nat where "MAX_RELATIVE_PATH_BYTES = 4096"
definition MAX_MANIFEST_BYTES :: nat where "MAX_MANIFEST_BYTES = 64 * 1024 * 1024"

datatype entry_kind = Directory | File

record manifest_entry =
  e_path :: bytes
  e_kind :: entry_kind
  e_mode :: nat
  e_seconds :: int
  e_nanoseconds :: int
  e_size :: nat
  e_hash :: "bytes option"

record dir_manifest =
  d_entries :: "manifest_entry list"
  d_root_mode :: nat
  d_root_seconds :: int
  d_root_nanoseconds :: int
  d_hash :: bytes

section \<open>Paths\<close>

abbreviation slash :: byte where
  "slash \<equiv> 0x2F"

definition validate_relative_path :: "bytes \<Rightarrow> unit result" where
  "validate_relative_path path =
     (if path = [] \<or> MAX_RELATIVE_PATH_BYTES < length path \<or> path ! 0 = slash \<or> 0 \<in> set path
        \<or> (\<exists>part\<in>set (split_on slash path). part = [] \<or> part = [0x2E] \<or> part = [0x2E, 0x2E])
      then Inl (Err ''unsafe manifest path'') else Inr ())"

definition parents :: "bytes \<Rightarrow> bytes list" where
  "parents path = map (\<lambda>(index, _). take index path) (filter (\<lambda>(_, b). b = slash) (enumerate 0 path))"

definition decode_path :: "string \<Rightarrow> bytes result" where
  "decode_path value =
     and_then (decode_hex value) (\<lambda>path. and_then (validate_relative_path path) (\<lambda>_. Inr path))"

section \<open>Validation\<close>

text \<open>The loop of \<open>validate_entries\<close> with its variables \<open>previous\<close> and \<open>kinds\<close>.\<close>

fun validate_from ::
    "bytes option \<Rightarrow> (bytes \<rightharpoonup> entry_kind) \<Rightarrow> manifest_entry list \<Rightarrow> unit result" where
  "validate_from previous kinds [] = Inr ()"
| "validate_from previous kinds (e # es) =
     and_then (validate_relative_path (e_path e)) (\<lambda>_.
      if (case previous of None \<Rightarrow> False | Some v \<Rightarrow> e_path e \<le> v)
      then Inl (Err ''manifest paths must be unique and strictly sorted'')
      else if e_nanoseconds e < 0 \<or> 1000000000 \<le> e_nanoseconds e
      then Inl (Err ''manifest modification nanoseconds are out of range'')
      else if 511 < e_mode e then Inl (Err ''manifest mode is out of range'')
      else if e_kind e = Directory \<and> (e_size e \<noteq> 0 \<or> e_hash e \<noteq> None)
      then Inl (Err ''directory entry carries file data'')
      else if e_kind e = File \<and> e_hash e = None then Inl (Err ''file entry has no hash'')
      else if \<exists>parent\<in>set (parents (e_path e)). kinds parent \<noteq> Some Directory
      then Inl (Err ''manifest parent is absent or is not a directory'')
      else validate_from (Some (e_path e)) (kinds(e_path e \<mapsto> e_kind e)) es)"

definition validate_entries :: "manifest_entry list \<Rightarrow> unit result" where
  "validate_entries es =
     (if MAX_MANIFEST_ENTRIES < length es then Inl (Err ''manifest entry limit exceeded'')
      else validate_from None Map.empty es)"

section \<open>The canonical text\<close>

text \<open>A file entry without a hash makes \<open>expect\<close> panic.\<close>

definition entry_line :: "manifest_entry \<Rightarrow> string result" where
  "entry_line e =
     (case e_kind e of
        Directory \<Rightarrow> Inr (''D '' @ dir_hex (e_path e) @ '' '' @ show_nat (e_mode e) @ '' ''
          @ show_int (e_seconds e) @ '' '' @ show_int (e_nanoseconds e))
      | File \<Rightarrow>
         (case e_hash e of None \<Rightarrow> Inl Panic
          | Some h \<Rightarrow> Inr (''F '' @ dir_hex (e_path e) @ '' '' @ show_nat (e_size e) @ '' '' @ hex h @ '' ''
              @ show_nat (e_mode e) @ '' '' @ show_int (e_seconds e) @ '' '' @ show_int (e_nanoseconds e))))"

definition dir_header_line :: "nat \<Rightarrow> nat \<Rightarrow> int \<Rightarrow> int \<Rightarrow> string" where
  "dir_header_line count mode secs nanos =
     ''PTM1 '' @ show_nat count @ '' '' @ show_nat mode @ '' '' @ show_int secs @ '' '' @ show_int nanos"

definition dir_canonical_body :: "manifest_entry list \<Rightarrow> nat \<Rightarrow> int \<Rightarrow> int \<Rightarrow> string result" where
  "dir_canonical_body es mode secs nanos =
     and_then (collect entry_line es) (\<lambda>ls.
       Inr (dir_header_line (length es) mode secs nanos @ [lf] @ unlines ls))"

definition dir_encode :: "dir_manifest \<Rightarrow> string result" where
  "dir_encode m =
     and_then (dir_canonical_body (d_entries m) (d_root_mode m) (d_root_seconds m) (d_root_nanoseconds m))
       (\<lambda>body. Inr (body @ ''HASH '' @ hex (d_hash m) @ [lf]))"

definition parse_entry :: "string \<Rightarrow> manifest_entry result" where
  "parse_entry line =
     (case split_on sp line of
        [t, path, mode, secs, nanos] \<Rightarrow>
          if t = ''D'' then
            and_then (decode_path path) (\<lambda>p. and_then (parse_mode mode) (\<lambda>md.
            and_then (parse_i64 secs) (\<lambda>s. and_then (parse_nanoseconds nanos) (\<lambda>n.
              Inr \<lparr>e_path = p, e_kind = Directory, e_mode = md, e_seconds = s, e_nanoseconds = n,
                e_size = 0, e_hash = None\<rparr>))))
          else Inl (Err ''invalid manifest entry'')
      | [t, path, sz, hash, mode, secs, nanos] \<Rightarrow>
          if t = ''F'' then
            and_then (decode_path path) (\<lambda>p. and_then (parse_mode mode) (\<lambda>md.
            and_then (parse_i64 secs) (\<lambda>s. and_then (parse_nanoseconds nanos) (\<lambda>n.
            and_then (dir_parse_u64 sz) (\<lambda>z. and_then (dir_decode_hash hash) (\<lambda>h.
              Inr \<lparr>e_path = p, e_kind = File, e_mode = md, e_seconds = s, e_nanoseconds = n,
                e_size = z, e_hash = Some h\<rparr>))))))
          else Inl (Err ''invalid manifest entry'')
      | _ \<Rightarrow> Inl (Err ''invalid manifest entry''))"

text \<open>The loop of \<open>parse\<close>: the entries, the lines read and the lines left.\<close>

fun parse_entries ::
    "nat \<Rightarrow> string list \<Rightarrow> (manifest_entry list \<times> string list \<times> string list) result" where
  "parse_entries 0 ls = Inr ([], [], ls)"
| "parse_entries (Suc n) [] = Inl (Err ''manifest ended before all entries'')"
| "parse_entries (Suc n) (line # ls) =
     and_then (parse_entry line) (\<lambda>e.
     and_then (parse_entries n ls) (\<lambda>(es, read, rest). Inr (e # es, line # read, rest)))"

text \<open>The end of \<open>parse\<close>, after the entries.\<close>

definition dir_parse_footer ::
    "(bytes \<Rightarrow> 256 word) \<Rightarrow> manifest_entry list \<Rightarrow> nat \<Rightarrow> int \<Rightarrow> int \<Rightarrow> string \<Rightarrow> string list
      \<Rightarrow> dir_manifest result" where
  "dir_parse_footer sha es mode secs nanos body rest =
     (case rest of
        [] \<Rightarrow> Inl (Err ''missing manifest hash'')
      | footer # trailing \<Rightarrow>
          if trailing \<noteq> [] then Inl (Err ''trailing manifest data'')
          else
          and_then (ok_or (strip_prefix ''HASH '' footer) ''invalid manifest hash footer'') (\<lambda>supplied.
          and_then (dir_decode_hash supplied) (\<lambda>h.
          if h \<noteq> digest sha (as_bytes body) then Inl (Err ''manifest hash mismatch'')
          else
          and_then (validate_entries es) (\<lambda>_.
          and_then (dir_canonical_body es mode secs nanos) (\<lambda>canonical.
          if canonical \<noteq> body then Inl (Err ''manifest entries are not canonically encoded'')
          else Inr \<lparr>d_entries = es, d_root_mode = mode, d_root_seconds = secs,
            d_root_nanoseconds = nanos, d_hash = h\<rparr>)))))"

definition dir_parse :: "(bytes \<Rightarrow> 256 word) \<Rightarrow> string \<Rightarrow> dir_manifest result" where
  "dir_parse sha encoded =
     (if MAX_MANIFEST_BYTES < length encoded \<or> encoded = [] \<or> last encoded \<noteq> lf \<or> cr \<in> set encoded
      then Inl (Err ''manifest must use canonical newline termination'')
      else case lines encoded of
        [] \<Rightarrow> Inl (Err ''missing manifest header'')
      | header # ls \<Rightarrow>
       (let fields = split_on sp header in
        if length fields \<noteq> 5 \<or> fields ! 0 \<noteq> ''PTM1'' then Inl (Err ''invalid manifest header'')
        else
        and_then (parse_usize (fields ! 1)) (\<lambda>count.
        and_then (parse_mode (fields ! 2)) (\<lambda>mode.
        and_then (parse_i64 (fields ! 3)) (\<lambda>secs.
        and_then (parse_nanoseconds (fields ! 4)) (\<lambda>nanos.
        if MAX_MANIFEST_ENTRIES < count then Inl (Err ''manifest entry limit exceeded'')
        else
        and_then (parse_entries count ls) (\<lambda>(es, read, rest).
          dir_parse_footer sha es mode secs nanos (header @ [lf] @ unlines read) rest)))))))"

section \<open>What the checks amount to\<close>

text \<open>The name of a directory entry, and a path below a directory.\<close>

definition proper_name :: "bytes \<Rightarrow> bool" where
  "proper_name n \<longleftrightarrow> n \<noteq> [] \<and> n \<noteq> [0x2E] \<and> n \<noteq> [0x2E, 0x2E] \<and> slash \<notin> set n \<and> 0 \<notin> set n"

definition safe_path :: "bytes \<Rightarrow> bool" where
  "safe_path path \<longleftrightarrow> length path \<le> MAX_RELATIVE_PATH_BYTES
     \<and> (\<exists>ns. ns \<noteq> [] \<and> (\<forall>n\<in>set ns. proper_name n) \<and> path = join_with slash ns)"

lemma validate_relative_path_iff: "(validate_relative_path p = Inr ()) = safe_path p"
proof
  assume "validate_relative_path p = Inr ()"
  then have "length p \<le> MAX_RELATIVE_PATH_BYTES" "0 \<notin> set p"
    "\<forall>n\<in>set (split_on slash p). n \<noteq> [] \<and> n \<noteq> [0x2E] \<and> n \<noteq> [0x2E, 0x2E]"
    by (auto simp: validate_relative_path_def split: if_splits)
  then show "safe_path p"
    unfolding safe_path_def proper_name_def
    using join_split_on [of slash p] split_on_no_sep_in_parts [of _ slash p] in_parts [of 0 _ slash p]
    by (intro conjI exI [of _ "split_on slash p"]) auto
next
  assume "safe_path p"
  then obtain ns where ns: "length p \<le> MAX_RELATIVE_PATH_BYTES" "ns \<noteq> []"
    "\<forall>n\<in>set ns. proper_name n" "p = join_with slash ns"
    by (auto simp: safe_path_def)
  then have s: "split_on slash p = ns" by (auto simp: split_on_join proper_name_def)
  obtain n ns' where n: "ns = n # ns'" using ns(2) by (cases ns) auto
  then obtain a n' where a: "n = a # n'" "a \<noteq> slash" using ns(3) by (cases n) (auto simp: proper_name_def)
  have "p \<noteq> []" "p ! 0 \<noteq> slash" using ns(4) n a by (cases ns'; simp)+
  moreover have "0 \<notin> set p" using ns(3,4) in_join_with [of 0 slash ns] by (auto simp: proper_name_def)
  ultimately show "validate_relative_path p = Inr ()"
    using ns(1,3) s by (auto simp: validate_relative_path_def proper_name_def)
qed

lemma validate_relative_path_cases: "validate_relative_path p = (if safe_path p then Inr () else Inl (Err ''unsafe manifest path''))"
  using validate_relative_path_iff [of p] by (auto simp: validate_relative_path_def split: if_splits)

lemma decode_path_iff [codec_simps]: "(decode_path s = Inr p) = (safe_path p \<and> s = hex p)"
proof -
  have "safe_path p \<Longrightarrow> p \<noteq> []" using validate_relative_path_iff [of p] by (auto simp: validate_relative_path_def)
  then show ?thesis
    using dir_hex_codec.dec_iff [of s]
    by (auto simp: decode_path_def and_then_eq_Inr validate_relative_path_cases dir_hex_eq)
qed

text \<open>The parents of a path are the directories it goes through.\<close>

lemma set_parents: "set (parents p) = {q. \<exists>r. p = q @ slash # r}"
proof -
  have "q \<in> set (parents p) \<longleftrightarrow> (\<exists>i<length p. p ! i = slash \<and> q = take i p)" for q
    by (auto simp: parents_def in_set_enumerate_eq)
  moreover have "(\<exists>i<length p. p ! i = slash \<and> q = take i p) \<longleftrightarrow> (\<exists>r. p = q @ slash # r)" for q
    by (metis append_eq_conv_conj id_take_nth_drop length_append less_add_same_cancel1 length_greater_0_conv
        list.distinct(1) nth_append_length)
  ultimately show ?thesis by auto
qed

lemma parent_less: "p = q @ a # r \<Longrightarrow> q < (p :: bytes)"
  by (induction q arbitrary: p) auto

text \<open>A tree as a set of paths: every entry is safe and unique, and lies in directories that are
  entries themselves.\<close>

definition entry_ok :: "manifest_entry \<Rightarrow> bool" where
  "entry_ok e \<longleftrightarrow> safe_path (e_path e) \<and> 0 \<le> e_nanoseconds e \<and> e_nanoseconds e < 1000000000 \<and> e_mode e \<le> 511
     \<and> (case e_kind e of Directory \<Rightarrow> e_size e = 0 \<and> e_hash e = None | File \<Rightarrow> e_hash e \<noteq> None)"

definition directories :: "manifest_entry list \<Rightarrow> bytes set" where
  "directories es = {e_path d | d. d \<in> set es \<and> e_kind d = Directory}"

definition tree_shaped :: "manifest_entry list \<Rightarrow> bool" where
  "tree_shaped es \<longleftrightarrow> sorted_wrt (<) (map e_path es)
     \<and> (\<forall>e\<in>set es. entry_ok e \<and> set (parents (e_path e)) \<subseteq> directories es)"

lemma directories_append [simp]: "directories (xs @ ys) = directories xs \<union> directories ys"
  by (auto simp: directories_def)

lemma validate_from_iff:
  assumes "sorted_wrt (<) (map e_path before)"
    "previous = (if before = [] then None else Some (e_path (last before)))"
    "\<And>q k. (kinds q = Some k) = (\<exists>d\<in>set before. e_path d = q \<and> e_kind d = k)"
  shows "(validate_from previous kinds es = Inr ())
    = (sorted_wrt (<) (map e_path (before @ es))
       \<and> (\<forall>e\<in>set es. entry_ok e \<and> set (parents (e_path e)) \<subseteq> directories (before @ es)))"
  using assms
proof (induction es arbitrary: previous kinds before)
  case (Cons e es)
  have srt: "(case previous of None \<Rightarrow> True | Some v \<Rightarrow> v < e_path e) = (\<forall>d\<in>set before. e_path d < e_path e)"
  proof (cases "before = []")
    case False
    then obtain ds d where d: "before = ds @ [d]" by (metis append_butlast_last_id)
    then have "\<forall>x\<in>set ds. e_path x < e_path d" using Cons.prems(1) by (simp add: sorted_wrt_append)
    then show ?thesis using d Cons.prems(2) by auto
  qed (simp add: Cons.prems(2))
  have par: "(\<forall>q\<in>set (parents (e_path e)). kinds q = Some Directory)
      = (set (parents (e_path e)) \<subseteq> directories before)"
    by (auto simp: Cons.prems(3) directories_def)
  have earlier: "set (parents (e_path e)) \<subseteq> directories (before @ e # es) \<Longrightarrow>
      sorted_wrt (<) (map e_path (before @ e # es)) \<Longrightarrow> set (parents (e_path e)) \<subseteq> directories before"
  proof
    fix q assume a: "set (parents (e_path e)) \<subseteq> directories (before @ e # es)"
      "sorted_wrt (<) (map e_path (before @ e # es))" "q \<in> set (parents (e_path e))"
    then have "q < e_path e" using parent_less by (auto simp: set_parents)
    moreover obtain d where d: "d \<in> set (before @ e # es)" "e_path d = q" "e_kind d = Directory"
      using a(1,3) by (auto simp: directories_def)
    ultimately have "d \<in> set before" using a(2) by (auto simp: sorted_wrt_append dest: less_asym)
    with d show "q \<in> directories before" by (auto simp: directories_def)
  qed
  show ?case
  proof (cases "entry_ok e \<and> (\<forall>d\<in>set before. e_path d < e_path e) \<and> set (parents (e_path e)) \<subseteq> directories before")
    case False
    then have "validate_from previous kinds (e # es) \<noteq> Inr ()"
      using srt par by (auto simp: validate_relative_path_cases entry_ok_def not_less [symmetric]
        split: option.splits entry_kind.splits if_splits)
    moreover have "\<not> (sorted_wrt (<) (map e_path (before @ e # es)) \<and> entry_ok e
        \<and> set (parents (e_path e)) \<subseteq> directories (before @ e # es))"
      using False earlier by (auto simp: sorted_wrt_append)
    ultimately show ?thesis by auto
  next
    case True
    have "validate_from previous kinds (e # es)
        = validate_from (Some (e_path e)) (kinds(e_path e \<mapsto> e_kind e)) es"
      using True srt par by (auto simp: validate_relative_path_cases entry_ok_def not_less [symmetric]
        split: option.splits entry_kind.splits if_splits)
    moreover have "sorted_wrt (<) (map e_path (before @ [e]))"
      using True Cons.prems(1) by (simp add: sorted_wrt_append)
    moreover have "((kinds(e_path e \<mapsto> e_kind e)) q = Some k)
        = (\<exists>d\<in>set (before @ [e]). e_path d = q \<and> e_kind d = k)" for q k
    proof -
      have "\<forall>d\<in>set before. e_path d \<noteq> e_path e" using True by auto
      then show ?thesis using Cons.prems(3) by auto
    qed
    ultimately show ?thesis
      using Cons.IH [of "before @ [e]"] True by auto
  qed
qed simp

lemma validate_entries_iff:
  "(validate_entries es = Inr ()) = (length es \<le> MAX_MANIFEST_ENTRIES \<and> tree_shaped es)"
  using validate_from_iff [of "[]" None Map.empty es] by (auto simp: validate_entries_def tree_shaped_def)

text \<open>Resolving a relative path lexically: the components are followed one by one.\<close>

definition resolve :: "bytes list \<Rightarrow> bytes list \<Rightarrow> bytes list" where
  "resolve base parts = foldl (\<lambda>dir part.
     if part = [] \<or> part = [0x2E] then dir else if part = [0x2E, 0x2E] then butlast dir else dir @ [part]) base parts"

lemma resolve_proper: "\<forall>n\<in>set ns. proper_name n \<Longrightarrow> resolve base ns = base @ ns"
  by (induction ns arbitrary: base) (auto simp: resolve_def proper_name_def)

lemma safe_path_stays_below:
  assumes "safe_path p"
  shows "resolve base (split_on slash p) = base @ split_on slash p" "p = join_with slash (split_on slash p)"
    "p ! 0 \<noteq> slash"
proof -
  obtain ns where "ns \<noteq> []" "\<forall>n\<in>set ns. proper_name n" "p = join_with slash ns"
    using assms by (auto simp: safe_path_def)
  then have "split_on slash p = ns" "\<forall>n\<in>set ns. proper_name n" by (auto simp: split_on_join proper_name_def)
  then show "resolve base (split_on slash p) = base @ split_on slash p" by (simp add: resolve_proper)
  show "p ! 0 \<noteq> slash" using assms validate_relative_path_iff [of p]
    by (auto simp: validate_relative_path_def split: if_splits)
qed (simp add: join_split_on)

section \<open>The round trip\<close>

text \<open>Besides what \<open>validate_entries\<close> checks, the types of the fields.\<close>

definition entry_typed :: "manifest_entry \<Rightarrow> bool" where
  "entry_typed e \<longleftrightarrow> is_i64 (e_seconds e) \<and> is_u64 (e_size e) \<and> (\<forall>h. e_hash e = Some h \<longrightarrow> length h = 32)"

definition wf_dir_manifest :: "(bytes \<Rightarrow> 256 word) \<Rightarrow> dir_manifest \<Rightarrow> bool" where
  "wf_dir_manifest sha m \<longleftrightarrow> length (d_entries m) \<le> MAX_MANIFEST_ENTRIES \<and> tree_shaped (d_entries m)
     \<and> (\<forall>e\<in>set (d_entries m). entry_typed e)
     \<and> d_root_mode m \<le> 511 \<and> is_i64 (d_root_seconds m)
     \<and> 0 \<le> d_root_nanoseconds m \<and> d_root_nanoseconds m < 1000000000
     \<and> (\<exists>body. dir_canonical_body (d_entries m) (d_root_mode m) (d_root_seconds m) (d_root_nanoseconds m) = Inr body
          \<and> d_hash m = digest sha (as_bytes body))"

definition entry_fields :: "manifest_entry \<Rightarrow> string list" where
  "entry_fields e =
     (case e_kind e of
        Directory \<Rightarrow> [''D'', hex (e_path e), show_nat (e_mode e), show_int (e_seconds e), show_int (e_nanoseconds e)]
      | File \<Rightarrow> [''F'', hex (e_path e), show_nat (e_size e), hex (the (e_hash e)), show_nat (e_mode e),
          show_int (e_seconds e), show_int (e_nanoseconds e)])"

lemma safe_path_nonempty: "safe_path p \<Longrightarrow> p \<noteq> []"
  using validate_relative_path_iff [of p] by (auto simp: validate_relative_path_def)

lemma entry_line_fields:
  assumes "entry_ok e" shows "entry_line e = Inr (join_with sp (entry_fields e))"
  using assms by (auto simp: entry_line_def entry_fields_def entry_ok_def dir_hex_eq split: entry_kind.splits option.splits)

lemma entry_fields_field:
  assumes "entry_ok e" "entry_typed e" "f \<in> set (entry_fields e)" shows "field f"
proof -
  have "field ''D''" "field ''F''" by (simp_all add: field_def)
  moreover have "e_path e \<noteq> []" using assms(1) by (simp add: entry_ok_def safe_path_nonempty)
  moreover have "e_hash e = Some h \<Longrightarrow> h \<noteq> []" for h using assms(2) by (auto simp: entry_typed_def)
  ultimately show ?thesis
    using assms(1,3) by (auto simp: entry_fields_def entry_ok_def split: entry_kind.splits)
qed

lemma entry_line_clean:
  assumes "entry_ok e" "entry_typed e"
  shows "lf \<notin> set (join_with sp (entry_fields e)) \<and> cr \<notin> set (join_with sp (entry_fields e))"
  using entry_fields_field [OF assms] field_no_space in_join_with [of _ sp "entry_fields e"] by fastforce

lemma split_entry_line:
  assumes "entry_ok e" "entry_typed e"
  shows "split_on sp (join_with sp (entry_fields e)) = entry_fields e"
proof (rule split_on_join)
  show "entry_fields e \<noteq> []" by (simp add: entry_fields_def split: entry_kind.splits)
qed (use entry_fields_field [OF assms] field_no_space in blast)

lemma parse_entry_line [codec_simps]:
  assumes "entry_ok e" "entry_typed e" shows "parse_entry (join_with sp (entry_fields e)) = Inr e"
proof -
  have p: "decode_path (hex (e_path e)) = Inr (e_path e)" "parse_mode (show_nat (e_mode e)) = Inr (e_mode e)"
    "parse_i64 (show_int (e_seconds e)) = Inr (e_seconds e)"
    "parse_nanoseconds (show_int (e_nanoseconds e)) = Inr (e_nanoseconds e)"
    "dir_parse_u64 (show_nat (e_size e)) = Inr (e_size e)"
    using assms by (simp_all add: decode_path_iff parse_mode_iff i64_codec.dec_iff parse_nanoseconds_iff
      dir_u64_codec.dec_iff entry_ok_def entry_typed_def)
  show ?thesis
  proof (cases "e_kind e")
    case Directory
    then show ?thesis using assms(1) p unfolding parse_entry_def split_entry_line [OF assms]
      by (simp add: entry_fields_def entry_ok_def)
  next
    case File
    then obtain h where h: "e_hash e = Some h" "length h = 32"
      using assms by (auto simp: entry_ok_def entry_typed_def)
    then show ?thesis using File p unfolding parse_entry_def split_entry_line [OF assms]
      by (simp add: entry_fields_def dir_decode_hash_hex)
  qed
qed

lemma parse_entry_Inr:
  assumes "parse_entry line = Inr e" shows "entry_ok e \<and> entry_typed e"
  using assms
  by (auto simp: parse_entry_def and_then_eq_Inr decode_path_iff parse_mode_iff i64_codec.dec_iff
      parse_nanoseconds_iff dir_u64_codec.dec_iff entry_ok_def entry_typed_def is_u64_def
      dest!: dir_decode_hash_Inr split: list.splits if_splits)

lemma parse_entries_lines:
  "(\<forall>e\<in>set es. entry_ok e \<and> entry_typed e) \<Longrightarrow>
    parse_entries (length es) (map (\<lambda>e. join_with sp (entry_fields e)) es @ rest)
      = Inr (es, map (\<lambda>e. join_with sp (entry_fields e)) es, rest)"
  by (induction es) (auto simp: parse_entry_line)

lemma parse_entries_Inr:
  "parse_entries n ls = Inr (es, read, rest) \<Longrightarrow>
    ls = read @ rest \<and> length es = n \<and> (\<forall>e\<in>set es. entry_ok e \<and> entry_typed e)"
proof (induction n arbitrary: ls es read)
  case (Suc n)
  then obtain line ls' where ls: "ls = line # ls'" by (cases ls) auto
  from Suc.prems obtain e es' read' where
    p: "parse_entry line = Inr e" "parse_entries n ls' = Inr (es', read', rest)" "es = e # es'" "read = line # read'"
    unfolding ls by (auto simp: and_then_eq_Inr)
  from Suc.IH [OF p(2)] parse_entry_Inr [OF p(1)] show ?case by (auto simp: ls p(3,4))
qed simp

lemma canonical_body_lines:
  assumes "\<forall>e\<in>set es. entry_ok e"
  shows "dir_canonical_body es mode secs nanos
    = Inr (unlines (dir_header_line (length es) mode secs nanos # map (\<lambda>e. join_with sp (entry_fields e)) es))"
  using assms by (simp add: dir_canonical_body_def collect_map_Inr [where g = "\<lambda>e. join_with sp (entry_fields e)"] entry_line_fields)

lemma dir_header_fields:
  "split_on sp (dir_header_line n mode secs nanos)
    = [''PTM1'', show_nat n, show_nat mode, show_int secs, show_int nanos]"
  using split_on_join [of "[''PTM1'', show_nat n, show_nat mode, show_int secs, show_int nanos]" sp]
  by (simp add: dir_header_line_def field_no_space)

lemma dir_header_clean: "lf \<notin> set (dir_header_line n mode secs nanos) \<and> cr \<notin> set (dir_header_line n mode secs nanos)"
  using field_no_space [OF show_nat_field] field_no_space [OF show_int_field] by (simp add: dir_header_line_def)

lemma dir_parse_encode:
  assumes w: "wf_dir_manifest sha m" and e: "dir_encode m = Inr s" and l: "length s \<le> MAX_MANIFEST_BYTES"
  shows "dir_parse sha s = Inr m"
proof -
  let ?es = "d_entries m"
  let ?h = "dir_header_line (length ?es) (d_root_mode m) (d_root_seconds m) (d_root_nanoseconds m)"
  let ?ls = "map (\<lambda>e. join_with sp (entry_fields e)) ?es" and ?f = "''HASH '' @ hex (d_hash m)"
  from w have es: "length ?es \<le> MAX_MANIFEST_ENTRIES" "tree_shaped ?es" "\<forall>e\<in>set ?es. entry_ok e \<and> entry_typed e"
    by (simp_all add: wf_dir_manifest_def tree_shaped_def)
  then have body: "dir_canonical_body ?es (d_root_mode m) (d_root_seconds m) (d_root_nanoseconds m) = Inr (unlines (?h # ?ls))"
    using canonical_body_lines by blast
  then have hash: "d_hash m = digest sha (as_bytes (unlines (?h # ?ls)))" using w by (auto simp: wf_dir_manifest_def)
  have s: "s = unlines (?h # ?ls @ [?f])" using e body by (auto simp: dir_encode_def and_then_eq_Inr)
  have clean: "\<forall>x\<in>set (?h # ?ls @ [?f]). lf \<notin> set x \<and> cr \<notin> set x"
    using dir_header_clean entry_line_clean es(3) by (auto simp: hex_notin lower_hex_def is_ascii_hexdigit_def is_ascii_digit_def)
  then have ln: "lines s = ?h # ?ls @ [?f]" unfolding s by (rule lines_unlines)
  have "cr \<notin> set s" "s \<noteq> []" "last s = lf" using clean by (auto simp: s unlines_def)
  moreover have "parse_entries (length ?es) (?ls @ [?f]) = Inr (?es, ?ls, [?f])"
    using es(3) by (rule parse_entries_lines)
  moreover have "parse_usize (show_nat (length ?es)) = Inr (length ?es)" "parse_mode (show_nat (d_root_mode m)) = Inr (d_root_mode m)"
    "parse_i64 (show_int (d_root_seconds m)) = Inr (d_root_seconds m)"
    "parse_nanoseconds (show_int (d_root_nanoseconds m)) = Inr (d_root_nanoseconds m)"
    using w by (simp_all add: wf_dir_manifest_def parse_usize_def dir_u64_codec.dec_iff parse_mode_iff i64_codec.dec_iff
      parse_nanoseconds_iff is_u64_def MAX_MANIFEST_ENTRIES_def)
  moreover have "validate_entries ?es = Inr ()" using es by (simp add: validate_entries_iff)
  moreover have "length (d_hash m) = 32" using hash by simp
  ultimately show ?thesis
    using l ln es(1) body hash
    by (simp add: dir_parse_def dir_parse_footer_def dir_header_fields dir_decode_hash_hex Let_def
        strip_prefix_append [of "''HASH ''", simplified])
qed

lemma dir_parse_Inr:
  assumes "dir_parse sha s = Inr m"
  shows "wf_dir_manifest sha m \<and> dir_encode m = Inr s \<and> length s \<le> MAX_MANIFEST_BYTES"
proof -
  from assms have s: "length s \<le> MAX_MANIFEST_BYTES" "s \<noteq> []" "last s = lf" "cr \<notin> set s"
    by (auto simp: dir_parse_def split: if_splits)
  from assms s obtain header ls count mode secs nanos es read rest where
    p: "lines s = header # ls" "parse_mode (split_on sp header ! 2) = Inr mode"
      "parse_i64 (split_on sp header ! 3) = Inr secs" "parse_nanoseconds (split_on sp header ! 4) = Inr nanos"
      "parse_entries count ls = Inr (es, read, rest)"
    and q: "dir_parse_footer sha es mode secs nanos (header @ [lf] @ unlines read) rest = Inr m"
    by (auto simp: dir_parse_def and_then_eq_Inr Let_def split: if_splits list.splits prod.splits)
  let ?body = "header @ [lf] @ unlines read"
  from q obtain footer hx h where f: "rest = [footer]" "strip_prefix ''HASH '' footer = Some hx"
    "dir_decode_hash hx = Inr h" "h = digest sha (as_bytes ?body)" "validate_entries es = Inr ()"
    "dir_canonical_body es mode secs nanos = Inr ?body"
    "m = \<lparr>d_entries = es, d_root_mode = mode, d_root_seconds = secs, d_root_nanoseconds = nanos, d_hash = h\<rparr>"
    by (auto simp: dir_parse_footer_def and_then_eq_Inr split: list.splits if_splits)
  from parse_entries_Inr [OF p(5)] have c: "ls = read @ rest" "\<forall>e\<in>set es. entry_typed e" by simp_all
  have "wf_dir_manifest sha m" using c(2) f(4-7) p(2-4)
    by (simp add: wf_dir_manifest_def validate_entries_iff parse_mode_iff i64_codec.dec_iff parse_nanoseconds_iff)
  moreover have "footer = ''HASH '' @ hex h" using f(2) dir_decode_hash_Inr [OF f(3)] by (simp add: strip_prefix_Some)
  then have "dir_encode m = Inr (unlines (lines s))"
    using f(1,6,7) p(1) c(1) by (simp add: dir_encode_def)
  then have "dir_encode m = Inr s" using unlines_lines [of s] s by simp
  ultimately show ?thesis using s by blast
qed

lemma dir_parse_iff:
  "(dir_parse sha s = Inr m) = (wf_dir_manifest sha m \<and> dir_encode m = Inr s \<and> length s \<le> MAX_MANIFEST_BYTES)"
  using dir_parse_encode dir_parse_Inr by blast

text \<open>A well-formed manifest can be encoded: no entry makes \<open>expect\<close> panic.\<close>

lemma wf_dir_encode:
  "wf_dir_manifest sha m \<Longrightarrow> dir_encode m = Inr (unlines
    (dir_header_line (length (d_entries m)) (d_root_mode m) (d_root_seconds m) (d_root_nanoseconds m)
      # map (\<lambda>e. join_with sp (entry_fields e)) (d_entries m) @ [''HASH '' @ hex (d_hash m)]))"
  by (simp add: dir_encode_def canonical_body_lines wf_dir_manifest_def tree_shaped_def)

interpretation dir_manifest_codec: canonical_codec
  "\<lambda>m. case dir_encode m of Inr s \<Rightarrow> s | Inl e \<Rightarrow> []" "dir_parse sha"
  "\<lambda>m. wf_dir_manifest sha m \<and> (\<forall>s. dir_encode m = Inr s \<longrightarrow> length s \<le> MAX_MANIFEST_BYTES)" for sha
  by unfold_locales (auto simp: dir_parse_iff dest: wf_dir_encode)

end
