(* ===== verification/Dir_Scan.thy ===== *)
theory Dir_Scan
  imports Dir_Manifest "HOL-Library.Multiset"
begin

text \<open>
  Building the manifest of a directory (\<open>build\<close>, \<open>scan\<close>, \<open>entry\<close> and \<open>hash_file\<close> of
  \<open>src/directory.rs\<close>).

  What the system calls return during the scan is the argument: a \<open>snapshot\<close> per name found,
  with the result of \<open>symlink_metadata\<close>, of \<open>read_dir\<close> (used when it is a directory) and of
  opening and reading (used when it is a file).  Nothing ties the answers together, so a tree that
  changes during the scan is covered.  The lemmas characterise when a scan succeeds and what it
  then returns, and that the manifest built is one that \<open>parse\<close> accepts.
\<close>

section \<open>Observations\<close>

datatype file_type = Is_dir | Is_file | Is_symlink | Is_other

record metadata =
  md_type :: file_type
  md_mode :: nat
  md_mtime :: int
  md_nsec :: int
  md_size :: nat
  md_dev :: nat
  md_ino :: nat

text \<open>What \<open>hash_file\<close> reads: the blocks until the end or an error.\<close>

type_synonym reads = "bytes list \<times> error option"

record opened =
  op_before :: "metadata result"
  op_reads :: reads
  op_after :: "metadata result"

datatype snapshot =
  Snapshot (sn_name: bytes) (sn_metadata: "metadata result") (sn_children: "snapshot list result")
    (sn_opened: "opened result")

section \<open>The scan\<close>

definition manifest_entry_of :: "bytes \<Rightarrow> entry_kind \<Rightarrow> metadata \<Rightarrow> nat \<Rightarrow> bytes option \<Rightarrow> manifest_entry" where
  "manifest_entry_of path kind md sz hash =
     \<lparr>e_path = path, e_kind = kind, e_mode = md_mode md mod 512, e_seconds = md_mtime md,
      e_nanoseconds = md_nsec md, e_size = sz, e_hash = hash\<rparr>"

fun sum_blocks :: "nat \<Rightarrow> bytes list \<Rightarrow> nat result" where
  "sum_blocks n [] = Inr n"
| "sum_blocks n (b # bs) =
     and_then (ok_or (checked_add n (length b)) ''file size overflow'') (\<lambda>n. sum_blocks n bs)"

definition dir_hash_file :: "(bytes \<Rightarrow> 256 word) \<Rightarrow> reads \<Rightarrow> (nat \<times> bytes) result" where
  "dir_hash_file sha r =
     and_then (sum_blocks 0 (fst r)) (\<lambda>sz.
       case snd r of Some e \<Rightarrow> Inl e | None \<Rightarrow> Inr (sz, digest sha (concat (fst r))))"

definition child_path :: "bytes \<Rightarrow> bytes \<Rightarrow> bytes" where
  "child_path base name = (if base = [] then name else base @ slash # name)"

definition scan_file :: "(bytes \<Rightarrow> 256 word) \<Rightarrow> bytes \<Rightarrow> metadata \<Rightarrow> opened result \<Rightarrow> manifest_entry result" where
  "scan_file sha path md opened =
     and_then opened (\<lambda>f.
     and_then (op_before f) (\<lambda>before.
     if md_type before \<noteq> Is_file \<or> md_dev before \<noteq> md_dev md \<or> md_ino before \<noteq> md_ino md
     then Inl (Err ''manifest source changed while it was scanned'')
     else
     and_then (dir_hash_file sha (op_reads f)) (\<lambda>(sz, hash).
     and_then (op_after f) (\<lambda>after.
     if md_size after \<noteq> sz \<or> md_mtime after \<noteq> md_mtime before \<or> md_nsec after \<noteq> md_nsec before
     then Inl (Err ''manifest source changed while it was hashed'')
     else Inr (manifest_entry_of path File after sz (Some hash))))))"

text \<open>\<open>dir_scan sha base children entries\<close> is the loop of \<open>scan\<close> over the remaining children of
  \<open>base\<close>; sorting the names does not change the measure.\<close>

lemma size_list_sort: "size_list size (sort_key k xs) = size_list size xs"
proof -
  have "mset (map f (sort_key k xs)) = mset (map f xs)" for f :: "'a \<Rightarrow> nat" by simp
  then have "sum_list (map f (sort_key k xs)) = sum_list (map f xs)" for f :: "'a \<Rightarrow> nat"
    by (metis sum_mset_sum_list)
  then show ?thesis by (simp add: size_list_conv_sum_list)
qed

function dir_scan ::
    "(bytes \<Rightarrow> 256 word) \<Rightarrow> bytes \<Rightarrow> snapshot list \<Rightarrow> manifest_entry list \<Rightarrow> manifest_entry list result" where
  "dir_scan sha base [] entries = Inr entries"
| "dir_scan sha base (Snapshot name smd children opened # rest) entries =
     (if MAX_MANIFEST_ENTRIES \<le> length entries then Inl (Err ''manifest entry limit exceeded'')
      else
      and_then smd (\<lambda>md.
      let path = child_path base name in
      and_then (validate_relative_path path) (\<lambda>_.
      case md_type md of
        Is_symlink \<Rightarrow> Inl (Err (''symlinks are not supported: '' @ chars_of path))
      | Is_dir \<Rightarrow>
          (case children of
             Inl e \<Rightarrow> Inl e
           | Inr cs \<Rightarrow>
              (case dir_scan sha path (sort_key sn_name cs)
                  (entries @ [manifest_entry_of path Directory md 0 None]) of
                 Inl e \<Rightarrow> Inl e
               | Inr entries' \<Rightarrow> dir_scan sha base rest entries'))
      | Is_file \<Rightarrow>
          (case scan_file sha path md opened of
             Inl e \<Rightarrow> Inl e
           | Inr entry \<Rightarrow> dir_scan sha base rest (entries @ [entry]))
      | Is_other \<Rightarrow> Inl (Err (''unsupported filesystem entry: '' @ chars_of path)))))"
  by pat_completeness auto
termination
  by (relation "measure (\<lambda>(sha, base, cs, entries). size_list size cs)") (auto simp: size_list_sort)

definition build ::
    "(bytes \<Rightarrow> 256 word) \<Rightarrow> metadata result \<Rightarrow> snapshot list result \<Rightarrow> dir_manifest result" where
  "build sha root children =
     and_then root (\<lambda>md.
      if md_type md \<noteq> Is_dir then Inl (Err ''directory manifest root must be a real directory'')
      else
      and_then children (\<lambda>cs.
      and_then (dir_scan sha [] (sort_key sn_name cs) []) (\<lambda>es.
      let entries = sort_key e_path es in
      and_then (validate_entries entries) (\<lambda>_.
      and_then (dir_canonical_body entries (md_mode md mod 512) (md_mtime md) (md_nsec md)) (\<lambda>body.
      if MAX_MANIFEST_BYTES < sat_add (length body) 70 then Inl (Err ''manifest byte limit exceeded'')
      else Inr \<lparr>d_entries = entries, d_root_mode = md_mode md mod 512, d_root_seconds = md_mtime md,
        d_root_nanoseconds = md_nsec md, d_hash = digest sha (as_bytes body)\<rparr>)))))"

section \<open>When a scan succeeds, and what it returns\<close>

text \<open>What an entry and everything below it contributes.\<close>

function observed :: "(bytes \<Rightarrow> 256 word) \<Rightarrow> bytes \<Rightarrow> snapshot \<Rightarrow> manifest_entry list" where
  "observed sha base (Snapshot name smd children opened) =
     (let path = child_path base name in
      case smd of
        Inl _ \<Rightarrow> []
      | Inr md \<Rightarrow>
         (case md_type md of
            Is_dir \<Rightarrow> manifest_entry_of path Directory md 0 None #
              (case children of Inl _ \<Rightarrow> []
               | Inr cs \<Rightarrow> concat (map (observed sha path) (sort_key sn_name cs)))
          | Is_file \<Rightarrow> (case scan_file sha path md opened of Inl _ \<Rightarrow> [] | Inr e \<Rightarrow> [e])
          | _ \<Rightarrow> []))"
  by pat_completeness auto
termination
  by (relation "measure (\<lambda>(sha, base, c). size c)")
    (auto dest!: size_list_estimation' [OF _ order_refl, where f = size])

text \<open>Nothing unsupported, unsafe or changing is found.\<close>

function acceptable :: "(bytes \<Rightarrow> 256 word) \<Rightarrow> bytes \<Rightarrow> snapshot \<Rightarrow> bool" where
  "acceptable sha base (Snapshot name smd children opened) =
     (let path = child_path base name in
      safe_path path \<and>
      (case smd of
        Inl _ \<Rightarrow> False
      | Inr md \<Rightarrow>
         (case md_type md of
            Is_dir \<Rightarrow> (case children of Inl _ \<Rightarrow> False | Inr cs \<Rightarrow> list_all (acceptable sha path) cs)
          | Is_file \<Rightarrow> is_ok (scan_file sha path md opened)
          | _ \<Rightarrow> False)))"
  by pat_completeness auto
termination
  by (relation "measure (\<lambda>(sha, base, c). size c)")
    (auto dest!: size_list_estimation' [OF _ order_refl, where f = size])

lemma list_all_sort [simp]: "list_all P (sort_key k xs) = list_all P xs"
  by (simp add: list_all_iff)

lemma manifest_entry_of_simps [simp]:
  "e_path (manifest_entry_of p k md z h) = p" "e_kind (manifest_entry_of p k md z h) = k"
  "e_mode (manifest_entry_of p k md z h) = md_mode md mod 512" "e_seconds (manifest_entry_of p k md z h) = md_mtime md"
  "e_nanoseconds (manifest_entry_of p k md z h) = md_nsec md" "e_size (manifest_entry_of p k md z h) = z"
  "e_hash (manifest_entry_of p k md z h) = h"
  by (simp_all add: manifest_entry_of_def)

lemma dir_scan_iff:
  "length entries \<le> MAX_MANIFEST_ENTRIES \<Longrightarrow>
    (dir_scan sha base cs entries = Inr r)
    = (list_all (acceptable sha base) cs \<and> r = entries @ concat (map (observed sha base) cs)
       \<and> length r \<le> MAX_MANIFEST_ENTRIES)"
proof (induction sha base cs entries arbitrary: r rule: dir_scan.induct)
  case (2 sha base name smd children opened rest entries)
  let ?path = "child_path base name"
  show ?case
  proof (cases "MAX_MANIFEST_ENTRIES \<le> length entries \<or> \<not> is_ok smd \<or> \<not> safe_path ?path")
    case True
    then consider "length entries = MAX_MANIFEST_ENTRIES" | "\<not> is_ok smd" | "\<not> safe_path ?path"
      using 2(4) by fastforce
    then show ?thesis
    proof cases
      case 1
      have "acceptable sha base (Snapshot name smd children opened) \<Longrightarrow>
          observed sha base (Snapshot name smd children opened) \<noteq> []"
        by (auto simp: Let_def is_ok_def split: sum.splits file_type.splits)
      then show ?thesis using 1 by (cases "observed sha base (Snapshot name smd children opened)") auto
    next
      case 2
      then show ?thesis by (auto simp: is_ok_def and_then_def Let_def split: sum.splits)
    next
      case 3
      then show ?thesis by (auto simp: validate_relative_path_cases and_then_def Let_def split: sum.splits)
    qed
  next
    case False
    then obtain md where md: "smd = Inr md" by (cases smd) auto
    note ok = False 2(4)
    show ?thesis
    proof (cases "md_type md")
      case Is_dir
      show ?thesis
      proof (cases children)
        case (Inr cs)
        let ?e = "manifest_entry_of ?path Directory md 0 None"
        have inner: "(dir_scan sha ?path (sort_key sn_name cs) (entries @ [?e]) = Inr r')
            = (list_all (acceptable sha ?path) cs \<and> r' = entries @ ?e # concat (map (observed sha ?path) (sort_key sn_name cs))
               \<and> length r' \<le> MAX_MANIFEST_ENTRIES)" for r'
          using 2(1) [OF _ refl Is_dir Inr, of r'] ok by auto
        show ?thesis
        proof (cases "dir_scan sha ?path (sort_key sn_name cs) (entries @ [?e])")
          case Inl
          then have "\<not> (list_all (acceptable sha ?path) cs
              \<and> length (entries @ ?e # concat (map (observed sha ?path) (sort_key sn_name cs))) \<le> MAX_MANIFEST_ENTRIES)"
            using inner by (metis sum.distinct(1))
          then show ?thesis using Inl ok md Is_dir Inr by (auto simp: validate_relative_path_cases Let_def)
        next
          case r': (Inr r')
          have r'': "list_all (acceptable sha ?path) cs"
            "r' = entries @ ?e # concat (map (observed sha ?path) (sort_key sn_name cs))" "length r' \<le> MAX_MANIFEST_ENTRIES"
            using iffD1 [OF inner r'] by blast+
          have "(dir_scan sha base rest r' = Inr r) = (list_all (acceptable sha base) rest
              \<and> r = r' @ concat (map (observed sha base) rest) \<and> length r \<le> MAX_MANIFEST_ENTRIES)"
            using 2(2) [OF _ refl Is_dir Inr r' r''(3), of r] ok by auto
          then show ?thesis using r' r''(1,2) ok md Is_dir Inr by (auto simp: validate_relative_path_cases Let_def)
        qed
      qed (use ok md Is_dir in \<open>auto simp: validate_relative_path_cases Let_def\<close>)
    next
      case Is_file
      show ?thesis
      proof (cases "scan_file sha ?path md opened")
        case (Inr e)
        have "(dir_scan sha base rest (entries @ [e]) = Inr r) = (list_all (acceptable sha base) rest
            \<and> r = entries @ e # concat (map (observed sha base) rest) \<and> length r \<le> MAX_MANIFEST_ENTRIES)"
          using 2(3) [OF _ refl Is_file Inr, of r] ok by auto
        then show ?thesis using ok md Is_file Inr by (auto simp: validate_relative_path_cases Let_def)
      qed (use ok md Is_file in \<open>auto simp: validate_relative_path_cases Let_def\<close>)
    qed (use ok md in \<open>auto simp: validate_relative_path_cases Let_def\<close>)
  qed
qed auto

section \<open>The entries form a tree\<close>

text \<open>The names in a directory are distinct and hold no slash, which \<open>read_dir\<close> guarantees.\<close>

function well_named :: "snapshot \<Rightarrow> bool" where
  "well_named (Snapshot name smd children opened) =
     (slash \<notin> set name \<and>
      (case children of Inl _ \<Rightarrow> True | Inr cs \<Rightarrow> distinct (map sn_name cs) \<and> list_all well_named cs))"
  by pat_completeness auto
termination
  by (relation "measure size") (auto dest!: size_list_estimation' [OF _ order_refl, where f = size])

definition below :: "bytes \<Rightarrow> bytes \<Rightarrow> bool" where
  "below p q \<longleftrightarrow> q = p \<or> (\<exists>r. q = p @ slash # r)"

lemma acceptable_safe: "acceptable sha base c \<Longrightarrow> safe_path (child_path base (sn_name c))"
  by (cases c) (simp add: Let_def)

lemma child_path_nonempty: "acceptable sha base c \<Longrightarrow> child_path base (sn_name c) \<noteq> []"
  by (rule safe_path_nonempty [OF acceptable_safe])

lemma below_child: "base \<noteq> [] \<Longrightarrow> below (child_path base n) p \<Longrightarrow> \<exists>r. p = base @ slash # r"
  by (auto simp: below_def child_path_def)

lemma mode_bound [simp]: "md_mode md mod 512 \<le> 511"
  using mod_less_divisor [of 512 "md_mode md"] by linarith

lemma directories_simps [simp]: "directories [] = {}"
  "directories (e # es) = (if e_kind e = Directory then {e_path e} else {}) \<union> directories es"
  "directories (concat (map f xs)) = (\<Union>x\<in>set xs. directories (f x))"
  by (auto simp: directories_def)

text \<open>One induction for everything that an entry inherits from its place in the tree.\<close>

lemma observed_cases:
  assumes "acceptable sha base c" "e \<in> set (observed sha base c)"
  obtains (here) "e_path e = child_path base (sn_name c)" "e_mode e \<le> 511"
      "e_kind e = Directory \<and> e_size e = 0 \<and> e_hash e = None \<or> e_kind e = File \<and> is_u64 (e_size e)
        \<and> (\<exists>h. e_hash e = Some h \<and> length h = 32)"
  | (inside) cs d where "sn_children c = Inr cs" "d \<in> set cs" "acceptable sha (child_path base (sn_name c)) d"
      "e \<in> set (observed sha (child_path base (sn_name c)) d)"
      "child_path base (sn_name c) \<in> directories (observed sha base c)"
      "directories (observed sha (child_path base (sn_name c)) d) \<subseteq> directories (observed sha base c)"
proof -
  obtain name smd children opened where c: "c = Snapshot name smd children opened" by (cases c)
  from assms(1) obtain md where md: "smd = Inr md" by (cases smd) (auto simp: c Let_def)
  show thesis
  proof (cases "md_type md")
    case Is_dir
    then obtain cs where cs: "children = Inr cs" using assms(1) by (cases children) (auto simp: c md Let_def)
    show thesis
    proof (cases "e = manifest_entry_of (child_path base name) Directory md 0 None")
      case True
      then show thesis by (intro here) (auto simp: c)
    next
      case False
      then obtain d where "d \<in> set cs" "e \<in> set (observed sha (child_path base name) d)"
        using assms(2) Is_dir cs by (auto simp: c md Let_def)
      moreover from this have "acceptable sha (child_path base name) d"
        using assms(1) Is_dir cs by (auto simp: c md Let_def list_all_iff)
      ultimately show thesis using Is_dir cs
        by (intro inside [of cs d]) (auto simp: c md Let_def)
    qed
  next
    case Is_file
    then have e: "scan_file sha (child_path base name) md opened = Inr e"
      using assms by (auto simp: c md Let_def is_ok_def split: sum.splits)
    have sz: "sum_blocks n bs = Inr z \<Longrightarrow> is_u64 n \<Longrightarrow> is_u64 z" for n bs z
      by (induction bs arbitrary: n) (auto simp: and_then_eq_Inr is_u64_def)
    from e show thesis
      by (intro here) (auto simp: c scan_file_def and_then_eq_Inr dir_hash_file_def is_u64_def
          split: if_splits option.splits dest!: sz [unfolded is_u64_def])
  qed (use assms in \<open>auto simp: c md Let_def\<close>)
qed

lemma observed_induct [consumes 2, case_names here inside]:
  assumes "acceptable sha base c" "e \<in> set (observed sha base c)"
    and "\<And>base c. acceptable sha base c \<Longrightarrow> e_path e = child_path base (sn_name c) \<Longrightarrow> e_mode e \<le> 511 \<Longrightarrow>
      e_kind e = Directory \<and> e_size e = 0 \<and> e_hash e = None \<or> e_kind e = File \<and> is_u64 (e_size e)
        \<and> (\<exists>h. e_hash e = Some h \<and> length h = 32) \<Longrightarrow> P base c"
    and "\<And>base c cs d. acceptable sha base c \<Longrightarrow> sn_children c = Inr cs \<Longrightarrow> d \<in> set cs \<Longrightarrow>
      acceptable sha (child_path base (sn_name c)) d \<Longrightarrow>
      child_path base (sn_name c) \<in> directories (observed sha base c) \<Longrightarrow>
      directories (observed sha (child_path base (sn_name c)) d) \<subseteq> directories (observed sha base c) \<Longrightarrow>
      P (child_path base (sn_name c)) d \<Longrightarrow> P base c"
  shows "P base c"
  using assms(1,2)
proof (induction "size c" arbitrary: base c rule: less_induct)
  case less
  from less.prems show ?case
  proof (cases rule: observed_cases)
    case here
    then show ?thesis by (intro assms(3) less.prems) simp_all
  next
    case (inside cs d)
    have "size d < size c"
      using inside(1,2) size_list_estimation' [OF inside(2) order_refl, of size] by (cases c) auto
    then have "P (child_path base (sn_name c)) d" using less.hyps inside by simp
    then show ?thesis using assms(4) less.prems(1) inside by blast
  qed
qed

lemma observed_below:
  assumes "acceptable sha base c" "e \<in> set (observed sha base c)"
  shows "below (child_path base (sn_name c)) (e_path e)"
  using assms
proof (induction rule: observed_induct)
  case (inside base c cs d)
  then show ?case
    using below_child [OF child_path_nonempty] by (auto simp: below_def)
qed (simp add: below_def)

lemma observed_ok:
  assumes "acceptable sha base c" "e \<in> set (observed sha base c)"
  shows "safe_path (e_path e) \<and> e_mode e \<le> 511 \<and> is_u64 (e_size e)
    \<and> (e_kind e = Directory \<and> e_size e = 0 \<and> e_hash e = None \<or> e_kind e = File \<and> (\<exists>h. e_hash e = Some h \<and> length h = 32))"
  using assms by (induction rule: observed_induct) (auto dest: acceptable_safe simp: is_u64_def)

lemma well_named_child: "well_named c \<Longrightarrow> sn_children c = Inr cs \<Longrightarrow> d \<in> set cs \<Longrightarrow> well_named d"
  by (cases c) (auto simp: list_all_iff)

lemma last_separator:
  assumes "xs @ c # n = ys @ c # r" "c \<notin> set n" shows "ys = xs \<or> (\<exists>r'. xs = ys @ c # r')"
proof -
  from assms(1) obtain us where "xs @ us = ys \<and> c # n = us @ c # r \<or> xs = ys @ us \<and> us @ c # n = c # r"
    by (auto simp: append_eq_append_conv2)
  with assms(2) show ?thesis by (cases us) auto
qed

lemma parents_child_path:
  assumes "q \<in> set (parents (child_path base n))" "slash \<notin> set n"
  shows "base \<noteq> [] \<and> (q = base \<or> q \<in> set (parents base))"
proof -
  from assms obtain r where r: "child_path base n = q @ slash # r" by (auto simp: set_parents)
  then have "base \<noteq> []" using assms(2) by (auto simp: child_path_def)
  moreover from this r have "base @ slash # n = q @ slash # r" by (simp add: child_path_def)
  then have "q = base \<or> q \<in> set (parents base)"
    using last_separator [of base slash n q r] assms(2) by (auto simp: set_parents)
  ultimately show ?thesis by simp
qed

lemma observed_parents:
  assumes "acceptable sha base c" "e \<in> set (observed sha base c)" "well_named c"
    "q \<in> set (parents (e_path e))"
  shows "q \<in> set (parents (child_path base (sn_name c))) \<or> q \<in> directories (observed sha base c)"
  using assms
proof (induction rule: observed_induct)
  case (inside base c cs d)
  have "well_named d" using well_named_child inside(2,3) inside.prems(1) by blast
  moreover from this have "slash \<notin> set (sn_name d)" by (cases d) auto
  ultimately show ?case
    using inside.IH inside(5,6) inside.prems(2) parents_child_path [of q "child_path base (sn_name c)" "sn_name d"] by blast
qed simp

lemma distinct_concat_map:
  assumes "distinct (map g cs)" "\<And>c. c \<in> set cs \<Longrightarrow> distinct (f c)"
    "\<And>c d. c \<in> set cs \<Longrightarrow> d \<in> set cs \<Longrightarrow> g c \<noteq> g d \<Longrightarrow> set (f c) \<inter> set (f d) = {}"
  shows "distinct (concat (map f cs))"
  using assms
proof (induction cs)
  case (Cons c cs)
  have "set (f c) \<inter> set (f d) = {}" if "d \<in> set cs" for d
    using Cons.prems(1,3) that by (metis distinct.simps(2) image_eqI list.set_intros list.set_map list.simps(9))
  moreover have "distinct (concat (map f cs))" using Cons by simp
  ultimately show ?case using Cons.prems(2) by auto
qed simp

lemma below_disjoint:
  assumes "below (child_path base a) p" "below (child_path base b) p" "slash \<notin> set a" "slash \<notin> set b"
  shows "a = b"
proof -
  let ?pre = "if base = [] then [] else base @ [slash]"
  have c: "child_path base n = ?pre @ n" for n by (simp add: child_path_def)
  obtain r s where r: "a @ r = b @ s" "r = [] \<or> hd r = slash" "s = [] \<or> hd s = slash"
    using assms(1,2) unfolding below_def c by (metis append.assoc append_Nil2 list.sel(1) same_append_eq)
  then show ?thesis
    using assms(3,4) by (auto simp: append_eq_append_conv2) (metis append_Nil2 hd_append2 hd_in_set)+
qed

lemma observed_distinct:
  "acceptable sha base c \<Longrightarrow> well_named c \<Longrightarrow> distinct (map e_path (observed sha base c))"
proof (induction "size c" arbitrary: base c rule: less_induct)
  case less
  obtain name smd children opened where c: "c = Snapshot name smd children opened" by (cases c)
  from less.prems(1) obtain md where md: "smd = Inr md" by (cases smd) (auto simp: c Let_def)
  show ?case
  proof (cases "md_type md")
    case Is_dir
    let ?p = "child_path base name"
    from Is_dir obtain cs where cs: "children = Inr cs" using less.prems(1) by (cases children) (auto simp: c md Let_def)
    have acc: "acceptable sha ?p d" "well_named d" if "d \<in> set cs" for d
      using that less.prems Is_dir cs by (simp_all add: c md Let_def list_all_iff)
    have under: "below (child_path ?p (sn_name d)) q" if "q \<in> e_path ` set (observed sha ?p d)" "d \<in> set cs" for q d
      using observed_below [OF acc(1)] that by auto
    have slashes: "slash \<notin> set (sn_name d)" if "d \<in> set cs" for d
      using acc(2) [OF that] by (cases d) simp
    have d: "distinct (concat (map (\<lambda>d. map e_path (observed sha ?p d)) (sort_key sn_name cs)))"
    proof (rule distinct_concat_map [where g = sn_name])
      have "mset (map sn_name (sort_key sn_name cs)) = mset (map sn_name cs)" by simp
      from mset_eq_imp_distinct_iff [OF this] less.prems(2)
      show "distinct (map sn_name (sort_key sn_name cs))" by (simp add: c cs)
    next
      fix d assume "d \<in> set (sort_key sn_name cs)"
      then have d: "d \<in> set cs" by simp
      have "size d < size c" using size_list_estimation' [OF d order_refl, of size] by (auto simp: c cs)
      then show "distinct (map e_path (observed sha ?p d))" using less.hyps acc d by simp
    next
      fix d d' assume "d \<in> set (sort_key sn_name cs)" "d' \<in> set (sort_key sn_name cs)" "sn_name d \<noteq> sn_name d'"
      then show "set (map e_path (observed sha ?p d)) \<inter> set (map e_path (observed sha ?p d')) = {}"
        using below_disjoint [OF under under] slashes by auto
    qed
    have "?p \<notin> e_path ` set (observed sha ?p d)" if "d \<in> set cs" for d
    proof
      assume "?p \<in> e_path ` set (observed sha ?p d)"
      then have "below (child_path ?p (sn_name d)) ?p" using observed_below acc(1) that by force
      moreover have "?p \<noteq> []" using child_path_nonempty [OF less.prems(1)] by (simp add: c)
      ultimately show False using below_child by fastforce
    qed
    with d show ?thesis using Is_dir cs by (auto simp: c md Let_def map_concat comp_def)
  qed (auto simp: c md Let_def split: sum.splits)
qed

section \<open>The manifest of a tree\<close>

definition all_observed :: "(bytes \<Rightarrow> 256 word) \<Rightarrow> snapshot list \<Rightarrow> manifest_entry list" where
  "all_observed sha cs = concat (map (observed sha []) (sort_key sn_name cs))"

lemma all_observed_tree:
  assumes "list_all (acceptable sha []) cs" "list_all well_named cs" "distinct (map sn_name cs)"
    "\<forall>e\<in>set (all_observed sha cs). 0 \<le> e_nanoseconds e \<and> e_nanoseconds e < 1000000000"
  shows "tree_shaped (sort_key e_path (all_observed sha cs))"
proof -
  let ?es = "all_observed sha cs"
  have c: "acceptable sha [] c" "well_named c" "slash \<notin> set (sn_name c)" if "c \<in> set cs" for c
    using assms(1,2) that by (simp_all add: list_all_iff) (metis snapshot.collapse well_named.simps)
  have "distinct (concat (map (\<lambda>c. map e_path (observed sha [] c)) (sort_key sn_name cs)))"
  proof (rule distinct_concat_map [where g = sn_name])
    have "mset (map sn_name (sort_key sn_name cs)) = mset (map sn_name cs)" by simp
    from mset_eq_imp_distinct_iff [OF this] assms(3) show "distinct (map sn_name (sort_key sn_name cs))" by simp
  next
    fix a b assume ab: "a \<in> set (sort_key sn_name cs)" "b \<in> set (sort_key sn_name cs)" "sn_name a \<noteq> sn_name b"
    have under: "below (child_path [] (sn_name x)) p" if "p \<in> e_path ` set (observed sha [] x)" "x \<in> set cs" for x p
      using observed_below [OF c(1)] that by auto
    show "set (map e_path (observed sha [] a)) \<inter> set (map e_path (observed sha [] b)) = {}"
      using ab below_disjoint [OF under under] c(3) by auto
  qed (use observed_distinct c in auto)
  then have d: "distinct (map e_path ?es)" by (simp add: all_observed_def map_concat comp_def)
  have "mset (map e_path (sort_key e_path ?es)) = mset (map e_path ?es)" by simp
  from mset_eq_imp_distinct_iff [OF this] d have "sorted_wrt (<) (map e_path (sort_key e_path ?es))"
    by (simp add: strict_sorted_iff)
  moreover have "entry_ok e \<and> set (parents (e_path e)) \<subseteq> directories (sort_key e_path ?es)" if "e \<in> set ?es" for e
  proof -
    from that obtain x where x: "x \<in> set cs" "e \<in> set (observed sha [] x)" by (auto simp: all_observed_def)
    have "directories (observed sha [] x) \<subseteq> directories (sort_key e_path ?es)"
      using x(1) by (auto simp: directories_def all_observed_def)
    moreover have "parents (child_path [] (sn_name x)) = []"
      using parents_child_path [of _ "[]" "sn_name x"] c(3) [OF x(1)] by (cases "parents (child_path [] (sn_name x))") auto
    ultimately have "set (parents (e_path e)) \<subseteq> directories (sort_key e_path ?es)"
      using observed_parents [OF c(1) x(2) c(2)] x(1) by auto
    moreover have "entry_ok e"
      using observed_ok [OF c(1) x(2)] x(1) assms(4) that by (auto simp: entry_ok_def)
    ultimately show ?thesis by simp
  qed
  ultimately show ?thesis by (simp add: tree_shaped_def)
qed

lemma build_Inr:
  assumes "build sha root children = Inr m"
  shows "\<exists>md cs body. root = Inr md \<and> children = Inr cs \<and> list_all (acceptable sha []) cs
    \<and> d_entries m = sort_key e_path (all_observed sha cs) \<and> length (d_entries m) \<le> MAX_MANIFEST_ENTRIES
    \<and> tree_shaped (d_entries m) \<and> d_root_mode m \<le> 511
    \<and> dir_canonical_body (d_entries m) (d_root_mode m) (d_root_seconds m) (d_root_nanoseconds m) = Inr body
    \<and> length body + 70 \<le> MAX_MANIFEST_BYTES \<and> d_hash m = digest sha (as_bytes body)"
proof -
  from assms obtain md cs es body where b: "root = Inr md" "children = Inr cs"
    "dir_scan sha [] (sort_key sn_name cs) [] = Inr es" "validate_entries (sort_key e_path es) = Inr ()"
    "dir_canonical_body (sort_key e_path es) (md_mode md mod 512) (md_mtime md) (md_nsec md) = Inr body"
    "\<not> MAX_MANIFEST_BYTES < sat_add (length body) 70"
    "m = \<lparr>d_entries = sort_key e_path es, d_root_mode = md_mode md mod 512, d_root_seconds = md_mtime md,
        d_root_nanoseconds = md_nsec md, d_hash = digest sha (as_bytes body)\<rparr>"
    by (auto simp: build_def and_then_eq_Inr Let_def split: if_splits)
  have "list_all (acceptable sha []) cs" "es = all_observed sha cs" "length es \<le> MAX_MANIFEST_ENTRIES"
    using b(3) by (auto simp: dir_scan_iff all_observed_def)
  moreover have "length body + 70 \<le> MAX_MANIFEST_BYTES"
    using b(6) by (auto simp: sat_add_def MAX_MANIFEST_BYTES_def split: if_splits)
  ultimately show ?thesis using b(1,2,4,5,7) by (simp add: validate_entries_iff)
qed

text \<open>\<open>print\<close> and the receiver rely on this: what is built is accepted.  The fields of the metadata
  have the types and ranges of \<open>stat\<close>.\<close>

lemma build_accepted:
  assumes "build sha root children = Inr m"
    "\<forall>e\<in>set (d_entries m). is_i64 (e_seconds e)" "is_i64 (d_root_seconds m)"
    "0 \<le> d_root_nanoseconds m \<and> d_root_nanoseconds m < 1000000000"
  shows "\<exists>s. dir_encode m = Inr s \<and> dir_parse sha s = Inr m"
proof -
  from build_Inr [OF assms(1)] obtain cs body where b: "list_all (acceptable sha []) cs"
    "d_entries m = sort_key e_path (all_observed sha cs)" "length (d_entries m) \<le> MAX_MANIFEST_ENTRIES"
    "tree_shaped (d_entries m)" "d_root_mode m \<le> 511"
    "dir_canonical_body (d_entries m) (d_root_mode m) (d_root_seconds m) (d_root_nanoseconds m) = Inr body"
    "length body + 70 \<le> MAX_MANIFEST_BYTES" "d_hash m = digest sha (as_bytes body)"
    by blast
  have "entry_typed e" if "e \<in> set (d_entries m)" for e
  proof -
    from that b(2) obtain x where "x \<in> set cs" "e \<in> set (observed sha [] x)" by (auto simp: all_observed_def)
    then show ?thesis using observed_ok [of sha "[]" x e] b(1) assms(2) that by (auto simp: entry_typed_def list_all_iff)
  qed
  then have w: "wf_dir_manifest sha m" using b assms(3,4) by (simp add: wf_dir_manifest_def)
  have "dir_encode m = Inr (body @ ''HASH '' @ hex (d_hash m) @ [lf])" using b(6) by (simp add: dir_encode_def)
  moreover from this b(7,8) have "dir_parse sha (body @ ''HASH '' @ hex (d_hash m) @ [lf]) = Inr m"
    using dir_parse_encode [OF w] by simp
  ultimately show ?thesis by blast
qed

lemma build_total:
  assumes "md_type md = Is_dir" "distinct (map sn_name cs)" "list_all well_named cs" "list_all (acceptable sha []) cs"
    "\<forall>e\<in>set (all_observed sha cs). 0 \<le> e_nanoseconds e \<and> e_nanoseconds e < 1000000000"
    "length (all_observed sha cs) \<le> MAX_MANIFEST_ENTRIES"
    "\<forall>body. dir_canonical_body (sort_key e_path (all_observed sha cs)) (md_mode md mod 512) (md_mtime md) (md_nsec md)
      = Inr body \<longrightarrow> length body + 70 \<le> MAX_MANIFEST_BYTES"
  shows "\<exists>m. build sha (Inr md) (Inr cs) = Inr m \<and> set (d_entries m) = (\<Union>c\<in>set cs. set (observed sha [] c))"
proof -
  let ?es = "sort_key e_path (all_observed sha cs)"
  have t: "tree_shaped ?es" using assms(2-5) by (intro all_observed_tree)
  then have v: "validate_entries ?es = Inr ()" using assms(6) by (simp add: validate_entries_iff)
  from t have "\<exists>body. dir_canonical_body ?es (md_mode md mod 512) (md_mtime md) (md_nsec md) = Inr body"
    by (subst canonical_body_lines) (auto simp: tree_shaped_def)
  then obtain body where b: "dir_canonical_body ?es (md_mode md mod 512) (md_mtime md) (md_nsec md) = Inr body" by blast
  moreover have "length body + 70 \<le> MAX_MANIFEST_BYTES" using assms(7) b by blast
  then have "\<not> MAX_MANIFEST_BYTES < sat_add (length body) 70"
    by (simp add: sat_add_def MAX_MANIFEST_BYTES_def)
  moreover have "dir_scan sha [] (sort_key sn_name cs) [] = Inr (all_observed sha cs)"
    using assms(4,6) by (simp add: dir_scan_iff all_observed_def)
  ultimately show ?thesis using v assms(1) by (simp add: build_def Let_def) (simp add: all_observed_def)
qed

end
