(* ===== verification/File_Tree.thy ===== *)
theory File_Tree
  imports Effects Dir_Scan "HOL-Library.AList"
begin

text \<open>
  A file system as far as \<open>src/directory.rs\<close> uses it to receive a directory: the tree below the
  directory in which the destination lies.

  An object is found under the list of the names that lead to it from there; the empty list is that
  directory itself.  Every system call may fail or be the moment at which the process is killed.
  A call whose path leads through a symbolic link acts on objects outside the tree; it sets
  \<open>escaped\<close> and fails, and the theorems show that it never happens.  Permissions of the caller
  are not modelled (a refused call is one that fails), and nobody else changes the tree meanwhile.
\<close>

section \<open>Objects and calls\<close>

type_synonym path = "bytes list"

text \<open>Times are nanoseconds since the epoch.\<close>

record attrs =
  at_mode :: nat
  at_mtime :: int

datatype obj = Dir_obj attrs | File_obj attrs bytes | Link_obj | Special_obj

type_synonym objects = "path \<Rightarrow> obj option"

record file_system =
  tree :: "(path \<times> obj) list"
  escaped :: bool
  mishaps :: "fault list"
  running :: bool
  ticks :: nat
  wall :: "nat \<Rightarrow> int"
  fresh_mode :: nat

type_synonym 'a fio = "(file_system, 'a) effect"

definition object_at :: "file_system \<Rightarrow> objects" where
  "object_at w = map_of (tree w)"

definition instant :: "file_system \<Rightarrow> int" where
  "instant w = wall w (ticks w)"

fun obj_type :: "obj \<Rightarrow> file_type" where
  "obj_type (Dir_obj a) = Is_dir"
| "obj_type (File_obj a c) = Is_file"
| "obj_type Link_obj = Is_symlink"
| "obj_type Special_obj = Is_other"

definition fs_call :: "'a fio \<Rightarrow> 'a fio" where
  "fs_call body w =
     (if \<not> running w then (Inl Panic, w)
      else let w' = w\<lparr>ticks := Suc (ticks w)\<rparr> in
      case mishaps w of
        [] \<Rightarrow> body w'
      | Fine # ms \<Rightarrow> body (w'\<lparr>mishaps := ms\<rparr>)
      | Fail e # ms \<Rightarrow> (Inl (IoErr e), w'\<lparr>mishaps := ms\<rparr>)
      | Partial k e # ms \<Rightarrow> (Inl (IoErr e), w'\<lparr>mishaps := ms\<rparr>)
      | Kill # ms \<Rightarrow> (Inl Panic, w'\<lparr>mishaps := ms, running := False\<rparr>))"

text \<open>Following a path: every name but the last must be that of a directory.\<close>

datatype reach = Reached | Missing | Blocked | Leaves

fun walk :: "objects \<Rightarrow> path \<Rightarrow> path \<Rightarrow> reach" where
  "walk t pre [] = Reached"
| "walk t pre (x # xs) =
     (case t pre of
        Some (Dir_obj _) \<Rightarrow> walk t (pre @ [x]) xs
      | Some Link_obj \<Rightarrow> Leaves
      | Some _ \<Rightarrow> Blocked
      | None \<Rightarrow> Missing)"

definition path_call :: "path \<Rightarrow> 'a fio \<Rightarrow> 'a fio" where
  "path_call p body = fs_call (\<lambda>w.
     case walk (object_at w) [] p of
       Reached \<Rightarrow> body w
     | Missing \<Rightarrow> (Inl NotFound, w)
     | Blocked \<Rightarrow> (Inl (IoErr ''not a directory''), w)
     | Leaves \<Rightarrow> (Inl (IoErr ''through a link''), w\<lparr>escaped := True\<rparr>))"

section \<open>System calls\<close>

definition put :: "path \<Rightarrow> obj \<Rightarrow> file_system \<Rightarrow> file_system" where
  "put p x w = w\<lparr>tree := AList.update p x (tree w)\<rparr>"

definition erase :: "path \<Rightarrow> file_system \<Rightarrow> file_system" where
  "erase p w = w\<lparr>tree := AList.delete p (tree w)\<rparr>"

definition change :: "path \<Rightarrow> (attrs \<Rightarrow> attrs) \<Rightarrow> file_system \<Rightarrow> file_system" where
  "change p f w =
     (case object_at w p of
        Some (Dir_obj a) \<Rightarrow> put p (Dir_obj (f a)) w
      | Some (File_obj a c) \<Rightarrow> put p (File_obj (f a) c) w
      | _ \<Rightarrow> w)"

text \<open>Adding or removing a name changes the modification time of the directory.\<close>

definition touch :: "path \<Rightarrow> file_system \<Rightarrow> file_system" where
  "touch p w = change p (\<lambda>a. a\<lparr>at_mtime := instant w\<rparr>) w"

definition children :: "(path \<times> obj) list \<Rightarrow> path \<Rightarrow> bytes list" where
  "children t p = map (\<lambda>(q, _). last q) (filter (\<lambda>(q, _). q \<noteq> [] \<and> butlast q = p) t)"

definition fs_stat :: "path \<Rightarrow> file_type fio" where
  "fs_stat p = path_call p (\<lambda>w. case object_at w p of None \<Rightarrow> (Inl NotFound, w) | Some x \<Rightarrow> (Inr (obj_type x), w))"

definition fs_mkdir :: "path \<Rightarrow> unit fio" where
  "fs_mkdir p = path_call p (\<lambda>w.
     if object_at w p \<noteq> None then (Inl (IoErr ''exists''), w)
     else (Inr (), put p (Dir_obj \<lparr>at_mode = fresh_mode w, at_mtime = instant w\<rparr>) (touch (butlast p) w)))"

text \<open>\<open>create_new(true)\<close>\<close>

definition fs_create_new :: "path \<Rightarrow> nat \<Rightarrow> unit fio" where
  "fs_create_new p mode = path_call p (\<lambda>w.
     if object_at w p \<noteq> None then (Inl (IoErr ''exists''), w)
     else (Inr (), put p (File_obj \<lparr>at_mode = mode, at_mtime = instant w\<rparr> []) (touch (butlast p) w)))"

definition append_to :: "path \<Rightarrow> bytes \<Rightarrow> file_system \<Rightarrow> file_system" where
  "append_to p bs w =
     (case object_at w p of
        Some (File_obj a c) \<Rightarrow> put p (File_obj (a\<lparr>at_mtime := instant w\<rparr>) (c @ bs)) w
      | _ \<Rightarrow> w)"

text \<open>\<open>write_all\<close>: everything, or a prefix and an error.\<close>

definition fs_write :: "path \<Rightarrow> bytes \<Rightarrow> unit fio" where
  "fs_write p bs w =
     (case mishaps w of
        Partial k e # ms \<Rightarrow>
          (if running w then (Inl (IoErr e), append_to p (take k bs) (w\<lparr>mishaps := ms, ticks := Suc (ticks w)\<rparr>))
           else (Inl Panic, w))
      | _ \<Rightarrow> fs_call (\<lambda>w. (Inr (), append_to p bs w)) w)"

definition fs_sync :: "unit fio" where
  "fs_sync = fs_call (\<lambda>w. (Inr (), w))"

text \<open>Opening with \<open>O_NOFOLLOW\<close>, for reading, for reading and writing, and with \<open>O_DIRECTORY\<close>.\<close>

definition fs_open_read :: "path \<Rightarrow> unit fio" where
  "fs_open_read p = path_call p (\<lambda>w.
     case object_at w p of None \<Rightarrow> (Inl NotFound, w) | Some Link_obj \<Rightarrow> (Inl (IoErr ''is a link''), w) | _ \<Rightarrow> (Inr (), w))"

definition fs_open_write :: "path \<Rightarrow> unit fio" where
  "fs_open_write p = path_call p (\<lambda>w.
     case object_at w p of None \<Rightarrow> (Inl NotFound, w) | Some Link_obj \<Rightarrow> (Inl (IoErr ''is a link''), w)
     | Some (Dir_obj _) \<Rightarrow> (Inl (IoErr ''is a directory''), w) | _ \<Rightarrow> (Inr (), w))"

definition fs_open_dir :: "path \<Rightarrow> unit fio" where
  "fs_open_dir p = path_call p (\<lambda>w.
     case object_at w p of None \<Rightarrow> (Inl NotFound, w) | Some (Dir_obj _) \<Rightarrow> (Inr (), w)
     | _ \<Rightarrow> (Inl (IoErr ''not a directory''), w))"

text \<open>Operations on an open file; nothing is renamed or removed while one is open.\<close>

definition fs_read :: "path \<Rightarrow> bytes fio" where
  "fs_read p = fs_call (\<lambda>w. case object_at w p of
     Some (File_obj a c) \<Rightarrow> (Inr c, w) | _ \<Rightarrow> (Inl (IoErr ''cannot be read''), w))"

definition fs_metadata :: "path \<Rightarrow> (file_type \<times> nat) fio" where
  "fs_metadata p = fs_call (\<lambda>w. case object_at w p of
     Some (File_obj a c) \<Rightarrow> (Inr (Is_file, length c), w) | Some x \<Rightarrow> (Inr (obj_type x, 0), w) | None \<Rightarrow> (Inl NotFound, w))"

definition fs_chmod :: "path \<Rightarrow> nat \<Rightarrow> unit fio" where
  "fs_chmod p mode = fs_call (\<lambda>w. (Inr (), change p (\<lambda>a. a\<lparr>at_mode := mode\<rparr>) w))"

definition fs_utime :: "path \<Rightarrow> int \<Rightarrow> unit fio" where
  "fs_utime p t = fs_call (\<lambda>w. (Inr (), change p (\<lambda>a. a\<lparr>at_mtime := t\<rparr>) w))"

text \<open>\<open>read_dir\<close> follows a link at the end of the path.\<close>

definition fs_list :: "path \<Rightarrow> bytes list fio" where
  "fs_list p = path_call p (\<lambda>w.
     case object_at w p of None \<Rightarrow> (Inl NotFound, w)
     | Some Link_obj \<Rightarrow> (Inl (IoErr ''through a link''), w\<lparr>escaped := True\<rparr>)
     | Some (Dir_obj _) \<Rightarrow> (Inr (children (tree w) p), w)
     | _ \<Rightarrow> (Inl (IoErr ''not a directory''), w))"

definition fs_unlink :: "path \<Rightarrow> unit fio" where
  "fs_unlink p = path_call p (\<lambda>w.
     case object_at w p of None \<Rightarrow> (Inl NotFound, w)
     | Some (Dir_obj _) \<Rightarrow> (Inl (IoErr ''is a directory''), w)
     | Some _ \<Rightarrow> (Inr (), erase p (touch (butlast p) w)))"

text \<open>Renaming a directory beside itself; an empty directory may be replaced.\<close>

fun renamed :: "bytes \<Rightarrow> bytes \<Rightarrow> path \<Rightarrow> path" where
  "renamed a b [] = []"
| "renamed a b (x # q) = (if x = a then b # q else x # q)"

definition move :: "bytes \<Rightarrow> bytes \<Rightarrow> file_system \<Rightarrow> file_system" where
  "move a b w = w\<lparr>tree := map (\<lambda>(q, x). (renamed a b q, x)) (tree w)\<rparr>"

definition fs_rename_dir :: "bytes \<Rightarrow> bytes \<Rightarrow> unit fio" where
  "fs_rename_dir a b = path_call [a] (\<lambda>w.
     case object_at w [a] of None \<Rightarrow> (Inl NotFound, w)
     | Some x \<Rightarrow>
        if a = b then (Inr (), w)
        else (case object_at w [b] of
          None \<Rightarrow> (Inr (), touch [] (move a b w))
        | Some y \<Rightarrow>
            if obj_type x = Is_dir \<and> obj_type y = Is_dir \<and> children (tree w) [b] = []
            then (Inr (), touch [] (move a b (erase [b] w)))
            else (Inl (IoErr ''exists''), w)))"

section \<open>What the calls do to the objects\<close>

lemma object_at_put [simp]: "object_at (put p x w) = (object_at w)(p \<mapsto> x)"
  by (simp add: object_at_def put_def update_conv')

lemma object_at_erase [simp]: "object_at (erase p w) = (object_at w)(p := None)"
  by (simp add: object_at_def erase_def delete_conv')

lemma object_at_other [simp]:
  "object_at (w\<lparr>mishaps := ms\<rparr>) = object_at w" "object_at (w\<lparr>ticks := n\<rparr>) = object_at w"
  "object_at (w\<lparr>running := r\<rparr>) = object_at w" "object_at (w\<lparr>escaped := e\<rparr>) = object_at w"
  by (simp_all add: object_at_def)

lemma escaped_simps [simp]:
  "escaped (put p x w) = escaped w" "escaped (erase p w) = escaped w" "escaped (move a b w) = escaped w"
  "escaped (change p f w) = escaped w" "escaped (touch p w) = escaped w" "escaped (append_to p bs w) = escaped w"
  by (simp_all add: put_def erase_def move_def change_def touch_def append_to_def split: option.splits obj.splits)

lemma in_children: "x \<in> set (children t p) \<longleftrightarrow> map_of t (p @ [x]) \<noteq> None"
proof -
  have "x \<in> set (children t p) \<longleftrightarrow> (\<exists>q. q \<in> fst ` set t \<and> q \<noteq> [] \<and> butlast q = p \<and> x = last q)"
    by (force simp: children_def)
  also have "\<dots> \<longleftrightarrow> p @ [x] \<in> fst ` set t" by (metis append_butlast_last_id butlast_snoc last_snoc snoc_eq_iff_butlast)
  finally show ?thesis by (simp add: map_of_eq_None_iff)
qed

text \<open>Attributes of one object are set.\<close>

fun with_attrs :: "(attrs \<Rightarrow> attrs) \<Rightarrow> obj \<Rightarrow> obj" where
  "with_attrs f (Dir_obj a) = Dir_obj (f a)"
| "with_attrs f (File_obj a c) = File_obj (f a) c"
| "with_attrs f Link_obj = Link_obj"
| "with_attrs f Special_obj = Special_obj"

lemma object_at_change: "object_at (change p f w) = (object_at w)(p := map_option (with_attrs f) (object_at w p))"
  by (auto simp: change_def fun_eq_iff split: option.splits obj.splits)

lemma obj_type_with_attrs [simp]: "obj_type (with_attrs f x) = obj_type x"
  by (cases x) auto

section \<open>Well-formed trees\<close>

definition is_directory :: "objects \<Rightarrow> path \<Rightarrow> bool" where
  "is_directory t p \<longleftrightarrow> (\<exists>a. t p = Some (Dir_obj a))"

text \<open>Everything lies in a directory.\<close>

definition closed :: "objects \<Rightarrow> bool" where
  "closed t \<longleftrightarrow> (\<forall>p x. t (p @ [x]) \<noteq> None \<longrightarrow> is_directory t p)"

lemma closedD: "closed t \<Longrightarrow> t (p @ [x]) = Some y \<Longrightarrow> is_directory t p"
  unfolding closed_def by (metis option.distinct(1))

lemma closedI: "(\<And>p x y. t (p @ [x]) = Some y \<Longrightarrow> is_directory t p) \<Longrightarrow> closed t"
  by (auto simp: closed_def)

lemma closed_list:
  assumes "\<forall>k\<in>fst ` set l. k \<noteq> [] \<longrightarrow> is_directory (map_of l) (butlast k)" shows "closed (map_of l)"
proof (rule closedI)
  fix p x y assume "map_of l (p @ [x]) = Some y"
  then have "p @ [x] \<in> fst ` set l" by (force dest: map_of_SomeD)
  then show "is_directory (map_of l) p" using assms by fastforce
qed

lemma is_directory_kind: "is_directory t p \<longleftrightarrow> (\<exists>x. t p = Some x \<and> obj_type x = Is_dir)"
  unfolding is_directory_def by (metis obj_type.simps obj.exhaust file_type.distinct(1,3,5))

lemma closed_prefix:
  assumes "closed t" shows "t (p @ q) \<noteq> None \<Longrightarrow> q \<noteq> [] \<Longrightarrow> is_directory t p"
proof (induction q rule: rev_induct)
  case (snoc x q)
  then obtain y where "t ((p @ q) @ [x]) = Some y" by auto
  then have d: "is_directory t (p @ q)" by (rule closedD [OF assms])
  then show ?case using snoc.IH by (cases "q = []") (auto simp: is_directory_def)
qed simp

lemma walk_reached: "(walk t pre xs = Reached) = (\<forall>ys zs. xs = ys @ zs \<and> zs \<noteq> [] \<longrightarrow> is_directory t (pre @ ys))"
proof (induction xs arbitrary: pre)
  case (Cons x xs)
  have "(\<forall>ys zs. x # xs = ys @ zs \<and> zs \<noteq> [] \<longrightarrow> is_directory t (pre @ ys))
      = (is_directory t pre \<and> (\<forall>ys zs. xs = ys @ zs \<and> zs \<noteq> [] \<longrightarrow> is_directory t (pre @ x # ys)))"
    by (auto simp: Cons_eq_append_conv)
  then show ?case using Cons.IH [of "pre @ [x]"] by (auto simp: is_directory_def split: option.splits obj.splits)
qed simp

text \<open>A call reaches what lies in a directory.\<close>

definition reachable :: "objects \<Rightarrow> path \<Rightarrow> bool" where
  "reachable t p \<longleftrightarrow> p = [] \<or> is_directory t (butlast p)"

lemma reachable_walk:
  assumes "closed t" "reachable t p" shows "walk t [] p = Reached"
  unfolding walk_reached
proof (intro allI impI, elim conjE)
  fix ys zs assume p: "p = ys @ zs" "zs \<noteq> []"
  then have d: "is_directory t (ys @ butlast zs)" using assms(2) by (simp add: reachable_def butlast_append)
  show "is_directory t ([] @ ys)"
  proof (cases "butlast zs = []")
    case False
    then show ?thesis using closed_prefix [OF assms(1), of ys "butlast zs"] d by (auto simp: is_directory_def)
  qed (use d in simp)
qed

lemma reachable_snoc [simp]: "reachable t (p @ [x]) = is_directory t p"
  by (simp add: reachable_def)

lemma present_reachable: "closed t \<Longrightarrow> t p \<noteq> None \<Longrightarrow> reachable t p"
  unfolding reachable_def using closed_prefix [of t "butlast p" "[last p]"] by (cases "p = []") auto

lemma closed_replace:
  assumes "closed t" "t p = Some y" "(obj_type x = Is_dir) = (obj_type y = Is_dir)"
  shows "closed (t(p \<mapsto> x))"
proof (rule closedI)
  fix q n z assume "(t(p \<mapsto> x)) (q @ [n]) = Some z"
  then have "\<exists>z. t (q @ [n]) = Some z" using assms(2) by (auto split: if_splits)
  then have "is_directory t q" using closedD [OF assms(1)] by blast
  then show "is_directory (t(p \<mapsto> x)) q" using assms(2,3) by (auto simp: is_directory_kind)
qed

lemma closed_attrs: "closed t \<Longrightarrow> closed (t(p := map_option (with_attrs f) (t p)))"
  by (cases "t p") (auto simp: fun_upd_idem intro!: closed_replace)

lemma closed_new:
  assumes "closed t" "is_directory t (butlast p)" "t p = None" "p \<noteq> []"
  shows "closed (t(p \<mapsto> x))"
proof (rule closedI)
  fix q n z assume z: "(t(p \<mapsto> x)) (q @ [n]) = Some z"
  have d: "is_directory t q"
  proof (cases "q @ [n] = p")
    case True
    then show ?thesis using assms(2) by auto
  next
    case False
    then have "t (q @ [n]) = Some z" using z by simp
    then show ?thesis by (rule closedD [OF assms(1)])
  qed
  then have "q \<noteq> p" using assms(3) by (auto simp: is_directory_def)
  then show "is_directory (t(p \<mapsto> x)) q" using d by (simp add: is_directory_def)
qed

lemma closed_erase:
  assumes "closed t" "\<not> is_directory t p" shows "closed (t(p := None))"
proof (rule closedI)
  fix q n z assume "(t(p := None)) (q @ [n]) = Some z"
  then have "t (q @ [n]) = Some z" by (auto split: if_splits)
  then have "is_directory t q" by (rule closedD [OF assms(1)])
  then show "is_directory (t(p := None)) q" using assms(2) by (auto simp: is_directory_def)
qed

section \<open>Judgements about trees\<close>

text \<open>\<open>P\<close> holds of the objects, and no call has left the tree.\<close>

definition on :: "(objects \<Rightarrow> bool) \<Rightarrow> file_system \<Rightarrow> bool" where
  "on P w \<longleftrightarrow> \<not> escaped w \<and> closed (object_at w) \<and> P (object_at w)"

lemma on_mono: "on P w \<Longrightarrow> (\<And>t. closed t \<Longrightarrow> P t \<Longrightarrow> Q t) \<Longrightarrow> on Q w"
  by (simp add: on_def)

lemma on_unchanged [simp]:
  "on P (w\<lparr>mishaps := ms\<rparr>) = on P w" "on P (w\<lparr>ticks := n\<rparr>) = on P w" "on P (w\<lparr>running := r\<rparr>) = on P w"
  by (simp_all add: on_def)

lemma on_conj_pure [simp]: "on (\<lambda>t. P t \<and> F) w = (on P w \<and> F)"
  by (auto simp: on_def)

lemma on_conseq:
  assumes "triple (on P) m (\<lambda>x. on (Q x)) (on E)"
    "\<And>t. closed t \<Longrightarrow> P' t \<Longrightarrow> P t" "\<And>x t. closed t \<Longrightarrow> Q x t \<Longrightarrow> Q' x t" "\<And>t. closed t \<Longrightarrow> E t \<Longrightarrow> E' t"
  shows "triple (on P') m (\<lambda>x. on (Q' x)) (on E')"
  by (rule triple_conseq [OF assms(1)]) (auto elim!: on_mono intro: assms(2-4))

lemma on_call:
  assumes body: "\<And>w. on P w \<Longrightarrow> (case body w of (Inl e, w') \<Rightarrow> on E w' | (Inr x, w') \<Rightarrow> Q x w')"
    and E: "\<And>t. closed t \<Longrightarrow> P t \<Longrightarrow> E t"
  shows "triple (on P) (fs_call body) Q (on E)"
  unfolding triple_def
proof (intro allI impI)
  fix w assume w: "on P w"
  have e: "on E w" by (rule on_mono [OF w E])
  note b = body [of "w\<lparr>ticks := Suc (ticks w)\<rparr>"] body [of "w\<lparr>ticks := Suc (ticks w), mishaps := ms\<rparr>" for ms]
  show "case fs_call body w of (Inl e, w') \<Rightarrow> on E w' | (Inr x, w') \<Rightarrow> Q x w'"
    using w e b by (auto simp: fs_call_def Let_def split: list.splits fault.splits)
qed

lemma on_path_call:
  assumes "\<And>t. closed t \<Longrightarrow> P t \<Longrightarrow> reachable t p"
    and body: "\<And>w. on P w \<Longrightarrow> (case body w of (Inl e, w') \<Rightarrow> on E w' | (Inr x, w') \<Rightarrow> Q x w')"
    and E: "\<And>t. closed t \<Longrightarrow> P t \<Longrightarrow> E t"
  shows "triple (on P) (path_call p body) Q (on E)"
  unfolding path_call_def
proof (rule on_call [OF _ E])
  fix w assume w: "on P w"
  then have "walk (object_at w) [] p = Reached" using assms(1) reachable_walk by (auto simp: on_def)
  then show "case (case walk (object_at w) [] p of Reached \<Rightarrow> body w | Missing \<Rightarrow> (Inl NotFound, w)
      | Blocked \<Rightarrow> (Inl (IoErr ''not a directory''), w)
      | Leaves \<Rightarrow> (Inl (IoErr ''through a link''), w\<lparr>escaped := True\<rparr>)) of
    (Inl e, w') \<Rightarrow> on E w' | (Inr x, w') \<Rightarrow> Q x w'"
    using body [OF w] by simp
qed

lemma on_sync: "(\<And>t. closed t \<Longrightarrow> P t \<Longrightarrow> E t) \<Longrightarrow> triple (on P) fs_sync (\<lambda>_. on P) (on E)"
  unfolding fs_sync_def by (rule on_call) simp_all

text \<open>Looking at one object.\<close>

lemma on_stat:
  assumes "\<And>t. closed t \<Longrightarrow> P t \<Longrightarrow> reachable t p" "\<And>t. closed t \<Longrightarrow> P t \<Longrightarrow> E t"
  shows "triple (on P) (fs_stat p) (\<lambda>k. on (\<lambda>t. P t \<and> (\<exists>x. t p = Some x \<and> obj_type x = k))) (on E)"
  unfolding fs_stat_def
  by (rule on_path_call [OF assms(1) _ assms(2)]) (use assms(2) in \<open>auto simp: on_def split: option.splits\<close>)

lemma stat_not_found:
  assumes "fs_stat p w = (Inl NotFound, w')" "on P w" "\<And>t. closed t \<Longrightarrow> P t \<Longrightarrow> reachable t p"
  shows "on (\<lambda>t. P t \<and> t p = None) w'"
proof -
  have "walk (object_at w) [] p = Reached" using assms(2,3) reachable_walk by (auto simp: on_def)
  then show ?thesis using assms(1,2)
    by (auto simp: fs_stat_def path_call_def fs_call_def Let_def on_def split: list.splits fault.splits option.splits if_splits)
qed

lemma on_try_stat:
  assumes reach: "\<And>t. closed t \<Longrightarrow> P t \<Longrightarrow> reachable t p"
    and found: "\<And>k. triple (on (\<lambda>t. P t \<and> (\<exists>x. t p = Some x \<and> obj_type x = k))) (f (Inr k)) Q E"
    and absent: "triple (on (\<lambda>t. P t \<and> t p = None)) (f (Inl NotFound)) Q E"
    and other: "\<And>e. e \<noteq> NotFound \<Longrightarrow> triple (on P) (f (Inl e)) Q E"
  shows "triple (on P) (tryM (fs_stat p) f) Q E"
  unfolding triple_def
proof (intro allI impI)
  fix w assume w: "on P w"
  obtain r w' where r: "fs_stat p w = (r, w')" by fastforce
  have t: "triple (on P) (fs_stat p) (\<lambda>k. on (\<lambda>t. P t \<and> (\<exists>x. t p = Some x \<and> obj_type x = k))) (on P)"
    by (rule on_stat [OF reach])
  show "case tryM (fs_stat p) f w of (Inl e, w') \<Rightarrow> E w' | (Inr x, w') \<Rightarrow> Q x w'"
  proof (cases r)
    case (Inr k)
    then show ?thesis using triple_Inr [OF t w r [unfolded Inr]] found [of k] r by (simp add: tryM_def triple_def)
  next
    case (Inl e)
    show ?thesis
    proof (cases "e = NotFound")
      case True
      then show ?thesis using stat_not_found [OF r [unfolded Inl True] w reach] absent r Inl by (simp add: tryM_def triple_def)
    next
      case False
      then show ?thesis using triple_Inl [OF t w r [unfolded Inl]] other r Inl by (simp add: tryM_def triple_def)
    qed
  qed
qed

lemma on_open_dir:
  assumes "\<And>t. closed t \<Longrightarrow> P t \<Longrightarrow> reachable t p" "\<And>t. closed t \<Longrightarrow> P t \<Longrightarrow> E t"
  shows "triple (on P) (fs_open_dir p) (\<lambda>_. on (\<lambda>t. P t \<and> is_directory t p)) (on E)"
  unfolding fs_open_dir_def
  by (rule on_path_call [OF assms(1) _ assms(2)])
    (use assms(2) in \<open>auto simp: on_def is_directory_def split: option.splits obj.splits\<close>)

lemma on_open_read:
  assumes "\<And>t. closed t \<Longrightarrow> P t \<Longrightarrow> reachable t p" "\<And>t. closed t \<Longrightarrow> P t \<Longrightarrow> E t"
  shows "triple (on P) (fs_open_read p) (\<lambda>_. on P) (on E)"
  unfolding fs_open_read_def
  by (rule on_path_call [OF assms(1) _ assms(2)]) (use assms(2) in \<open>auto simp: on_def split: option.splits obj.splits\<close>)

lemma on_open_write:
  assumes "\<And>t. closed t \<Longrightarrow> P t \<Longrightarrow> reachable t p" "\<And>t. closed t \<Longrightarrow> P t \<Longrightarrow> E t"
  shows "triple (on P) (fs_open_write p) (\<lambda>_. on P) (on E)"
  unfolding fs_open_write_def
  by (rule on_path_call [OF assms(1) _ assms(2)]) (use assms(2) in \<open>auto simp: on_def split: option.splits obj.splits\<close>)

lemma on_read:
  assumes "\<And>t. closed t \<Longrightarrow> P t \<Longrightarrow> E t"
  shows "triple (on P) (fs_read p) (\<lambda>c. on (\<lambda>t. P t \<and> (\<exists>a. t p = Some (File_obj a c)))) (on E)"
  unfolding fs_read_def
  by (rule on_call [OF _ assms]) (use assms in \<open>auto simp: on_def split: option.splits obj.splits\<close>)

lemma on_metadata:
  assumes "\<And>t. closed t \<Longrightarrow> P t \<Longrightarrow> E t"
  shows "triple (on P) (fs_metadata p) (\<lambda>(k, n). on (\<lambda>t. P t \<and> (k = Is_file \<longrightarrow>
    (\<exists>a c. t p = Some (File_obj a c) \<and> n = length c)))) (on E)"
  unfolding fs_metadata_def
  by (rule on_call [OF _ assms]) (use assms in \<open>auto simp: on_def split: option.splits obj.splits\<close>)

lemma on_list:
  assumes "\<And>t. closed t \<Longrightarrow> P t \<Longrightarrow> is_directory t p" "\<And>t. closed t \<Longrightarrow> P t \<Longrightarrow> E t"
  shows "triple (on P) (fs_list p) (\<lambda>ns. on (\<lambda>t. P t \<and> (\<forall>x. x \<in> set ns \<longleftrightarrow> t (p @ [x]) \<noteq> None))) (on E)"
  unfolding fs_list_def
proof (rule on_path_call [OF _ _ assms(2)])
  fix t assume "closed t" "P t"
  then show "reachable t p" using assms(1) present_reachable [of t p] by (auto simp: is_directory_def)
next
  fix w assume w: "on P w"
  then obtain a where "object_at w p = Some (Dir_obj a)" using assms(1) by (auto simp: on_def is_directory_def)
  then show "case case object_at w p of None \<Rightarrow> (Inl NotFound, w)
     | Some Link_obj \<Rightarrow> (Inl (IoErr ''through a link''), w\<lparr>escaped := True\<rparr>)
     | Some (Dir_obj _) \<Rightarrow> (Inr (children (tree w) p), w)
     | _ \<Rightarrow> (Inl (IoErr ''not a directory''), w) of
    (Inl e, w') \<Rightarrow> on E w' | (Inr ns, w') \<Rightarrow> on (\<lambda>t. P t \<and> (\<forall>x. x \<in> set ns \<longleftrightarrow> t (p @ [x]) \<noteq> None)) w'"
    using w by (simp add: on_def in_children object_at_def)
qed

text \<open>Changing the tree.\<close>

definition reattributed :: "path \<Rightarrow> (attrs \<Rightarrow> attrs) \<Rightarrow> objects \<Rightarrow> objects" where
  "reattributed p f t = t(p := map_option (with_attrs f) (t p))"

lemma object_at_changes [simp]:
  "object_at (change p f w) = reattributed p f (object_at w)"
  "object_at (touch p w) = reattributed p (\<lambda>a. a\<lparr>at_mtime := instant w\<rparr>) (object_at w)"
  by (simp_all add: touch_def object_at_change reattributed_def)

lemma reattributed_other: "q \<noteq> p \<Longrightarrow> reattributed p f t q = t q"
  by (simp add: reattributed_def)

lemma reattributed_None [simp]: "reattributed p f t q = None \<longleftrightarrow> t q = None"
  by (simp add: reattributed_def)

lemma reattributed_directory [simp]: "is_directory (reattributed p f t) q = is_directory t q"
  by (auto simp: is_directory_kind reattributed_def)

lemma reattributed_kind: "(\<exists>x. reattributed p f t q = Some x \<and> obj_type x = k) = (\<exists>x. t q = Some x \<and> obj_type x = k)"
  by (auto simp: reattributed_def)

lemma closed_reattributed: "closed t \<Longrightarrow> closed (reattributed p f t)"
  unfolding reattributed_def by (rule closed_attrs)

lemma on_chmod:
  assumes "\<And>t. closed t \<Longrightarrow> P t \<Longrightarrow> Q (reattributed p (\<lambda>a. a\<lparr>at_mode := mode\<rparr>) t)" "\<And>t. closed t \<Longrightarrow> P t \<Longrightarrow> E t"
  shows "triple (on P) (fs_chmod p mode) (\<lambda>_. on Q) (on E)"
  unfolding fs_chmod_def by (rule on_call [OF _ assms(2)]) (use assms(1) in \<open>simp add: on_def closed_reattributed\<close>)

lemma on_utime:
  assumes "\<And>t. closed t \<Longrightarrow> P t \<Longrightarrow> Q (reattributed p (\<lambda>a. a\<lparr>at_mtime := s\<rparr>) t)" "\<And>t. closed t \<Longrightarrow> P t \<Longrightarrow> E t"
  shows "triple (on P) (fs_utime p s) (\<lambda>_. on Q) (on E)"
  unfolding fs_utime_def by (rule on_call [OF _ assms(2)]) (use assms(1) in \<open>simp add: on_def closed_reattributed\<close>)

text \<open>A new object in the directory \<open>butlast p\<close>.\<close>

definition added :: "path \<Rightarrow> (attrs \<Rightarrow> attrs) \<Rightarrow> obj \<Rightarrow> objects \<Rightarrow> objects" where
  "added p f x t = (reattributed (butlast p) f t)(p \<mapsto> x)"

lemma closed_added: "closed t \<Longrightarrow> is_directory t (butlast p) \<Longrightarrow> t p = None \<Longrightarrow> p \<noteq> [] \<Longrightarrow> closed (added p f x t)"
  unfolding added_def by (rule closed_new) (simp_all add: closed_reattributed)

lemma on_mkdir:
  assumes "\<And>t. closed t \<Longrightarrow> P t \<Longrightarrow> is_directory t (butlast p)" "p \<noteq> []"
    "\<And>t f a. closed t \<Longrightarrow> P t \<Longrightarrow> t p = None \<Longrightarrow> Q (added p f (Dir_obj a) t)" "\<And>t. closed t \<Longrightarrow> P t \<Longrightarrow> E t"
  shows "triple (on P) (fs_mkdir p) (\<lambda>_. on Q) (on E)"
  unfolding fs_mkdir_def
proof (rule on_path_call [OF _ _ assms(4)])
  fix w assume w: "on P w"
  then have d: "is_directory (object_at w) (butlast p)" using assms(1) by (simp add: on_def)
  show "case if object_at w p \<noteq> None then (Inl (IoErr ''exists''), w)
     else (Inr (), put p (Dir_obj \<lparr>at_mode = fresh_mode w, at_mtime = instant w\<rparr>) (touch (butlast p) w)) of
    (Inl e, w') \<Rightarrow> on E w' | (Inr x, w') \<Rightarrow> on Q w'"
    using w d assms(2-4) closed_added [OF _ d, of "\<lambda>a. a\<lparr>at_mtime := instant w\<rparr>"]
    by (auto simp: on_def added_def [symmetric])
qed (use assms(1) in \<open>simp add: reachable_def\<close>)

lemma on_create_new_mode:
  assumes "\<And>t. closed t \<Longrightarrow> P t \<Longrightarrow> is_directory t (butlast p)" "p \<noteq> []"
    "\<And>t f s. closed t \<Longrightarrow> P t \<Longrightarrow> t p = None \<Longrightarrow> Q (added p f (File_obj \<lparr>at_mode = mode, at_mtime = s\<rparr> []) t)" "\<And>t. closed t \<Longrightarrow> P t \<Longrightarrow> E t"
  shows "triple (on P) (fs_create_new p mode) (\<lambda>_. on Q) (on E)"
  unfolding fs_create_new_def
proof (rule on_path_call [OF _ _ assms(4)])
  fix w assume w: "on P w"
  then have d: "is_directory (object_at w) (butlast p)" using assms(1) by (simp add: on_def)
  show "case if object_at w p \<noteq> None then (Inl (IoErr ''exists''), w)
     else (Inr (), put p (File_obj \<lparr>at_mode = mode, at_mtime = instant w\<rparr> []) (touch (butlast p) w)) of
    (Inl e, w') \<Rightarrow> on E w' | (Inr x, w') \<Rightarrow> on Q w'"
    using w d assms(2-4) closed_added [OF _ d, of "\<lambda>a. a\<lparr>at_mtime := instant w\<rparr>"]
    by (auto simp: on_def added_def [symmetric])
qed (use assms(1) in \<open>simp add: reachable_def\<close>)

lemma on_create_new:
  assumes "\<And>t. closed t \<Longrightarrow> P t \<Longrightarrow> is_directory t (butlast p)" "p \<noteq> []"
    "\<And>t f a. closed t \<Longrightarrow> P t \<Longrightarrow> t p = None \<Longrightarrow> Q (added p f (File_obj a []) t)" "\<And>t. closed t \<Longrightarrow> P t \<Longrightarrow> E t"
  shows "triple (on P) (fs_create_new p mode) (\<lambda>_. on Q) (on E)"
  by (rule on_create_new_mode) (simp_all add: assms)

lemma on_write_attrs:
  assumes f: "\<And>t. closed t \<Longrightarrow> P t \<Longrightarrow> \<exists>a. t p = Some (File_obj a c)"
    and Q: "\<And>t a s. closed t \<Longrightarrow> P t \<Longrightarrow> t p = Some (File_obj a c) \<Longrightarrow> Q (t(p \<mapsto> File_obj (a\<lparr>at_mtime := s\<rparr>) (c @ bs)))"
    and E: "\<And>t. closed t \<Longrightarrow> P t \<Longrightarrow> E t" "\<And>t a s k. closed t \<Longrightarrow> P t \<Longrightarrow> t p = Some (File_obj a c) \<Longrightarrow> E (t(p \<mapsto> File_obj (a\<lparr>at_mtime := s\<rparr>) (c @ take k bs)))"
  shows "triple (on P) (fs_write p bs) (\<lambda>_. on Q) (on E)"
  unfolding triple_def
proof (intro allI impI)
  fix w assume w: "on P w"
  have ap: "on R (append_to p b v)" if v: "on P v" and R: "\<And>t a s. closed t \<Longrightarrow> P t \<Longrightarrow> t p = Some (File_obj a c) \<Longrightarrow> R (t(p \<mapsto> File_obj (a\<lparr>at_mtime := s\<rparr>) (c @ b)))" for R b v
  proof -
    obtain a where a: "object_at v p = Some (File_obj a c)" using f v by (auto simp: on_def)
    have "closed ((object_at v)(p \<mapsto> File_obj a' c'))" for a' c'
      by (rule closed_replace [where t = "object_at v", OF _ a]) (use v in \<open>simp_all add: on_def\<close>)
    then show ?thesis using v R a by (simp add: on_def append_to_def)
  qed
  have all: "triple (on P) (fs_call (\<lambda>w. (Inr (), append_to p bs w))) (\<lambda>_. on Q) (on E)"
    by (rule on_call [OF _ E(1)]) (simp_all add: ap Q)
  show "case fs_write p bs w of (Inl e, w') \<Rightarrow> on E w' | (Inr x, w') \<Rightarrow> on Q w'"
  proof (cases "\<exists>k e ms. mishaps w = Partial k e # ms")
    case True
    then obtain k e ms where m: "mishaps w = Partial k e # ms" by blast
    have "on E (append_to p (take k bs) (w\<lparr>mishaps := ms, ticks := Suc (ticks w)\<rparr>))"
      by (rule ap) (use w E(2) in simp_all)
    moreover have "on E w" by (rule on_mono [OF w E(1)])
    ultimately show ?thesis using m by (simp add: fs_write_def)
  next
    case False
    then have "fs_write p bs w = fs_call (\<lambda>w. (Inr (), append_to p bs w)) w"
      by (auto simp: fs_write_def split: list.splits fault.splits)
    then show ?thesis using all w by (simp add: triple_def)
  qed
qed

lemma on_write:
  assumes "\<And>t. closed t \<Longrightarrow> P t \<Longrightarrow> \<exists>a. t p = Some (File_obj a c)"
    "\<And>t a. closed t \<Longrightarrow> P t \<Longrightarrow> Q (t(p \<mapsto> File_obj a (c @ bs)))"
    "\<And>t. closed t \<Longrightarrow> P t \<Longrightarrow> E t" "\<And>t a k. closed t \<Longrightarrow> P t \<Longrightarrow> E (t(p \<mapsto> File_obj a (c @ take k bs)))"
  shows "triple (on P) (fs_write p bs) (\<lambda>_. on Q) (on E)"
  by (rule on_write_attrs [OF assms(1)]) (blast intro: assms)+

text \<open>Removing a file.\<close>

lemma on_unlink:
  assumes "\<And>t. closed t \<Longrightarrow> P t \<Longrightarrow> is_directory t (butlast p)"
    "\<And>t f. closed t \<Longrightarrow> P t \<Longrightarrow> \<not> is_directory t p \<Longrightarrow> t p \<noteq> None \<Longrightarrow> Q ((reattributed (butlast p) f t)(p := None))"
    "\<And>t. closed t \<Longrightarrow> P t \<Longrightarrow> E t"
  shows "triple (on P) (fs_unlink p) (\<lambda>_. on Q) (on E)"
  unfolding fs_unlink_def
proof (rule on_path_call [OF _ _ assms(3)])
  fix w assume w: "on P w"
  have "closed ((reattributed q f (object_at w))(p := None))" if "\<not> is_directory (object_at w) p" for q f
    by (rule closed_erase) (use w that in \<open>simp_all add: on_def closed_reattributed\<close>)
  then show "case case object_at w p of None \<Rightarrow> (Inl NotFound, w)
     | Some (Dir_obj _) \<Rightarrow> (Inl (IoErr ''is a directory''), w)
     | Some _ \<Rightarrow> (Inr (), erase p (touch (butlast p) w)) of
    (Inl e, w') \<Rightarrow> on E w' | (Inr x, w') \<Rightarrow> on Q w'"
    using w assms(2,3) by (auto simp: on_def is_directory_def split: option.splits obj.splits)
qed (use assms(1) in \<open>simp add: reachable_def\<close>)

text \<open>Renaming a directory that lies in the root of the tree; the result is below \<open>b\<close> what was below
  \<open>a\<close>, nothing below \<open>a\<close>, and the rest.\<close>

definition moved :: "bytes \<Rightarrow> bytes \<Rightarrow> objects \<Rightarrow> objects" where
  "moved a b t p =
     (case p of [] \<Rightarrow> t []
      | x # q \<Rightarrow> if x = b then t (a # q) else if x = a then None else t (x # q))"

lemma absent_below:
  assumes "closed t" "t p = None" shows "t (p @ q) = None"
proof (rule ccontr)
  assume n: "t (p @ q) \<noteq> None"
  then have "q \<noteq> []" using assms(2) by auto
  with n have "is_directory t p" by (rule closed_prefix [OF assms(1)])
  then show False using assms(2) by (simp add: is_directory_def)
qed

lemma object_at_move:
  assumes "a \<noteq> b" "\<And>q. object_at w (b # q) = None"
  shows "object_at (move a b w) = moved a b (object_at w)"
proof
  fix p
  have keys: "b # q \<notin> fst ` set (tree w)" for q
    using assms(2) [of q] by (simp add: object_at_def map_of_eq_None_iff)
  have "map_of (map (\<lambda>(q, x). (renamed a b q, x)) l) p = moved a b (map_of l) p"
    if "\<And>q. b # q \<notin> fst ` set l" for l
    using that
  proof (induction l)
    case Nil
    then show ?case by (simp add: moved_def split: list.splits)
  next
    case (Cons e l)
    obtain q x where e: "e = (q, x)" by (cases e)
    have "b # r \<notin> fst ` set l" "q \<noteq> b # r" for r using Cons.prems [of r] by (auto simp: e)
    then show ?case using Cons.IH assms(1)
      by (cases q; cases p) (auto simp: e moved_def split: if_splits)
  qed
  from this [OF keys] show "object_at (move a b w) p = moved a b (object_at w) p"
    by (simp add: object_at_def move_def)
qed

lemma closed_moved:
  assumes c: "closed t" and b: "\<And>q. t (b # q) = None"
  shows "closed (moved a b t)"
proof (rule closedI)
  fix p n y assume y: "moved a b t (p @ [n]) = Some y"
  show "is_directory (moved a b t) p"
  proof (cases p)
    case Nil
    have "\<exists>m z. t [m] = Some z" using y Nil by (auto simp: moved_def split: if_splits)
    then have "is_directory t []" using closedD [OF c, of "[]"] by auto
    then show ?thesis using Nil by (simp add: is_directory_def moved_def)
  next
    case (Cons x q)
    then have "is_directory t ((if x = b then a else x) # q)"
      using y closedD [OF c, of "(if x = b then a else x) # q" n] by (auto simp: moved_def split: if_splits)
    then show ?thesis using y Cons by (auto simp: is_directory_def moved_def split: if_splits)
  qed
qed

lemma on_rename_dir:
  assumes "\<And>t. closed t \<Longrightarrow> P t \<Longrightarrow> t [b] = None \<and> is_directory t [a]"
    "\<And>t f. closed t \<Longrightarrow> P t \<Longrightarrow> Q (reattributed [] f (moved a b t))" "\<And>t. closed t \<Longrightarrow> P t \<Longrightarrow> E t"
  shows "triple (on P) (fs_rename_dir a b) (\<lambda>_. on Q) (on E)"
  unfolding fs_rename_dir_def
proof (rule on_path_call [OF _ _ assms(3)])
  fix t assume t: "closed t" "P t"
  then show "reachable t [a]" using assms(1) [OF t] present_reachable [of t "[a]"] by (auto simp: is_directory_def)
next
  fix w assume w: "on P w"
  let ?t = "object_at w"
  have d: "?t [b] = None" "is_directory ?t [a]" and c: "closed ?t" using assms(1) [of ?t] w by (simp_all add: on_def)
  then have ab: "a \<noteq> b" by (auto simp: is_directory_def)
  have none: "?t (b # q) = None" for q using absent_below [OF c d(1), of q] by simp
  obtain x where x: "?t [a] = Some x" using d(2) by (auto simp: is_directory_def)
  have "on Q (touch [] (move a b w))"
    using w assms(2) closed_moved [OF c none, of a] object_at_move [OF ab none]
    by (simp add: on_def closed_reattributed)
  then show "case case ?t [a] of None \<Rightarrow> (Inl NotFound, w)
     | Some x \<Rightarrow>
        if a = b then (Inr (), w)
        else (case ?t [b] of
          None \<Rightarrow> (Inr (), touch [] (move a b w))
        | Some y \<Rightarrow>
            if obj_type x = Is_dir \<and> obj_type y = Is_dir \<and> children (tree w) [b] = []
            then (Inr (), touch [] (move a b (erase [b] w)))
            else (Inl (IoErr ''exists''), w)) of
    (Inl e, w') \<Rightarrow> on E w' | (Inr x, w') \<Rightarrow> on Q w'"
    using x d(1) ab by simp
qed

section \<open>Programs that only look\<close>

text \<open>\<open>m\<close> leaves the objects \<open>t\<close> as they are, and what it returns satisfies \<open>F\<close>.\<close>

definition looks :: "objects \<Rightarrow> 'a fio \<Rightarrow> ('a \<Rightarrow> bool) \<Rightarrow> bool" where
  "looks t m F \<longleftrightarrow> triple (on (\<lambda>u. u = t)) m (\<lambda>x. on (\<lambda>u. u = t \<and> F x)) (on (\<lambda>u. u = t))"

lemma looksD:
  assumes "looks (object_at w) m F" "closed (object_at w)" "\<not> escaped w" "m w = (r, w')"
  shows "\<not> escaped w'" "object_at w' = object_at w" "r = Inr x \<Longrightarrow> F x"
proof -
  have w: "on (\<lambda>u. u = object_at w) w" using assms(2,3) by (simp add: on_def)
  note t = triple_Inr [OF assms(1) [unfolded looks_def] w] triple_Inl [OF assms(1) [unfolded looks_def] w]
  show "\<not> escaped w'" "object_at w' = object_at w" using t assms(4) by (cases r; auto simp: on_def)+
  show "r = Inr x \<Longrightarrow> F x" using t assms(4) by (auto simp: on_def)
qed

lemma looks_ret: "F x \<Longrightarrow> looks t (ret x) F"
  unfolding looks_def by (rule triple_ret) simp

lemma looks_throw: "looks t (throw e) F"
  unfolding looks_def by (rule triple_throw)

lemma looks_lift: "(\<And>x. r = Inr x \<Longrightarrow> F x) \<Longrightarrow> looks t (lift r) F"
  unfolding looks_def by (rule triple_lift) simp_all

lemma looks_conseq: "looks t m F \<Longrightarrow> (\<And>x. F x \<Longrightarrow> G x) \<Longrightarrow> looks t m G"
  unfolding looks_def by (erule on_conseq) auto

lemma looks_bind:
  assumes "looks t m F" "\<And>x. F x \<Longrightarrow> looks t (f x) G" shows "looks t (bindM m f) G"
  unfolding looks_def
proof (rule triple_bind [OF assms(1) [unfolded looks_def]])
  show "triple (on (\<lambda>u. u = t \<and> F x)) (f x) (\<lambda>x. on (\<lambda>u. u = t \<and> G x)) (on (\<lambda>u. u = t))" for x
    using assms(2) [of x] by (cases "F x") (simp_all add: looks_def triple_def on_def)
qed

lemma looks_forM: "(\<And>x. x \<in> set xs \<Longrightarrow> looks t (f x) (\<lambda>_. F x)) \<Longrightarrow> looks t (forM f xs) (\<lambda>_. \<forall>x\<in>set xs. F x)"
proof (induction xs)
  case (Cons x xs)
  have "looks t (forM f xs) (\<lambda>_. \<forall>y\<in>set (x # xs). F y)" if "F x"
    using looks_conseq [OF Cons.IH] Cons.prems that by fastforce
  from looks_bind [OF Cons.prems [of x] this] show ?case by simp
qed (simp add: looks_ret)

text \<open>When a step needs what the earlier ones have established.\<close>

lemma looks_forM_in_order:
  assumes "\<And>i. i < length xs \<Longrightarrow> \<forall>j<i. F (xs ! j) \<Longrightarrow> looks t (f (xs ! i)) (\<lambda>_. F (xs ! i))"
  shows "looks t (forM f xs) (\<lambda>_. \<forall>x\<in>set xs. F x)"
proof -
  have "looks t (forM f ys) (\<lambda>_. \<forall>y\<in>set ys. F y)" if "xs = zs @ ys" "\<forall>z\<in>set zs. F z" for ys zs
    using that
  proof (induction ys arbitrary: zs)
    case (Cons y ys)
    have "\<forall>j<length zs. F (xs ! j)" using Cons.prems by (simp add: nth_append)
    then have "looks t (f y) (\<lambda>_. F y)" using assms [of "length zs"] Cons.prems(1) by simp
    moreover have "looks t (forM f ys) (\<lambda>_. \<forall>z\<in>set (y # ys). F z)" if "F y"
      using looks_conseq [OF Cons.IH [of "zs @ [y]"]] Cons.prems that by simp
    ultimately show ?case by (simp add: looks_bind)
  qed (simp add: looks_ret)
  then show ?thesis by (metis append_Nil empty_iff list.set(1))
qed

lemma looks_stat:
  "closed t \<Longrightarrow> reachable t p \<Longrightarrow> looks t (fs_stat p) (\<lambda>k. \<exists>x. t p = Some x \<and> obj_type x = k)"
  unfolding looks_def by (rule on_conseq [OF on_stat [where P = "\<lambda>u. u = t" and E = "\<lambda>u. u = t"]]) auto

lemma looks_try_stat:
  assumes "closed t" "reachable t p" "\<And>k x. t p = Some x \<Longrightarrow> obj_type x = k \<Longrightarrow> looks t (f (Inr k)) F"
    "t p = None \<Longrightarrow> looks t (f (Inl NotFound)) F" "\<And>e. e \<noteq> NotFound \<Longrightarrow> looks t (f (Inl e)) F"
  shows "looks t (tryM (fs_stat p) f) F"
  unfolding looks_def
proof (rule on_try_stat)
  show "reachable u p" if "u = t" for u using that assms(2) by simp
  show "triple (on (\<lambda>u. u = t \<and> (\<exists>x. u p = Some x \<and> obj_type x = k))) (f (Inr k)) (\<lambda>x. on (\<lambda>u. u = t \<and> F x)) (on (\<lambda>u. u = t))" for k
  proof (cases "\<exists>x. t p = Some x \<and> obj_type x = k")
    case True
    then have "looks t (f (Inr k)) F" using assms(3) by blast
    then show ?thesis unfolding looks_def by (rule on_conseq) auto
  qed (auto simp: triple_def on_def)
  show "triple (on (\<lambda>u. u = t \<and> u p = None)) (f (Inl NotFound)) (\<lambda>x. on (\<lambda>u. u = t \<and> F x)) (on (\<lambda>u. u = t))"
  proof (cases "t p = None")
    case True
    then have "looks t (f (Inl NotFound)) F" by (rule assms(4))
    then show ?thesis unfolding looks_def by (rule on_conseq) auto
  qed (auto simp: triple_def on_def)
  show "triple (on (\<lambda>u. u = t)) (f (Inl e)) (\<lambda>x. on (\<lambda>u. u = t \<and> F x)) (on (\<lambda>u. u = t))" if "e \<noteq> NotFound" for e
    using assms(5) [OF that] by (simp add: looks_def)
qed

lemma looks_open_dir: "closed t \<Longrightarrow> reachable t p \<Longrightarrow> looks t (fs_open_dir p) (\<lambda>_. is_directory t p)"
  unfolding looks_def by (rule on_conseq [OF on_open_dir [where P = "\<lambda>u. u = t" and E = "\<lambda>u. u = t"]]) auto

lemma looks_open_read: "closed t \<Longrightarrow> reachable t p \<Longrightarrow> looks t (fs_open_read p) (\<lambda>_. True)"
  unfolding looks_def by (rule on_conseq [OF on_open_read [where P = "\<lambda>u. u = t" and E = "\<lambda>u. u = t"]]) auto

lemma looks_open_write: "closed t \<Longrightarrow> reachable t p \<Longrightarrow> looks t (fs_open_write p) (\<lambda>_. True)"
  unfolding looks_def by (rule on_conseq [OF on_open_write [where P = "\<lambda>u. u = t" and E = "\<lambda>u. u = t"]]) auto

lemma looks_read: "closed t \<Longrightarrow> looks t (fs_read p) (\<lambda>c. \<exists>a. t p = Some (File_obj a c))"
  unfolding looks_def by (rule on_conseq [OF on_read [where P = "\<lambda>u. u = t" and E = "\<lambda>u. u = t"]]) auto

lemma looks_metadata: "closed t \<Longrightarrow> looks t (fs_metadata p)
    (\<lambda>(k, n). k = Is_file \<longrightarrow> (\<exists>a c. t p = Some (File_obj a c) \<and> n = length c))"
  unfolding looks_def case_prod_beta by (rule on_conseq [OF on_metadata [where P = "\<lambda>u. u = t" and E = "\<lambda>u. u = t", unfolded case_prod_beta]]) auto

lemma looks_list: "closed t \<Longrightarrow> is_directory t p \<Longrightarrow> looks t (fs_list p) (\<lambda>ns. \<forall>x. x \<in> set ns \<longleftrightarrow> t (p @ [x]) \<noteq> None)"
  unfolding looks_def by (rule on_conseq [OF on_list [where P = "\<lambda>u. u = t" and E = "\<lambda>u. u = t"]]) auto

lemma looks_sync: "looks t fs_sync (\<lambda>_. True)"
  unfolding looks_def by (rule on_conseq [OF on_sync [where P = "\<lambda>u. u = t" and E = "\<lambda>u. u = t"]]) auto

text \<open>Inside a program that changes the tree.\<close>

lemma on_looks:
  assumes "\<And>t. closed t \<Longrightarrow> P t \<Longrightarrow> looks t m (F t)" "\<And>t. closed t \<Longrightarrow> P t \<Longrightarrow> E t"
  shows "triple (on P) m (\<lambda>x. on (\<lambda>t. P t \<and> F t x)) (on E)"
  unfolding triple_def
proof (intro allI impI)
  fix w assume w: "on P w"
  let ?t = "object_at w"
  have "looks ?t m (F ?t)" using w assms(1) by (simp add: on_def)
  moreover have "on (\<lambda>u. u = ?t) w" using w by (simp add: on_def)
  ultimately have "case m w of (Inr x, w') \<Rightarrow> on (\<lambda>u. u = ?t \<and> F ?t x) w' | (Inl e, w') \<Rightarrow> on (\<lambda>u. u = ?t) w'"
    by (simp add: looks_def triple_def)
  then show "case m w of (Inl e, w') \<Rightarrow> on E w' | (Inr x, w') \<Rightarrow> on (\<lambda>t. P t \<and> F t x) w'"
    using w assms(2) by (auto simp: on_def split: prod.splits sum.splits)
qed

text \<open>One tree at a time.\<close>

lemma on_each:
  assumes "\<And>t. closed t \<Longrightarrow> P t \<Longrightarrow> triple (on (\<lambda>u. u = t)) m Q E"
  shows "triple (on P) m Q E"
  unfolding triple_def
proof (intro allI impI)
  fix w assume w: "on P w"
  then have "triple (on (\<lambda>u. u = object_at w)) m Q E" using assms by (simp add: on_def)
  then show "case m w of (Inl e, w') \<Rightarrow> E w' | (Inr x, w') \<Rightarrow> Q x w'"
    using w by (simp add: triple_def on_def)
qed

lemma looks_then:
  assumes "looks t m F" "\<And>x. F x \<Longrightarrow> triple (on (\<lambda>u. u = t)) (f x) Q (on E)" "E t"
  shows "triple (on (\<lambda>u. u = t)) (bindM m f) Q (on E)"
proof (rule triple_bind)
  show "triple (on (\<lambda>u. u = t)) m (\<lambda>x. on (\<lambda>u. u = t \<and> F x)) (on E)"
    using assms(1) unfolding looks_def by (rule on_conseq) (use assms(3) in auto)
  show "triple (on (\<lambda>u. u = t \<and> F x)) (f x) Q (on E)" for x
    using assms(2) [of x] by (cases "F x") (simp_all add: triple_def on_def)
qed

lemma on_throw: "E t \<Longrightarrow> triple (on (\<lambda>u. u = t)) (throw e) Q (on E)"
  by (rule triple_throw) (auto simp: on_def)

lemma on_ret: "Q t \<Longrightarrow> triple (on (\<lambda>u. u = t)) (ret x) (\<lambda>_. on Q) E"
  by (rule triple_ret) (auto simp: on_def)

lemma triple_forM:
  assumes "\<And>i. i < length xs \<Longrightarrow> triple (I i) (f (xs ! i)) (\<lambda>_. I (Suc i)) E"
  shows "triple (I 0) (forM f xs) (\<lambda>_. I (length xs)) E"
  using assms
proof (induction xs arbitrary: I)
  case (Cons x xs)
  have "triple (I 0) (f x) (\<lambda>_. I (Suc 0)) E" using Cons.prems [of 0] by simp
  moreover have "triple (I (Suc 0)) (forM f xs) (\<lambda>_. I (Suc (length xs))) E"
    by (rule Cons.IH [of "\<lambda>i. I (Suc i)"]) (use Cons.prems [of "Suc i" for i] in simp)
  ultimately show ?case by (simp add: triple_bind)
qed (simp add: triple_ret)

section \<open>Programs that succeed\<close>

text \<open>When no call fails, \<open>m\<close> returns, and its result and the objects then satisfy \<open>Q\<close>.\<close>

definition faultless :: "objects \<Rightarrow> file_system \<Rightarrow> bool" where
  "faultless t w \<longleftrightarrow> object_at w = t \<and> closed t \<and> \<not> escaped w \<and> running w \<and> mishaps w = []"

definition goes :: "objects \<Rightarrow> 'a fio \<Rightarrow> ('a \<Rightarrow> objects \<Rightarrow> bool) \<Rightarrow> bool" where
  "goes t m Q \<longleftrightarrow> (\<forall>w. faultless t w \<longrightarrow> (\<exists>x w' u. m w = (Inr x, w') \<and> faultless u w' \<and> Q x u))"

lemma goesD:
  assumes "goes t m Q" "faultless t w"
  obtains x w' u where "m w = (Inr x, w')" "faultless u w'" "Q x u"
  using assms unfolding goes_def by blast

lemma goes_ret: "Q x t \<Longrightarrow> goes t (ret x) Q"
  by (auto simp: goes_def ret_def)

lemma goes_lift: "r = Inr x \<Longrightarrow> Q x t \<Longrightarrow> goes t (lift r) Q"
  by (auto simp: goes_def lift_def)

lemma goes_conseq: "goes t m Q \<Longrightarrow> (\<And>x u. closed u \<Longrightarrow> Q x u \<Longrightarrow> R x u) \<Longrightarrow> goes t m R"
  unfolding goes_def by (meson faultless_def)

lemma goes_bind:
  assumes "goes t m R" "\<And>x u. closed u \<Longrightarrow> R x u \<Longrightarrow> goes u (f x) Q"
  shows "goes t (bindM m f) Q"
  unfolding goes_def
proof (intro allI impI)
  fix w assume "faultless t w"
  then obtain x w' u where x: "m w = (Inr x, w')" "faultless u w'" "R x u" by (rule goesD [OF assms(1)])
  then have "goes u (f x) Q" using assms(2) by (simp add: faultless_def)
  then obtain y v t' where "f x w' = (Inr y, v)" "faultless t' v" "Q y t'" using x(2) by (rule goesD)
  then show "\<exists>y v t'. bindM m f w = (Inr y, v) \<and> faultless t' v \<and> Q y t'"
    using x(1) by (auto simp: bindM_def)
qed

lemma goes_unit:
  fixes m :: "unit fio"
  shows "goes t m (\<lambda>_ u. u = t) \<Longrightarrow> goes t (f ()) Q \<Longrightarrow> goes t (bindM m f) Q"
  by (erule goes_bind) (metis (full_types) unit.exhaust)

lemma goes_value: "goes t m (\<lambda>x u. u = t \<and> x = v) \<Longrightarrow> goes t (f v) Q \<Longrightarrow> goes t (bindM m f) Q"
  by (erule goes_bind) simp

lemma goes_bind_lift: "r = Inr x \<Longrightarrow> goes t (f x) Q \<Longrightarrow> goes t (bindM (lift r) f) Q"
  by (simp add: bindM_def lift_def goes_def)

lemma goes_forM:
  assumes "I 0 t" "\<And>i u. i < length xs \<Longrightarrow> closed u \<Longrightarrow> I i u \<Longrightarrow> goes u (f (xs ! i)) (\<lambda>_. I (Suc i))"
  shows "goes t (forM f xs) (\<lambda>_. I (length xs))"
  using assms
proof (induction xs arbitrary: I t)
  case (Cons x xs)
  have "goes t (f x) (\<lambda>_. I (Suc 0))"
  proof (cases "closed t")
    case True
    then show ?thesis using Cons.prems(2) [of 0 t] Cons.prems(1) by simp
  qed (simp add: goes_def faultless_def)
  moreover have "goes u (forM f xs) (\<lambda>_. I (Suc (length xs)))" if "I (Suc 0) u" for u
    by (rule Cons.IH [of "\<lambda>i. I (Suc i)"]) (use that Cons.prems(2) [of "Suc i" for i] in simp_all)
  ultimately show ?case by (auto intro: goes_bind)
qed (simp add: goes_ret)

lemma goes_call:
  assumes "\<And>w. faultless t w \<Longrightarrow> \<exists>x w' u. body w = (Inr x, w') \<and> faultless u w' \<and> Q x u"
  shows "goes t (fs_call body) Q"
  unfolding goes_def
proof (intro allI impI)
  fix w assume w: "faultless t w"
  then have "faultless t (w\<lparr>ticks := Suc (ticks w)\<rparr>)" by (simp add: faultless_def)
  from assms [OF this] show "\<exists>x w' u. fs_call body w = (Inr x, w') \<and> faultless u w' \<and> Q x u"
    using w by (simp add: faultless_def fs_call_def)
qed

lemma goes_path_call:
  assumes "reachable t p" "\<And>w. faultless t w \<Longrightarrow> \<exists>x w' u. body w = (Inr x, w') \<and> faultless u w' \<and> Q x u"
  shows "goes t (path_call p body) Q"
  unfolding path_call_def
proof (rule goes_call)
  fix w assume w: "faultless t w"
  then have "walk (object_at w) [] p = Reached" using reachable_walk [OF _ assms(1)] by (auto simp: faultless_def)
  then show "\<exists>x w' u. (case walk (object_at w) [] p of Reached \<Rightarrow> body w | Missing \<Rightarrow> (Inl NotFound, w)
     | Blocked \<Rightarrow> (Inl (IoErr ''not a directory''), w)
     | Leaves \<Rightarrow> (Inl (IoErr ''through a link''), w\<lparr>escaped := True\<rparr>)) = (Inr x, w') \<and> faultless u w' \<and> Q x u"
    using assms(2) [OF w] by simp
qed

lemma faultless_keeps [simp]:
  "running (put p x w) = running w" "mishaps (put p x w) = mishaps w"
  "running (erase p w) = running w" "mishaps (erase p w) = mishaps w"
  "running (move a b w) = running w" "mishaps (move a b w) = mishaps w"
  by (simp_all add: put_def erase_def move_def)

lemma faultless_change [simp]:
  "running (change p f w) = running w" "mishaps (change p f w) = mishaps w"
  "running (touch p w) = running w" "mishaps (touch p w) = mishaps w"
  by (simp_all add: touch_def change_def split: option.splits obj.splits)

lemma goes_stat: "t p = Some x \<Longrightarrow> reachable t p \<Longrightarrow> goes t (fs_stat p) (\<lambda>k u. u = t \<and> k = obj_type x)"
  unfolding fs_stat_def by (rule goes_path_call) (auto simp: faultless_def)

lemma goes_sync: "goes t fs_sync (\<lambda>_ u. u = t)"
  unfolding fs_sync_def by (rule goes_call) auto

lemma goes_open_dir: "is_directory t p \<Longrightarrow> reachable t p \<Longrightarrow> goes t (fs_open_dir p) (\<lambda>_ u. u = t)"
  unfolding fs_open_dir_def by (rule goes_path_call) (auto simp: faultless_def is_directory_def)

lemma goes_open_write: "t p = Some (File_obj a c) \<Longrightarrow> reachable t p \<Longrightarrow> goes t (fs_open_write p) (\<lambda>_ u. u = t)"
  unfolding fs_open_write_def by (rule goes_path_call) (auto simp: faultless_def)

lemma goes_read: "t p = Some (File_obj a c) \<Longrightarrow> goes t (fs_read p) (\<lambda>b u. u = t \<and> b = c)"
  unfolding fs_read_def by (rule goes_call) (auto simp: faultless_def)

lemma goes_metadata: "t p = Some (File_obj a c) \<Longrightarrow> goes t (fs_metadata p) (\<lambda>k u. u = t \<and> k = (Is_file, length c))"
  unfolding fs_metadata_def by (rule goes_call) (auto simp: faultless_def)

lemma goes_list:
  "is_directory t p \<Longrightarrow> reachable t p \<Longrightarrow> goes t (fs_list p) (\<lambda>ns u. u = t \<and> (\<forall>x. x \<in> set ns \<longleftrightarrow> t (p @ [x]) \<noteq> None))"
  unfolding fs_list_def by (rule goes_path_call) (auto simp: faultless_def is_directory_def in_children object_at_def)

lemma goes_chmod: "goes t (fs_chmod p mode) (\<lambda>_ u. u = reattributed p (\<lambda>a. a\<lparr>at_mode := mode\<rparr>) t)"
  unfolding fs_chmod_def by (rule goes_call) (auto simp: faultless_def closed_reattributed)

lemma goes_utime: "goes t (fs_utime p s) (\<lambda>_ u. u = reattributed p (\<lambda>a. a\<lparr>at_mtime := s\<rparr>) t)"
  unfolding fs_utime_def by (rule goes_call) (auto simp: faultless_def closed_reattributed)

lemma goes_unlink:
  assumes "t p = Some (File_obj a c)" "is_directory t (butlast p)"
  shows "goes t (fs_unlink p) (\<lambda>_ u. \<exists>f. u = (reattributed (butlast p) f t)(p := None))"
  unfolding fs_unlink_def
proof (rule goes_path_call)
  fix w assume w: "faultless t w"
  have "\<not> is_directory t p" using assms(1) by (simp add: is_directory_def)
  then have "closed ((reattributed (butlast p) f t)(p := None))" for f
    by (intro closed_erase) (use w in \<open>simp_all add: faultless_def closed_reattributed\<close>)
  then show "\<exists>x w' u. (case object_at w p of None \<Rightarrow> (Inl NotFound, w)
     | Some (Dir_obj _) \<Rightarrow> (Inl (IoErr ''is a directory''), w)
     | Some _ \<Rightarrow> (Inr (), erase p (touch (butlast p) w))) = (Inr x, w') \<and> faultless u w'
     \<and> (\<exists>f. u = (reattributed (butlast p) f t)(p := None))"
    using w assms(1) by (auto simp: faultless_def)
qed (use assms(2) in \<open>simp add: reachable_def\<close>)

lemma goes_rename_dir:
  assumes "is_directory t [a]" "t [b] = None"
  shows "goes t (fs_rename_dir a b) (\<lambda>_ u. \<exists>f. u = reattributed [] f (moved a b t))"
  unfolding goes_def
proof (intro allI impI)
  fix w assume w: "faultless t w"
  have ab: "a \<noteq> b" using assms by (auto simp: is_directory_def)
  have none: "t (b # q) = None" for q using absent_below [of t "[b]" q] assms(2) w by (simp add: faultless_def)
  have mv: "object_at (move a b v) = moved a b t" if "object_at v = t" for v
    using object_at_move [OF ab, of v] none that by simp
  have c: "closed (moved a b t)" using closed_moved [of t b a] none w by (simp add: faultless_def)
  have r: "reachable t [a]" using w assms(1) by (auto simp: faultless_def is_directory_def intro: present_reachable)
  have "goes t (fs_rename_dir a b) (\<lambda>_ u. \<exists>f. u = reattributed [] f (moved a b t))"
    unfolding fs_rename_dir_def
    by (rule goes_path_call [OF r]) (use assms ab mv c in \<open>auto simp: faultless_def is_directory_def closed_reattributed\<close>)
  then show "\<exists>x w' u. fs_rename_dir a b w = (Inr x, w') \<and> faultless u w' \<and> (\<exists>f. u = reattributed [] f (moved a b t))"
    using w by (rule goesD) blast
qed

end
