(* ===== verification/Staging.thy ===== *)
theory Staging
  imports File_Tree
begin

text \<open>
  Receiving a directory (\<open>prepare_staging\<close>, \<open>file_destination\<close>, \<open>source_file\<close>,
  \<open>candidate_file\<close>, \<open>install\<close> and their helpers in \<open>src/directory.rs\<close>).

  The tree of \<open>File_Tree\<close> is the one below the parent of the destination, so that the staging
  directory and the destination are names in its root; for \<open>source_file\<close> and \<open>candidate_file\<close> it
  is the one below the parent of the given root.  A destination is its last component, the bytes of
  the path as given, and whether it is a single relative component (its \<open>parent()\<close> is then the
  empty path, which \<open>prepare_staging\<close> replaces by \<open>.\<close> and \<open>install\<close> does not).
\<close>

section \<open>Helpers\<close>

record destination =
  dt_name :: bytes
  dt_bytes :: bytes
  dt_bare :: bool

text \<open>The names of a manifest path, as \<open>Path::components\<close> and \<open>join\<close> see them; the paths of an
  accepted manifest have no empty or dotted components.\<close>

definition comps :: "bytes \<Rightarrow> path" where
  "comps p = split_on slash p"

definition marker_name :: bytes where
  "marker_name = as_bytes ''.packet-tide-manifest''"

definition staging_name :: "(bytes \<Rightarrow> 256 word) \<Rightarrow> dir_manifest \<Rightarrow> destination \<Rightarrow> bytes" where
  "staging_name sha m d =
     as_bytes (''.packet-tide-'' @ hex (d_hash m) @ ''-'' @ hex (digest sha (dt_bytes d)) @ ''.part'')"

definition appended_bytes :: "bytes \<Rightarrow> bytes \<Rightarrow> bytes" where
  "appended_bytes p extension = p @ extension"

definition require_real_directory :: "path \<Rightarrow> unit fio" where
  "require_real_directory p = bindM (fs_stat p) (\<lambda>k.
     if k \<noteq> Is_dir then throw (Err ''path component is not a real directory'') else ret ())"

definition require_absent :: "path \<Rightarrow> string \<Rightarrow> unit fio" where
  "require_absent p message = tryM (fs_stat p) (\<lambda>r. case r of
      Inr _ \<Rightarrow> throw (Err message)
    | Inl e \<Rightarrow> if e = NotFound then ret () else throw e)"

definition read_nofollow :: "path \<Rightarrow> bytes fio" where
  "read_nofollow p = bindM (fs_open_read p) (\<lambda>_. bindM (fs_read p) (\<lambda>c.
     let result = take (MAX_MANIFEST_BYTES + 1) c in
     if MAX_MANIFEST_BYTES < length result then throw (Err ''manifest byte limit exceeded'') else ret result))"

text \<open>\<open>UNIX_EPOCH.checked_sub\<close>: the seconds of the result must fit an \<open>i64\<close>.\<close>

definition before_epoch :: "int \<Rightarrow> int \<Rightarrow> int option" where
  "before_epoch secs nanos =
     (let t = - (secs * 10 ^ 9 + nanos) in if t div 10 ^ 9 < - (2 ^ 63) then None else Some t)"

definition system_time :: "int \<Rightarrow> int \<Rightarrow> int result" where
  "system_time seconds nanoseconds =
     (if \<not> (0 \<le> nanoseconds \<and> nanoseconds < 1000000000) then Inl (Err ''modification nanoseconds are out of range'')
      else if 0 \<le> seconds then Inr (seconds * 10 ^ 9 + nanoseconds)
      else if nanoseconds = 0
      then ok_or (before_epoch (- seconds) 0) ''modification time is out of range''
      else ok_or (before_epoch (- seconds - 1) (1000000000 - nanoseconds)) ''modification time is out of range'')"

definition file_entry :: "dir_manifest \<Rightarrow> nat \<Rightarrow> manifest_entry result" where
  "file_entry m i =
     and_then (ok_or (if i < length (d_entries m) then Some (d_entries m ! i) else None) ''manifest file index is out of range'')
       (\<lambda>e. if e_kind e \<noteq> File then Inl (Err ''manifest entry is not a file'') else Inr e)"

section \<open>Finding files\<close>

text \<open>The parents of a path, one after the other.\<close>

fun require_components :: "path \<Rightarrow> path \<Rightarrow> unit fio" where
  "require_components base [] = ret ()"
| "require_components base (c # cs) =
     bindM (require_real_directory (base @ [c])) (\<lambda>_. require_components (base @ [c]) cs)"

definition file_destination :: "dir_manifest \<Rightarrow> path \<Rightarrow> nat \<Rightarrow> path fio" where
  "file_destination m staging i =
     bindM (lift (file_entry m i)) (\<lambda>e.
     bindM (require_real_directory staging) (\<lambda>_.
     bindM (require_components staging (butlast (comps (e_path e)))) (\<lambda>_.
     tryM (fs_stat (staging @ comps (e_path e))) (\<lambda>r.
       if r = Inr Is_symlink then throw (Err ''staging file destination is a symlink'')
       else ret (staging @ comps (e_path e))))))"

definition source_file :: "dir_manifest \<Rightarrow> path \<Rightarrow> nat \<Rightarrow> path fio" where
  "source_file m root i =
     bindM (lift (file_entry m i)) (\<lambda>e.
     bindM (require_real_directory root) (\<lambda>_.
     bindM (require_components root (butlast (comps (e_path e)))) (\<lambda>_.
     bindM (fs_stat (root @ comps (e_path e))) (\<lambda>k.
       if k \<noteq> Is_file then throw (Err ''manifest source file changed type'')
       else ret (root @ comps (e_path e))))))"

text \<open>A missing candidate, or a missing directory on the way to it, is no error.\<close>

definition when_present :: "path \<Rightarrow> file_type \<Rightarrow> string \<Rightarrow> path option fio \<Rightarrow> path option fio" where
  "when_present p kind message rest = tryM (fs_stat p) (\<lambda>r. case r of
      Inr k \<Rightarrow> if k = kind then rest else throw (Err message)
    | Inl e \<Rightarrow> if e = NotFound then ret None else throw e)"

fun candidate_below :: "path \<Rightarrow> path \<Rightarrow> path option fio \<Rightarrow> path option fio" where
  "candidate_below base [] rest = rest"
| "candidate_below base (c # cs) rest =
     when_present (base @ [c]) Is_dir ''reuse path contains an unsafe parent'' (candidate_below (base @ [c]) cs rest)"

definition candidate_file :: "dir_manifest \<Rightarrow> path \<Rightarrow> nat \<Rightarrow> path option fio" where
  "candidate_file m root i =
     bindM (lift (file_entry m i)) (\<lambda>e.
     let p = root @ comps (e_path e) in
     when_present root Is_dir ''reuse root is not a real directory''
       (candidate_below root (butlast (comps (e_path e)))
         (when_present p Is_file ''reuse candidate is not a real file'' (ret (Some p)))))"

section \<open>Checking the staging directory\<close>

text \<open>The fuel bounds the depth; a directory that is entered has a path of the manifest, so
  \<open>MAX_RELATIVE_PATH_BYTES + 2\<close> is enough (\<open>validate_fuel\<close> below).\<close>

primrec validate_staging_directory ::
    "nat \<Rightarrow> bytes set \<Rightarrow> bytes set \<Rightarrow> bytes set \<Rightarrow> path \<Rightarrow> path \<Rightarrow> unit fio" where
  "validate_staging_directory 0 dirs files partials root rel = throw Panic"
| "validate_staging_directory (Suc n) dirs files partials root rel =
     bindM (fs_list (root @ rel)) (forM (\<lambda>x.
       bindM (fs_stat (root @ rel @ [x])) (\<lambda>k.
       let relative = join_with slash (rel @ [x]) in
       case k of
         Is_symlink \<Rightarrow> throw (Err ''staging tree contains a symlink'')
       | Is_dir \<Rightarrow>
           if relative \<notin> dirs then throw (Err ''staging tree contains an unexpected directory'')
           else validate_staging_directory n dirs files partials root (rel @ [x])
       | Is_file \<Rightarrow>
           if \<not> (relative \<in> files \<or> relative = marker_name \<or> relative \<in> partials)
           then throw (Err ''staging tree contains an unexpected file'') else ret ()
       | Is_other \<Rightarrow> throw (Err ''staging tree contains an unsupported object''))))"

definition paths_of :: "entry_kind \<Rightarrow> dir_manifest \<Rightarrow> bytes set" where
  "paths_of kind m = set (map e_path (filter (\<lambda>e. e_kind e = kind) (d_entries m)))"

definition partial_paths :: "dir_manifest \<Rightarrow> bytes set" where
  "partial_paths m = set (concat (map (\<lambda>e.
     [appended_bytes (e_path e) (as_bytes ''.part''), appended_bytes (e_path e) (as_bytes ''.part.map'')])
     (filter (\<lambda>e. e_kind e = File) (d_entries m))))"

definition validate_staging_tree :: "dir_manifest \<Rightarrow> path \<Rightarrow> bool \<Rightarrow> unit fio" where
  "validate_staging_tree m staging allow_partial_files =
     bindM (require_real_directory staging) (\<lambda>_.
     bindM (forM (\<lambda>e. if e_kind e = Directory then require_real_directory (staging @ comps (e_path e)) else ret ())
       (d_entries m)) (\<lambda>_.
     validate_staging_directory (MAX_RELATIVE_PATH_BYTES + 2) (paths_of Directory m) (paths_of File m)
       (if allow_partial_files then partial_paths m else {}) staging []))"

section \<open>Preparing and installing\<close>

definition make_directory :: "path \<Rightarrow> manifest_entry \<Rightarrow> unit fio" where
  "make_directory staging e =
     (if e_kind e \<noteq> Directory then ret ()
      else tryM (fs_stat (staging @ comps (e_path e))) (\<lambda>r. case r of
          Inr k \<Rightarrow> if k \<noteq> Is_dir then throw (Err ''staging manifest directory is unsafe'') else ret ()
        | Inl err \<Rightarrow> if err = NotFound then fs_mkdir (staging @ comps (e_path e)) else throw err))"

definition open_or_create_staging :: "path \<Rightarrow> bytes \<Rightarrow> unit fio" where
  "open_or_create_staging staging encoded =
     tryM (fs_stat staging) (\<lambda>r. case r of
        Inr k \<Rightarrow>
          if k \<noteq> Is_dir then throw (Err ''directory staging path is not a real directory'')
          else bindM (read_nofollow (staging @ [marker_name])) (\<lambda>marker.
            if marker \<noteq> encoded then throw (Err ''directory staging manifest does not match'') else ret ())
      | Inl err \<Rightarrow>
          if err = NotFound then
            bindM (fs_mkdir staging) (\<lambda>_.
            bindM (fs_create_new (staging @ [marker_name]) 384) (\<lambda>_.
            bindM (fs_write (staging @ [marker_name]) encoded) (\<lambda>_. fs_sync)))
          else throw err)"

definition prepare_staging :: "(bytes \<Rightarrow> 256 word) \<Rightarrow> dir_manifest \<Rightarrow> destination \<Rightarrow> path fio" where
  "prepare_staging sha m d =
     bindM (require_absent [dt_name d] ''directory destination already exists'') (\<lambda>_.
     bindM (require_real_directory []) (\<lambda>_.
     let staging = [staging_name sha m d] in
     bindM (lift (dir_encode m)) (\<lambda>encoded.
     bindM (open_or_create_staging staging (as_bytes encoded)) (\<lambda>_.
     bindM (forM (make_directory staging) (d_entries m)) (\<lambda>_.
     bindM (validate_staging_tree m staging True) (\<lambda>_. ret staging))))))"

text \<open>Mode and times of an object, then \<open>fsync\<close>.\<close>

definition set_attributes :: "path \<Rightarrow> nat \<Rightarrow> int \<Rightarrow> int \<Rightarrow> unit fio" where
  "set_attributes p mode seconds nanoseconds =
     bindM (fs_chmod p mode) (\<lambda>_.
     bindM (lift (system_time seconds nanoseconds)) (\<lambda>t.
     bindM (fs_utime p t) (\<lambda>_. fs_sync)))"

definition finish_file :: "(bytes \<Rightarrow> 256 word) \<Rightarrow> dir_manifest \<Rightarrow> path \<Rightarrow> nat \<times> manifest_entry \<Rightarrow> unit fio" where
  "finish_file sha m staging ie = (case ie of (i, e) \<Rightarrow>
     if e_kind e \<noteq> File then ret ()
     else
     bindM (file_destination m staging i) (\<lambda>p.
     bindM (fs_open_write p) (\<lambda>_.
     bindM (fs_metadata p) (\<lambda>(kind, sz).
     if kind \<noteq> Is_file \<or> sz \<noteq> e_size e then throw (Err ''staged file size or type does not match manifest'')
     else
     bindM (fs_read p) (\<lambda>content.
     if Some (digest sha content) \<noteq> e_hash e then throw (Err ''staged file hash does not match manifest'')
     else set_attributes p (e_mode e) (e_seconds e) (e_nanoseconds e))))))"

definition finish_directory :: "path \<Rightarrow> manifest_entry \<Rightarrow> unit fio" where
  "finish_directory staging e =
     (if e_kind e \<noteq> Directory then ret ()
      else
      bindM (fs_open_dir (staging @ comps (e_path e))) (\<lambda>_.
        set_attributes (staging @ comps (e_path e)) (e_mode e) (e_seconds e) (e_nanoseconds e)))"

text \<open>Opening the empty path fails.\<close>

definition sync_parent :: "destination \<Rightarrow> unit fio" where
  "sync_parent d =
     (if dt_bare d then fs_call (\<lambda>w. (Inl NotFound, w)) else bindM (fs_open_dir []) (\<lambda>_. fs_sync))"

definition install :: "(bytes \<Rightarrow> 256 word) \<Rightarrow> dir_manifest \<Rightarrow> bytes \<Rightarrow> destination \<Rightarrow> unit fio" where
  "install sha m staging d =
     bindM (validate_staging_tree m [staging] False) (\<lambda>_.
     bindM (require_absent [dt_name d] ''directory destination already exists'') (\<lambda>_.
     bindM (forM (finish_file sha m [staging]) (enumerate 0 (d_entries m))) (\<lambda>_.
     bindM (forM (finish_directory [staging]) (rev (d_entries m))) (\<lambda>_.
     bindM (fs_unlink ([staging] @ [marker_name])) (\<lambda>_.
     bindM (fs_open_dir [staging]) (\<lambda>_.
     bindM (set_attributes [staging] (d_root_mode m) (d_root_seconds m) (d_root_nanoseconds m)) (\<lambda>_.
     bindM (fs_rename_dir staging (dt_name d)) (\<lambda>_. sync_parent d))))))))"

section \<open>The paths of a manifest\<close>

lemma comps_join: "ns \<noteq> [] \<Longrightarrow> \<forall>n\<in>set ns. slash \<notin> set n \<Longrightarrow> comps (join_with slash ns) = ns"
  by (simp add: comps_def split_on_join)

lemma join_comps [simp]: "join_with slash (comps p) = p"
  by (simp add: comps_def join_split_on)

lemma comps_inj: "comps p = comps q \<Longrightarrow> p = q"
  by (metis join_comps)

lemma comps_safe:
  assumes "safe_path p" shows "comps p \<noteq> []" "\<forall>n\<in>set (comps p). proper_name n"
proof -
  obtain ns where "ns \<noteq> []" "\<forall>n\<in>set ns. proper_name n" "p = join_with slash ns"
    using assms by (auto simp: safe_path_def)
  then show "comps p \<noteq> []" "\<forall>n\<in>set (comps p). proper_name n" by (simp_all add: comps_join proper_name_def)
qed

lemma join_with_append: "q \<noteq> [] \<Longrightarrow> r \<noteq> [] \<Longrightarrow> join_with c (q @ r) = join_with c q @ c # join_with c r"
proof (induction q)
  case (Cons x q)
  then show ?case by (cases q; cases r) auto
qed simp

lemma entry_safe: "tree_shaped es \<Longrightarrow> e \<in> set es \<Longrightarrow> safe_path (e_path e)"
  by (simp add: tree_shaped_def entry_ok_def)

lemma entry_unique:
  assumes "tree_shaped es" "d \<in> set es" "e \<in> set es" "e_path d = e_path e" shows "d = e"
proof -
  have "sorted_wrt (<) (map e_path es)" using assms(1) by (simp add: tree_shaped_def)
  then have "distinct (map e_path es)" by (simp add: strict_sorted_iff)
  then show ?thesis using assms(2-4) by (meson distinct_map inj_onD)
qed

text \<open>A proper prefix of the names of an entry is a directory entry.\<close>

lemma entry_prefix:
  assumes t: "tree_shaped es" "e \<in> set es" and c: "comps (e_path e) = q @ r" "q \<noteq> []" "r \<noteq> []"
  shows "\<exists>d\<in>set es. e_kind d = Directory \<and> comps (e_path d) = q"
proof -
  have n: "\<forall>n\<in>set (q @ r). proper_name n" using comps_safe(2) [OF entry_safe [OF t]] c by simp
  have "e_path e = join_with slash q @ slash # join_with slash r"
    using c join_with_append [of q r slash] by (metis join_comps)
  then have "join_with slash q \<in> set (parents (e_path e))" by (auto simp: set_parents)
  then have "join_with slash q \<in> directories es" using t by (auto simp: tree_shaped_def)
  then obtain d where "d \<in> set es" "e_kind d = Directory" "e_path d = join_with slash q" by (auto simp: directories_def)
  moreover have "comps (join_with slash q) = q" using c(2) n by (intro comps_join) (auto simp: proper_name_def)
  ultimately show ?thesis by auto
qed

section \<open>What the checks establish\<close>

lemma looks_require:
  "closed t \<Longrightarrow> reachable t p \<Longrightarrow> looks t (require_real_directory p) (\<lambda>_. is_directory t p)"
  unfolding require_real_directory_def
  by (rule looks_bind [OF looks_stat]) (auto simp: is_directory_kind intro!: looks_throw looks_ret)

lemma looks_absent: "closed t \<Longrightarrow> reachable t p \<Longrightarrow> looks t (require_absent p message) (\<lambda>_. t p = None)"
  unfolding require_absent_def by (rule looks_try_stat) (auto intro!: looks_throw looks_ret)

lemma looks_require_components:
  "closed t \<Longrightarrow> is_directory t base \<Longrightarrow> looks t (require_components base cs) (\<lambda>_. is_directory t (base @ cs))"
proof (induction cs arbitrary: base)
  case (Cons c cs)
  show ?case unfolding require_components.simps
    by (rule looks_bind [OF looks_require]) (use Cons Cons.IH [of "base @ [c]"] in simp_all)
qed (simp add: looks_ret)

lemma file_entry_Inr: "file_entry m i = Inr e \<longleftrightarrow> i < length (d_entries m) \<and> e = d_entries m ! i \<and> e_kind e = File"
  by (auto simp: file_entry_def and_then_eq_Inr)

text \<open>The destination of a file lies in real directories below the staging directory.\<close>

lemma looks_file_destination:
  assumes "closed t" "reachable t staging"
  shows "looks t (file_destination m staging i) (\<lambda>p. \<exists>e. file_entry m i = Inr e \<and> p = staging @ comps (e_path e)
    \<and> is_directory t (staging @ butlast (comps (e_path e))))"
  unfolding file_destination_def
proof (rule looks_bind [OF looks_lift])
  fix e assume e: "file_entry m i = Inr e"
  let ?p = "staging @ comps (e_path e)" and ?d = "staging @ butlast (comps (e_path e))"
  show "looks t (bindM (require_real_directory staging) (\<lambda>_.
     bindM (require_components staging (butlast (comps (e_path e)))) (\<lambda>_.
     tryM (fs_stat ?p) (\<lambda>r. if r = Inr Is_symlink then throw (Err ''staging file destination is a symlink'') else ret ?p))))
    (\<lambda>p. \<exists>e. file_entry m i = Inr e \<and> p = staging @ comps (e_path e) \<and> is_directory t (staging @ butlast (comps (e_path e))))"
  proof (rule looks_bind [OF looks_require [OF assms]])
    assume s: "is_directory t staging"
    show "looks t (bindM (require_components staging (butlast (comps (e_path e)))) (\<lambda>_.
       tryM (fs_stat ?p) (\<lambda>r. if r = Inr Is_symlink then throw (Err ''staging file destination is a symlink'') else ret ?p)))
      (\<lambda>p. \<exists>e. file_entry m i = Inr e \<and> p = staging @ comps (e_path e) \<and> is_directory t (staging @ butlast (comps (e_path e))))"
    proof (rule looks_bind [OF looks_require_components [OF assms(1) s]])
      assume d: "is_directory t ?d"
      have "reachable t ?p" using d s present_reachable [OF assms(1), of staging]
        by (cases "comps (e_path e) = []") (auto simp: reachable_def butlast_append is_directory_def)
      then show "looks t (tryM (fs_stat ?p) (\<lambda>r. if r = Inr Is_symlink then throw (Err ''staging file destination is a symlink'') else ret ?p))
        (\<lambda>p. \<exists>e. file_entry m i = Inr e \<and> p = staging @ comps (e_path e) \<and> is_directory t (staging @ butlast (comps (e_path e))))"
        by (rule looks_try_stat [OF assms(1)]) (use d e in \<open>auto intro!: looks_throw looks_ret\<close>)
    qed
  qed
qed

lemma obj_type_file: "obj_type x = Is_file \<longleftrightarrow> (\<exists>a c. x = File_obj a c)"
  by (cases x) auto

text \<open>The source of a file is a real file below the root, reached through real directories.\<close>

lemma looks_source_file:
  assumes "closed t" "reachable t root"
  shows "looks t (source_file m root i) (\<lambda>p. \<exists>e a c. file_entry m i = Inr e \<and> p = root @ comps (e_path e)
    \<and> t p = Some (File_obj a c))"
  unfolding source_file_def
proof (rule looks_bind [OF looks_lift], assumption, rule looks_bind [OF looks_require [OF assms]],
    rule looks_bind [OF looks_require_components [OF assms(1)]], assumption)
  fix e :: manifest_entry assume e: "file_entry m i = Inr e"
  let ?p = "root @ comps (e_path e)"
  assume r: "is_directory t root" and d: "is_directory t (root @ butlast (comps (e_path e)))"
  have "reachable t ?p" using d r present_reachable [OF assms(1), of root]
    by (cases "comps (e_path e) = []") (auto simp: reachable_def butlast_append is_directory_def)
  then show "looks t (bindM (fs_stat ?p) (\<lambda>k. if k \<noteq> Is_file then throw (Err ''manifest source file changed type'') else ret ?p))
    (\<lambda>p. \<exists>e a c. file_entry m i = Inr e \<and> p = root @ comps (e_path e) \<and> t p = Some (File_obj a c))"
  proof (rule looks_bind [OF looks_stat [OF assms(1)]])
    fix k assume k: "\<exists>x. t ?p = Some x \<and> obj_type x = k"
    show "looks t (if k \<noteq> Is_file then throw (Err ''manifest source file changed type'') else ret ?p)
      (\<lambda>p. \<exists>e a c. file_entry m i = Inr e \<and> p = root @ comps (e_path e) \<and> t p = Some (File_obj a c))"
    proof (cases "k = Is_file")
      case True
      then obtain a c where "t ?p = Some (File_obj a c)" using k obj_type_file by auto
      then show ?thesis using e True by (auto intro!: looks_ret)
    qed (simp add: looks_throw)
  qed
qed

lemma looks_when_present:
  assumes "closed t" "reachable t p" "\<And>x. t p = Some x \<Longrightarrow> obj_type x = kind \<Longrightarrow> looks t rest F" "F None"
  shows "looks t (when_present p kind message rest) F"
  unfolding when_present_def
  by (rule looks_try_stat [OF assms(1,2)]) (use assms(3,4) in \<open>auto intro!: looks_throw looks_ret\<close>)

lemma looks_candidate_below:
  assumes "closed t"
  shows "is_directory t base \<Longrightarrow> (is_directory t (base @ cs) \<Longrightarrow> looks t rest F) \<Longrightarrow> F None \<Longrightarrow>
    looks t (candidate_below base cs rest) F"
proof (induction cs arbitrary: base)
  case (Cons c cs)
  show ?case unfolding candidate_below.simps
  proof (rule looks_when_present [OF assms])
    fix x assume "t (base @ [c]) = Some x" "obj_type x = Is_dir"
    then have "is_directory t (base @ [c])" by (auto simp: is_directory_kind)
    then show "looks t (candidate_below (base @ [c]) cs rest) F" by (rule Cons.IH) (use Cons.prems in simp_all)
  qed (use Cons.prems in simp_all)
qed simp

text \<open>A candidate for reuse is a real file below the root, reached through real directories.\<close>

lemma looks_candidate_file:
  assumes "closed t" "reachable t root"
  shows "looks t (candidate_file m root i) (\<lambda>r. case r of None \<Rightarrow> True
    | Some p \<Rightarrow> \<exists>e a c. file_entry m i = Inr e \<and> p = root @ comps (e_path e) \<and> t p = Some (File_obj a c))"
  (is "looks t _ ?F")
  unfolding candidate_file_def Let_def
proof (rule looks_bind [OF looks_lift], assumption, rule looks_when_present [OF assms])
  fix e x assume e: "file_entry m i = Inr e" and "t root = Some x" "obj_type x = Is_dir"
  then have r: "is_directory t root" by (auto simp: is_directory_kind)
  let ?p = "root @ comps (e_path e)"
  show "looks t (candidate_below root (butlast (comps (e_path e)))
      (when_present ?p Is_file ''reuse candidate is not a real file'' (ret (Some ?p)))) ?F"
  proof (rule looks_candidate_below [OF assms(1) r])
    assume d: "is_directory t (root @ butlast (comps (e_path e)))"
    have "reachable t ?p" using d r present_reachable [OF assms(1), of root]
      by (cases "comps (e_path e) = []") (auto simp: reachable_def butlast_append is_directory_def)
    then show "looks t (when_present ?p Is_file ''reuse candidate is not a real file'' (ret (Some ?p))) ?F"
      by (rule looks_when_present [OF assms(1)]) (use e in \<open>auto simp: obj_type_file intro!: looks_ret\<close>)
  qed simp
qed simp

text \<open>What the recursive check accepts: below the root only directories and files that are expected.\<close>

definition expected :: "bytes set \<Rightarrow> bytes set \<Rightarrow> bytes set \<Rightarrow> path \<Rightarrow> obj \<Rightarrow> bool" where
  "expected dirs files partials q x \<longleftrightarrow>
     (obj_type x = Is_dir \<and> join_with slash q \<in> dirs)
     \<or> (obj_type x = Is_file \<and> (join_with slash q \<in> files \<or> join_with slash q = marker_name \<or> join_with slash q \<in> partials))"

lemma looks_validate_directory:
  "closed t \<Longrightarrow> is_directory t (root @ rel) \<Longrightarrow>
    looks t (validate_staging_directory n dirs files partials root rel)
      (\<lambda>_. \<forall>q x. q \<noteq> [] \<longrightarrow> t (root @ rel @ q) = Some x \<longrightarrow> expected dirs files partials (rel @ q) x)"
proof (induction n arbitrary: rel)
  case (Suc n)
  let ?F = "\<lambda>x. \<forall>q y. t (root @ rel @ x # q) = Some y \<longrightarrow> expected dirs files partials (rel @ x # q) y"
  show ?case unfolding validate_staging_directory.simps
  proof (rule looks_bind [OF looks_list [OF Suc.prems]])
    fix ns assume ns: "\<forall>x. x \<in> set ns \<longleftrightarrow> t ((root @ rel) @ [x]) \<noteq> None"
    let ?f = "\<lambda>x. bindM (fs_stat (root @ rel @ [x])) (\<lambda>k.
       let relative = join_with slash (rel @ [x]) in
       case k of
         Is_symlink \<Rightarrow> throw (Err ''staging tree contains a symlink'')
       | Is_dir \<Rightarrow>
           if relative \<notin> dirs then throw (Err ''staging tree contains an unexpected directory'')
           else validate_staging_directory n dirs files partials root (rel @ [x])
       | Is_file \<Rightarrow>
           if \<not> (relative \<in> files \<or> relative = marker_name \<or> relative \<in> partials)
           then throw (Err ''staging tree contains an unexpected file'') else ret ()
       | Is_other \<Rightarrow> throw (Err ''staging tree contains an unsupported object''))"
    have each: "looks t (?f x) (\<lambda>_. ?F x)" for x
    proof (rule looks_bind [OF looks_stat [OF Suc.prems(1)]])
      show "reachable t (root @ rel @ [x])" using Suc.prems(2) by (simp add: reachable_def butlast_append)
      fix k assume "\<exists>y. t (root @ rel @ [x]) = Some y \<and> obj_type y = k"
      then obtain y where y: "t (root @ rel @ [x]) = Some y" "obj_type y = k" by blast
      have leaf: "?F x" if "expected dirs files partials (rel @ [x]) y" "k \<noteq> Is_dir"
      proof (intro allI impI)
        fix q z assume z: "t (root @ rel @ x # q) = Some z"
        have "q = []"
        proof (rule ccontr)
          assume "q \<noteq> []"
          then have "is_directory t (root @ rel @ [x])"
            using closed_prefix [OF Suc.prems(1), of "root @ rel @ [x]" q] z by simp
          then show False using y that(2) by (auto simp: is_directory_kind)
        qed
        then show "expected dirs files partials (rel @ x # q) z" using that(1) y z by simp
      qed
      show "looks t (let relative = join_with slash (rel @ [x]) in
         case k of
           Is_symlink \<Rightarrow> throw (Err ''staging tree contains a symlink'')
         | Is_dir \<Rightarrow>
             if relative \<notin> dirs then throw (Err ''staging tree contains an unexpected directory'')
             else validate_staging_directory n dirs files partials root (rel @ [x])
         | Is_file \<Rightarrow>
             if \<not> (relative \<in> files \<or> relative = marker_name \<or> relative \<in> partials)
             then throw (Err ''staging tree contains an unexpected file'') else ret ()
         | Is_other \<Rightarrow> throw (Err ''staging tree contains an unsupported object'')) (\<lambda>_. ?F x)"
      proof (cases k)
        case Is_dir
        show ?thesis
        proof (cases "join_with slash (rel @ [x]) \<in> dirs")
          case True
          then have here: "expected dirs files partials (rel @ [x]) y" using y Is_dir by (simp add: expected_def)
          have "is_directory t (root @ rel @ [x])" using y Is_dir by (auto simp: is_directory_kind)
          then have "looks t (validate_staging_directory n dirs files partials root (rel @ [x]))
              (\<lambda>_. \<forall>q z. q \<noteq> [] \<longrightarrow> t (root @ (rel @ [x]) @ q) = Some z \<longrightarrow> expected dirs files partials ((rel @ [x]) @ q) z)"
            by (rule Suc.IH [OF Suc.prems(1)])
          then have "looks t (validate_staging_directory n dirs files partials root (rel @ [x])) (\<lambda>_. ?F x)"
          proof (rule looks_conseq, intro allI impI)
            fix q z assume a: "\<forall>q z. q \<noteq> [] \<longrightarrow> t (root @ (rel @ [x]) @ q) = Some z \<longrightarrow> expected dirs files partials ((rel @ [x]) @ q) z"
              and z: "t (root @ rel @ x # q) = Some z"
            show "expected dirs files partials (rel @ x # q) z"
              using a z here y by (cases "q = []") force+
          qed
          then show ?thesis using Is_dir True by (simp add: Let_def)
        qed (simp add: Is_dir looks_throw)
      next
        case Is_file
        then show ?thesis using leaf y
          by (auto simp: Let_def expected_def intro!: looks_throw looks_ret)
      qed (simp_all add: looks_throw)
    qed
    have all: "looks t (forM ?f ns) (\<lambda>_. \<forall>x\<in>set ns. ?F x)" by (rule looks_forM) (rule each)
    show "looks t (forM ?f ns) (\<lambda>_. \<forall>q x. q \<noteq> [] \<longrightarrow> t (root @ rel @ q) = Some x \<longrightarrow> expected dirs files partials (rel @ q) x)"
    proof (rule looks_conseq [OF all], intro allI impI)
      fix q y assume a: "\<forall>x\<in>set ns. ?F x" and q: "q \<noteq> []" and y: "t (root @ rel @ q) = Some y"
      obtain x r where x: "q = x # r" using q by (cases q) auto
      have "t ((root @ rel) @ [x]) \<noteq> None"
        using closed_prefix [OF Suc.prems(1), of "root @ rel @ [x]" r] y x
        by (cases "r = []") (auto simp: is_directory_def)
      then show "expected dirs files partials (rel @ q) y" using a ns y x by blast
    qed
  qed
qed (simp add: looks_throw)

text \<open>The fuel does not matter: a directory is entered only if its path is in the manifest.\<close>

lemma length_join: "ns \<noteq> [] \<Longrightarrow> length ns \<le> Suc (length (join_with slash ns))"
  by (induction ns rule: join_with.induct) auto

lemma validate_fuel:
  assumes "\<And>p. p \<in> dirs \<Longrightarrow> length p \<le> M"
  shows "length rel \<le> M + 1 \<Longrightarrow> M + 2 \<le> n + length rel \<Longrightarrow> M + 2 \<le> n' + length rel
    \<Longrightarrow> validate_staging_directory n dirs files partials root rel = validate_staging_directory n' dirs files partials root rel"
proof (induction n arbitrary: n' rel)
  case (Suc n)
  then obtain k where k: "n' = Suc k" by (cases n') auto
  have "validate_staging_directory n dirs files partials root (rel @ [x])
      = validate_staging_directory k dirs files partials root (rel @ [x])" if "join_with slash (rel @ [x]) \<in> dirs" for x
  proof -
    have "length (rel @ [x]) \<le> Suc M" using assms [OF that] length_join [of "rel @ [x]"] by simp
    then show ?thesis by (intro Suc.IH) (use Suc.prems k in auto)
  qed
  then show ?case unfolding k validate_staging_directory.simps Let_def
    by (intro arg_cong [where f = "bindM (fs_list (root @ rel))"] arg_cong [where f = forM] ext
        arg_cong [where f = "bindM (fs_stat (root @ rel @ [x]))" for x]) (simp split: file_type.split)
qed simp

lemma entry_prefix_earlier:
  assumes t: "tree_shaped es" "i < length es" and c: "comps (e_path (es ! i)) = q @ r" "q \<noteq> []" "r \<noteq> []"
  shows "\<exists>j<i. e_kind (es ! j) = Directory \<and> comps (e_path (es ! j)) = q"
proof -
  obtain d where d: "d \<in> set es" "e_kind d = Directory" "comps (e_path d) = q"
    using entry_prefix [OF t(1) _ c] t(2) by auto
  then obtain j where j: "j < length es" "es ! j = d" by (metis in_set_conv_nth)
  have "e_path (es ! i) = e_path d @ slash # join_with slash r"
    using c d(3) join_with_append [of q r slash] by (metis join_comps)
  then have less: "e_path d < e_path (es ! i)" by (rule parent_less)
  have "j < i"
  proof (rule ccontr)
    assume "\<not> j < i"
    then have "i = j \<or> i < j" by linarith
    then have "e_path (es ! i) \<le> e_path (es ! j)"
      using t(1) j(1) by (auto simp: tree_shaped_def sorted_wrt_map dest: sorted_wrt_nth_less)
    then show False using less j(2) by simp
  qed
  then show ?thesis using d j(2) by blast
qed

text \<open>Names have no slash in them.\<close>

definition plain_names :: "objects \<Rightarrow> bool" where
  "plain_names t \<longleftrightarrow> (\<forall>p x. t (p @ [x]) \<noteq> None \<longrightarrow> slash \<notin> set x)"

lemma plain_names_list:
  assumes "\<forall>k\<in>fst ` set l. k \<noteq> [] \<longrightarrow> slash \<notin> set (last k)" shows "plain_names (map_of l)"
  unfolding plain_names_def
proof (intro allI impI)
  fix p x assume "map_of l (p @ [x]) \<noteq> None"
  then have "p @ [x] \<in> fst ` set l" by (force dest: map_of_SomeD)
  then show "slash \<notin> set x" using assms by fastforce
qed

lemma plain_path:
  assumes "closed t" "plain_names t"
  shows "t (p @ q) \<noteq> None \<Longrightarrow> \<forall>n\<in>set q. slash \<notin> set n"
proof (induction q rule: rev_induct)
  case (snoc x q)
  then have "slash \<notin> set x" using assms(2) unfolding plain_names_def by (metis append.assoc)
  moreover have "t (p @ q) \<noteq> None" using closed_prefix [OF assms(1), of "p @ q" "[x]"] snoc.prems by (auto simp: is_directory_def)
  ultimately show ?case using snoc.IH by simp
qed simp

lemma marker_comps [simp]: "comps marker_name = [marker_name]"
proof -
  have "slash \<notin> set marker_name" by code_simp
  then show ?thesis by (simp add: comps_def split_on_no_sep)
qed

text \<open>The staging directory \<open>s\<close> has all the directories of the manifest, and below it there is nothing
  but them, files of the manifest, the marker and files with a path in \<open>partials\<close>.\<close>

definition staged :: "dir_manifest \<Rightarrow> bytes set \<Rightarrow> bytes \<Rightarrow> objects \<Rightarrow> bool" where
  "staged m partials s t \<longleftrightarrow> is_directory t [s]
     \<and> (\<forall>e\<in>set (d_entries m). e_kind e = Directory \<longrightarrow> is_directory t (s # comps (e_path e)))
     \<and> (\<forall>q x. q \<noteq> [] \<longrightarrow> t (s # q) = Some x \<longrightarrow>
          (obj_type x = Is_dir \<and> (\<exists>e\<in>set (d_entries m). e_kind e = Directory \<and> q = comps (e_path e)))
          \<or> (obj_type x = Is_file \<and> ((\<exists>e\<in>set (d_entries m). e_kind e = File \<and> q = comps (e_path e))
              \<or> q = [marker_name] \<or> join_with slash q \<in> partials)))"

lemma entry_reachable:
  assumes "tree_shaped (d_entries m)" "i < length (d_entries m)" "is_directory t [s]"
    "\<forall>j<i. e_kind (d_entries m ! j) = Directory \<longrightarrow> is_directory t (s # comps (e_path (d_entries m ! j)))"
  shows "reachable t (s # comps (e_path (d_entries m ! i)))"
proof -
  let ?c = "comps (e_path (d_entries m ! i))"
  have c: "?c \<noteq> []" using comps_safe(1) [OF entry_safe [OF assms(1)]] assms(2) by simp
  show ?thesis
  proof (cases "butlast ?c = []")
    case True
    then have "butlast (s # ?c) = [s]" using c by simp
    then show ?thesis unfolding reachable_def using assms(3) by simp
  next
    case False
    have "?c = butlast ?c @ [last ?c]" using c by simp
    from entry_prefix_earlier [OF assms(1,2) this False] obtain j where
      "j < i" "e_kind (d_entries m ! j) = Directory" "comps (e_path (d_entries m ! j)) = butlast ?c" by blast
    then have "is_directory t (s # butlast ?c)" using assms(4) by metis
    then show ?thesis using c by (simp add: reachable_def)
  qed
qed

lemma looks_validate_tree:
  assumes c: "closed t" "reachable t [s]" "plain_names t" and m: "tree_shaped (d_entries m)"
  shows "looks t (validate_staging_tree m [s] allow) (\<lambda>_. staged m (if allow then partial_paths m else {}) s t)"
  unfolding validate_staging_tree_def
proof (rule looks_bind [OF looks_require [OF c(1,2)]])
  let ?ps = "if allow then partial_paths m else {}" and ?es = "d_entries m"
  let ?D = "\<lambda>e. e_kind e = Directory \<longrightarrow> is_directory t (s # comps (e_path e))"
  assume s: "is_directory t [s]"
  show "looks t (bindM (forM (\<lambda>e. if e_kind e = Directory then require_real_directory ([s] @ comps (e_path e)) else ret ()) ?es)
      (\<lambda>_. validate_staging_directory (MAX_RELATIVE_PATH_BYTES + 2) (paths_of Directory m) (paths_of File m) ?ps [s] []))
    (\<lambda>_. staged m ?ps s t)"
  proof (rule looks_bind [OF looks_forM_in_order [where F = ?D]])
    fix i assume i: "i < length ?es" "\<forall>j<i. ?D (?es ! j)"
    have "reachable t ([s] @ comps (e_path (?es ! i)))" using entry_reachable [OF m i(1) s i(2)] by simp
    then show "looks t (if e_kind (?es ! i) = Directory then require_real_directory ([s] @ comps (e_path (?es ! i))) else ret ())
        (\<lambda>_. ?D (?es ! i))"
      using looks_require [OF c(1)] by (auto intro: looks_ret)
  next
    assume d: "\<forall>e\<in>set ?es. ?D e"
    have "is_directory t ([s] @ [])" using s by simp
    from looks_validate_directory [OF c(1) this, of "MAX_RELATIVE_PATH_BYTES + 2" "paths_of Directory m" "paths_of File m" ?ps]
    show "looks t (validate_staging_directory (MAX_RELATIVE_PATH_BYTES + 2) (paths_of Directory m) (paths_of File m) ?ps [s] [])
        (\<lambda>_. staged m ?ps s t)"
    proof (rule looks_conseq)
      assume e: "\<forall>q x. q \<noteq> [] \<longrightarrow> t ([s] @ [] @ q) = Some x \<longrightarrow> expected (paths_of Directory m) (paths_of File m) ?ps ([] @ q) x"
      have "(obj_type x = Is_dir \<and> (\<exists>e\<in>set ?es. e_kind e = Directory \<and> q = comps (e_path e)))
          \<or> (obj_type x = Is_file \<and> ((\<exists>e\<in>set ?es. e_kind e = File \<and> q = comps (e_path e))
              \<or> q = [marker_name] \<or> join_with slash q \<in> ?ps))" if q: "q \<noteq> []" "t (s # q) = Some x" for q x
      proof -
        have n: "\<forall>n\<in>set q. slash \<notin> set n" by (rule plain_path [OF c(1,3), of "[s]"]) (simp add: q(2))
        then have j: "comps (join_with slash q) = q" using q(1) by (intro comps_join)
        have k: "\<exists>e\<in>set ?es. e_kind e = kd \<and> q = comps (e_path e)" if "join_with slash q \<in> paths_of kd m" for kd
          using that j by (auto simp: paths_of_def)
        have "q = [marker_name]" if "join_with slash q = marker_name" using that j by simp
        moreover have "expected (paths_of Directory m) (paths_of File m) ?ps q x" using e q by simp
        ultimately show ?thesis using k unfolding expected_def by blast
      qed
      then show "staged m ?ps s t" unfolding staged_def using s d by blast
    qed
  qed
qed

section \<open>The contract of \<open>prepare_staging\<close>\<close>

text \<open>What can be seen beside the staging directory \<open>s\<close>.\<close>

definition visible :: "bytes \<Rightarrow> objects \<Rightarrow> objects" where
  "visible s t p = (case p of [] \<Rightarrow> None | x # q \<Rightarrow> if x = s then None else t p)"

definition prepared :: "bytes \<Rightarrow> bytes \<Rightarrow> objects \<Rightarrow> objects \<Rightarrow> bool" where
  "prepared s encoded t0 t \<longleftrightarrow> visible s t = visible s t0 \<and> plain_names t \<and> is_directory t [s]
     \<and> (\<exists>a. t [s, marker_name] = Some (File_obj a encoded))"

lemma slash_not_in_marker: "slash \<notin> set marker_name"
  by code_simp

lemma plain_names_added:
  assumes "plain_names t" "slash \<notin> set (last p)" shows "plain_names (added p f x t)"
  unfolding plain_names_def
proof (intro allI impI)
  fix q n assume a: "added p f x t (q @ [n]) \<noteq> None"
  show "slash \<notin> set n"
  proof (cases "q @ [n] = p")
    case True
    then show ?thesis using assms(2) by auto
  next
    case False
    then have "t (q @ [n]) \<noteq> None" using a by (simp add: added_def)
    then show ?thesis using assms(1) by (auto simp: plain_names_def)
  qed
qed

lemma visible_added: "visible s (added (s # q) f x t) = visible s t"
  by (cases q) (auto simp: visible_def added_def reattributed_def fun_eq_iff split: list.split)

lemma visible_update: "visible s (t((s # q) := x)) = visible s t"
  by (auto simp: visible_def fun_eq_iff split: list.split)

lemma added_directory: "t p = None \<Longrightarrow> is_directory (added p f x t) q = (if q = p then obj_type x = Is_dir else is_directory t q)"
  using reattributed_directory [of "butlast p" f t q] by (auto simp: added_def is_directory_kind)

lemma added_same [simp]: "added p f x t p = Some x"
  by (simp add: added_def)

lemma prepared_added:
  assumes "prepared s encoded t0 t" "t (s # q) = None" "q \<noteq> []" "slash \<notin> set (last q)"
  shows "prepared s encoded t0 (added (s # q) f (Dir_obj a) t)"
proof -
  have "plain_names (added (s # q) f (Dir_obj a) t)" by (rule plain_names_added) (use assms in \<open>simp_all add: prepared_def\<close>)
  moreover have "\<exists>b. added (s # q) f (Dir_obj a) t [s, marker_name] = Some (File_obj b encoded)"
    using assms by (auto simp: prepared_def added_def reattributed_def)
  ultimately show ?thesis using assms by (simp add: prepared_def visible_added added_directory)
qed

text \<open>The directories among the first \<open>i\<close> entries exist.\<close>

definition made :: "dir_manifest \<Rightarrow> bytes \<Rightarrow> bytes \<Rightarrow> objects \<Rightarrow> nat \<Rightarrow> objects \<Rightarrow> bool" where
  "made m s encoded t0 i t \<longleftrightarrow> prepared s encoded t0 t
     \<and> (\<forall>j<i. e_kind (d_entries m ! j) = Directory \<longrightarrow> is_directory t (s # comps (e_path (d_entries m ! j))))"

lemma on_make_directory:
  assumes m: "tree_shaped (d_entries m)" and i: "i < length (d_entries m)"
  shows "triple (on (made m s encoded t0 i)) (make_directory [s] (d_entries m ! i))
    (\<lambda>_. on (made m s encoded t0 (Suc i))) (on (\<lambda>t. visible s t = visible s t0))"
proof (cases "e_kind (d_entries m ! i) = Directory")
  case False
  have "made m s encoded t0 i t \<Longrightarrow> made m s encoded t0 (Suc i) t" for t using False by (auto simp: made_def less_Suc_eq)
  then show ?thesis using False by (auto simp: make_directory_def intro!: triple_ret elim!: on_mono)
next
  case True
  let ?p = "s # comps (e_path (d_entries m ! i))"
  have c: "comps (e_path (d_entries m ! i)) \<noteq> []" "slash \<notin> set (last (comps (e_path (d_entries m ! i))))"
    using comps_safe [OF entry_safe [OF m nth_mem [OF i]]] last_in_set by (auto simp: proper_name_def)
  have r: "reachable t ?p" if "made m s encoded t0 i t" for t
    using entry_reachable [OF m i] that by (simp add: made_def prepared_def)
  have V: "visible s t = visible s t0" if "made m s encoded t0 i t" for t using that by (simp add: made_def prepared_def)
  have S: "made m s encoded t0 (Suc i) t" if "made m s encoded t0 i t" "is_directory t ?p" for t using that by (auto simp: made_def less_Suc_eq)
  have "triple (on (made m s encoded t0 i)) (tryM (fs_stat ?p) (\<lambda>r. case r of
        Inr k \<Rightarrow> if k \<noteq> Is_dir then throw (Err ''staging manifest directory is unsafe'') else ret ()
      | Inl err \<Rightarrow> if err = NotFound then fs_mkdir ?p else throw err))
    (\<lambda>_. on (made m s encoded t0 (Suc i))) (on (\<lambda>t. visible s t = visible s t0))"
  proof (rule on_try_stat [OF r])
    show "triple (on (\<lambda>t. made m s encoded t0 i t \<and> (\<exists>x. t ?p = Some x \<and> obj_type x = k))) (case Inr k of
        Inr k \<Rightarrow> if k \<noteq> Is_dir then throw (Err ''staging manifest directory is unsafe'') else ret ()
      | Inl err \<Rightarrow> if err = NotFound then fs_mkdir ?p else throw err)
      (\<lambda>_. on (made m s encoded t0 (Suc i))) (on (\<lambda>t. visible s t = visible s t0))" for k
      using V S by (auto simp: is_directory_kind intro!: triple_ret triple_throw elim!: on_mono)
    have "triple (on (\<lambda>t. made m s encoded t0 i t \<and> t ?p = None)) (fs_mkdir ?p) (\<lambda>_. on (made m s encoded t0 (Suc i))) (on (\<lambda>t. visible s t = visible s t0))"
    proof (rule on_mkdir)
      fix t f a assume t: "made m s encoded t0 i t \<and> t ?p = None"
      have "prepared s encoded t0 (added ?p f (Dir_obj a) t)"
        by (rule prepared_added) (use t c in \<open>simp_all add: made_def\<close>)
      then have "made m s encoded t0 i (added ?p f (Dir_obj a) t)" using t by (simp add: made_def added_directory)
      then show "made m s encoded t0 (Suc i) (added ?p f (Dir_obj a) t)" by (rule S) (use t in \<open>simp add: added_directory\<close>)
    qed (use r V in \<open>auto simp: reachable_def\<close>)
    then show "triple (on (\<lambda>t. made m s encoded t0 i t \<and> t ?p = None)) (case Inl NotFound of
        Inr k \<Rightarrow> if k \<noteq> Is_dir then throw (Err ''staging manifest directory is unsafe'') else ret ()
      | Inl err \<Rightarrow> if err = NotFound then fs_mkdir ?p else throw err)
      (\<lambda>_. on (made m s encoded t0 (Suc i))) (on (\<lambda>t. visible s t = visible s t0))" by simp
  qed (use V in \<open>auto intro!: triple_throw elim!: on_mono\<close>)
  then show ?thesis unfolding make_directory_def append_Cons append_Nil using True by simp
qed

lemma slash_not_in_staging_name: "slash \<notin> set (staging_name sha m d)"
proof -
  have c: "slash \<notin> set (as_bytes ''.packet-tide-'')" "slash \<notin> set (as_bytes ''-'')" "slash \<notin> set (as_bytes ''.part'')"
    by code_simp+
  have "slash \<notin> set (as_bytes (hex bs))" for bs
  proof
    assume "slash \<in> set (as_bytes (hex bs))"
    then obtain h where "h \<in> set (hex bs)" "slash = of_char h" by (auto simp: as_bytes_def)
    then have "unat slash = ord h" by (metis unat_of_char)
    then show False using \<open>h \<in> set (hex bs)\<close> hex_lower [of h bs] lower_hex_ord [of h] by simp
  qed
  with c show ?thesis unfolding staging_name_def as_bytes_append set_append by blast
qed

text \<open>The staging directory of an earlier attempt is taken up only if its marker is the manifest.\<close>

lemma looks_read_nofollow:
  "closed t \<Longrightarrow> reachable t p \<Longrightarrow> looks t (read_nofollow p) (\<lambda>c. \<exists>a. t p = Some (File_obj a c))"
  unfolding read_nofollow_def Let_def
  by (rule looks_bind [OF looks_open_read looks_bind [OF looks_read]]) (auto intro!: looks_ret looks_throw)

lemma on_new_staging:
  assumes s: "slash \<notin> set s" and t0: "plain_names t0" "is_directory t0 []" "closed t0"
  shows "triple (on (\<lambda>u. u = t0 \<and> t0 [s] = None)) (bindM (fs_mkdir [s]) (\<lambda>_.
      bindM (fs_create_new ([s] @ [marker_name]) 384) (\<lambda>_.
      bindM (fs_write ([s] @ [marker_name]) encoded) (\<lambda>_. fs_sync))))
    (\<lambda>_. on (prepared s encoded t0)) (on (\<lambda>t. visible s t = visible s t0))"
proof -
  let ?V = "\<lambda>t. visible s t = visible s t0 \<and> plain_names t \<and> is_directory t [s]" and ?m = "[s, marker_name]"
  let ?E = "on (\<lambda>t. visible s t = visible s t0)"
  have mk: "triple (on (\<lambda>u. u = t0 \<and> t0 [s] = None)) (fs_mkdir [s]) (\<lambda>_. on ?V) ?E"
    by (rule on_mkdir) (use s t0 in \<open>auto simp: visible_added [of s "[]"] plain_names_added added_directory\<close>)
  have create: "triple (on ?V) (fs_create_new ?m 384) (\<lambda>_. on (\<lambda>t. ?V t \<and> (\<exists>a. t ?m = Some (File_obj a [])))) ?E"
    by (rule on_create_new)
      (use slash_not_in_marker in \<open>auto simp: visible_added [of s "[marker_name]"] plain_names_added added_directory\<close>)
  have fill: "triple (on (\<lambda>t. ?V t \<and> (\<exists>a. t ?m = Some (File_obj a [])))) (fs_write ?m encoded) (\<lambda>_. on (prepared s encoded t0)) ?E"
  proof (rule on_write [where c = "[]"])
    fix t a assume t: "closed t" "?V t \<and> (\<exists>a. t ?m = Some (File_obj a []))"
    have "plain_names (t(?m \<mapsto> File_obj a c))" for c
      using t(2) slash_not_in_marker by (auto simp: plain_names_def)
    then show "prepared s encoded t0 (t(?m \<mapsto> File_obj a ([] @ encoded)))"
      using t(2) by (auto simp: prepared_def visible_update is_directory_def)
  qed (auto simp: visible_update)
  have "triple (on (prepared s encoded t0)) fs_sync (\<lambda>_. on (prepared s encoded t0)) ?E"
    by (rule on_sync) (simp add: prepared_def)
  then show ?thesis by (simp add: triple_bind [OF mk triple_bind [OF create triple_bind [OF fill]]])
qed

lemma on_open_staging:
  assumes s: "slash \<notin> set s" and t0: "plain_names t0" "is_directory t0 []" "closed t0"
  shows "triple (on (\<lambda>u. u = t0)) (open_or_create_staging [s] encoded)
    (\<lambda>_. on (prepared s encoded t0)) (on (\<lambda>t. visible s t = visible s t0))"
  unfolding open_or_create_staging_def
proof (rule on_try_stat)
  show "reachable u [s]" if "u = t0" for u using that t0(2) by (simp add: reachable_def)
  let ?E = "on (\<lambda>t. visible s t = visible s t0)"
  let ?open = "bindM (read_nofollow ([s] @ [marker_name])) (\<lambda>marker.
      if marker \<noteq> encoded then throw (Err ''directory staging manifest does not match'') else ret ())"
  have found: "triple (on (\<lambda>u. u = t0)) ?open (\<lambda>_. on (prepared s encoded t0)) ?E" if d: "is_directory t0 [s]"
  proof (rule looks_then [OF looks_read_nofollow [OF t0(3)]])
    show "reachable t0 ([s] @ [marker_name])" using d by (simp only: reachable_snoc)
    fix c assume "\<exists>a. t0 ([s] @ [marker_name]) = Some (File_obj a c)"
    then show "triple (on (\<lambda>u. u = t0)) (if c \<noteq> encoded then throw (Err ''directory staging manifest does not match'') else ret ())
        (\<lambda>_. on (prepared s encoded t0)) ?E"
      using d t0(1) by (auto simp: prepared_def intro: on_throw on_ret)
  qed simp
  show "triple (on (\<lambda>u. u = t0 \<and> (\<exists>x. u [s] = Some x \<and> obj_type x = k))) (case Inr k of
        Inr k \<Rightarrow> if k \<noteq> Is_dir then throw (Err ''directory staging path is not a real directory'') else ?open
      | Inl err \<Rightarrow> if err = NotFound then bindM (fs_mkdir [s]) (\<lambda>_.
            bindM (fs_create_new ([s] @ [marker_name]) 384) (\<lambda>_.
            bindM (fs_write ([s] @ [marker_name]) encoded) (\<lambda>_. fs_sync))) else throw err)
      (\<lambda>_. on (prepared s encoded t0)) ?E" for k
  proof (cases "is_directory t0 [s] \<and> k = Is_dir")
    case True
    then show ?thesis using found by simp (erule on_conseq, auto)
  next
    case False
    then show ?thesis by (auto simp: triple_def on_def throw_def is_directory_kind)
  qed
  have "triple (on (\<lambda>u. u = t0 \<and> u [s] = None)) (bindM (fs_mkdir [s]) (\<lambda>_.
      bindM (fs_create_new ([s] @ [marker_name]) 384) (\<lambda>_.
      bindM (fs_write ([s] @ [marker_name]) encoded) (\<lambda>_. fs_sync))))
    (\<lambda>_. on (prepared s encoded t0)) ?E"
    by (rule on_conseq [OF on_new_staging [OF assms]]) auto
  then show "triple (on (\<lambda>u. u = t0 \<and> u [s] = None)) (case Inl NotFound of
        Inr k \<Rightarrow> if k \<noteq> Is_dir then throw (Err ''directory staging path is not a real directory'') else ?open
      | Inl err \<Rightarrow> if err = NotFound then bindM (fs_mkdir [s]) (\<lambda>_.
            bindM (fs_create_new ([s] @ [marker_name]) 384) (\<lambda>_.
            bindM (fs_write ([s] @ [marker_name]) encoded) (\<lambda>_. fs_sync))) else throw err)
      (\<lambda>_. on (prepared s encoded t0)) ?E" by simp
qed (auto intro: on_throw)

lemma on_make_directories:
  fixes m :: dir_manifest
  assumes "tree_shaped (d_entries m)"
  shows "triple (on (prepared s encoded t0)) (forM (make_directory [s]) (d_entries m))
    (\<lambda>_. on (prepared s encoded t0)) (on (\<lambda>t. visible s t = visible s t0))"
proof -
  have "triple (on (made m s encoded t0 0)) (forM (make_directory [s]) (d_entries m))
    (\<lambda>_. on (made m s encoded t0 (length (d_entries m)))) (on (\<lambda>t. visible s t = visible s t0))"
    by (rule triple_forM) (rule on_make_directory [OF assms])
  then show ?thesis by (rule on_conseq) (simp_all add: made_def)
qed

lemma on_prepare:
  fixes sha and m :: dir_manifest and d :: destination
  assumes m: "tree_shaped (d_entries m)" "dir_encode m = Inr text"
    and t0: "closed t0" "is_directory t0 []" "plain_names t0"
  defines "s \<equiv> staging_name sha m d"
  shows "triple (on (\<lambda>u. u = t0)) (prepare_staging sha m d)
    (\<lambda>p. on (\<lambda>t. p = [s] \<and> t0 [dt_name d] = None \<and> prepared s (as_bytes text) t0 t \<and> staged m (partial_paths m) s t))
    (on (\<lambda>t. visible s t = visible s t0))"
proof -
  let ?E = "on (\<lambda>t. visible s t = visible s t0)" and ?enc = "as_bytes text"
  let ?Q = "\<lambda>p. on (\<lambda>t. p = [s] \<and> t0 [dt_name d] = None \<and> prepared s ?enc t0 t \<and> staged m (partial_paths m) s t)"
  let ?rest = "\<lambda>enc. bindM (open_or_create_staging [s] (as_bytes enc)) (\<lambda>_.
     bindM (forM (make_directory [s]) (d_entries m)) (\<lambda>_. bindM (validate_staging_tree m [s] True) (\<lambda>_. ret [s])))"
  have check: "triple (on (prepared s ?enc t0)) (bindM (validate_staging_tree m [s] True) (\<lambda>_. ret [s])) ?Q ?E"
    if a: "t0 [dt_name d] = None"
  proof (rule triple_bind [OF on_looks])
    fix t assume t: "closed t" "prepared s ?enc t0 t"
    then have r: "reachable t [s]" by (auto simp: prepared_def is_directory_def intro: present_reachable)
    from looks_validate_tree [OF t(1) r _ m(1), of True] t(2)
    show "looks t (validate_staging_tree m [s] True) (\<lambda>_. staged m (partial_paths m) s t)" by (simp add: prepared_def)
  qed (use a in \<open>auto simp: prepared_def intro!: triple_ret elim!: on_mono\<close>)
  have rest: "triple (on (\<lambda>u. u = t0)) (?rest text) ?Q ?E" if "t0 [dt_name d] = None"
    by (rule triple_bind [OF on_open_staging [OF _ t0(3,2,1)] triple_bind [OF on_make_directories [OF m(1)] check [OF that]]])
      (simp add: s_def slash_not_in_staging_name)
  have lifted: "looks t0 (lift (dir_encode m)) (\<lambda>x. x = text)" by (rule looks_lift) (simp add: m(2))
  show ?thesis unfolding prepare_staging_def Let_def s_def [symmetric]
  proof (rule looks_then [OF looks_absent [OF t0(1)]])
    assume a: "t0 [dt_name d] = None"
    show "triple (on (\<lambda>u. u = t0)) (bindM (require_real_directory []) (\<lambda>_. bindM (lift (dir_encode m)) ?rest)) ?Q ?E"
    proof (rule looks_then [OF looks_require [OF t0(1)]], simp add: reachable_def)
      show "triple (on (\<lambda>u. u = t0)) (bindM (lift (dir_encode m)) ?rest) ?Q ?E"
        by (rule looks_then [OF lifted]) (use rest [OF a] in simp_all)
    qed simp
  qed (use t0(2) in \<open>simp_all add: reachable_def\<close>)
qed

end
