(* ===== verification/Install.thy ===== *)
theory Install
  imports Staging
begin

text \<open>
  What \<open>install\<close> of \<open>src/directory.rs\<close> does to the file system: an invariant for its loops, its
  refinement of an operation that publishes a tree at once or does nothing, and its completion when
  no call fails.
\<close>

section \<open>Setting attributes\<close>

lemma system_time_i64:
  assumes "is_i64 s" "0 \<le> n" "n < 1000000000"
  shows "system_time s n = Inr (s * 10 ^ 9 + n)"
proof -
  have "(s * 10 ^ 9 + n) div 10 ^ 9 = s" using assms(2,3) by simp
  then have "\<not> (s * 10 ^ 9 + n) div 10 ^ 9 < - (2 ^ 63)" using assms(1) by (simp add: is_i64_def)
  moreover have "- ((- s - 1) * 10 ^ 9 + (1000000000 - n)) = s * 10 ^ 9 + n" by (simp add: algebra_simps)
  ultimately show ?thesis using assms(2,3) by (simp add: system_time_def before_epoch_def Let_def)
qed

definition attrs_of :: "nat \<Rightarrow> int \<Rightarrow> int \<Rightarrow> attrs" where
  "attrs_of mode s n = \<lparr>at_mode = mode, at_mtime = s * 10 ^ 9 + n\<rparr>"

lemma on_set_attributes:
  assumes "is_i64 s" "0 \<le> n" "n < 1000000000"
    "Q (reattributed p (\<lambda>_. attrs_of mode s n) t)" "\<And>g. E (reattributed p g t)"
  shows "triple (on (\<lambda>u. u = t)) (set_attributes p mode s n) (\<lambda>_. on Q) (on E)"
proof -
  let ?t1 = "reattributed p (\<lambda>a. a\<lparr>at_mode := mode\<rparr>) t"
  let ?t2 = "reattributed p (\<lambda>_. attrs_of mode s n) t"
  have w: "with_attrs (\<lambda>a. a\<lparr>at_mtime := k\<rparr>) (with_attrs (\<lambda>a. a\<lparr>at_mode := mode\<rparr>) x)
      = with_attrs (\<lambda>_. \<lparr>at_mode = mode, at_mtime = k\<rparr>) x" for x k by (cases x) simp_all
  have "reattributed p (\<lambda>a. a\<lparr>at_mtime := s * 10 ^ 9 + n\<rparr>) ?t1 = ?t2"
    by (auto simp: reattributed_def attrs_of_def w fun_eq_iff option.map_comp comp_def)
  then have u: "triple (on (\<lambda>u. u = ?t1)) (fs_utime p (s * 10 ^ 9 + n)) (\<lambda>_. on (\<lambda>u. u = ?t2)) (on E)"
    by (intro on_utime) (simp_all add: assms(5))
  have "with_attrs (\<lambda>a. a) x = x" for x by (cases x) simp_all
  then have "reattributed p (\<lambda>a. a) t = t" by (auto simp: reattributed_def fun_eq_iff map_option_case split: option.splits)
  then have E: "E t" using assms(5) [of "\<lambda>a. a"] by simp
  have c: "triple (on (\<lambda>u. u = t)) (fs_chmod p mode) (\<lambda>_. on (\<lambda>u. u = ?t1)) (on E)"
    by (rule on_chmod) (use E in simp_all)
  have l: "triple (on (\<lambda>u. u = ?t1)) (lift (Inr (s * 10 ^ 9 + n))) (\<lambda>x. on (\<lambda>u. u = ?t1 \<and> x = s * 10 ^ 9 + n)) (on E)"
    by (rule triple_lift) (use assms(5) in \<open>auto simp: on_def\<close>)
  have y: "triple (on (\<lambda>u. u = ?t2)) fs_sync (\<lambda>_. on Q) (on E)"
    by (rule on_conseq [OF on_sync [where P = "\<lambda>u. u = ?t2" and E = E]]) (use assms(4,5) in auto)
  have u': "triple (on (\<lambda>u. u = ?t1 \<and> x = s * 10 ^ 9 + n)) (bindM (fs_utime p x) (\<lambda>_. fs_sync)) (\<lambda>_. on Q) (on E)" for x
    using triple_bind [OF u y] by (cases "x = s * 10 ^ 9 + n") (simp_all add: triple_def on_def)
  show ?thesis unfolding set_attributes_def system_time_i64 [OF assms(1-3)]
    by (rule triple_bind [OF c triple_bind [OF l u']])
qed

section \<open>Installing\<close>

definition file_done :: "(bytes \<Rightarrow> 256 word) \<Rightarrow> bytes \<Rightarrow> objects \<Rightarrow> manifest_entry \<Rightarrow> bool" where
  "file_done sha s t e \<longleftrightarrow> (\<exists>c. t (s # comps (e_path e)) = Some (File_obj (attrs_of (e_mode e) (e_seconds e) (e_nanoseconds e)) c)
     \<and> length c = e_size e \<and> Some (digest sha c) = e_hash e)"

definition dir_done :: "bytes \<Rightarrow> objects \<Rightarrow> manifest_entry \<Rightarrow> bool" where
  "dir_done s t e \<longleftrightarrow>
     t (s # comps (e_path e)) = Some (Dir_obj (attrs_of (e_mode e) (e_seconds e) (e_nanoseconds e)))"

text \<open>Outside the staging directory nothing has changed.\<close>

definition same_outside :: "bytes \<Rightarrow> objects \<Rightarrow> objects \<Rightarrow> bool" where
  "same_outside s t0 t \<longleftrightarrow> (\<forall>p. (\<forall>q. p \<noteq> s # q) \<longrightarrow> t p = t0 p)"

text \<open>The files of \<open>F\<close> and the directories of \<open>D\<close> are as the manifest says.\<close>

definition progress ::
    "(bytes \<Rightarrow> 256 word) \<Rightarrow> dir_manifest \<Rightarrow> bytes \<Rightarrow> objects \<Rightarrow> manifest_entry set \<Rightarrow> manifest_entry set \<Rightarrow> objects \<Rightarrow> bool" where
  "progress sha m s t0 F D t \<longleftrightarrow> staged m {} s t \<and> same_outside s t0 t
     \<and> (\<forall>e\<in>F. e_kind e = File \<longrightarrow> file_done sha s t e) \<and> (\<forall>e\<in>D. e_kind e = Directory \<longrightarrow> dir_done s t e)"

lemma same_outside_reattributed: "same_outside s t0 t \<Longrightarrow> same_outside s t0 (reattributed (s # q) f t)"
  by (auto simp: same_outside_def reattributed_def)

lemma staged_reattributed: "staged m ps s t \<Longrightarrow> staged m ps s (reattributed p f t)"
  unfolding staged_def reattributed_directory
proof (elim conjE, intro conjI allI impI)
  fix q x assume a: "\<forall>q x. q \<noteq> [] \<longrightarrow> t (s # q) = Some x \<longrightarrow>
          (obj_type x = Is_dir \<and> (\<exists>e\<in>set (d_entries m). e_kind e = Directory \<and> q = comps (e_path e)))
          \<or> (obj_type x = Is_file \<and> ((\<exists>e\<in>set (d_entries m). e_kind e = File \<and> q = comps (e_path e))
              \<or> q = [marker_name] \<or> join_with slash q \<in> ps))"
    and q: "q \<noteq> []" and x: "reattributed p f t (s # q) = Some x"
  obtain y where y: "t (s # q) = Some y" "obj_type y = obj_type x"
    using reattributed_kind [of p f t "s # q" "obj_type x"] x by auto
  show "(obj_type x = Is_dir \<and> (\<exists>e\<in>set (d_entries m). e_kind e = Directory \<and> q = comps (e_path e)))
          \<or> (obj_type x = Is_file \<and> ((\<exists>e\<in>set (d_entries m). e_kind e = File \<and> q = comps (e_path e))
              \<or> q = [marker_name] \<or> join_with slash q \<in> ps))"
    using a q y by metis
qed

text \<open>Setting the attributes of one entry leaves the others.\<close>

lemma progress_reattributed:
  assumes p: "progress sha m s t0 F D t" and m: "tree_shaped (d_entries m)" "e \<in> set (d_entries m)"
    "F \<subseteq> set (d_entries m)" "D \<subseteq> set (d_entries m)"
  shows "progress sha m s t0 (F - {e}) (D - {e}) (reattributed (s # comps (e_path e)) f t)"
proof -
  have ne: "reattributed (s # comps (e_path e)) f t (s # comps (e_path d)) = t (s # comps (e_path d))"
    if "d \<in> set (d_entries m)" "d \<noteq> e" for d
    using that entry_unique [OF m(1) that(1) m(2)] comps_inj by (metis list.inject reattributed_other)
  show ?thesis
    using p staged_reattributed same_outside_reattributed ne m(3,4)
    by (auto simp: progress_def file_done_def dir_done_def subset_eq)
qed

lemma progress_dirs:
  assumes "progress sha m s t0 F D t" "closed t"
  shows "is_directory t [s]" "reachable t [s]" "same_outside s t0 t" "staged m {} s t"
  using assms present_reachable [of t "[s]"] by (auto simp: progress_def staged_def is_directory_def)

lemma entry_times:
  assumes "wf_dir_manifest sha m" "e \<in> set (d_entries m)"
  shows "is_i64 (e_seconds e)" "0 \<le> e_nanoseconds e" "e_nanoseconds e < 1000000000"
  using assms by (auto simp: wf_dir_manifest_def tree_shaped_def entry_ok_def entry_typed_def)

lemma on_finish_file:
  assumes m: "wf_dir_manifest sha m" and i: "i < length (d_entries m)" and F: "F \<subseteq> set (d_entries m)"
  shows "triple (on (progress sha m s t0 F {})) (finish_file sha m [s] (i, d_entries m ! i))
    (\<lambda>_. on (progress sha m s t0 (insert (d_entries m ! i) F) {})) (on (same_outside s t0))"
proof (rule on_each)
  fix t assume t: "closed t" and p: "progress sha m s t0 F {} t"
  let ?e = "d_entries m ! i" and ?Q = "\<lambda>_::unit. on (progress sha m s t0 (insert (d_entries m ! i) F) {})"
  let ?q = "s # comps (e_path ?e)"
  note d = progress_dirs [OF p t]
  note look = looks_then [where t = t and E = "same_outside s t0", OF _ _ d(3)]
  have e: "?e \<in> set (d_entries m)" using i by simp
  have ts: "tree_shaped (d_entries m)" using m by (simp add: wf_dir_manifest_def)
  have E: "\<And>g. same_outside s t0 (reattributed ?q g t)" by (rule same_outside_reattributed [OF d(3)])
  show "triple (on (\<lambda>u. u = t)) (finish_file sha m [s] (i, ?e)) ?Q (on (same_outside s t0))"
  proof (cases "e_kind ?e = File")
    case False
    then have "progress sha m s t0 (insert ?e F) {} t" using p by (auto simp: progress_def)
    then show ?thesis using False by (simp add: finish_file_def on_ret)
  next
    case True
    have fin: "triple (on (\<lambda>u. u = t)) (set_attributes ?q (e_mode ?e) (e_seconds ?e) (e_nanoseconds ?e)) ?Q (on (same_outside s t0))"
      if c: "t ?q = Some (File_obj a c)" "length c = e_size ?e" "Some (digest sha c) = e_hash ?e" for a c
    proof (rule on_set_attributes)
      let ?t = "reattributed ?q (\<lambda>_. attrs_of (e_mode ?e) (e_seconds ?e) (e_nanoseconds ?e)) t"
      have "file_done sha s ?t ?e" using c by (simp add: file_done_def reattributed_def)
      moreover have "progress sha m s t0 (F - {?e}) ({} - {?e}) ?t"
        by (rule progress_reattributed [OF p ts e F]) simp
      ultimately show "progress sha m s t0 (insert ?e F) {} ?t" by (auto simp: progress_def)
    qed (use entry_times [OF m e] E in simp_all)
    show ?thesis unfolding finish_file_def
    proof (simp add: True, rule look [OF looks_file_destination [OF t d(2)]])
      fix p' assume "\<exists>e. file_entry m i = Inr e \<and> p' = [s] @ comps (e_path e)
          \<and> is_directory t ([s] @ butlast (comps (e_path e)))"
      then have p': "p' = ?q" "is_directory t (s # butlast (comps (e_path ?e)))" by (auto simp: file_entry_Inr)
      have r: "reachable t p'" using p' comps_safe(1) [OF entry_safe [OF ts e]] by (simp add: reachable_def)
      show "triple (on (\<lambda>u. u = t)) (bindM (fs_open_write p') (\<lambda>_. bindM (fs_metadata p') (\<lambda>(kind, sz).
          if kind = Is_file \<longrightarrow> sz \<noteq> e_size ?e then throw (Err ''staged file size or type does not match manifest'')
          else bindM (fs_read p') (\<lambda>content.
            if Some (digest sha content) \<noteq> e_hash ?e then throw (Err ''staged file hash does not match manifest'')
            else set_attributes p' (e_mode ?e) (e_seconds ?e) (e_nanoseconds ?e))))) ?Q (on (same_outside s t0))"
      proof (rule look [OF looks_open_write [OF t r] look [OF looks_metadata [OF t]]])
        fix kn :: "file_type \<times> nat"
        assume k: "case kn of (k, n) \<Rightarrow> k = Is_file \<longrightarrow> (\<exists>a c. t p' = Some (File_obj a c) \<and> n = length c)"
        obtain k n where kn: "kn = (k, n)" by (cases kn)
        show "triple (on (\<lambda>u. u = t)) (case kn of (kind, sz) \<Rightarrow>
            if kind = Is_file \<longrightarrow> sz \<noteq> e_size ?e then throw (Err ''staged file size or type does not match manifest'')
            else bindM (fs_read p') (\<lambda>content.
              if Some (digest sha content) \<noteq> e_hash ?e then throw (Err ''staged file hash does not match manifest'')
              else set_attributes p' (e_mode ?e) (e_seconds ?e) (e_nanoseconds ?e))) ?Q (on (same_outside s t0))"
        proof (cases "k = Is_file \<and> n = e_size ?e")
          case ok: True
          show ?thesis using ok kn
          proof (simp, intro look [OF looks_read [OF t]])
            fix c assume "\<exists>a. t p' = Some (File_obj a c)"
            then obtain a where c: "t ?q = Some (File_obj a c)" using p'(1) by auto
            have "length c = e_size ?e" using k kn ok c p'(1) by auto
            then show "triple (on (\<lambda>u. u = t)) (if Some (digest sha c) \<noteq> e_hash ?e
                then throw (Err ''staged file hash does not match manifest'')
                else set_attributes p' (e_mode ?e) (e_seconds ?e) (e_nanoseconds ?e)) ?Q (on (same_outside s t0))"
              using fin [OF c] d(3) p'(1) by (auto intro: on_throw)
          qed
        qed (use kn d(3) in \<open>auto intro: on_throw\<close>)
      qed
    qed
  qed
qed

lemma on_finish_directory:
  assumes m: "wf_dir_manifest sha m" and e: "e \<in> set (d_entries m)" and D: "D \<subseteq> set (d_entries m)"
  shows "triple (on (progress sha m s t0 (set (d_entries m)) D)) (finish_directory [s] e)
    (\<lambda>_. on (progress sha m s t0 (set (d_entries m)) (insert e D))) (on (same_outside s t0))"
proof (rule on_each)
  fix t assume t: "closed t" and p: "progress sha m s t0 (set (d_entries m)) D t"
  let ?q = "s # comps (e_path e)"
  note d = progress_dirs [OF p t]
  note look = looks_then [where t = t and E = "same_outside s t0", OF _ _ d(3)]
  have ts: "tree_shaped (d_entries m)" using m by (simp add: wf_dir_manifest_def)
  show "triple (on (\<lambda>u. u = t)) (finish_directory [s] e)
      (\<lambda>_. on (progress sha m s t0 (set (d_entries m)) (insert e D))) (on (same_outside s t0))"
  proof (cases "e_kind e = Directory")
    case False
    then have "progress sha m s t0 (set (d_entries m)) (insert e D) t" using p by (auto simp: progress_def)
    then show ?thesis using False by (simp add: finish_directory_def on_ret)
  next
    case True
    then have dir: "is_directory t ?q" using d(4) e by (auto simp: staged_def)
    then have r: "reachable t ?q" by (intro present_reachable [OF t]) (auto simp: is_directory_def)
    have fin: "triple (on (\<lambda>u. u = t)) (set_attributes ?q (e_mode e) (e_seconds e) (e_nanoseconds e))
        (\<lambda>_. on (progress sha m s t0 (set (d_entries m)) (insert e D))) (on (same_outside s t0))"
    proof (rule on_set_attributes)
      let ?t = "reattributed ?q (\<lambda>_. attrs_of (e_mode e) (e_seconds e) (e_nanoseconds e)) t"
      have "dir_done s ?t e" using dir by (auto simp: dir_done_def reattributed_def is_directory_def)
      moreover have "progress sha m s t0 (set (d_entries m) - {e}) (D - {e}) ?t"
        by (rule progress_reattributed [OF p ts e _ D]) simp
      ultimately show "progress sha m s t0 (set (d_entries m)) (insert e D) ?t" using True by (auto simp: progress_def)
    qed (use entry_times [OF m e] same_outside_reattributed [OF d(3)] in simp_all)
    show ?thesis unfolding finish_directory_def
      by (simp add: True) (rule look [OF looks_open_dir [OF t r] fin])
  qed
qed

section \<open>The contract of \<open>install\<close>\<close>

text \<open>\<open>r\<close>, a tree by itself, is the one that the manifest describes.\<close>

definition holds_tree :: "(bytes \<Rightarrow> 256 word) \<Rightarrow> dir_manifest \<Rightarrow> objects \<Rightarrow> bool" where
  "holds_tree sha m r \<longleftrightarrow>
     r [] = Some (Dir_obj (attrs_of (d_root_mode m) (d_root_seconds m) (d_root_nanoseconds m)))
     \<and> (\<forall>e\<in>set (d_entries m). let a = attrs_of (e_mode e) (e_seconds e) (e_nanoseconds e) in
          case e_kind e of
            Directory \<Rightarrow> r (comps (e_path e)) = Some (Dir_obj a)
          | File \<Rightarrow> \<exists>c. r (comps (e_path e)) = Some (File_obj a c) \<and> length c = e_size e \<and> Some (digest sha c) = e_hash e)
     \<and> (\<forall>q. r q \<noteq> None \<longrightarrow> q = [] \<or> (\<exists>e\<in>set (d_entries m). q = comps (e_path e)))"

definition graft :: "bytes \<Rightarrow> objects \<Rightarrow> objects \<Rightarrow> objects" where
  "graft d r v p = (case p of [] \<Rightarrow> v [] | x # q \<Rightarrow> if x = d then r q else v p)"

text \<open>The abstract operation: nothing happens, or the whole tree appears at a place that was free.\<close>

inductive atomic_install ::
    "(bytes \<Rightarrow> 256 word) \<Rightarrow> dir_manifest \<Rightarrow> bytes \<Rightarrow> objects \<Rightarrow> unit result \<Rightarrow> objects \<Rightarrow> bool"
  for sha m d where
  refused: "atomic_install sha m d v (Inl e) v"
| published: "v [d] = None \<Longrightarrow> holds_tree sha m r \<Longrightarrow> atomic_install sha m d v x (graft d r v)"

inductive_cases atomic_install_InrE: "atomic_install sha m d v (Inr x) v'"

definition appeared :: "(bytes \<Rightarrow> 256 word) \<Rightarrow> dir_manifest \<Rightarrow> bytes \<Rightarrow> bytes \<Rightarrow> objects \<Rightarrow> objects \<Rightarrow> bool" where
  "appeared sha m s d t0 t \<longleftrightarrow> visible s t0 [d] = None
     \<and> (\<exists>r. holds_tree sha m r \<and> visible s t = graft d r (visible s t0)) \<and> (\<forall>q. t (s # q) = None)"

definition all_or_nothing :: "(bytes \<Rightarrow> 256 word) \<Rightarrow> dir_manifest \<Rightarrow> bytes \<Rightarrow> bytes \<Rightarrow> objects \<Rightarrow> objects \<Rightarrow> bool" where
  "all_or_nothing sha m s d t0 t \<longleftrightarrow> visible s t = visible s t0 \<or> appeared sha m s d t0 t"

lemma same_outside_visible: "same_outside s t0 t \<Longrightarrow> visible s t = visible s t0"
  by (auto simp: same_outside_def visible_def fun_eq_iff split: list.split)

text \<open>After the marker is gone.\<close>

definition ready :: "(bytes \<Rightarrow> 256 word) \<Rightarrow> dir_manifest \<Rightarrow> bytes \<Rightarrow> objects \<Rightarrow> objects \<Rightarrow> bool" where
  "ready sha m s t0 t \<longleftrightarrow> same_outside s t0 t \<and> is_directory t [s]
     \<and> (\<forall>e\<in>set (d_entries m). (e_kind e = File \<longrightarrow> file_done sha s t e) \<and> (e_kind e = Directory \<longrightarrow> dir_done s t e))
     \<and> (\<forall>q. t (s # q) \<noteq> None \<longrightarrow> q = [] \<or> (\<exists>e\<in>set (d_entries m). q = comps (e_path e)))"

lemma staged_entries:
  assumes "staged m {} s t" "t (s # q) \<noteq> None" "q \<noteq> []" "q \<noteq> [marker_name]"
  shows "\<exists>e\<in>set (d_entries m). q = comps (e_path e)"
proof -
  obtain x where "t (s # q) = Some x" using assms(2) by blast
  then show ?thesis using assms(1,3,4) unfolding staged_def by blast
qed

lemma on_unlink_marker:
  assumes m: "tree_shaped (d_entries m)" "marker_name \<notin> e_path ` set (d_entries m)"
  shows "triple (on (progress sha m s t0 (set (d_entries m)) (set (d_entries m)))) (fs_unlink ([s] @ [marker_name]))
    (\<lambda>_. on (ready sha m s t0)) (on (same_outside s t0))"
proof (rule on_unlink)
  let ?es = "set (d_entries m)"
  fix t f assume t: "closed t" and p: "progress sha m s t0 ?es ?es t"
  let ?t = "(reattributed (butlast ([s] @ [marker_name])) f t)([s] @ [marker_name] := None)"
  note d = progress_dirs [OF p t]
  have c: "comps (e_path e) \<noteq> [marker_name]" "comps (e_path e) \<noteq> []" if "e \<in> ?es" for e
    using that m(2) comps_inj [of "e_path e" marker_name] comps_safe(1) [OF entry_safe [OF m(1) that]] by force+
  have same: "?t (s # comps (e_path e)) = t (s # comps (e_path e))" if "e \<in> ?es" for e
    using c [OF that] by (simp add: reattributed_def)
  have o: "same_outside s t0 ?t" using d(3) by (auto simp: same_outside_def reattributed_def)
  have s: "is_directory ?t [s]" using d(1) by (auto simp: is_directory_def reattributed_def)
  have e: "\<forall>e\<in>?es. (e_kind e = File \<longrightarrow> file_done sha s ?t e) \<and> (e_kind e = Directory \<longrightarrow> dir_done s ?t e)"
  proof
    fix e assume "e \<in> ?es"
    then show "(e_kind e = File \<longrightarrow> file_done sha s ?t e) \<and> (e_kind e = Directory \<longrightarrow> dir_done s ?t e)"
      using p same by (simp only: progress_def file_done_def dir_done_def) blast
  qed
  have "\<forall>q. ?t (s # q) \<noteq> None \<longrightarrow> q = [] \<or> (\<exists>e\<in>?es. q = comps (e_path e))"
    using staged_entries [OF d(4)] by (auto simp: reattributed_def split: if_splits)
  with o s e show "ready sha m s t0 ?t" unfolding ready_def by blast
qed (auto dest: progress_dirs)

lemma ready_appears:
  assumes t: "ready sha m s t0 t" "s \<noteq> d" "t0 [d] = None"
    and m: "wf_dir_manifest sha m"
  shows "appeared sha m s d t0 (reattributed [] f (moved s d
    (reattributed [s] (\<lambda>_. attrs_of (d_root_mode m) (d_root_seconds m) (d_root_nanoseconds m)) t)))"
    (is "appeared sha m s d t0 (reattributed [] f (moved s d ?t))")
proof -
  let ?r = "\<lambda>q. ?t (s # q)"
  have ts: "tree_shaped (d_entries m)" using m by (simp add: wf_dir_manifest_def)
  have e: "?r (comps (e_path e)) = t (s # comps (e_path e))" if "e \<in> set (d_entries m)" for e
    using comps_safe(1) [OF entry_safe [OF ts that]] by (simp add: reattributed_def)
  have "holds_tree sha m ?r" unfolding holds_tree_def
  proof (intro conjI ballI)
    show "?r [] = Some (Dir_obj (attrs_of (d_root_mode m) (d_root_seconds m) (d_root_nanoseconds m)))"
      using t(1) by (auto simp: ready_def is_directory_def reattributed_def)
    show "\<forall>q. ?r q \<noteq> None \<longrightarrow> q = [] \<or> (\<exists>e\<in>set (d_entries m). q = comps (e_path e))"
      using t(1) by (simp add: ready_def)
    show "let a = attrs_of (e_mode e) (e_seconds e) (e_nanoseconds e) in
          case e_kind e of
            Directory \<Rightarrow> ?r (comps (e_path e)) = Some (Dir_obj a)
          | File \<Rightarrow> \<exists>c. ?r (comps (e_path e)) = Some (File_obj a c) \<and> length c = e_size e \<and> Some (digest sha c) = e_hash e"
      if "e \<in> set (d_entries m)" for e
      using t(1) that e [OF that] by (auto simp: ready_def file_done_def dir_done_def Let_def split: entry_kind.split)
  qed
  moreover have "visible s (reattributed [] f (moved s d ?t)) = graft d ?r (visible s t0)"
  proof
    fix p
    show "visible s (reattributed [] f (moved s d ?t)) p = graft d ?r (visible s t0) p"
      using t by (cases p) (auto simp: visible_def graft_def moved_def reattributed_def ready_def same_outside_def)
  qed
  moreover have "\<forall>q. reattributed [] f (moved s d ?t) (s # q) = None" using t(2) by (simp add: moved_def)
  moreover have "visible s t0 [d] = None" using t(2,3) by (simp add: visible_def)
  ultimately show ?thesis unfolding appeared_def by blast
qed

lemma looks_sync_parent: "closed t \<Longrightarrow> looks t (sync_parent d) (\<lambda>_. \<not> dt_bare d)"
proof (cases "dt_bare d")
  case True
  then show ?thesis unfolding sync_parent_def looks_def by simp (rule on_call, auto simp: on_def)
next
  case False
  assume "closed t"
  then show ?thesis using False looks_bind [OF looks_open_dir looks_sync, of t "[]"]
    by (auto simp: sync_parent_def reachable_def intro: looks_conseq)
qed

lemma on_publish:
  assumes m: "wf_dir_manifest sha m" and d: "s \<noteq> dt_name d" "t0 [dt_name d] = None"
  shows "triple (on (ready sha m s t0)) (bindM (fs_open_dir [s]) (\<lambda>_.
      bindM (set_attributes [s] (d_root_mode m) (d_root_seconds m) (d_root_nanoseconds m)) (\<lambda>_.
      bindM (fs_rename_dir s (dt_name d)) (\<lambda>_. sync_parent d))))
    (\<lambda>_. on (\<lambda>t. appeared sha m s (dt_name d) t0 t \<and> \<not> dt_bare d)) (on (all_or_nothing sha m s (dt_name d) t0))"
proof (rule on_each)
  fix t assume c: "closed t" and t: "ready sha m s t0 t"
  let ?n = "dt_name d" and ?g = "\<lambda>_. attrs_of (d_root_mode m) (d_root_seconds m) (d_root_nanoseconds m)"
  let ?E = "all_or_nothing sha m s ?n t0" and ?t = "reattributed [s] ?g t"
  have o: "same_outside s t0 t" and s: "is_directory t [s]" using t by (simp_all add: ready_def)
  have E: "?E (reattributed [s] f t)" for f
    using same_outside_visible [OF same_outside_reattributed [OF o, of "[]"]] by (simp add: all_or_nothing_def)
  have E0: "?E t" using same_outside_visible [OF o] by (simp add: all_or_nothing_def)
  have attr: "triple (on (\<lambda>u. u = t)) (set_attributes [s] (d_root_mode m) (d_root_seconds m) (d_root_nanoseconds m))
      (\<lambda>_. on (\<lambda>u. u = ?t)) (on ?E)"
    by (rule on_set_attributes) (use m E in \<open>simp_all add: wf_dir_manifest_def\<close>)
  have ren: "triple (on (\<lambda>u. u = ?t)) (fs_rename_dir s ?n) (\<lambda>_. on (appeared sha m s ?n t0)) (on ?E)"
  proof (rule on_rename_dir)
    show "u [?n] = None \<and> is_directory u [s]" if "u = ?t" for u
      using that o s d by (auto simp: same_outside_def)
    show "appeared sha m s ?n t0 (reattributed [] f (moved s ?n u))" if "u = ?t" for u f
      unfolding that by (rule ready_appears [OF t d m])
  qed (use E in simp)
  have sync: "triple (on (appeared sha m s ?n t0)) (sync_parent d)
      (\<lambda>_. on (\<lambda>t. appeared sha m s ?n t0 t \<and> \<not> dt_bare d)) (on ?E)"
    by (rule on_looks [OF looks_sync_parent]) (simp_all add: all_or_nothing_def)
  have r: "reachable t [s]" using s by (intro present_reachable [OF c]) (auto simp: is_directory_def)
  show "triple (on (\<lambda>u. u = t)) (bindM (fs_open_dir [s]) (\<lambda>_.
      bindM (set_attributes [s] (d_root_mode m) (d_root_seconds m) (d_root_nanoseconds m)) (\<lambda>_.
      bindM (fs_rename_dir s ?n) (\<lambda>_. sync_parent d))))
    (\<lambda>_. on (\<lambda>t. appeared sha m s ?n t0 t \<and> \<not> dt_bare d)) (on ?E)"
    by (rule looks_then [OF looks_open_dir [OF c r] triple_bind [OF attr triple_bind [OF ren sync]] E0])
qed

lemma on_finish_all:
  assumes m: "wf_dir_manifest sha m" and p: "staged m {} s t0"
  shows "triple (on (\<lambda>u. u = t0)) (forM (finish_file sha m [s]) (enumerate 0 (d_entries m)))
    (\<lambda>_. on (progress sha m s t0 (set (d_entries m)) {})) (on (same_outside s t0))"
proof -
  let ?es = "d_entries m"
  let ?I = "\<lambda>i. on (progress sha m s t0 (set (take i ?es)) {})"
  have len: "length (enumerate 0 ?es) = length ?es" by simp
  have "triple (?I 0) (forM (finish_file sha m [s]) (enumerate 0 ?es)) (\<lambda>_. ?I (length (enumerate 0 ?es))) (on (same_outside s t0))"
  proof (rule triple_forM)
    fix i assume "i < length (enumerate 0 ?es)"
    then have i: "i < length ?es" by simp
    then have "set (take (Suc i) ?es) = insert (?es ! i) (set (take i ?es))" by (simp add: take_Suc_conv_app_nth)
    then show "triple (?I i) (finish_file sha m [s] (enumerate 0 ?es ! i)) (\<lambda>_. ?I (Suc i)) (on (same_outside s t0))"
      using on_finish_file [OF m i set_take_subset [of i], where s = s and ?t0.0 = t0] i by (simp add: nth_enumerate_eq)
  qed
  then show ?thesis unfolding len
    by (rule on_conseq) (use p in \<open>auto simp: progress_def same_outside_def\<close>)
qed

lemma on_finish_directories:
  assumes m: "wf_dir_manifest sha m"
  shows "triple (on (progress sha m s t0 (set (d_entries m)) {})) (forM (finish_directory [s]) (rev (d_entries m)))
    (\<lambda>_. on (progress sha m s t0 (set (d_entries m)) (set (d_entries m)))) (on (same_outside s t0))"
proof -
  let ?es = "rev (d_entries m)"
  let ?I = "\<lambda>i. on (progress sha m s t0 (set (d_entries m)) (set (take i ?es)))"
  have "triple (?I 0) (forM (finish_directory [s]) ?es) (\<lambda>_. ?I (length ?es)) (on (same_outside s t0))"
  proof (rule triple_forM)
    fix i assume i: "i < length ?es"
    then have e: "?es ! i \<in> set (d_entries m)" by (metis nth_mem set_rev)
    have D: "set (take i ?es) \<subseteq> set (d_entries m)" using set_take_subset [of i ?es] by simp
    have "set (take (Suc i) ?es) = insert (?es ! i) (set (take i ?es))" using i by (simp add: take_Suc_conv_app_nth)
    then show "triple (?I i) (finish_directory [s] (?es ! i)) (\<lambda>_. ?I (Suc i)) (on (same_outside s t0))"
      using on_finish_directory [OF m e D, where s = s and ?t0.0 = t0] by simp
  qed
  then show ?thesis by simp
qed

lemma on_install:
  assumes m: "wf_dir_manifest sha m" "marker_name \<notin> e_path ` set (d_entries m)"
    and t0: "closed t0" "is_directory t0 []" "plain_names t0"
  shows "triple (on (\<lambda>u. u = t0)) (install sha m s d)
    (\<lambda>_. on (\<lambda>t. appeared sha m s (dt_name d) t0 t \<and> \<not> dt_bare d)) (on (all_or_nothing sha m s (dt_name d) t0))"
  unfolding install_def
proof (rule looks_then [OF looks_validate_tree [OF t0(1) _ t0(3)]])
  let ?n = "dt_name d" and ?E = "all_or_nothing sha m s (dt_name d) t0"
  show "reachable t0 [s]" using t0(2) by (simp add: reachable_def)
  show ts: "tree_shaped (d_entries m)" using m(1) by (simp add: wf_dir_manifest_def)
  show "all_or_nothing sha m s ?n t0 t0" by (simp add: all_or_nothing_def)
  assume "staged m (if False then partial_paths m else {}) s t0"
  then have st: "staged m {} s t0" by simp
  have weak: "triple P f Q (on (same_outside s t0)) \<Longrightarrow> triple P f Q (on ?E)" for P Q and f :: "unit fio"
    by (erule triple_conseq) (auto elim!: on_mono simp: all_or_nothing_def same_outside_visible)
  show "triple (on (\<lambda>u. u = t0)) (bindM (require_absent [?n] ''directory destination already exists'') (\<lambda>_.
     bindM (forM (finish_file sha m [s]) (enumerate 0 (d_entries m))) (\<lambda>_.
     bindM (forM (finish_directory [s]) (rev (d_entries m))) (\<lambda>_.
     bindM (fs_unlink ([s] @ [marker_name])) (\<lambda>_.
     bindM (fs_open_dir [s]) (\<lambda>_.
     bindM (set_attributes [s] (d_root_mode m) (d_root_seconds m) (d_root_nanoseconds m)) (\<lambda>_.
     bindM (fs_rename_dir s ?n) (\<lambda>_. sync_parent d))))))))
    (\<lambda>_. on (\<lambda>t. appeared sha m s ?n t0 t \<and> \<not> dt_bare d)) (on ?E)"
  proof (rule looks_then [OF looks_absent [OF t0(1)]])
    show "reachable t0 [?n]" using t0(2) by (simp add: reachable_def)
    show "all_or_nothing sha m s ?n t0 t0" by (simp add: all_or_nothing_def)
    assume a: "t0 [?n] = None"
    then have "s \<noteq> ?n" using st by (auto simp: staged_def is_directory_def)
    note rest = on_publish [where ?t0.0 = t0, OF m(1) this a]
    show "triple (on (\<lambda>u. u = t0)) (bindM (forM (finish_file sha m [s]) (enumerate 0 (d_entries m))) (\<lambda>_.
       bindM (forM (finish_directory [s]) (rev (d_entries m))) (\<lambda>_.
       bindM (fs_unlink ([s] @ [marker_name])) (\<lambda>_.
       bindM (fs_open_dir [s]) (\<lambda>_.
       bindM (set_attributes [s] (d_root_mode m) (d_root_seconds m) (d_root_nanoseconds m)) (\<lambda>_.
       bindM (fs_rename_dir s ?n) (\<lambda>_. sync_parent d)))))))
      (\<lambda>_. on (\<lambda>t. appeared sha m s ?n t0 t \<and> \<not> dt_bare d)) (on ?E)"
      by (intro triple_bind [OF weak [OF on_finish_all [OF m(1) st]]]
          triple_bind [OF weak [OF on_finish_directories [OF m(1)]]] triple_bind [OF weak [OF on_unlink_marker [OF ts m(2)]] rest])
  qed
qed

text \<open>What \<open>install\<close> promises, over the abstract operation.\<close>

lemma install_refines:
  assumes "wf_dir_manifest sha m" "marker_name \<notin> e_path ` set (d_entries m)"
    "closed (object_at w)" "is_directory (object_at w) []" "plain_names (object_at w)" "\<not> escaped w"
    "install sha m s d w = (r, w')"
  shows "\<not> escaped w'" "atomic_install sha m (dt_name d) (visible s (object_at w)) r (visible s (object_at w'))"
    "r = Inr () \<Longrightarrow> \<not> dt_bare d \<and> (\<forall>q. object_at w' (s # q) = None)"
proof -
  note t = on_install [OF assms(1-5), of s d]
  have w: "on (\<lambda>u. u = object_at w) w" using assms(3,6) by (simp add: on_def)
  have a: "atomic_install sha m (dt_name d) (visible s (object_at w)) r (visible s (object_at w'))"
    if "appeared sha m s (dt_name d) (object_at w) (object_at w')"
    using that by (auto simp: appeared_def intro: atomic_install.published)
  have "case r of Inr _ \<Rightarrow> on (\<lambda>t. appeared sha m s (dt_name d) (object_at w) t \<and> \<not> dt_bare d) w'
      | Inl _ \<Rightarrow> on (all_or_nothing sha m s (dt_name d) (object_at w)) w'"
    using triple_Inr [OF t w] triple_Inl [OF t w] assms(7) by (cases r) auto
  then show "\<not> escaped w'" "atomic_install sha m (dt_name d) (visible s (object_at w)) r (visible s (object_at w'))"
    "r = Inr () \<Longrightarrow> \<not> dt_bare d \<and> (\<forall>q. object_at w' (s # q) = None)"
    using a by (auto simp: on_def all_or_nothing_def appeared_def intro: atomic_install.refused split: sum.splits)
qed

lemma prepare_contract:
  assumes "tree_shaped (d_entries m)" "dir_encode m = Inr text"
    "closed (object_at w)" "is_directory (object_at w) []" "plain_names (object_at w)" "\<not> escaped w"
    "prepare_staging sha m d w = (r, w')"
  shows "\<not> escaped w' \<and> visible (staging_name sha m d) (object_at w') = visible (staging_name sha m d) (object_at w)"
    "r = Inr p \<Longrightarrow> p = [staging_name sha m d] \<and> object_at w [dt_name d] = None
      \<and> staged m (partial_paths m) (staging_name sha m d) (object_at w')
      \<and> (\<exists>a. object_at w' [staging_name sha m d, marker_name] = Some (File_obj a (as_bytes text)))"
proof -
  note t = on_prepare [OF assms(1-5), of sha d]
  have w: "on (\<lambda>u. u = object_at w) w" using assms(3,6) by (simp add: on_def)
  show "\<not> escaped w' \<and> visible (staging_name sha m d) (object_at w') = visible (staging_name sha m d) (object_at w)"
    using triple_Inr [OF t w] triple_Inl [OF t w] assms(7) by (cases r) (auto simp: on_def prepared_def)
  show "r = Inr p \<Longrightarrow> p = [staging_name sha m d] \<and> object_at w [dt_name d] = None
      \<and> staged m (partial_paths m) (staging_name sha m d) (object_at w')
      \<and> (\<exists>a. object_at w' [staging_name sha m d, marker_name] = Some (File_obj a (as_bytes text)))"
    using triple_Inr [OF t w] assms(7) by (auto simp: on_def prepared_def)
qed

section \<open>Completion\<close>

lemma goes_require: "closed t \<Longrightarrow> is_directory t p \<Longrightarrow> goes t (require_real_directory p) (\<lambda>_ u. u = t)"
  unfolding require_real_directory_def is_directory_def
  by (elim exE) (rule goes_bind [OF goes_stat], auto intro: goes_ret present_reachable)

lemma goes_stat_absent:
  assumes "t p = None" "reachable t p" "goes t (f (Inl NotFound)) Q" shows "goes t (tryM (fs_stat p) f) Q"
  unfolding goes_def
proof (intro allI impI)
  fix w assume w: "faultless t w"
  let ?v = "w\<lparr>ticks := Suc (ticks w)\<rparr>"
  have "fs_stat p w = (Inl NotFound, ?v)"
    using w assms(1) reachable_walk [OF _ assms(2)]
    by (simp add: fs_stat_def path_call_def fs_call_def faultless_def)
  moreover have "faultless t ?v" using w by (simp add: faultless_def)
  ultimately show "\<exists>x w' u. tryM (fs_stat p) f w = (Inr x, w') \<and> faultless u w' \<and> Q x u"
    using assms(3) by (auto simp: tryM_def goes_def)
qed

lemma goes_stat_present:
  assumes "t p = Some x" "reachable t p" "goes t (f (Inr (obj_type x))) Q" shows "goes t (tryM (fs_stat p) f) Q"
  unfolding goes_def
proof (intro allI impI)
  fix w assume w: "faultless t w"
  obtain k v u where "fs_stat p w = (Inr k, v)" "faultless u v" "u = t \<and> k = obj_type x"
    using goesD [OF goes_stat [OF assms(1,2)] w] by blast
  then show "\<exists>x w' u. tryM (fs_stat p) f w = (Inr x, w') \<and> faultless u w' \<and> Q x u"
    using assms(3) by (auto simp: tryM_def goes_def)
qed

lemma goes_absent: "t p = None \<Longrightarrow> reachable t p \<Longrightarrow> goes t (require_absent p message) (\<lambda>_ u. u = t)"
  unfolding require_absent_def by (rule goes_stat_absent) (auto intro: goes_ret)

lemma goes_require_components:
  "closed t \<Longrightarrow> is_directory t (base @ cs) \<Longrightarrow> goes t (require_components base cs) (\<lambda>_ u. u = t)"
proof (induction cs arbitrary: base)
  case (Cons c cs)
  have "is_directory t (base @ [c])"
    using closed_prefix [OF Cons.prems(1), of "base @ [c]" cs] Cons.prems(2)
    by (cases "cs = []") (auto simp: is_directory_def)
  from goes_require [OF Cons.prems(1) this] Cons.IH [of "base @ [c]"] Cons.prems show ?case
    by (auto intro: goes_bind)
qed (simp add: goes_ret)

lemma goes_file_destination:
  assumes "closed t" "file_entry m i = Inr e" "t (s # comps (e_path e)) = Some (File_obj a c)" "comps (e_path e) \<noteq> []"
  shows "goes t (file_destination m [s] i) (\<lambda>p u. u = t \<and> p = s # comps (e_path e))"
proof -
  let ?p = "s # comps (e_path e)"
  have d: "is_directory t (s # butlast (comps (e_path e)))"
    using closed_prefix [OF assms(1), of "s # butlast (comps (e_path e))" "[last (comps (e_path e))]"] assms(3,4) by simp
  then have s: "is_directory t [s]"
    using closed_prefix [OF assms(1), of "[s]" "butlast (comps (e_path e))"]
    by (cases "butlast (comps (e_path e)) = []") (auto simp: is_directory_def)
  have r: "reachable t ?p" using present_reachable [OF assms(1)] assms(3) by simp
  have st: "goes t (tryM (fs_stat ?p) (\<lambda>r. if r = Inr Is_symlink then throw (Err ''staging file destination is a symlink'') else ret ?p))
      (\<lambda>p u. u = t \<and> p = ?p)"
    by (rule goes_stat_present [OF assms(3) r]) (simp add: goes_ret)
  have "goes t (require_components [s] (butlast (comps (e_path e)))) (\<lambda>_ u. u = t)"
    using goes_require_components [OF assms(1), of "[s]"] d by simp
  note parents = this
  show ?thesis unfolding file_destination_def append_Cons append_Nil
    by (intro goes_bind_lift [OF assms(2)] goes_unit [OF goes_require [OF assms(1) s]] goes_unit [OF parents] st)
qed

lemma goes_validate_directory:
  assumes t: "closed t" and M: "\<And>p. p \<in> dirs \<Longrightarrow> length p \<le> M"
  shows "is_directory t (root @ rel) \<Longrightarrow> length rel \<le> M + 1 \<Longrightarrow> M + 2 \<le> n + length rel
    \<Longrightarrow> (\<forall>q x. q \<noteq> [] \<longrightarrow> t (root @ rel @ q) = Some x \<longrightarrow> expected dirs files partials (rel @ q) x)
    \<Longrightarrow> goes t (validate_staging_directory n dirs files partials root rel) (\<lambda>_ u. u = t)"
proof (induction n arbitrary: rel)
  case (Suc n)
  have r: "reachable t (root @ rel)" using Suc.prems(1) by (intro present_reachable [OF t]) (auto simp: is_directory_def)
  let ?f = "\<lambda>x. bindM (fs_stat (root @ rel @ [x])) (\<lambda>k.
     let relative = join_with slash (rel @ [x]) in
     case k of
       Is_symlink \<Rightarrow> throw (Err ''staging tree contains a symlink'')
     | Is_dir \<Rightarrow>
         if relative \<notin> dirs then throw (Err ''staging tree contains an unexpected directory'')
         else validate_staging_directory n dirs files partials root (rel @ [x])
     | Is_file \<Rightarrow>
         if \<not> (relative \<in> files \<or> relative = marker_name \<or> relative \<in> partials)
         then throw (Err ''staging tree contains an unexpected file'') else ret ()
     | Is_other \<Rightarrow> throw (Err ''staging tree contains an unsupported object''))"
  have each: "goes t (?f x) (\<lambda>_ u. u = t)" if x: "t ((root @ rel) @ [x]) \<noteq> None" for x
  proof -
    obtain y where y: "t (root @ rel @ [x]) = Some y" using x by auto
    have e: "expected dirs files partials (rel @ [x]) y" using Suc.prems(4) y by simp
    have sub: "goes t (validate_staging_directory n dirs files partials root (rel @ [x])) (\<lambda>_ u. u = t)"
      if k: "obj_type y = Is_dir" "join_with slash (rel @ [x]) \<in> dirs"
    proof (rule Suc.IH)
      show "is_directory t (root @ rel @ [x])" using y k(1) by (auto simp: is_directory_kind)
      show "length (rel @ [x]) \<le> M + 1" using M [OF k(2)] length_join [of "rel @ [x]"] by simp
      show "M + 2 \<le> n + length (rel @ [x])" using Suc.prems(3) by simp
      show "\<forall>q z. q \<noteq> [] \<longrightarrow> t (root @ (rel @ [x]) @ q) = Some z \<longrightarrow> expected dirs files partials ((rel @ [x]) @ q) z"
        using Suc.prems(4) by simp
    qed
    have "reachable t (root @ rel @ [x])" using y by (intro present_reachable [OF t]) simp
    from goes_stat [OF y this] show ?thesis
      by (rule goes_bind) (use e sub in \<open>auto simp: expected_def Let_def intro: goes_ret split: file_type.split\<close>)
  qed
  show ?case unfolding validate_staging_directory.simps
  proof (rule goes_bind [OF goes_list [OF Suc.prems(1) r]])
    fix ns u assume "u = t \<and> (\<forall>x. x \<in> set ns \<longleftrightarrow> t ((root @ rel) @ [x]) \<noteq> None)"
    then show "goes u (forM ?f ns) (\<lambda>_ u. u = t)"
      using each goes_forM [where I = "\<lambda>_ u. u = t" and t = t and xs = ns and f = ?f] nth_mem by blast
  qed
qed simp

lemma staged_expected:
  assumes "staged m ps s t" "q \<noteq> []" "t (s # q) = Some x"
  shows "expected (paths_of Directory m) (paths_of File m) ps q x"
proof -
  have p: "e_path e \<in> paths_of k m" if "e \<in> set (d_entries m)" "e_kind e = k" for e k
    using that by (auto simp: paths_of_def)
  consider e where "obj_type x = Is_dir" "e \<in> set (d_entries m)" "e_kind e = Directory" "q = comps (e_path e)"
    | e where "obj_type x = Is_file" "e \<in> set (d_entries m)" "e_kind e = File" "q = comps (e_path e)"
    | "obj_type x = Is_file" "q = [marker_name]" | "obj_type x = Is_file" "join_with slash q \<in> ps"
    using assms unfolding staged_def by blast
  then show ?thesis
  proof cases
    case 3
    then show ?thesis by (simp add: expected_def)
  qed (use p in \<open>auto simp: expected_def\<close>)
qed

lemma goes_validate_tree:
  assumes t: "closed t" "staged m (if allow then partial_paths m else {}) s t" and m: "tree_shaped (d_entries m)"
  shows "goes t (validate_staging_tree m [s] allow) (\<lambda>_ u. u = t)"
proof -
  let ?ps = "if allow then partial_paths m else {}" and ?es = "d_entries m"
  have s: "is_directory t [s]" and d: "\<forall>e\<in>set ?es. e_kind e = Directory \<longrightarrow> is_directory t ([s] @ comps (e_path e))"
    using t(2) by (simp_all add: staged_def)
  have len: "length p \<le> MAX_RELATIVE_PATH_BYTES" if "p \<in> paths_of Directory m" for p
    using that entry_safe [OF m] by (auto simp: paths_of_def safe_path_def)
  have dir: "goes t (validate_staging_directory (MAX_RELATIVE_PATH_BYTES + 2) (paths_of Directory m) (paths_of File m) ?ps [s] [])
      (\<lambda>_ u. u = t)"
    by (rule goes_validate_directory [OF t(1) len]) (use s staged_expected [OF t(2)] in auto)
  let ?f = "\<lambda>e. if e_kind e = Directory then require_real_directory ([s] @ comps (e_path e)) else ret ()"
  have "goes t (forM ?f ?es) (\<lambda>_ u. u = t)"
    by (rule goes_forM [where I = "\<lambda>_ u. u = t"]) (use d nth_mem goes_require [OF t(1)] in \<open>auto intro: goes_ret\<close>)
  then show ?thesis unfolding validate_staging_tree_def
    by (intro goes_unit [OF goes_require [OF t(1) s]] goes_unit [OF _ dir])
qed

text \<open>Attributes apart, the objects stay what they were.\<close>

definition same_data :: "objects \<Rightarrow> objects \<Rightarrow> bool" where
  "same_data t t' \<longleftrightarrow> (\<forall>p. map_option (with_attrs (\<lambda>_. attrs_of 0 0 0)) (t' p) = map_option (with_attrs (\<lambda>_. attrs_of 0 0 0)) (t p))"

lemma with_attrs_absorb [simp]: "with_attrs (\<lambda>_. a) (with_attrs f x) = with_attrs (\<lambda>_. a) x"
  by (cases x) simp_all

lemma same_data_refl [simp]: "same_data t t"
  by (simp add: same_data_def)

lemma same_data_reattributed [simp]: "same_data t (reattributed p f t') = same_data t t'"
  unfolding same_data_def by (rule iff_allI) (simp add: reattributed_def option.map_comp comp_def)

lemma same_data_directory:
  assumes "same_data t t'" shows "is_directory t' p = is_directory t p"
proof -
  have k: "map_option obj_type (u p) = map_option obj_type (map_option (with_attrs (\<lambda>_. attrs_of 0 0 0)) (u p))" for u :: objects
    by (simp add: option.map_comp comp_def)
  have "map_option obj_type (t' p) = map_option obj_type (t p)"
    using assms unfolding k [of t'] k [of t] same_data_def by simp
  then show ?thesis by (auto simp: is_directory_kind map_option_eq_Some) (metis map_option_eq_Some option.map(2))+
qed

lemma same_data_file: "same_data t t' \<Longrightarrow> t p = Some (File_obj a c) \<Longrightarrow> \<exists>a'. t' p = Some (File_obj a' c)"
  unfolding same_data_def by (drule spec [of _ p]) (auto, case_tac z; simp)

lemma same_data_None: "same_data t t' \<Longrightarrow> t p = None \<Longrightarrow> t' p = None"
  unfolding same_data_def by (drule spec [of _ p]) simp

lemma goes_set_attributes:
  assumes "is_i64 s" "0 \<le> n" "n < 1000000000"
  shows "goes t (set_attributes p mode s n) (\<lambda>_ u. \<exists>f. u = reattributed p f t)"
proof -
  have "with_attrs g (with_attrs f x) = with_attrs (\<lambda>a. g (f a)) x" for f g x by (cases x) simp_all
  then have "reattributed p g (reattributed p f t) = reattributed p (\<lambda>a. g (f a)) t" for f g
    by (simp add: reattributed_def option.map_comp comp_def)
  then have r: "\<exists>h. reattributed p g (reattributed p f t) = reattributed p h t" for f g by blast
  show ?thesis unfolding set_attributes_def system_time_i64 [OF assms]
    by (rule goes_bind [OF goes_chmod goes_bind_lift [OF refl]], simp, rule goes_bind [OF goes_utime])
      (use r in \<open>auto intro: goes_conseq [OF goes_sync]\<close>)
qed

text \<open>The staging directory holds every file of the manifest, and its marker.\<close>

definition complete_staging :: "(bytes \<Rightarrow> 256 word) \<Rightarrow> dir_manifest \<Rightarrow> bytes \<Rightarrow> objects \<Rightarrow> bool" where
  "complete_staging sha m s t \<longleftrightarrow> staged m {} s t \<and> (\<exists>a c. t [s, marker_name] = Some (File_obj a c))
     \<and> (\<forall>e\<in>set (d_entries m). e_kind e = File \<longrightarrow>
          (\<exists>a c. t (s # comps (e_path e)) = Some (File_obj a c) \<and> length c = e_size e \<and> Some (digest sha c) = e_hash e))"

lemma goes_finish_file:
  assumes m: "wf_dir_manifest sha m" and i: "i < length (d_entries m)"
    and t: "complete_staging sha m s t0" "closed t" "same_data t0 t"
  shows "goes t (finish_file sha m [s] (i, d_entries m ! i)) (\<lambda>_. same_data t0)"
proof (cases "e_kind (d_entries m ! i) = File")
  case False
  then show ?thesis using t(3) by (simp add: finish_file_def goes_ret)
next
  case True
  let ?e = "d_entries m ! i"
  let ?p = "s # comps (e_path ?e)"
  have e: "?e \<in> set (d_entries m)" using i by simp
  obtain a c where c: "t0 ?p = Some (File_obj a c)" "length c = e_size ?e" "Some (digest sha c) = e_hash ?e"
    using t(1) e True unfolding complete_staging_def by blast
  obtain b where b: "t ?p = Some (File_obj b c)" using same_data_file [OF t(3) c(1)] by blast
  have ts: "tree_shaped (d_entries m)" using m by (simp add: wf_dir_manifest_def)
  have ne: "comps (e_path ?e) \<noteq> []" by (rule comps_safe(1) [OF entry_safe [OF ts e]])
  have r: "reachable t ?p" using b by (intro present_reachable [OF t(2)]) simp
  have fe: "file_entry m i = Inr ?e" using i True by (simp add: file_entry_Inr)
  have set: "goes t (set_attributes ?p (e_mode ?e) (e_seconds ?e) (e_nanoseconds ?e)) (\<lambda>_. same_data t0)"
    by (rule goes_conseq [OF goes_set_attributes [OF entry_times [OF m e]]]) (use t(3) in auto)
  show ?thesis unfolding finish_file_def
    by (simp add: True, rule goes_value [OF goes_file_destination [OF t(2) fe b ne]],
        rule goes_unit [OF goes_open_write [where t = t, OF b r]], rule goes_value [OF goes_metadata [where t = t, OF b]], simp add: c(2),
        rule goes_value [OF goes_read [where t = t, OF b]]) (use c(3) set in simp)
qed

lemma goes_finish_directory:
  assumes m: "wf_dir_manifest sha m" and e: "e \<in> set (d_entries m)"
    and t: "complete_staging sha m s t0" "closed t" "same_data t0 t"
  shows "goes t (finish_directory [s] e) (\<lambda>_. same_data t0)"
proof (cases "e_kind e = Directory")
  case False
  then show ?thesis using t(3) by (simp add: finish_directory_def goes_ret)
next
  case True
  let ?p = "s # comps (e_path e)"
  have "is_directory t0 ?p" using t(1) e True by (simp add: complete_staging_def staged_def)
  then have d: "is_directory t ?p" using same_data_directory [OF t(3)] by simp
  then have r: "reachable t ?p" by (intro present_reachable [OF t(2)]) (auto simp: is_directory_def)
  have "goes t (set_attributes ?p (e_mode e) (e_seconds e) (e_nanoseconds e)) (\<lambda>_. same_data t0)"
    by (rule goes_conseq [OF goes_set_attributes [OF entry_times [OF m e]]]) (use t(3) in auto)
  then show ?thesis unfolding finish_directory_def append_Cons append_Nil
    using True by (simp add: goes_unit [OF goes_open_dir [OF d r]])
qed

lemma goes_publish:
  assumes m: "wf_dir_manifest sha m" and d: "is_directory t [s]" "t [dt_name d] = None" "\<not> dt_bare d" and c: "closed t"
  shows "goes t (bindM (fs_open_dir [s]) (\<lambda>_.
      bindM (set_attributes [s] (d_root_mode m) (d_root_seconds m) (d_root_nanoseconds m)) (\<lambda>_.
      bindM (fs_rename_dir s (dt_name d)) (\<lambda>_. sync_parent d)))) (\<lambda>_ _. True)"
proof -
  let ?n = "dt_name d"
  have r: "reachable t [s]" using d(1) by (intro present_reachable [OF c]) (auto simp: is_directory_def)
  have attr: "goes t (set_attributes [s] (d_root_mode m) (d_root_seconds m) (d_root_nanoseconds m)) (\<lambda>_ u. \<exists>f. u = reattributed [s] f t)"
    by (rule goes_set_attributes) (use m in \<open>simp_all add: wf_dir_manifest_def\<close>)
  have root: "is_directory t []" using closed_prefix [OF c, of "[]" "[s]"] d(1) by (auto simp: is_directory_def)
  have sync: "goes u (sync_parent d) (\<lambda>_ _. True)" if "is_directory u []" for u
    unfolding sync_parent_def using d(3) that goes_conseq [OF goes_sync, of u "\<lambda>_ _. True"]
    by (simp add: goes_unit [OF goes_open_dir] reachable_def)
  have ren: "goes u (bindM (fs_rename_dir s ?n) (\<lambda>_. sync_parent d)) (\<lambda>_ _. True)" if "u = reattributed [s] f t" for u f
  proof (rule goes_bind [OF goes_rename_dir])
    show "is_directory u [s]" "u [?n] = None" using d that by simp_all
    fix v :: objects assume "\<exists>g. v = reattributed [] g (moved s ?n u)"
    moreover have "is_directory (moved s ?n u) []" using root that reattributed_directory [of "[s]" f t "[]"]
      by (simp add: is_directory_def moved_def)
    ultimately have "is_directory v []" by auto
    then show "goes v (sync_parent d) (\<lambda>_ _. True)" by (rule sync)
  qed
  show ?thesis
    by (rule goes_unit [OF goes_open_dir [OF d(1) r]], rule goes_bind [OF attr]) (use ren in blast)
qed

lemma goes_install:
  assumes m: "wf_dir_manifest sha m" "marker_name \<notin> e_path ` set (d_entries m)"
    and t0: "closed t0" "complete_staging sha m s t0" and d: "t0 [dt_name d] = None" "\<not> dt_bare d"
  shows "goes t0 (install sha m s d) (\<lambda>_ _. True)"
proof -
  let ?n = "dt_name d" and ?es = "d_entries m"
  have ts: "tree_shaped ?es" using m(1) by (simp add: wf_dir_manifest_def)
  have st: "staged m (if False then partial_paths m else {}) s t0" and s: "is_directory t0 [s]"
    using t0(2) by (simp_all add: complete_staging_def staged_def)
  have root: "reachable t0 [?n]"
    using closed_prefix [OF t0(1), of "[]" "[s]"] s by (auto simp: reachable_def is_directory_def)
  have files: "goes t0 (forM (finish_file sha m [s]) (enumerate 0 ?es)) (\<lambda>_. same_data t0)"
    by (rule goes_forM [where I = "\<lambda>_. same_data t0"])
      (use goes_finish_file [OF m(1) _ t0(2)] in \<open>simp_all add: nth_enumerate_eq\<close>)
  have dirs: "goes t (forM (finish_directory [s]) (rev ?es)) (\<lambda>_. same_data t0)" if "same_data t0 t" for t
  proof (rule goes_forM [where I = "\<lambda>_. same_data t0"])
    fix i u assume "i < length (rev ?es)" "closed u" "same_data t0 u"
    moreover from this(1) have "rev ?es ! i \<in> set ?es" by (metis nth_mem set_rev)
    ultimately show "goes u (finish_directory [s] (rev ?es ! i)) (\<lambda>_. same_data t0)"
      using goes_finish_directory [OF m(1) _ t0(2)] by simp
  qed (rule that)
  have last: "goes t (bindM (fs_unlink ([s] @ [marker_name])) (\<lambda>_.
      bindM (fs_open_dir [s]) (\<lambda>_.
      bindM (set_attributes [s] (d_root_mode m) (d_root_seconds m) (d_root_nanoseconds m)) (\<lambda>_.
      bindM (fs_rename_dir s ?n) (\<lambda>_. sync_parent d))))) (\<lambda>_ _. True)" if t: "closed t" "same_data t0 t" for t
  proof -
    obtain a c where "t ([s] @ [marker_name]) = Some (File_obj a c)"
      using same_data_file [OF t(2), of "[s, marker_name]"] t0(2) unfolding complete_staging_def by fastforce
    moreover have "is_directory t (butlast ([s] @ [marker_name]))" using s same_data_directory [OF t(2)] by simp
    ultimately show ?thesis
    proof (rule goes_bind [OF goes_unlink], elim exE)
      fix u f assume c: "closed u" and u: "u = (reattributed (butlast ([s] @ [marker_name])) f t)([s] @ [marker_name] := None)"
      have "is_directory u [s]" using s same_data_directory [OF t(2), of "[s]"] reattributed_directory [of "[s]" f t "[s]"]
        by (simp add: u is_directory_def)
      moreover have "u [?n] = None" using same_data_None [OF t(2) d(1)] by (simp add: u)
      ultimately show "goes u (bindM (fs_open_dir [s]) (\<lambda>_.
          bindM (set_attributes [s] (d_root_mode m) (d_root_seconds m) (d_root_nanoseconds m)) (\<lambda>_.
          bindM (fs_rename_dir s ?n) (\<lambda>_. sync_parent d)))) (\<lambda>_ _. True)"
        using goes_publish [OF m(1) _ _ d(2) c] by blast
    qed
  qed
  show ?thesis unfolding install_def
    by (rule goes_unit [OF goes_validate_tree [OF t0(1) st ts]], rule goes_unit [OF goes_absent [OF d(1) root]],
        rule goes_bind [OF files], rule goes_bind [OF dirs], assumption) (rule last)
qed

text \<open>With the contract: the tree of the manifest is at the destination.\<close>

lemma install_delivers:
  assumes m: "wf_dir_manifest sha m" "marker_name \<notin> e_path ` set (d_entries m)"
    and w: "faultless (object_at w) w" "plain_names (object_at w)" "complete_staging sha m s (object_at w)"
    and d: "object_at w [dt_name d] = None" "\<not> dt_bare d"
  shows "\<exists>w'. install sha m s d w = (Inr (), w') \<and> holds_tree sha m (\<lambda>q. object_at w' (dt_name d # q))"
proof -
  have c: "closed (object_at w)" "\<not> escaped w" using w(1) by (simp_all add: faultless_def)
  have s: "is_directory (object_at w) [s]" using w(3) by (simp add: complete_staging_def staged_def)
  then have root: "is_directory (object_at w) []" and sd: "s \<noteq> dt_name d"
    using closed_prefix [OF c(1), of "[]" "[s]"] d(1) by (auto simp: is_directory_def)
  obtain w' where i: "install sha m s d w = (Inr (), w')"
    using goesD [OF goes_install [OF m c(1) w(3) d] w(1)] by (metis (full_types) unit.exhaust)
  from install_refines(2) [OF m c(1) root w(2) c(2) i]
  obtain r where r: "holds_tree sha m r" "visible s (object_at w') = graft (dt_name d) r (visible s (object_at w))"
    by (auto elim: atomic_install_InrE)
  have "r q = object_at w' (dt_name d # q)" for q
    using fun_cong [OF r(2), of "dt_name d # q"] sd by (simp add: visible_def graft_def)
  then have "r = (\<lambda>q. object_at w' (dt_name d # q))" by auto
  with r(1) i show ?thesis by auto
qed

text \<open>An installation into a relative destination of one component is reported as a failure.\<close>

lemma bare_destination_fails:
  assumes "dt_bare d" shows "fst (install sha m s d w) \<noteq> Inr ()"
proof -
  have last: "fst (sync_parent d w) \<noteq> Inr ()" for w
    using assms by (auto simp: sync_parent_def fs_call_def Let_def split: list.splits fault.splits)
  have bind: "fst (bindM m f w) \<noteq> Inr ()" if "\<And>x w. fst (f x w) \<noteq> Inr ()" for m :: "unit fio" and f :: "unit \<Rightarrow> unit fio" and w
    using that by (auto simp: bindM_def split: prod.splits sum.splits)
  show ?thesis unfolding install_def by (intro bind last)
qed

end
