(* ===== verification/Dialogue.thy ===== *)
theory Dialogue
  imports Auth
begin

text \<open>
  One side of a connection as a \<open>dialogue\<close> (\<open>Auth\<close>): what it writes, and how it ends, given what
  it reads.  Here: one step after another, the lines a side writes, and the control stream as the
  list of the payloads that \<open>ControlReader::recv\<close> returns.
\<close>

section \<open>Writing\<close>

definition follow :: "'a dialogue \<Rightarrow> ('a \<Rightarrow> 'b dialogue) \<Rightarrow> 'b dialogue" where
  "follow d k = (case d of (out, Inl e) \<Rightarrow> (out, Inl e)
     | (out, Inr x) \<Rightarrow> (out @ fst (k x), snd (k x)))"

fun write_lines :: "(bytes \<Rightarrow> 256 word) \<Rightarrow> control_end \<Rightarrow> string list \<Rightarrow> control_end dialogue" where
  "write_lines sha w [] = ([], Inr w)"
| "write_lines sha w (p # ps) = follow (control_send sha w p) (\<lambda>w'. write_lines sha w' ps)"

lemma follow_simps [simp]: "follow (out, Inr x) k = (out @ fst (k x), snd (k x))" "follow (out, Inl e) k = (out, Inl e)"
  by (simp_all add: follow_def)

lemma follow_Inr: "snd (follow d k) = Inr y \<Longrightarrow> \<exists>x. snd d = Inr x \<and> snd (k x) = Inr y"
  by (cases d; cases "snd d") auto

lemma write_lines_send_all: "send_all sha w ps = Inr (out, w') \<Longrightarrow> write_lines sha w ps = (out, Inr w')"
proof (induction ps arbitrary: w out)
  case (Cons p ps)
  obtain o1 r where s: "control_send sha w p = (o1, r)" by fastforce
  with Cons.prems obtain v o2 where "r = Inr v" "send_all sha v ps = Inr (o2, w')" "out = o1 @ o2"
    by (auto simp: and_then_eq_Inr split: prod.splits)
  with Cons.IH s show ?case by simp
qed simp

text \<open>Short lines can always be sent.\<close>

lemma send_all_total:
  assumes "\<forall>p\<in>set ps. lf \<notin> set p \<and> length p \<le> 32768" "seqno w + length ps < 2 ^ 64"
  shows "\<exists>out. send_all sha w ps = Inr (out, w\<lparr>seqno := seqno w + length ps\<rparr>)"
  using assms
proof (induction ps arbitrary: w)
  case (Cons p ps)
  let ?w = "w\<lparr>seqno := seqno w + 1\<rparr>"
  have "control_send sha w p = (writeln (control_frame sha w p), Inr ?w)"
    using Cons.prems by (auto simp: control_send_def bump_def checked_add_def)
  moreover obtain out where "send_all sha ?w ps = Inr (out, ?w\<lparr>seqno := seqno ?w + length ps\<rparr>)"
    using Cons.IH [of ?w] Cons.prems by auto
  ultimately show ?case by (auto simp: Let_def)
qed simp

text \<open>The bytes of a sequence of messages, and the messages that can be sent and read back.\<close>

definition frames :: "(bytes \<Rightarrow> 256 word) \<Rightarrow> control_end \<Rightarrow> string list \<Rightarrow> bytes" where
  "frames sha c ps = fst (write_lines sha c ps)"

definition sendable_line :: "string \<Rightarrow> bool" where
  "sendable_line p \<longleftrightarrow> wire_line p \<and> length p \<le> 32768"

lemma send_frames:
  assumes "\<forall>p\<in>set ps. sendable_line p" "seqno c + length ps < 2 ^ 64"
  shows "send_all sha c ps = Inr (frames sha c ps, c\<lparr>seqno := seqno c + length ps\<rparr>)"
    "write_lines sha c ps = (frames sha c ps, Inr (c\<lparr>seqno := seqno c + length ps\<rparr>))"
proof -
  obtain out where o: "send_all sha c ps = Inr (out, c\<lparr>seqno := seqno c + length ps\<rparr>)"
    using send_all_total [of ps c sha] assms by (auto simp: sendable_line_def wire_line_def)
  then show "send_all sha c ps = Inr (frames sha c ps, c\<lparr>seqno := seqno c + length ps\<rparr>)"
    "write_lines sha c ps = (frames sha c ps, Inr (c\<lparr>seqno := seqno c + length ps\<rparr>))"
    using write_lines_send_all [OF o] by (simp_all add: frames_def)
qed

text \<open>Fields separated by spaces make a sendable line.\<close>

lemma wire_line_fields: "\<forall>f\<in>set fs. field f \<Longrightarrow> wire_line (join_with sp fs)"
proof (rule wire_line_ascii)
  assume f: "\<forall>f\<in>set fs. field f"
  have "32 \<le> ord c \<and> ord c \<le> 126" if "c \<in> set (join_with sp fs)" for c
    using in_join_with [OF that] f by (fastforce simp: field_def)
  then show "list_all (\<lambda>c. 32 \<le> ord c \<and> ord c \<le> 126) (join_with sp fs)" by (simp add: list_all_iff)
qed

section \<open>Reading\<close>

lemma read_line_shorter: "read_line n acc inp = Inr (s, rest) \<Longrightarrow> length (fst rest) < length (fst inp)"
  by (induction n acc inp rule: read_line.induct) (auto simp: and_then_eq_Inr split: if_splits)

lemma control_recv_shorter: "control_recv sha r inp = Inr (p, r', rest) \<Longrightarrow> length (fst rest) < length (fst inp)"
  by (auto simp: control_recv_def read_line_limited_def and_then_eq_Inr dest: read_line_shorter)

text \<open>The payloads still to be received, up to the first failure.\<close>

function inbox_of :: "(bytes \<Rightarrow> 256 word) \<Rightarrow> control_end \<Rightarrow> incoming \<Rightarrow> string result list" where
  "inbox_of sha r inp =
     (case control_recv sha r inp of
        Inl e \<Rightarrow> [Inl e]
      | Inr (line, r', rest) \<Rightarrow> Inr line # inbox_of sha r' rest)"
  by pat_completeness auto
termination
  by (relation "measure (\<lambda>(sha, r, inp). length (fst inp))") (auto dest: control_recv_shorter)

declare inbox_of.simps [simp del]

text \<open>A function that reads payloads, run on a stream: its result, and the reader and the stream after it.\<close>

definition read_from ::
    "(bytes \<Rightarrow> 256 word) \<Rightarrow> (string result list \<Rightarrow> ('a \<times> string result list) result) \<Rightarrow> control_end \<Rightarrow> incoming
      \<Rightarrow> ('a \<times> control_end \<times> incoming) result" where
  "read_from sha f r inp =
     (let inbox = inbox_of sha r inp in
      and_then (f inbox) (\<lambda>(x, rest).
      and_then (recv_all sha (length inbox - length rest) r inp) (\<lambda>(_, r', inp'). Inr (x, r', inp'))))"

text \<open>What was sent is in the inbox.\<close>

lemma inbox_of_sent:
  assumes "send_all sha c ps = Inr (out, c')" "\<forall>p\<in>set ps. wire_line p" "is_u64 (seqno c)"
  shows "inbox_of sha c (out @ bs, e) = map Inr ps @ inbox_of sha c' (bs, e)"
  using assms
proof (induction ps arbitrary: c out)
  case (Cons p ps)
  obtain o1 r where s: "control_send sha c p = (o1, r)" by fastforce
  with Cons.prems(1) obtain w o2 where r: "r = Inr w" "send_all sha w ps = Inr (o2, c')" "out = o1 @ o2"
    by (auto simp: and_then_eq_Inr split: prod.splits)
  have "control_recv sha c (o1 @ (o2 @ bs), e) = Inr (p, w, (o2 @ bs, e))"
    using control_recv_send s r(1) Cons.prems(2,3) by auto
  moreover have "inbox_of sha w (o2 @ bs, e) = map Inr ps @ inbox_of sha c' (bs, e)"
    using Cons.IH [OF r(2)] Cons.prems(2) control_send_state s r(1) by auto
  ultimately show ?case using r(3) by (subst inbox_of.simps) simp
qed simp

lemma read_from_frames:
  assumes s: "\<forall>p\<in>set ps. sendable_line p" "seqno c + length ps < 2 ^ 64"
    and f: "\<And>rest. f (map Inr ps @ rest) = Inr (x, rest)"
  shows "read_from sha f c (frames sha c ps @ bs, e) = Inr (x, c\<lparr>seqno := seqno c + length ps\<rparr>, (bs, e))"
proof -
  have w: "\<forall>p\<in>set ps. wire_line p" "is_u64 (seqno c)" using s by (auto simp: sendable_line_def is_u64_def)
  show ?thesis
    using inbox_of_sent [OF send_frames(1) [OF s] w] f recv_all_send_all [OF send_frames(1) [OF s] w]
    by (simp add: read_from_def)
qed

lemma control_send_frames:
  assumes "sendable_line p" "seqno c + 1 < 2 ^ 64"
  shows "control_send sha c p = (frames sha c [p], Inr (c\<lparr>seqno := seqno c + 1\<rparr>))"
  using send_frames(1) [of "[p]" c sha] assms by (auto simp: sendable_line_def Let_def and_then_eq_Inr split: prod.splits)

lemma control_recv_frames:
  assumes "sendable_line p" "seqno c + 1 < 2 ^ 64"
  shows "control_recv sha c (frames sha c [p] @ bs, e) = Inr (p, c\<lparr>seqno := seqno c + 1\<rparr>, (bs, e))"
  using control_recv_send [OF control_send_frames [OF assms]] assms by (simp add: sendable_line_def is_u64_def)

lemma frames_append:
  assumes "\<forall>p\<in>set ps. sendable_line p" "seqno c + length ps < 2 ^ 64"
  shows "frames sha c (ps @ qs) = frames sha c ps @ frames sha (c\<lparr>seqno := seqno c + length ps\<rparr>) qs"
  using assms
proof (induction ps arbitrary: c)
  case (Cons p ps)
  let ?c = "c\<lparr>seqno := seqno c + 1\<rparr>"
  have p: "write_lines sha c [p] = (frames sha c [p], Inr ?c)" using send_frames(2) [of "[p]" c sha] Cons.prems by simp
  have f: "frames sha c (p # xs) = frames sha c [p] @ frames sha ?c xs" for xs
  proof -
    obtain o1 r where s: "control_send sha c p = (o1, r)" by fastforce
    have "r = Inr ?c" using p unfolding write_lines.simps s by (cases r) simp_all
    then show ?thesis unfolding frames_def write_lines.simps s by simp
  qed
  have "frames sha ?c (ps @ qs) = frames sha ?c ps @ frames sha (?c\<lparr>seqno := seqno ?c + length ps\<rparr>) qs"
    using Cons.IH [of ?c] Cons.prems by simp
  then show ?case using f [of "ps @ qs"] f [of ps] by simp
qed (simp add: frames_def)

end
