(* ===== verification/Dir_Transfer.thy ===== *)
theory Dir_Transfer
  imports Install Dialogue
begin

text \<open>
  A directory transfer (\<open>send_dir\<close> and \<open>receive_dir\<close> in \<open>src/main.rs\<close>): the announcement of the
  manifest over an authenticated connection, the loop over the files, and the installation.

  A side of the connection is a \<open>dialogue\<close>: what it writes, and how it ends, given what it reads.
  The transfer of one file (\<open>send\<close> and \<open>receive_on\<close>, modelled over a file system of their own in
  \<open>Session\<close> and \<open>Tcp\<close>) is an argument here.  Destination and reuse root lie in one tree.
\<close>

section \<open>The announcement\<close>

definition dir_greeting :: "dir_manifest \<Rightarrow> string" where
  "dir_greeting m = ''DIR '' @ hex (d_hash m) @ '' '' @ show_nat (length (d_entries m))"

definition manifest_ok :: "dir_manifest \<Rightarrow> string" where
  "manifest_ok m = ''MANIFEST_OK '' @ hex (d_hash m)"

text \<open>The sender, up to the answer of the receiver.\<close>

definition announce_directory ::
    "(bytes \<Rightarrow> 256 word) \<Rightarrow> bytes \<Rightarrow> dir_manifest \<Rightarrow> incoming \<Rightarrow> unit dialogue" where
  "announce_directory sha key m stream =
     attempt (dir_encode m) (\<lambda>encoded.
     follow (client_handshake sha key (dir_greeting m) stream) (\<lambda>(sa, rest).
     follow (write_lines sha (new_control sa ClientToServer) (lines encoded)) (\<lambda>w.
     follow (control_send sha w ''MANIFEST_END'') (\<lambda>_.
     attempt (control_recv sha (new_control sa ServerToClient) rest) (\<lambda>(response, _).
     if response \<noteq> manifest_ok m
     then ([], Inl (Err (''receiver rejected directory manifest: '' @ response))) else ([], Inr ()))))))"

text \<open>The receiver: the lines of the manifest, and the whole announcement.\<close>

fun collect_directory ::
    "(bytes \<Rightarrow> 256 word) \<Rightarrow> nat \<Rightarrow> string \<Rightarrow> control_end \<Rightarrow> incoming \<Rightarrow> (string \<times> control_end \<times> incoming) result" where
  "collect_directory sha 0 encoded r inp = Inr (encoded, r, inp)"
| "collect_directory sha (Suc n) encoded r inp =
     and_then (control_recv sha r inp) (\<lambda>(line, r', rest).
     if MAX_MANIFEST_BYTES < sat_add (sat_add (length encoded) (length line)) 1
     then Inl (Err ''directory manifest byte limit exceeded'')
     else collect_directory sha n (encoded @ line @ [lf]) r' rest)"

definition read_directory ::
    "(bytes \<Rightarrow> 256 word) \<Rightarrow> bytes \<Rightarrow> nat \<Rightarrow> control_end \<Rightarrow> incoming \<Rightarrow> dir_manifest result" where
  "read_directory sha expected_hash expected_entries r inp =
     and_then (collect_directory sha (sat_add expected_entries 2) [] r inp) (\<lambda>(encoded, r', rest).
     and_then (control_recv sha r' rest) (\<lambda>(line, _).
     if line \<noteq> ''MANIFEST_END'' then Inl (Err ''directory manifest did not terminate correctly'')
     else and_then (dir_parse sha encoded) (\<lambda>m.
     if d_hash m \<noteq> expected_hash \<or> length (d_entries m) \<noteq> expected_entries
     then Inl (Err ''directory manifest differs from authenticated greeting'') else Inr m)))"

definition parse_dir_greeting :: "string \<Rightarrow> (bytes \<times> nat) result" where
  "parse_dir_greeting hello =
     (let fields = split_on sp hello in
      if length fields \<noteq> 3 \<or> fields ! 0 \<noteq> ''DIR'' then Inl (Err ''invalid directory manifest greeting'')
      else and_then (decode_array 32 (fields ! 1)) (\<lambda>expected_hash.
      and_then (parse_canonical_u64 (fields ! 2)) (\<lambda>expected_entries.
      if MAX_MANIFEST_ENTRIES < expected_entries then Inl (Err ''directory manifest entry limit exceeded'')
      else Inr (expected_hash, expected_entries))))"

definition receive_announcement ::
    "(bytes \<Rightarrow> 256 word) \<Rightarrow> bytes \<Rightarrow> bytes \<Rightarrow> bytes \<Rightarrow> incoming \<Rightarrow> (dir_manifest \<times> control_end) dialogue" where
  "receive_announcement sha key challenge nonce stream =
     follow (server_handshake sha key challenge nonce stream) (\<lambda>(hello, sa, rest).
     attempt (parse_dir_greeting hello) (\<lambda>(expected_hash, expected_entries).
     attempt (read_directory sha expected_hash expected_entries (new_control sa ClientToServer) rest) (\<lambda>m.
     ([], Inr (m, new_control sa ServerToClient)))))"

section \<open>The files\<close>

text \<open>The counts of files and bytes, as both sides print them.\<close>

definition count_file :: "manifest_entry \<Rightarrow> nat \<times> nat \<Rightarrow> (nat \<times> nat) fio" where
  "count_file e acc =
     bindM (lift (ok_or (checked_add (snd acc) (e_size e)) ''directory byte count overflow'')) (\<lambda>bytes.
     ret (sat_add (fst acc) 1, bytes))"

fun send_files ::
    "(path \<Rightarrow> unit fio) \<Rightarrow> dir_manifest \<Rightarrow> path \<Rightarrow> (nat \<times> manifest_entry) list \<Rightarrow> nat \<times> nat \<Rightarrow> (nat \<times> nat) fio" where
  "send_files transfer m root [] acc = ret acc"
| "send_files transfer m root ((i, e) # es) acc =
     (if e_kind e \<noteq> File then send_files transfer m root es acc
      else bindM (source_file m root i) (\<lambda>p. bindM (transfer p) (\<lambda>_.
        bindM (count_file e acc) (send_files transfer m root es))))"

fun receive_files ::
    "(path \<Rightarrow> path option \<Rightarrow> unit fio) \<Rightarrow> dir_manifest \<Rightarrow> path \<Rightarrow> path option \<Rightarrow> (nat \<times> manifest_entry) list
      \<Rightarrow> nat \<times> nat \<Rightarrow> (nat \<times> nat) fio" where
  "receive_files transfer m staging reuse [] acc = ret acc"
| "receive_files transfer m staging reuse ((i, e) # es) acc =
     (if e_kind e \<noteq> File then receive_files transfer m staging reuse es acc
      else bindM (file_destination m staging i) (\<lambda>out.
        bindM (case reuse of Some root \<Rightarrow> candidate_file m root i | None \<Rightarrow> ret None) (\<lambda>reuse_from.
        bindM (transfer out reuse_from) (\<lambda>_.
        bindM (count_file e acc) (receive_files transfer m staging reuse es)))))"

text \<open>\<open>send_dir\<close> after \<open>build\<close>: what it writes to the first connection, and the files.\<close>

definition send_dir ::
    "(bytes \<Rightarrow> 256 word) \<Rightarrow> bytes \<Rightarrow> dir_manifest \<Rightarrow> path \<Rightarrow> (path \<Rightarrow> unit fio) \<Rightarrow> incoming
      \<Rightarrow> file_system \<Rightarrow> bytes \<times> (nat \<times> nat) result \<times> file_system" where
  "send_dir sha key m root transfer stream w =
     (case announce_directory sha key m stream of
        (out, Inl e) \<Rightarrow> (out, Inl e, w)
      | (out, Inr _) \<Rightarrow> (out, send_files transfer m root (enumerate 0 (d_entries m)) (0, 0) w))"

text \<open>\<open>receive_dir\<close>: the staging directory is prepared before the announcement is answered.\<close>

definition receive_rest ::
    "(bytes \<Rightarrow> 256 word) \<Rightarrow> dir_manifest \<Rightarrow> destination \<Rightarrow> path option \<Rightarrow> (path \<Rightarrow> path option \<Rightarrow> unit fio)
      \<Rightarrow> path \<Rightarrow> (nat \<times> nat) fio" where
  "receive_rest sha m d reuse transfer staging =
     bindM (receive_files transfer m staging reuse (enumerate 0 (d_entries m)) (0, 0)) (\<lambda>counts.
     bindM (install sha m (hd staging) d) (\<lambda>_. ret counts))"

definition receive_dir ::
    "(bytes \<Rightarrow> 256 word) \<Rightarrow> bytes \<Rightarrow> bytes \<Rightarrow> bytes \<Rightarrow> incoming \<Rightarrow> destination \<Rightarrow> path option
      \<Rightarrow> (path \<Rightarrow> path option \<Rightarrow> unit fio) \<Rightarrow> file_system \<Rightarrow> bytes \<times> (nat \<times> nat) result \<times> file_system" where
  "receive_dir sha key challenge nonce stream d reuse transfer w =
     (case receive_announcement sha key challenge nonce stream of
        (out, Inl e) \<Rightarrow> (out, Inl e, w)
      | (out, Inr (m, writer)) \<Rightarrow>
          (case prepare_staging sha m d w of
             (Inl e, w1) \<Rightarrow> (out, Inl e, w1)
           | (Inr staging, w1) \<Rightarrow>
               (case control_send sha writer (manifest_ok m) of
                  (answer, Inl e) \<Rightarrow> (out @ answer, Inl e, w1)
                | (answer, Inr _) \<Rightarrow> (out @ answer, receive_rest sha m d reuse transfer staging w1))))"

section \<open>The two sides agree\<close>

lemma collect_directory_lines:
  assumes "send_all sha c ps = Inr (out, c')" "\<forall>p\<in>set ps. wire_line p" "is_u64 (seqno c)"
    "length (encoded @ unlines ps) \<le> MAX_MANIFEST_BYTES"
  shows "collect_directory sha (length ps) encoded c (out @ bs, e) = Inr (encoded @ unlines ps, c', (bs, e))"
  using assms
proof (induction ps arbitrary: c out encoded)
  case (Cons p ps)
  obtain o1 r where s: "control_send sha c p = (o1, r)" by fastforce
  with Cons.prems(1) obtain w o2 where r: "r = Inr w" "send_all sha w ps = Inr (o2, c')" "out = o1 @ o2"
    by (auto simp: and_then_eq_Inr split: prod.splits)
  have "collect_directory sha (length ps) (encoded @ p @ [lf]) w (o2 @ bs, e) = Inr (encoded @ unlines (p # ps), c', (bs, e))"
    using Cons.IH [OF r(2), of "encoded @ p @ [lf]"] Cons.prems(2,4) control_send_state s r(1) by simp
  moreover have "control_recv sha c (o1 @ (o2 @ bs), e) = Inr (p, w, (o2 @ bs, e))"
    using control_recv_send s r(1) Cons.prems(2,3) by auto
  moreover have "\<not> MAX_MANIFEST_BYTES < sat_add (sat_add (length encoded) (length p)) 1"
    using Cons.prems(4) by (auto simp: sat_add_def)
  ultimately show ?case using r(3) by simp
qed simp

lemma length_show_int:
  assumes "is_i64 n" shows "length (show_int n) \<le> 21"
proof -
  have "nat \<bar>n\<bar> < 2 ^ 64" using assms by (auto simp: is_i64_def nat_less_iff abs_if)
  then have "length (show_nat (nat \<bar>n\<bar>)) \<le> 20" by (rule length_show_nat_u64)
  then show ?thesis by (cases "n < 0") (simp_all add: show_int_def)
qed

lemma length_entry_line:
  assumes "entry_ok e" "entry_typed e" shows "length (join_with sp (entry_fields e)) \<le> 8500"
proof -
  have p: "length (hex (e_path e)) \<le> 8192" using assms(1) by (simp add: entry_ok_def safe_path_def MAX_RELATIVE_PATH_BYTES_def)
  have h: "length (hex (the (e_hash e))) = 64" if "e_kind e = File"
    using that assms by (auto simp: entry_ok_def entry_typed_def)
  have n: "length (show_nat (e_mode e)) \<le> 20" "length (show_nat (e_size e)) \<le> 20"
    using assms length_show_nat_u64 by (simp_all add: entry_ok_def entry_typed_def is_u64_def)
  have "is_i64 (e_nanoseconds e)" using assms(1) by (simp add: entry_ok_def is_i64_def)
  then have i: "length (show_int (e_seconds e)) \<le> 21" "length (show_int (e_nanoseconds e)) \<le> 21"
    using assms(2) length_show_int by (auto simp: entry_typed_def)
  show ?thesis using p h n i by (cases "e_kind e") (simp_all add: entry_fields_def)
qed

text \<open>The lines of a manifest can be sent.\<close>

lemma manifest_lines:
  assumes m: "wf_dir_manifest sha m" and e: "dir_encode m = Inr s"
  shows "unlines (lines s) = s" "length (lines s) = length (d_entries m) + 2"
    "\<forall>l\<in>set (lines s). wire_line l \<and> lf \<notin> set l \<and> length l \<le> 32768"
proof -
  let ?h = "dir_header_line (length (d_entries m)) (d_root_mode m) (d_root_seconds m) (d_root_nanoseconds m)"
  let ?es = "map (\<lambda>e. join_with sp (entry_fields e)) (d_entries m)" and ?f = "''HASH '' @ hex (d_hash m)"
  have s: "s = unlines (?h # ?es @ [?f])" using wf_dir_encode [OF m] e by simp
  have ok: "entry_ok x \<and> entry_typed x" if "x \<in> set (d_entries m)" for x
    using m that by (simp add: wf_dir_manifest_def tree_shaped_def)
  have clean: "\<forall>x\<in>set (?h # ?es @ [?f]). lf \<notin> set x \<and> cr \<notin> set x"
    using dir_header_clean entry_line_clean ok by (auto simp: hex_notin lower_hex_def is_ascii_hexdigit_def is_ascii_digit_def)
  then have l: "lines s = ?h # ?es @ [?f]" unfolding s by (rule lines_unlines)
  have h: "wire_line ?h" "length ?h \<le> 32768"
  proof -
    show "wire_line ?h" unfolding dir_header_line_def
      by (intro wire_line_append wire_line_field [OF show_nat_field] wire_line_field [OF show_int_field]) (simp_all add: wire_line_ascii)
    have "is_i64 (d_root_seconds m)" "is_i64 (d_root_nanoseconds m)" using m by (auto simp: wf_dir_manifest_def is_i64_def)
    then show "length ?h \<le> 32768"
      using m length_show_nat_u64 [of "length (d_entries m)"] length_show_nat_u64 [of "d_root_mode m"]
        length_show_int [of "d_root_seconds m"] length_show_int [of "d_root_nanoseconds m"]
      by (simp add: dir_header_line_def wf_dir_manifest_def MAX_MANIFEST_ENTRIES_def)
  qed
  have entries: "wire_line x \<and> length x \<le> 32768" if x: "x \<in> set ?es" for x
  proof -
    obtain y where y: "y \<in> set (d_entries m)" "x = join_with sp (entry_fields y)" using x by auto
    have "32 \<le> ord c \<and> ord c \<le> 126" if c: "c \<in> set x" for c
    proof -
      consider "c = sp" | f where "f \<in> set (entry_fields y)" "c \<in> set f"
        using in_join_with [OF c [unfolded y(2)]] by blast
      then show ?thesis
      proof cases
        case (2 f)
        have "field f" using entry_fields_field [OF _ _ 2(1)] ok [OF y(1)] by blast
        then have "33 \<le> ord c \<and> ord c \<le> 126" using 2(2) by (simp add: field_def)
        then show ?thesis by linarith
      qed simp
    qed
    then have "list_all (\<lambda>c. 32 \<le> ord c \<and> ord c \<le> 126) x" by (simp add: list_all_iff)
    then show ?thesis using length_entry_line [of y] ok [OF y(1)] y(2) by (simp add: wire_line_ascii)
  qed
  have f: "wire_line ?f" "length ?f \<le> 32768"
  proof -
    show "wire_line ?f" by (intro wire_line_append wire_line_hex) (simp add: wire_line_ascii)
    show "length ?f \<le> 32768" using m by (auto simp: wf_dir_manifest_def)
  qed
  show "unlines (lines s) = s" "length (lines s) = length (d_entries m) + 2" using l s by simp_all
  show "\<forall>l\<in>set (lines s). wire_line l \<and> lf \<notin> set l \<and> length l \<le> 32768"
    unfolding l using h entries f by (auto simp: wire_line_def)
qed

text \<open>What the two sides write after the handshake.\<close>

definition client_frames :: "(bytes \<Rightarrow> 256 word) \<Rightarrow> session_auth \<Rightarrow> dir_manifest \<Rightarrow> bytes" where
  "client_frames sha a m = (case dir_encode m of Inl _ \<Rightarrow> []
     | Inr s \<Rightarrow> fst (write_lines sha (new_control a ClientToServer) (lines s @ [''MANIFEST_END''])))"

definition answer_frame :: "(bytes \<Rightarrow> 256 word) \<Rightarrow> session_auth \<Rightarrow> dir_manifest \<Rightarrow> bytes" where
  "answer_frame sha a m = fst (control_send sha (new_control a ServerToClient) (manifest_ok m))"

lemma wf_dir_hash: "wf_dir_manifest sha m \<Longrightarrow> length (d_hash m) = 32"
  by (auto simp: wf_dir_manifest_def)

lemma dir_greeting_parsed:
  assumes "wf_dir_manifest sha m"
  shows "parse_dir_greeting (dir_greeting m) = Inr (d_hash m, length (d_entries m))"
    "wire_line (dir_greeting m)" "length (dir_greeting m) \<le> 1977"
proof -
  have n: "length (d_entries m) \<le> MAX_MANIFEST_ENTRIES" and h: "length (d_hash m) = 32"
    using assms wf_dir_hash by (simp_all add: wf_dir_manifest_def)
  have "split_on sp (join_with sp [''DIR'', hex (d_hash m), show_nat (length (d_entries m))])
      = [''DIR'', hex (d_hash m), show_nat (length (d_entries m))]"
    by (rule split_on_join) (use field_no_space [OF show_nat_field] in
      \<open>auto simp: hex_notin lower_hex_def is_ascii_hexdigit_def is_ascii_digit_def\<close>)
  then have "split_on sp (dir_greeting m) = [''DIR'', hex (d_hash m), show_nat (length (d_entries m))]"
    by (simp add: dir_greeting_def)
  moreover have "parse_canonical_u64 (show_nat (length (d_entries m))) = Inr (length (d_entries m))"
    using n by (simp add: parse_canonical_u64_iff is_u64_def MAX_MANIFEST_ENTRIES_def)
  ultimately show "parse_dir_greeting (dir_greeting m) = Inr (d_hash m, length (d_entries m))"
    using n by (simp add: parse_dir_greeting_def decode_array_hex [OF h])
  show "wire_line (dir_greeting m)" unfolding dir_greeting_def
    by (intro wire_line_append wire_line_hex wire_line_field [OF show_nat_field]) (simp_all add: wire_line_ascii)
  show "length (dir_greeting m) \<le> 1977"
    using h n length_show_nat_u64 [of "length (d_entries m)"] by (simp add: dir_greeting_def MAX_MANIFEST_ENTRIES_def)
qed

text \<open>The frames, and how they are read.\<close>

lemma client_frames:
  assumes m: "wf_dir_manifest sha m" "dir_encode m = Inr s" "length s \<le> MAX_MANIFEST_BYTES"
  obtains o1 w1 o2 w2 where "write_lines sha (new_control a ClientToServer) (lines s) = (o1, Inr w1)"
    "control_send sha w1 ''MANIFEST_END'' = (o2, Inr w2)" "client_frames sha a m = o1 @ o2"
    "read_directory sha (d_hash m) (length (d_entries m)) (new_control a ClientToServer) (o1 @ o2 @ bs, e) = Inr m"
proof -
  note l = manifest_lines [OF m(1,2)]
  let ?c = "new_control a ClientToServer" and ?n = "length (d_entries m)"
  have n: "?n \<le> MAX_MANIFEST_ENTRIES" using m(1) by (simp add: wf_dir_manifest_def)
  have short: "\<forall>x\<in>set (lines s @ [''MANIFEST_END'']). lf \<notin> set x \<and> length x \<le> 32768" using l(3) by auto
  have all: "\<exists>out. send_all sha ?c (lines s) = Inr (out, ?c\<lparr>seqno := seqno ?c + length (lines s)\<rparr>)"
    by (rule send_all_total) (use short l(2) n in \<open>auto simp: new_control_def MAX_MANIFEST_ENTRIES_def\<close>)
  then obtain o1 w1 where o1: "send_all sha ?c (lines s) = Inr (o1, w1)" and w1: "seqno w1 = ?n + 2"
    using l(2) by (auto simp: new_control_def)
  obtain o2 w2 where o2: "control_send sha w1 ''MANIFEST_END'' = (o2, Inr w2)"
    using w1 n by (auto simp: control_send_def bump_def checked_add_def MAX_MANIFEST_ENTRIES_def)
  have frames: "client_frames sha a m = o1 @ o2"
  proof -
    have "write_lines sha w1 [''MANIFEST_END''] = (o2, Inr w2)" using o2 by simp
    moreover have "write_lines sha c (ps @ qs) = follow (write_lines sha c ps) (\<lambda>w. write_lines sha w qs)" for c ps qs
    proof (induction ps arbitrary: c)
      case (Cons p ps)
      obtain o3 r where "control_send sha c p = (o3, r)" by fastforce
      then show ?case using Cons by (cases r) (auto simp: follow_def split: prod.splits sum.splits)
    qed simp
    ultimately show ?thesis using write_lines_send_all [OF o1] m(2) by (simp add: client_frames_def)
  qed
  have u: "is_u64 (seqno ?c)" "is_u64 (seqno w1)" using w1 n by (simp_all add: new_control_def is_u64_def MAX_MANIFEST_ENTRIES_def)
  have "collect_directory sha (length (lines s)) [] ?c (o1 @ o2 @ bs, e) = Inr (s, w1, (o2 @ bs, e))"
    using collect_directory_lines [OF o1 _ u(1), of "[]" "o2 @ bs" e] l(1,3) m(3) by simp
  moreover have "control_recv sha w1 (o2 @ bs, e) = Inr (''MANIFEST_END'', w2, (bs, e))"
    by (rule control_recv_send [OF o2 _ u(2)]) (simp add: wire_line_ascii)
  moreover have "sat_add ?n 2 = length (lines s)" using n l(2) by (simp add: sat_add_def MAX_MANIFEST_ENTRIES_def)
  moreover have "dir_parse sha s = Inr m" using m by (simp add: dir_parse_iff)
  ultimately have "read_directory sha (d_hash m) ?n ?c (o1 @ o2 @ bs, e) = Inr m" by (simp add: read_directory_def)
  then show thesis by (rule that [OF write_lines_send_all [OF o1] o2 frames])
qed

lemma announcement_agrees:
  fixes key :: bytes
  assumes m: "wf_dir_manifest sha m" "dir_encode m = Inr s" "length s \<le> MAX_MANIFEST_BYTES"
    and l: "length challenge = 32" "length nonce = 32"
  defines "a \<equiv> derive_session sha key (transcript challenge (dir_greeting m) nonce)"
  shows "announce_directory sha key m (server_lines sha key challenge nonce (dir_greeting m) @ answer_frame sha a m, e)
      = (client_lines sha key challenge nonce (dir_greeting m) @ client_frames sha a m, Inr ())"
    "receive_announcement sha key challenge nonce (client_lines sha key challenge nonce (dir_greeting m) @ client_frames sha a m @ bs, e)
      = (server_lines sha key challenge nonce (dir_greeting m), Inr (m, new_control a ServerToClient))"
proof -
  let ?g = "dir_greeting m" and ?w = "new_control a ServerToClient"
  note g = dir_greeting_parsed [OF m(1)]
  obtain o1 w1 o2 w2 where o: "write_lines sha (new_control a ClientToServer) (lines s) = (o1, Inr w1)"
    "control_send sha w1 ''MANIFEST_END'' = (o2, Inr w2)" "client_frames sha a m = o1 @ o2"
    "read_directory sha (d_hash m) (length (d_entries m)) (new_control a ClientToServer) (o1 @ o2 @ bs, e) = Inr m"
    by (rule client_frames [OF m])
  have ok: "wire_line (manifest_ok m)" "length (manifest_ok m) \<le> 32768"
  proof -
    show "wire_line (manifest_ok m)" unfolding manifest_ok_def
      by (intro wire_line_append wire_line_hex) (simp add: wire_line_ascii)
    show "length (manifest_ok m) \<le> 32768" using wf_dir_hash [OF m(1)] by (simp add: manifest_ok_def)
  qed
  then obtain w' where "control_send sha ?w (manifest_ok m) = (answer_frame sha a m, Inr w')"
    by (auto simp: answer_frame_def control_send_def wire_line_def bump_def new_control_def checked_add_def)
  then have "control_recv sha ?w (answer_frame sha a m @ [], e) = Inr (manifest_ok m, w', ([], e))"
    by (rule control_recv_send) (simp_all add: ok new_control_def is_u64_def)
  then show "announce_directory sha key m (server_lines sha key challenge nonce ?g @ answer_frame sha a m, e)
      = (client_lines sha key challenge nonce ?g @ client_frames sha a m, Inr ())"
    using o(1-3) m(2) client_handshake_honest [OF l, of sha key ?g "answer_frame sha a m" e]
    by (simp add: announce_directory_def a_def [symmetric])
  show "receive_announcement sha key challenge nonce (client_lines sha key challenge nonce ?g @ client_frames sha a m @ bs, e)
      = (server_lines sha key challenge nonce ?g, Inr (m, new_control a ServerToClient))"
    using o(3,4) g(1) server_handshake_honest [OF l g(2,3), of sha key "client_frames sha a m @ bs" e]
    by (simp add: receive_announcement_def a_def [symmetric])
qed

section \<open>Receiving is all or nothing\<close>

text \<open>What an accepted announcement is: the client has proved that it knows the key.\<close>

lemma read_directory_Inr:
  assumes "read_directory sha h n r inp = Inr m"
  shows "wf_dir_manifest sha m \<and> d_hash m = h \<and> length (d_entries m) = n"
  using assms by (auto simp: read_directory_def and_then_eq_Inr dir_parse_iff if_Inl_eq_Inr split: prod.splits)

lemma receive_announcement_Inr:
  assumes "receive_announcement sha key challenge nonce stream = (out, Inr (m, writer))"
  shows "\<exists>hello a rest. snd (server_handshake sha key challenge nonce stream) = Inr (hello, a, rest)
    \<and> parse_dir_greeting hello = Inr (d_hash m, length (d_entries m)) \<and> wf_dir_manifest sha m
    \<and> writer = new_control a ServerToClient"
proof -
  have "snd (receive_announcement sha key challenge nonce stream) = Inr (m, writer)" by (simp add: assms)
  then obtain x where x: "snd (server_handshake sha key challenge nonce stream) = Inr x"
    "snd ((\<lambda>(hello, sa, rest).
     attempt (parse_dir_greeting hello) (\<lambda>(expected_hash, expected_entries).
     attempt (read_directory sha expected_hash expected_entries (new_control sa ClientToServer) rest) (\<lambda>m.
     ([], Inr (m, new_control sa ServerToClient))))) x) = Inr (m, writer)"
    unfolding receive_announcement_def by (blast dest: follow_Inr)
  obtain hello a rest where h: "x = (hello, a, rest)" by (cases x)
  then show ?thesis using x by (auto simp: snd_attempt and_then_eq_Inr dest!: read_directory_Inr split: prod.splits)
qed

text \<open>The transfer of a file is confined: below the staging directory \<open>s\<close> it may do what it likes
  as long as there are no symbolic links, and nothing else changes.\<close>

definition tidy :: "bytes \<Rightarrow> objects \<Rightarrow> objects \<Rightarrow> bool" where
  "tidy s t0 t \<longleftrightarrow> visible s t = visible s t0 \<and> is_directory t [] \<and> plain_names t
     \<and> (\<forall>q. t (s # q) \<noteq> Some Link_obj)"

definition confined :: "(path \<Rightarrow> path option \<Rightarrow> unit fio) \<Rightarrow> bool" where
  "confined transfer \<longleftrightarrow> (\<forall>s q from t0.
     triple (on (tidy s t0)) (transfer (s # q) from) (\<lambda>_. on (tidy s t0)) (on (tidy s t0)))"

lemma tidy_visible: "tidy s t0 t \<Longrightarrow> visible s t = visible s t0"
  by (simp add: tidy_def)

lemma on_tidy_looks: "(\<And>t. closed t \<Longrightarrow> tidy s t0 t \<Longrightarrow> looks t m (F t)) \<Longrightarrow>
    triple (on (tidy s t0)) m (\<lambda>x. on (\<lambda>t. tidy s t0 t \<and> F t x)) (on (tidy s t0))"
  by (rule on_looks)

lemma looks_candidate:
  assumes "closed t" "\<And>root. reuse = Some root \<Longrightarrow> reachable t root"
  shows "looks t (case reuse of Some root \<Rightarrow> candidate_file m root i | None \<Rightarrow> ret None) (\<lambda>_. True)"
  using assms looks_conseq [OF looks_candidate_file [OF assms(1)]]
  by (cases reuse) (auto intro: looks_ret)

lemma tidy_reachable:
  assumes "tidy s t0 t" "length root \<le> 1" shows "reachable t root"
proof -
  have "root = [] \<or> butlast root = []" using assms(2) by (cases root) auto
  then show ?thesis using assms(1) by (auto simp: reachable_def tidy_def)
qed

text \<open>The bytes of the files among some entries.\<close>

definition file_bytes :: "(nat \<times> manifest_entry) list \<Rightarrow> nat" where
  "file_bytes es = sum_list (map (e_size \<circ> snd) (filter (\<lambda>x. e_kind (snd x) = File) es))"

lemma file_bytes_simps [simp]: "file_bytes [] = 0"
  "file_bytes ((i, e) # es) = (if e_kind e = File then e_size e else 0) + file_bytes es"
  by (simp_all add: file_bytes_def)

lemma on_count_file:
  "triple (on (tidy s t0)) (count_file e acc) (\<lambda>c. on (\<lambda>t. tidy s t0 t \<and> snd c = snd acc + e_size e)) (on (tidy s t0))"
  unfolding count_file_def
  by (rule triple_bind [OF triple_lift, where R = "\<lambda>x. on (\<lambda>t. tidy s t0 t \<and> x = snd acc + e_size e)"])
    (auto simp: checked_add_def ok_or_def split: if_splits intro: triple_ret)

lemma on_pure: "(F \<Longrightarrow> triple (on P) m Q E) \<Longrightarrow> triple (on (\<lambda>t. P t \<and> F)) m Q E"
  by (cases F) (simp_all add: triple_def on_def)

lemma on_receive_files:
  assumes c: "confined transfer" and r: "\<forall>root. reuse = Some root \<longrightarrow> length root \<le> 1"
  shows "triple (on (tidy s t0)) (receive_files transfer m [s] reuse es acc)
    (\<lambda>n. on (\<lambda>t. tidy s t0 t \<and> snd n = snd acc + file_bytes es)) (on (tidy s t0))"
proof (induction es arbitrary: acc)
  case Nil
  show ?case by (simp add: triple_ret)
next
  case (Cons x es)
  obtain i e where x: "x = (i, e)" by (cases x)
  show ?case
  proof (cases "e_kind e = File")
    case False
    then show ?thesis using Cons.IH [of acc] by (simp add: x)
  next
    case True
    let ?T = "tidy s t0"
    have dest: "triple (on ?T) (file_destination m [s] i) (\<lambda>p. on (\<lambda>t. ?T t \<and> (\<exists>q. p = s # q))) (on ?T)"
      by (rule on_conseq [OF on_looks [where P = ?T and E = ?T, OF looks_file_destination]]) (auto intro: tidy_reachable)
    have cand: "triple (on ?T) (case reuse of Some root \<Rightarrow> candidate_file m root i | None \<Rightarrow> ret None) (\<lambda>_. on ?T) (on ?T)"
      by (rule on_conseq [OF on_looks [where P = ?T and E = ?T, OF looks_candidate]]) (use r in \<open>auto intro: tidy_reachable\<close>)
    have move: "triple (on (\<lambda>t. ?T t \<and> (\<exists>q. p = s # q)))
        (bindM (case reuse of Some root \<Rightarrow> candidate_file m root i | None \<Rightarrow> ret None) (\<lambda>from.
         bindM (transfer p from) (\<lambda>_. bindM (count_file e acc) (receive_files transfer m [s] reuse es))))
        (\<lambda>n. on (\<lambda>t. ?T t \<and> snd n = snd acc + file_bytes (x # es))) (on ?T)" for p
    proof (cases "\<exists>q. p = s # q")
      case p: True
      then have "triple (on ?T) (transfer p from) (\<lambda>_. on ?T) (on ?T)" for "from" using c by (auto simp: confined_def)
      moreover have "triple (on (\<lambda>t. ?T t \<and> snd n = snd acc + e_size e)) (receive_files transfer m [s] reuse es n)
          (\<lambda>n. on (\<lambda>t. ?T t \<and> snd n = snd acc + file_bytes (x # es))) (on ?T)" for n
        by (rule on_pure, rule on_conseq [OF Cons.IH [of n]]) (use True in \<open>simp_all add: x\<close>)
      ultimately show ?thesis using p by (simp add: triple_bind [OF cand triple_bind [OF _ triple_bind [OF on_count_file]]])
    qed (auto simp: triple_def on_def)
    show ?thesis unfolding x receive_files.simps using triple_bind [OF dest move] True x by (simp del: on_conj_pure)
  qed
qed

lemma appeared_transfer: "visible s t1 = visible s t0 \<Longrightarrow> appeared sha m s d t1 t = appeared sha m s d t0 t"
  by (simp add: appeared_def)

lemma on_receive_rest:
  assumes m: "wf_dir_manifest sha m" "marker_name \<notin> e_path ` set (d_entries m)"
    and c: "confined transfer" "\<forall>root. reuse = Some root \<longrightarrow> length root \<le> 1"
  shows "triple (on (tidy s t0)) (receive_rest sha m d reuse transfer [s])
    (\<lambda>n. on (\<lambda>t. appeared sha m s (dt_name d) t0 t \<and> snd n = file_bytes (enumerate 0 (d_entries m))))
    (on (all_or_nothing sha m s (dt_name d) t0))"
proof -
  let ?A = "appeared sha m s (dt_name d) t0" and ?E = "all_or_nothing sha m s (dt_name d) t0"
  let ?b = "file_bytes (enumerate 0 (d_entries m))"
  have files: "triple (on (tidy s t0)) (receive_files transfer m [s] reuse (enumerate 0 (d_entries m)) (0, 0))
      (\<lambda>n. on (\<lambda>t. tidy s t0 t \<and> snd n = ?b)) (on ?E)"
    by (rule on_conseq [OF on_receive_files [OF c]]) (auto simp: all_or_nothing_def tidy_def)
  have inst: "triple (on (tidy s t0)) (install sha m s d) (\<lambda>_. on ?A) (on ?E)"
  proof (rule on_each)
    fix t1 assume t1: "closed t1" "tidy s t0 t1"
    then have v: "visible s t1 = visible s t0" and t: "is_directory t1 []" "plain_names t1" by (simp_all add: tidy_def)
    show "triple (on (\<lambda>u. u = t1)) (install sha m s d) (\<lambda>_. on ?A) (on ?E)"
      by (rule on_conseq [OF on_install [OF m t1(1) t]]) (auto simp: appeared_transfer [OF v] all_or_nothing_def v)
  qed
  have last: "triple (on (\<lambda>t. tidy s t0 t \<and> snd n = ?b)) (bindM (install sha m s d) (\<lambda>_. ret n))
      (\<lambda>n. on (\<lambda>t. ?A t \<and> snd n = ?b)) (on ?E)" for n
    by (rule on_pure, rule triple_bind [OF inst], rule triple_ret) simp
  show ?thesis unfolding receive_rest_def using triple_bind [OF files last] by (simp only: list.sel)
qed

lemma prepared_tidy:
  assumes "prepared s encoded t0 t" "staged m ps s t" "closed t" shows "tidy s t0 t"
proof -
  have d: "is_directory t [s]" using assms(1) by (simp add: prepared_def)
  have "t (s # q) \<noteq> Some Link_obj" for q
  proof
    assume l: "t (s # q) = Some Link_obj"
    then have "q \<noteq> []" using d by (auto simp: is_directory_def)
    then show False using assms(2) l unfolding staged_def by fastforce
  qed
  moreover have "is_directory t []" using closed_prefix [OF assms(3), of "[]" "[s]"] d by (auto simp: is_directory_def)
  ultimately show ?thesis using assms(1) by (simp add: tidy_def prepared_def)
qed

text \<open>What follows the announcement, by itself.\<close>

definition receive_announced ::
    "(bytes \<Rightarrow> 256 word) \<Rightarrow> dir_manifest \<Rightarrow> control_end \<Rightarrow> destination \<Rightarrow> path option
      \<Rightarrow> (path \<Rightarrow> path option \<Rightarrow> unit fio) \<Rightarrow> (nat \<times> nat) fio" where
  "receive_announced sha m writer d reuse transfer =
     bindM (prepare_staging sha m d) (\<lambda>staging.
     bindM (lift (snd (control_send sha writer (manifest_ok m)))) (\<lambda>_. receive_rest sha m d reuse transfer staging))"

lemma receive_dir_announced:
  assumes "receive_announcement sha key challenge nonce stream = (o1, Inr (m, writer))"
    "receive_dir sha key challenge nonce stream d reuse transfer w = (out, r, w')"
  shows "receive_announced sha m writer d reuse transfer w = (r, w')"
  using assms by (auto simp: receive_dir_def receive_announced_def bindM_def lift_def split: prod.splits sum.splits)

lemma on_receive_announced:
  fixes sha and m :: dir_manifest and d :: destination
  assumes m: "wf_dir_manifest sha m" "marker_name \<notin> e_path ` set (d_entries m)"
    and t0: "closed t0" "is_directory t0 []" "plain_names t0"
    and c: "confined transfer" "\<forall>root. reuse = Some root \<longrightarrow> length root \<le> 1"
  defines "s \<equiv> staging_name sha m d"
  shows "triple (on (\<lambda>u. u = t0)) (receive_announced sha m writer d reuse transfer)
    (\<lambda>n. on (\<lambda>t. appeared sha m s (dt_name d) t0 t \<and> snd n = file_bytes (enumerate 0 (d_entries m))))
    (on (all_or_nothing sha m s (dt_name d) t0))"
proof -
  let ?E = "on (all_or_nothing sha m s (dt_name d) t0)"
  obtain enc where e: "dir_encode m = Inr enc" using wf_dir_encode [OF m(1)] by blast
  have ts: "tree_shaped (d_entries m)" using m by (simp add: wf_dir_manifest_def)
  have prep: "triple (on (\<lambda>u. u = t0)) (prepare_staging sha m d) (\<lambda>p. on (\<lambda>t. tidy s t0 t \<and> p = [s])) ?E"
    by (rule on_conseq [OF on_prepare [OF ts e t0, of sha d]])
      (use prepared_tidy in \<open>auto simp: s_def [symmetric] all_or_nothing_def\<close>)
  have answer: "triple (on (tidy s t0)) (lift (snd (control_send sha writer (manifest_ok m)))) (\<lambda>_. on (tidy s t0)) ?E"
    by (rule triple_lift) (auto simp: on_def all_or_nothing_def tidy_def)
  show ?thesis unfolding receive_announced_def
  proof (rule triple_bind [OF prep], rule on_pure)
    fix p assume "p = [s]"
    then show "triple (on (tidy s t0)) (bindM (lift (snd (control_send sha writer (manifest_ok m))))
        (\<lambda>_. receive_rest sha m d reuse transfer p))
      (\<lambda>n. on (\<lambda>t. appeared sha m s (dt_name d) t0 t \<and> snd n = file_bytes (enumerate 0 (d_entries m)))) ?E"
      using triple_bind [OF answer on_receive_rest [OF m c]] by simp
  qed
qed

text \<open>The outcome of \<open>receive_dir\<close>: the connection fails before anything is touched, or an authenticated
  client has announced a manifest, and its tree appears at once or not at all.\<close>

lemma receive_dir_outcome:
  assumes t: "closed (object_at w)" "is_directory (object_at w) []" "plain_names (object_at w)" "\<not> escaped w"
    and c: "confined transfer" "\<forall>root. reuse = Some root \<longrightarrow> length root \<le> 1"
    and r: "receive_dir sha key challenge nonce stream d reuse transfer w = (out, r, w')"
  shows "(w' = w \<and> (\<exists>e. r = Inl e))
    \<or> (\<exists>m hello a rest. snd (server_handshake sha key challenge nonce stream) = Inr (hello, a, rest)
        \<and> parse_dir_greeting hello = Inr (d_hash m, length (d_entries m)) \<and> wf_dir_manifest sha m
        \<and> (\<exists>writer. snd (receive_announcement sha key challenge nonce stream) = Inr (m, writer))
        \<and> (marker_name \<notin> e_path ` set (d_entries m) \<longrightarrow> \<not> escaped w'
          \<and> atomic_install sha m (dt_name d) (visible (staging_name sha m d) (object_at w)) (and_then r (\<lambda>_. Inr ()))
              (visible (staging_name sha m d) (object_at w'))
          \<and> (\<forall>n. r = Inr n \<longrightarrow> snd n = file_bytes (enumerate 0 (d_entries m)))))"
proof -
  obtain o1 r1 where a: "receive_announcement sha key challenge nonce stream = (o1, r1)" by fastforce
  show ?thesis
  proof (cases r1)
    case (Inl e)
    then show ?thesis using r a by (intro disjI1) (auto simp: receive_dir_def)
  next
    case (Inr mw)
    obtain m writer where mw: "mw = (m, writer)" by (cases mw)
    let ?s = "staging_name sha m d" and ?t0 = "object_at w"
    let ?ok = "\<not> escaped w' \<and> atomic_install sha m (dt_name d) (visible ?s ?t0) (and_then r (\<lambda>_. Inr ())) (visible ?s (object_at w'))
          \<and> (\<forall>n. r = Inr n \<longrightarrow> snd n = file_bytes (enumerate 0 (d_entries m)))"
    from receive_announcement_Inr [OF a [unfolded Inr mw]] obtain hello sa rest where
      h: "snd (server_handshake sha key challenge nonce stream) = Inr (hello, sa, rest)"
        "parse_dir_greeting hello = Inr (d_hash m, length (d_entries m))" and m: "wf_dir_manifest sha m" by blast
    have ?ok if mk: "marker_name \<notin> e_path ` set (d_entries m)"
    proof -
      note fin = on_receive_announced [OF m mk t(1-3) c, of writer d]
      have u: "on (\<lambda>u. u = ?t0) w" using t by (simp add: on_def)
      have run: "receive_announced sha m writer d reuse transfer w = (r, w')"
        by (rule receive_dir_announced [OF a [unfolded Inr mw] r])
      have app: "atomic_install sha m (dt_name d) (visible ?s ?t0) x (visible ?s (object_at w'))"
        if "appeared sha m ?s (dt_name d) ?t0 (object_at w')" for x
        using that by (auto simp: appeared_def intro: atomic_install.published)
      show ?ok
      proof (cases r)
        case (Inl e)
        then show ?thesis using triple_Inl [OF fin u run [unfolded Inl]] app
          by (auto simp: on_def all_or_nothing_def intro: atomic_install.refused)
      next
        case (Inr n)
        then show ?thesis using triple_Inr [OF fin u run [unfolded Inr]] app by (auto simp: on_def)
      qed
    qed
    moreover have "\<exists>writer. snd (receive_announcement sha key challenge nonce stream) = Inr (m, writer)"
      using a Inr mw by simp
    ultimately show ?thesis
      by (intro disjI2 exI [of _ m] exI [of _ hello] exI [of _ sa] exI [of _ rest] conjI h m impI) simp_all
  qed
qed

end
