(* ===== verification/Cli.thy ===== *)
theory Cli
  imports Complex_Main Hello
begin

text \<open>
  The command line (\<open>src/main.rs\<close>): \<open>option\<close>, \<open>optional_option\<close>, \<open>validate_options\<close>, the
  parsers of the single options, and \<open>parse_send\<close>, \<open>parse_send_dir\<close>, \<open>parse_receive\<close> and
  \<open>parse_receive_dir\<close>.

  Name resolution is the parameter \<open>dns\<close>, which gives the addresses of a name or an error; the
  rounding of a decimal number to the nearest floating-point value is the parameter \<open>near\<close>.  The
  lemmas show what the arguments of a command satisfy once they are accepted, and when the value
  read for an option is the one written after it.
\<close>

section \<open>Floating-point arguments\<close>

datatype f64 = Finite rat | Infinite | NaN

definition is_finite :: "f64 \<Rightarrow> bool" where
  "is_finite x \<longleftrightarrow> (case x of Finite _ \<Rightarrow> True | _ \<Rightarrow> False)"

text \<open>\<open>x <= 0.0\<close> and \<open>x < y\<close>, where the code uses them: after the test for finiteness.\<close>

definition f64_le_zero :: "f64 \<Rightarrow> bool" where
  "f64_le_zero x \<longleftrightarrow> (case x of Finite r \<Rightarrow> r \<le> 0 | _ \<Rightarrow> False)"

definition f64_less :: "f64 \<Rightarrow> f64 \<Rightarrow> bool" where
  "f64_less x y \<longleftrightarrow> (case (x, y) of (Finite r, Finite s) \<Rightarrow> r < s | _ \<Rightarrow> False)"

definition lower_case :: "string \<Rightarrow> string" where
  "lower_case s = map (\<lambda>c. if is_ascii_uppercase c then char_of (ord c + 32) else c) s"

definition decimal :: "string \<Rightarrow> nat" where
  "decimal s = (case digits_value 10 0 s of None \<Rightarrow> 0 | Some v \<Rightarrow> v)"

text \<open>The exponent of a number: nothing, or \<open>e\<close>, an optional sign and digits.\<close>

definition parse_exponent :: "string \<Rightarrow> int option" where
  "parse_exponent s =
     (case s of [] \<Rightarrow> Some 0
      | c # cs \<Rightarrow>
         if c = CHR ''e'' \<or> c = CHR ''E'' then
           (let neg = (cs \<noteq> [] \<and> hd cs = CHR ''-'');
                ds = (if cs \<noteq> [] \<and> (hd cs = CHR ''-'' \<or> hd cs = CHR ''+'') then tl cs else cs)
            in if ds = [] \<or> \<not> list_all is_ascii_digit ds then None
               else Some ((if neg then - 1 else 1) * int (decimal ds)))
         else None)"

text \<open>A number without its sign: digits, an optional point and digits, an exponent.\<close>

definition parse_number :: "string \<Rightarrow> rat option" where
  "parse_number s =
     (let whole = takeWhile is_ascii_digit s; rest = dropWhile is_ascii_digit s;
          dot = (rest \<noteq> [] \<and> hd rest = CHR ''.'');
          frac = (if dot then takeWhile is_ascii_digit (tl rest) else []);
          rest = (if dot then dropWhile is_ascii_digit (tl rest) else rest)
      in if whole = [] \<and> frac = [] then None
         else map_option (\<lambda>e. let m = of_nat (decimal (whole @ frac)); e = e - int (length frac)
           in if 0 \<le> e then m * 10 ^ nat e else m / 10 ^ nat (- e)) (parse_exponent rest))"

definition parse_f64 :: "(rat \<Rightarrow> f64) \<Rightarrow> string \<Rightarrow> f64 result" where
  "parse_f64 near s =
     (let neg = (s \<noteq> [] \<and> hd s = CHR ''-'');
          body = (if s \<noteq> [] \<and> (hd s = CHR ''-'' \<or> hd s = CHR ''+'') then tl s else s)
      in case parse_number body of
           Some r \<Rightarrow> Inr (near (if neg then - r else r))
         | None \<Rightarrow>
            if lower_case body = ''nan'' then Inr NaN
            else if lower_case body = ''inf'' \<or> lower_case body = ''infinity'' then Inr Infinite
            else Inl ParseErr)"

section \<open>Options\<close>

fun position :: "string \<Rightarrow> string list \<Rightarrow> nat option" where
  "position name [] = None"
| "position name (a # as) = (if a = name then Some 0 else map_option Suc (position name as))"

definition arg_at :: "string list \<Rightarrow> nat \<Rightarrow> string option" where
  "arg_at args i = (if i < length args then Some (args ! i) else None)"

definition option_value :: "string list \<Rightarrow> string \<Rightarrow> string result" where
  "option_value args name =
     and_then (ok_or (position name args) (''missing required option '' @ name)) (\<lambda>index.
       ok_or (arg_at args (index + 1)) (''missing value for '' @ name))"

definition optional_option :: "string list \<Rightarrow> string \<Rightarrow> string option" where
  "optional_option args name = Option.bind (position name args) (\<lambda>index. arg_at args (index + 1))"

text \<open>The loop over \<open>chunks_exact(2)\<close>.\<close>

fun validate_pairs :: "string list \<Rightarrow> string set \<Rightarrow> string list \<Rightarrow> unit result" where
  "validate_pairs allowed seen (name # v # rest) =
     (if name \<notin> set allowed then Inl (Err (''unknown option '' @ name))
      else if name \<in> seen then Inl (Err (''duplicate option '' @ name))
      else validate_pairs allowed (insert name seen) rest)"
| "validate_pairs allowed seen _ = Inr ()"

definition validate_options :: "string list \<Rightarrow> string list \<Rightarrow> unit result" where
  "validate_options args allowed =
     (if odd (length args) then Inl (Err ''every option must have a value'')
      else validate_pairs allowed {} args)"

definition resolve_socket :: "(string \<Rightarrow> 'addr list result) \<Rightarrow> string \<Rightarrow> 'addr result" where
  "resolve_socket dns name =
     and_then (dns name) (\<lambda>as. ok_or (if as = [] then None else Some (hd as)) ''address did not resolve'')"

definition socket_option :: "(string \<Rightarrow> 'addr list result) \<Rightarrow> string list \<Rightarrow> string \<Rightarrow> 'addr result" where
  "socket_option dns args name = and_then (option_value args name) (resolve_socket dns)"

definition or_default :: "string list \<Rightarrow> string \<Rightarrow> string \<Rightarrow> string" where
  "or_default args name d = (case optional_option args name of None \<Rightarrow> d | Some v \<Rightarrow> v)"

definition parse_bool_option :: "string list \<Rightarrow> string \<Rightarrow> bool result" where
  "parse_bool_option args name =
     (case optional_option args name of
        None \<Rightarrow> Inr False
      | Some v \<Rightarrow>
          if v = ''false'' then Inr False else if v = ''true'' then Inr True
          else Inl (Err (name @ '' must be true or false'')))"

text \<open>Durations are numbers of milliseconds.\<close>

definition parse_udp_payload_bytes :: "string list \<Rightarrow> nat result" where
  "parse_udp_payload_bytes args =
     and_then (parse_dec (or_default args ''--udp-payload-bytes'' ''1172'')) (\<lambda>n.
       if \<not> (256 \<le> n \<and> n \<le> 1424) then Inl (Err ''--udp-payload-bytes must be between 256 and 1424'') else Inr n)"

definition parse_report_interval :: "string list \<Rightarrow> nat result" where
  "parse_report_interval args =
     and_then (parse_dec (or_default args ''--feedback-interval-ms'' ''50'')) (\<lambda>n.
       if \<not> (10 \<le> n \<and> n \<le> 10000) then Inl (Err ''--feedback-interval-ms must be between 10 and 10000'') else Inr n)"

definition parse_idle_timeout :: "string list \<Rightarrow> nat result" where
  "parse_idle_timeout args =
     and_then (parse_dec (or_default args ''--idle-timeout-ms'' ''30000'')) (\<lambda>n.
       if \<not> (500 \<le> n \<and> n \<le> 3600000) then Inl (Err ''--idle-timeout-ms must be between 500 and 3600000'') else Inr n)"

definition parse_rate :: "(rat \<Rightarrow> f64) \<Rightarrow> string list \<Rightarrow> f64 option result" where
  "parse_rate near args =
     (case optional_option args ''--rate-mbps'' of None \<Rightarrow> Inr None
      | Some v \<Rightarrow> and_then (parse_f64 near v) (\<lambda>r. Inr (Some r)))"

definition explicit_bounds :: "string list \<Rightarrow> bool" where
  "explicit_bounds args \<longleftrightarrow> optional_option args ''--min-rate-mbps'' \<noteq> None
     \<or> optional_option args ''--max-rate-mbps'' \<noteq> None"

definition validate_rate_configuration :: "f64 option \<Rightarrow> f64 \<Rightarrow> f64 \<Rightarrow> bool \<Rightarrow> unit result" where
  "validate_rate_configuration fixed minimum maximum explicit =
     (if (case fixed of None \<Rightarrow> False | Some r \<Rightarrow> \<not> is_finite r \<or> f64_le_zero r)
      then Inl (Err ''--rate-mbps must be positive and finite'')
      else if \<not> is_finite minimum \<or> \<not> is_finite maximum \<or> f64_le_zero minimum \<or> f64_less maximum minimum
      then Inl (Err ''automatic rate bounds must be positive, finite, and ordered'')
      else if fixed \<noteq> None \<and> explicit
      then Inl (Err ''--rate-mbps is a fixed-rate override and cannot be combined with automatic rate bounds'')
      else Inr ())"

section \<open>The commands\<close>

record 'addr send_args =
  sa_connect :: 'addr
  sa_udp_target :: 'addr
  sa_file :: string
  sa_transport :: transport
  sa_rate :: "f64 option"
  sa_min_rate :: f64
  sa_max_rate :: f64
  sa_repair_cooldown :: nat
  sa_payload_bytes :: nat
  sa_report_interval :: nat
  sa_idle_timeout :: nat
  sa_key_file :: string
  sa_reuse_chunks :: bool

record 'addr send_dir_args = "'addr send_args" +
  sa_data_connect :: 'addr

record 'addr receive_args =
  ra_listen :: 'addr
  ra_udp :: 'addr
  ra_out :: string
  ra_idle_timeout :: nat
  ra_key_file :: string
  ra_reuse_from :: "string option"

record 'addr receive_dir_args = "'addr receive_args" +
  ra_data_listen :: 'addr

text \<open>The fields that \<open>send\<close> and \<open>send-dir\<close> have in common, in the order in which they are read
  after the addresses, the path and the transport.\<close>

definition parse_tuning ::
    "(rat \<Rightarrow> f64) \<Rightarrow> string list \<Rightarrow> 'addr \<Rightarrow> 'addr \<Rightarrow> string \<Rightarrow> transport \<Rightarrow> 'addr send_args result" where
  "parse_tuning near args connect udp_target path transport =
     and_then (parse_rate near args) (\<lambda>rate.
     and_then (parse_f64 near (or_default args ''--min-rate-mbps'' ''10'')) (\<lambda>lo.
     and_then (parse_f64 near (or_default args ''--max-rate-mbps'' ''10000'')) (\<lambda>hi.
     and_then (parse_dec (or_default args ''--repair-cooldown-ms'' ''250'')) (\<lambda>cooldown.
     and_then (parse_udp_payload_bytes args) (\<lambda>payload.
     and_then (parse_report_interval args) (\<lambda>interval.
     and_then (parse_idle_timeout args) (\<lambda>idle.
     and_then (option_value args ''--key-file'') (\<lambda>key.
     and_then (parse_bool_option args ''--reuse-chunks'') (\<lambda>reuse.
       Inr \<lparr>sa_connect = connect, sa_udp_target = udp_target, sa_file = path, sa_transport = transport,
         sa_rate = rate, sa_min_rate = lo, sa_max_rate = hi, sa_repair_cooldown = cooldown,
         sa_payload_bytes = payload, sa_report_interval = interval, sa_idle_timeout = idle,
         sa_key_file = key, sa_reuse_chunks = reuse\<rparr>)))))))))"

definition parse_send ::
    "(string \<Rightarrow> 'addr list result) \<Rightarrow> (rat \<Rightarrow> f64) \<Rightarrow> string list \<Rightarrow> 'addr send_args result" where
  "parse_send dns near args =
     and_then (validate_options args
       [''--connect'', ''--udp-target'', ''--file'', ''--transport'', ''--rate-mbps'', ''--min-rate-mbps'',
        ''--max-rate-mbps'', ''--repair-cooldown-ms'', ''--udp-payload-bytes'', ''--feedback-interval-ms'',
        ''--idle-timeout-ms'', ''--key-file'', ''--reuse-chunks'']) (\<lambda>_.
     and_then (socket_option dns args ''--connect'') (\<lambda>connect.
     and_then (socket_option dns args ''--udp-target'') (\<lambda>udp_target.
     and_then (option_value args ''--file'') (\<lambda>path.
     and_then (and_then (option_value args ''--transport'') transport_parse) (\<lambda>transport.
     and_then (parse_tuning near args connect udp_target path transport) (\<lambda>parsed.
     if sa_idle_timeout parsed \<le> sa_report_interval parsed
     then Inl (Err ''--feedback-interval-ms must be shorter than --idle-timeout-ms'')
     else if sa_reuse_chunks parsed \<and> sa_transport parsed \<noteq> Udp
     then Inl (Err ''--reuse-chunks is supported only by UDP'')
     else if (case sa_rate parsed of None \<Rightarrow> False | Some r \<Rightarrow> \<not> is_finite r \<or> f64_le_zero r)
     then Inl (Err ''--rate-mbps must be positive and finite'')
     else if \<not> is_finite (sa_min_rate parsed) \<or> \<not> is_finite (sa_max_rate parsed)
       \<or> f64_le_zero (sa_min_rate parsed) \<or> f64_less (sa_max_rate parsed) (sa_min_rate parsed)
     then Inl (Err ''automatic rate bounds must be positive, finite, and ordered'')
     else if sa_rate parsed \<noteq> None \<and> explicit_bounds args
     then Inl (Err ''--rate-mbps is a fixed-rate override and cannot be combined with automatic rate bounds'')
     else Inr parsed))))))"

definition parse_send_dir ::
    "(string \<Rightarrow> 'addr list result) \<Rightarrow> (rat \<Rightarrow> f64) \<Rightarrow> string list \<Rightarrow> 'addr send_dir_args result" where
  "parse_send_dir dns near args =
     and_then (validate_options args
       [''--connect'', ''--data-connect'', ''--udp-target'', ''--root'', ''--rate-mbps'', ''--min-rate-mbps'',
        ''--max-rate-mbps'', ''--repair-cooldown-ms'', ''--udp-payload-bytes'', ''--feedback-interval-ms'',
        ''--idle-timeout-ms'', ''--key-file'', ''--reuse-chunks'']) (\<lambda>_.
     and_then (socket_option dns args ''--connect'') (\<lambda>connect.
     and_then (socket_option dns args ''--data-connect'') (\<lambda>data_connect.
     and_then (socket_option dns args ''--udp-target'') (\<lambda>udp_target.
     and_then (option_value args ''--root'') (\<lambda>root.
     and_then (parse_tuning near args connect udp_target root Udp) (\<lambda>parsed.
     and_then (validate_rate_configuration (sa_rate parsed) (sa_min_rate parsed) (sa_max_rate parsed)
       (explicit_bounds args)) (\<lambda>_.
     if sa_idle_timeout parsed \<le> sa_report_interval parsed
     then Inl (Err ''--feedback-interval-ms must be shorter than --idle-timeout-ms'')
     else Inr (send_args.extend parsed (send_dir_args.fields data_connect)))))))))"

definition parse_receive :: "(string \<Rightarrow> 'addr list result) \<Rightarrow> string list \<Rightarrow> 'addr receive_args result" where
  "parse_receive dns args =
     and_then (validate_options args
       [''--listen'', ''--udp'', ''--out'', ''--key-file'', ''--idle-timeout-ms'', ''--reuse-from'']) (\<lambda>_.
     and_then (socket_option dns args ''--listen'') (\<lambda>listen.
     and_then (socket_option dns args ''--udp'') (\<lambda>udp.
     and_then (option_value args ''--out'') (\<lambda>out.
     and_then (parse_idle_timeout args) (\<lambda>idle.
     and_then (option_value args ''--key-file'') (\<lambda>key.
       Inr \<lparr>ra_listen = listen, ra_udp = udp, ra_out = out, ra_idle_timeout = idle, ra_key_file = key,
         ra_reuse_from = optional_option args ''--reuse-from''\<rparr>))))))"

definition parse_receive_dir :: "(string \<Rightarrow> 'addr list result) \<Rightarrow> string list \<Rightarrow> 'addr receive_dir_args result" where
  "parse_receive_dir dns args =
     and_then (validate_options args
       [''--listen'', ''--data-listen'', ''--udp'', ''--out'', ''--key-file'', ''--idle-timeout-ms'',
        ''--reuse-from'']) (\<lambda>_.
     and_then (socket_option dns args ''--listen'') (\<lambda>listen.
     and_then (socket_option dns args ''--data-listen'') (\<lambda>data_listen.
     and_then (socket_option dns args ''--udp'') (\<lambda>udp.
     and_then (option_value args ''--out'') (\<lambda>out.
     and_then (parse_idle_timeout args) (\<lambda>idle.
     and_then (option_value args ''--key-file'') (\<lambda>key.
       Inr \<lparr>ra_listen = listen, ra_udp = udp, ra_out = out, ra_idle_timeout = idle, ra_key_file = key,
         ra_reuse_from = optional_option args ''--reuse-from'', ra_data_listen = data_listen\<rparr>)))))))"

section \<open>What an accepted command line guarantees\<close>

definition sane_tuning :: "('addr, 'z) send_args_scheme \<Rightarrow> bool" where
  "sane_tuning a \<longleftrightarrow> 256 \<le> sa_payload_bytes a \<and> sa_payload_bytes a \<le> 1424
     \<and> 10 \<le> sa_report_interval a \<and> sa_report_interval a \<le> 10000
     \<and> 500 \<le> sa_idle_timeout a \<and> sa_idle_timeout a \<le> 3600000 \<and> sa_report_interval a < sa_idle_timeout a
     \<and> is_u64 (sa_repair_cooldown a)
     \<and> (\<exists>lo hi. sa_min_rate a = Finite lo \<and> sa_max_rate a = Finite hi \<and> 0 < lo \<and> lo \<le> hi)
     \<and> (case sa_rate a of None \<Rightarrow> True | Some r \<Rightarrow> \<exists>x. r = Finite x \<and> 0 < x)"

text \<open>\<open>parse_send\<close> spells out the checks of \<open>validate_rate_configuration\<close>.\<close>

lemma validate_rate_iff:
  "(validate_rate_configuration fixed lo hi explicit = Inr ()) =
    ((case fixed of None \<Rightarrow> True | Some r \<Rightarrow> \<exists>x. r = Finite x \<and> 0 < x)
     \<and> (\<exists>l h. lo = Finite l \<and> hi = Finite h \<and> 0 < l \<and> l \<le> h) \<and> (fixed = None \<or> \<not> explicit))"
  by (cases lo; cases hi; cases fixed; auto simp: validate_rate_configuration_def is_finite_def f64_le_zero_def
      f64_less_def not_le not_less split: f64.splits)

lemma parse_dec_u64: "parse_dec s = Inr n \<Longrightarrow> is_u64 n"
  by (auto simp: parse_dec_def from_str_radix_def Let_def is_u64_def split: list.splits option.splits if_splits)

lemma parse_tuning_Inr:
  assumes "parse_tuning near args connect udp_target path transport = Inr a"
  shows "256 \<le> sa_payload_bytes a \<and> sa_payload_bytes a \<le> 1424
     \<and> 10 \<le> sa_report_interval a \<and> sa_report_interval a \<le> 10000
     \<and> 500 \<le> sa_idle_timeout a \<and> sa_idle_timeout a \<le> 3600000 \<and> is_u64 (sa_repair_cooldown a)
     \<and> sa_transport a = transport \<and> sa_file a = path"
  using assms
  by (auto simp: parse_tuning_def and_then_eq_Inr parse_udp_payload_bytes_def parse_report_interval_def
      parse_idle_timeout_def dest: parse_dec_u64 split: if_splits)

lemma parse_send_validates:
  assumes "parse_send dns near args = Inr a"
  shows "sa_report_interval a < sa_idle_timeout a" "sa_reuse_chunks a \<longrightarrow> sa_transport a = Udp"
    "validate_rate_configuration (sa_rate a) (sa_min_rate a) (sa_max_rate a) (explicit_bounds args) = Inr ()"
    "\<exists>c u f t. parse_tuning near args c u f t = Inr a"
proof -
  from assms obtain c u f t where p: "parse_tuning near args c u f t = Inr a"
    by (auto simp: parse_send_def and_then_eq_Inr split: if_splits)
  then show "\<exists>c u f t. parse_tuning near args c u f t = Inr a" by blast
  from assms show "sa_report_interval a < sa_idle_timeout a" "sa_reuse_chunks a \<longrightarrow> sa_transport a = Udp"
    by (auto simp: parse_send_def and_then_eq_Inr split: if_splits)
  from assms show "validate_rate_configuration (sa_rate a) (sa_min_rate a) (sa_max_rate a) (explicit_bounds args) = Inr ()"
    by (auto simp: parse_send_def and_then_eq_Inr validate_rate_configuration_def split: if_splits)
qed

lemma parse_send_sane:
  assumes "parse_send dns near args = Inr a"
  shows "sane_tuning a \<and> (sa_reuse_chunks a \<longrightarrow> sa_transport a = Udp)
    \<and> (sa_rate a \<noteq> None \<longrightarrow> \<not> explicit_bounds args)"
proof -
  note v = parse_send_validates [OF assms]
  from v(4) obtain c u f t where "parse_tuning near args c u f t = Inr a" by blast
  from parse_tuning_Inr [OF this] v(1-3) show ?thesis
    by (auto simp: sane_tuning_def validate_rate_iff)
qed

lemma parse_send_dir_sane:
  assumes "parse_send_dir dns near args = Inr a"
  shows "sane_tuning a \<and> sa_transport a = Udp \<and> (sa_rate a \<noteq> None \<longrightarrow> \<not> explicit_bounds args)"
proof -
  from assms obtain b c u f d where b: "parse_tuning near args c u f Udp = Inr b"
    "validate_rate_configuration (sa_rate b) (sa_min_rate b) (sa_max_rate b) (explicit_bounds args) = Inr ()"
    "\<not> sa_idle_timeout b \<le> sa_report_interval b" "a = send_args.extend b (send_dir_args.fields d)"
    by (auto simp: parse_send_dir_def and_then_eq_Inr split: if_splits)
  from parse_tuning_Inr [OF b(1)] b(2,3) show ?thesis
    by (auto simp: b(4) send_args.defs sane_tuning_def validate_rate_iff)
qed

section \<open>Reading options\<close>

fun option_pairs :: "string list \<Rightarrow> (string \<times> string) list" where
  "option_pairs (name # v # rest) = (name, v) # option_pairs rest"
| "option_pairs _ = []"

lemma validate_pairs_iff:
  "(validate_pairs allowed seen args = Inr ()) =
    (distinct (map fst (option_pairs args)) \<and> set (map fst (option_pairs args)) \<subseteq> set allowed - seen)"
  by (induction allowed seen args rule: validate_pairs.induct) auto

lemma position_pairs:
  assumes "even (length args)" "name \<notin> snd ` set (option_pairs args)"
  shows "position name args \<noteq> None \<Longrightarrow> \<exists>i. position name args = Some i \<and> arg_at args (i + 1) = map_of (option_pairs args) name"
    and "position name args = None \<Longrightarrow> map_of (option_pairs args) name = None"
  using assms
  by (induction args rule: option_pairs.induct) (auto simp: arg_at_def split: if_splits)

text \<open>When no value is the name of an option, the value read is the one written after the name.\<close>

lemma option_lookup:
  assumes "validate_options args allowed = Inr ()" "name \<notin> snd ` set (option_pairs args)"
  shows "option_value args name = (case map_of (option_pairs args) name of
      Some v \<Rightarrow> Inr v | None \<Rightarrow> Inl (Err (''missing required option '' @ name)))"
    and "optional_option args name = map_of (option_pairs args) name"
proof -
  have e: "even (length args)" using assms(1) by (auto simp: validate_options_def split: if_splits)
  note p = position_pairs [OF e assms(2)]
  have some: "position name args = Some i \<Longrightarrow> \<exists>v. arg_at args (i + 1) = Some v" for i
  proof -
    assume i: "position name args = Some i"
    with p(1) have a: "arg_at args (i + 1) = map_of (option_pairs args) name" by auto
    have "position name args \<noteq> None \<Longrightarrow> map_of (option_pairs args) name \<noteq> None"
      using e assms(2) by (induction args rule: option_pairs.induct) auto
    with i a show ?thesis by auto
  qed
  show "option_value args name = (case map_of (option_pairs args) name of
      Some v \<Rightarrow> Inr v | None \<Rightarrow> Inl (Err (''missing required option '' @ name)))"
    using p some by (cases "position name args") (auto simp: option_value_def split: option.splits)
  show "optional_option args name = map_of (option_pairs args) name"
    using p some by (cases "position name args") (auto simp: optional_option_def)
qed

section \<open>The greeting of an accepted command line\<close>

text \<open>What \<open>send\<close> puts into the greeting; half of the cooldown in nanoseconds, rounded down to
  milliseconds, is \<open>div 2\<close>.\<close>

definition send_hello ::
    "('addr, 'z) send_args_scheme \<Rightarrow> nat \<Rightarrow> string \<Rightarrow> bytes \<Rightarrow> (nat \<times> bytes) option \<Rightarrow> hello" where
  "send_hello a fsize hash offered reuse =
     \<lparr>h_transport = sa_transport a,
      h_layout = \<lparr>size = fsize, chunks = div_ceil fsize (sa_payload_bytes a), payload_bytes = sa_payload_bytes a\<rparr>,
      h_hash = hash, h_session = offered, h_report_interval = sa_report_interval a,
      h_repair_grace = max (sa_repair_cooldown a div 2) (sa_report_interval a), h_reuse = reuse\<rparr>"

lemma send_hello_accepted:
  assumes "sane_tuning a" "is_u64 fsize" "div_ceil fsize (sa_payload_bytes a) \<le> max_chunks"
    "length d = 32" "length offered = 16"
    "case reuse of None \<Rightarrow> True | Some (count, m) \<Rightarrow> count \<le> CDC_MAX_CHUNKS \<and> length m = 32 \<and> sa_transport a = Udp"
  shows "(parse_hello (format_hello (send_hello a fsize (hex d) offered reuse)) = Inr h)
    = (sa_repair_cooldown a \<le> 120001 \<and> h = send_hello a fsize (hex d) offered reuse)"
proof -
  let ?h = "send_hello a fsize (hex d) offered reuse"
  have "is_u64 (div_ceil fsize (sa_payload_bytes a))" using assms(3) by (simp add: is_u64_def max_chunks_def)
  moreover have "is_u64 (sa_payload_bytes a)" "is_u64 (sa_report_interval a)"
    "is_u64 (max (sa_repair_cooldown a div 2) (sa_report_interval a))"
    using assms(1) by (auto simp: sane_tuning_def is_u64_def)
  ultimately have "parse_hello (format_hello ?h) = check_hello ?h"
    by (intro parse_hello_format [OF _ assms(4)]) (use assms in \<open>auto simp: send_hello_def split: option.splits\<close>)
  moreover have "reuse = None \<or> sa_transport a = Udp" using assms(6) by (cases reuse) auto
  then have "(check_hello ?h = Inr h) = (sa_repair_cooldown a \<le> 120001 \<and> h = ?h)"
    using assms by (auto simp: check_hello_Inr send_hello_def sane_tuning_def wf_layout_def decode_array_hex)
  ultimately show ?thesis by simp
qed

end
