(* ===== verification/Tcp.thy ===== *)
theory Tcp
  imports Completion
begin

text \<open>
  The TCP transports of \<open>src/main.rs\<close>: \<open>send_tcp\<close> and \<open>receive_tcp\<close> on the control
  connection, \<open>send_tcp4\<close>, \<open>receive_tcp4\<close>, their data connections and their four threads.

  A stream is an \<open>incoming\<close> of \<open>Auth\<close>; how much a read or write transfers is an argument of
  type \<open>transfer\<close>.  The threads of TCP4 are interleaved by an arbitrary schedule.  The lemmas show
  that the lanes put the file together whatever the schedule, and that both receivers replace the
  destination by a file of the announced size and hash or leave it alone.
\<close>

section \<open>Sending\<close>

text \<open>\<open>control.write_all\<close> of one block: all of it, or a prefix and an error.  The arguments are the
  bytes already sent and the block; the result is how many bytes went out when it fails.\<close>

type_synonym outlet = "nat \<Rightarrow> bytes \<Rightarrow> (nat \<times> error) option"

definition write_all :: "outlet \<Rightarrow> bytes \<Rightarrow> bytes \<Rightarrow> bytes \<times> unit result" where
  "write_all wr out bs =
     (case wr (length out) bs of None \<Rightarrow> (out @ bs, Inr ()) | Some (k, e) \<Rightarrow> (out @ take k bs, Inl e))"

lemma read_progress: "got \<noteq> [] \<Longrightarrow> off < e \<Longrightarrow> e - (off + length got) < e - off"
  by (cases got) auto

text \<open>\<open>send_tcp\<close>: the bytes that went out and the result; \<open>off\<close> is the position of the file.\<close>

function send_tcp_from :: "transfer \<Rightarrow> outlet \<Rightarrow> bytes \<Rightarrow> nat \<Rightarrow> bytes \<Rightarrow> bytes \<times> unit result" where
  "send_tcp_from os wr f off out =
     (case read_at os f off (1024 * 1024) of
        Inl e \<Rightarrow> (out, Inl e)
      | Inr got \<Rightarrow>
          if got = [] then (out, Inr ())
          else (case write_all wr out got of
             (out, Inl e) \<Rightarrow> (out, Inl e)
           | (out, Inr _) \<Rightarrow> send_tcp_from os wr f (off + length got) out))"
  by pat_completeness auto
termination
proof (relation "measure (\<lambda>(os, wr, f, off, out). length f - off)")
  fix os :: transfer and wr :: outlet and f out :: bytes and off and got out' :: bytes and r u
  assume "read_at os f off (1024 * 1024) = Inr got" "got \<noteq> []"
  then show "((os, wr, f, off + length got, out'), (os, wr, f, off, out))
      \<in> measure (\<lambda>(os, wr, f, off, out). length f - off)"
    using read_at_Inr [of os f off "1024 * 1024" got] read_progress [of got off "length f"]
    by (cases "off < length f") auto
qed simp

definition send_tcp :: "transfer \<Rightarrow> outlet \<Rightarrow> bytes \<Rightarrow> bytes \<times> unit result" where
  "send_tcp os wr f = send_tcp_from os wr f 0 []"

function send_tcp_range_from :: "transfer \<Rightarrow> outlet \<Rightarrow> bytes \<Rightarrow> nat \<Rightarrow> nat \<Rightarrow> bytes \<Rightarrow> bytes \<times> unit result" where
  "send_tcp_range_from os wr f off e out =
     (if e \<le> off then (out, Inr ())
      else case read_at os f off (min (e - off) (1024 * 1024)) of
        Inl err \<Rightarrow> (out, Inl err)
      | Inr got \<Rightarrow>
          if got = [] then (out, Inl (Err ''unexpected EOF while sending TCP4 range''))
          else (case write_all wr out got of
             (out, Inl err) \<Rightarrow> (out, Inl err)
           | (out, Inr _) \<Rightarrow> send_tcp_range_from os wr f (off + length got) e out))"
  by pat_completeness auto
termination
  by (relation "measure (\<lambda>(os, wr, f, off, e, out). e - off)") (auto simp: read_progress)

definition send_tcp_range :: "transfer \<Rightarrow> outlet \<Rightarrow> bytes \<Rightarrow> nat \<Rightarrow> nat \<Rightarrow> bytes \<times> unit result" where
  "send_tcp_range os wr f start e = send_tcp_range_from os wr f start e []"

declare send_tcp_from.simps [simp del] send_tcp_range_from.simps [simp del]

text \<open>The greeting line of a data connection.\<close>

definition tcp4_greeting :: "(bytes \<Rightarrow> 256 word) \<Rightarrow> session_auth \<Rightarrow> nat \<Rightarrow> string" where
  "tcp4_greeting sha sa i =
     ''TSU4D '' @ hex (session sa) @ '' '' @ show_nat i @ '' '' @ hex (lane_mac sha (lane sa) (session sa) i)"

text \<open>\<open>send_tcp4\<close> first connects and greets on every lane, in order; \<open>conn\<close> are the results of
  connecting and \<open>wr i\<close> is the outlet of lane \<open>i\<close>.  The result has the bytes that went out on
  the lanes.\<close>

fun open_lanes ::
    "(bytes \<Rightarrow> 256 word) \<Rightarrow> session_auth \<Rightarrow> (nat \<Rightarrow> unit result) \<Rightarrow> (nat \<Rightarrow> outlet) \<Rightarrow> nat list \<Rightarrow> bytes list \<times> unit result" where
  "open_lanes sha sa conn wr [] = ([], Inr ())"
| "open_lanes sha sa conn wr (i # is) =
     (case conn i of
        Inl e \<Rightarrow> ([], Inl e)
      | Inr _ \<Rightarrow>
         (case write_all (wr i) [] (writeln (tcp4_greeting sha sa i)) of
            (out, Inl e) \<Rightarrow> ([out], Inl e)
          | (out, Inr _) \<Rightarrow> (case open_lanes sha sa conn wr is of (outs, r) \<Rightarrow> (out # outs, r))))"

text \<open>Then one thread per lane sends its range, and the results are joined in lane order.\<close>

definition send_tcp4_lane :: "transfer \<Rightarrow> outlet \<Rightarrow> bytes \<Rightarrow> nat \<Rightarrow> bytes \<Rightarrow> bytes \<times> unit result" where
  "send_tcp4_lane os wr f i out =
     (case tcp4_lane_range (length f) i of (start, e) \<Rightarrow>
       (case send_tcp_range os (\<lambda>n. wr (length out + n)) f start e of (body, r) \<Rightarrow> (out @ body, r)))"

fun join_results :: "unit result list \<Rightarrow> unit result" where
  "join_results [] = Inr ()"
| "join_results (r # rs) = and_then r (\<lambda>_. join_results rs)"

definition send_tcp4 ::
    "(bytes \<Rightarrow> 256 word) \<Rightarrow> session_auth \<Rightarrow> (nat \<Rightarrow> unit result) \<Rightarrow> (nat \<Rightarrow> transfer) \<Rightarrow> (nat \<Rightarrow> outlet) \<Rightarrow> bytes
      \<Rightarrow> bytes list \<times> unit result" where
  "send_tcp4 sha sa conn os wr f =
     (case open_lanes sha sa conn wr [0..<4] of
        (outs, Inl e) \<Rightarrow> (outs, Inl e)
      | (outs, Inr _) \<Rightarrow>
          (let threads = map (\<lambda>(i, out). send_tcp4_lane (os i) (wr i) f i out) (enumerate 0 outs)
           in (map fst threads, join_results (map snd threads))))"

lemma write_all_Inr: "(write_all wr out bs = (out', Inr u)) = (wr (length out) bs = None \<and> out' = out @ bs)"
  by (auto simp: write_all_def split: option.splits)

lemma send_tcp_from_Inr:
  "send_tcp_from os wr f off out = (out', Inr u) \<Longrightarrow> out' = out @ drop off f"
proof (induction os wr f off out rule: send_tcp_from.induct)
  case (1 os wr f off out)
  from "1.prems" obtain got where g: "read_at os f off (1024 * 1024) = Inr got"
    by (subst (asm) send_tcp_from.simps) (auto split: sum.splits)
  show ?case
  proof (cases "got = []")
    case True
    then have "length f \<le> off" using read_at_eof [of os f off "1024 * 1024"] g by simp
    then show ?thesis using "1.prems" g True by (subst (asm) send_tcp_from.simps) simp
  next
    case False
    then obtain o1 where w: "write_all wr out got = (o1, Inr ())"
      "send_tcp_from os wr f (off + length got) o1 = (out', Inr u)"
      using "1.prems" g by (subst (asm) send_tcp_from.simps) (auto split: prod.splits sum.splits)
    then have "out' = o1 @ drop (off + length got) f" using "1.IH" [OF g False w(1) [symmetric]] by simp
    moreover have "got = read_bytes f off (length got)" using read_at_Inr [OF g] by auto
    ultimately show ?thesis
      using w(1) by (simp add: write_all_Inr read_bytes_def) (metis add.commute append_take_drop_id drop_drop)
  qed
qed

lemma send_tcp_range_from_Inr:
  "send_tcp_range_from os wr f off e out = (out', Inr u) \<Longrightarrow>
    out' = out @ read_bytes f off (e - off) \<and> (off < e \<longrightarrow> e \<le> length f)"
proof (induction os wr f off e out rule: send_tcp_range_from.induct)
  case (1 os wr f off e out)
  show ?case
  proof (cases "e \<le> off")
    case True
    then show ?thesis using "1.prems" by (subst (asm) send_tcp_range_from.simps) (simp add: read_bytes_def)
  next
    case False
    then obtain got o1 where g: "read_at os f off (min (e - off) (1024 * 1024)) = Inr got" "got \<noteq> []"
      "write_all wr out got = (o1, Inr ())" "send_tcp_range_from os wr f (off + length got) e o1 = (out', Inr u)"
      using "1.prems" by (subst (asm) send_tcp_range_from.simps) (auto split: sum.splits prod.splits if_splits)
    have r: "got = read_bytes f off (length got)" "length got \<le> e - off" "off + length got \<le> max off (length f)"
      using read_at_Inr [OF g(1)] by auto
    have "out' = o1 @ read_bytes f (off + length got) (e - (off + length got))
        \<and> (off + length got < e \<longrightarrow> e \<le> length f)"
      using "1.IH" [OF False g(1,2) g(3) [symmetric]] g(4) by simp
    moreover have "0 < length got" using g(2) by simp
    ultimately show ?thesis
      using g(3) r read_bytes_split [OF r(2), of f off] False by (auto simp: write_all_Inr max_def split: if_splits)
  qed
qed

lemma send_tcp_Inr: "send_tcp os wr f = (out, Inr u) \<Longrightarrow> out = f"
  unfolding send_tcp_def by (drule send_tcp_from_Inr) simp

lemma send_tcp_range_Inr:
  "send_tcp_range os wr f start e = (out, Inr u) \<Longrightarrow> start \<le> e \<Longrightarrow> out = read_bytes f start (e - start)"
  unfolding send_tcp_range_def by (drule send_tcp_range_from_Inr) simp

section \<open>Receiving on the control connection\<close>

text \<open>One \<open>read\<close> of at most \<open>n > 0\<close> bytes; \<open>pos\<close> is the number of bytes read before.\<close>

definition read_stream :: "transfer \<Rightarrow> nat \<Rightarrow> nat \<Rightarrow> incoming \<Rightarrow> (bytes \<times> incoming) result" where
  "read_stream os pos n inp =
     (case inp of
        ([], Closed) \<Rightarrow> Inr ([], inp)
      | ([], Broken e) \<Rightarrow> Inl e
      | (bs, e) \<Rightarrow> and_then (os pos n) (\<lambda>k. let m = max 1 (min k n) in Inr (take m bs, (drop m bs, e))))"

function receive_tcp_loop :: "transfer \<Rightarrow> nat \<Rightarrow> nat \<Rightarrow> bytes \<Rightarrow> incoming \<Rightarrow> bytes io" where
  "receive_tcp_loop os i remaining hashed inp =
     (if remaining = 0 then ret hashed
      else bindM (lift (read_stream os (length hashed) (min remaining (1024 * 1024)) inp)) (\<lambda>(got, inp).
        if got = [] then throw (Err ''TCP data ended before the complete file arrived'')
        else bindM (append_file i got) (\<lambda>_.
          receive_tcp_loop os i (remaining - length got) (hashed @ got) inp)))"
  by pat_completeness auto
termination
  by (relation "measure (\<lambda>(os, i, remaining, hashed, inp). remaining)") auto

declare receive_tcp_loop.simps [simp del]

definition temporary_path :: "nat \<Rightarrow> string \<Rightarrow> string" where
  "temporary_path pid dest = dest @ ''.part.'' @ show_nat pid"

text \<open>Directories are not part of the modelled world: creating the parent is a call that may fail.\<close>

definition create_parent :: "unit io" where
  "create_parent = call (\<lambda>w. (Inr (), w))"

definition install_file :: "string \<Rightarrow> string \<Rightarrow> unit io" where
  "install_file temporary dest = bindM create_parent (\<lambda>_. rename_file temporary dest)"

text \<open>The end that both receivers share: the hash is compared, the file installed.\<close>

definition verify_and_install :: "string \<Rightarrow> string \<Rightarrow> string \<Rightarrow> string \<Rightarrow> string \<Rightarrow> string result \<Rightarrow> unit io" where
  "verify_and_install msg actual expected temporary dest reply =
     (if actual \<noteq> expected
      then bindM (send_control ''ERROR hash-mismatch'') (\<lambda>_. throw (Err msg))
      else bindM (install_file temporary dest) (\<lambda>_. send_completion_and_wait reply))"

definition receive_tcp ::
    "(bytes \<Rightarrow> 256 word) \<Rightarrow> transfer \<Rightarrow> string \<Rightarrow> string \<Rightarrow> hello \<Rightarrow> incoming \<Rightarrow> string result \<Rightarrow> unit io" where
  "receive_tcp sha os temporary dest h inp reply =
     bindM (create_file temporary) (\<lambda>i.
     bindM (receive_tcp_loop os i (size (h_layout h)) [] inp) (\<lambda>hashed.
     bindM (sync_file i) (\<lambda>_.
       verify_and_install ''received TCP file hash did not match'' (hex_digest (digest sha hashed)) (h_hash h)
         temporary dest reply)))"

section \<open>Four lanes\<close>

text \<open>\<open>read_tcp4_hello\<close>: at most 128 bytes up to a line feed, byte by byte.\<close>

fun read_greeting :: "nat \<Rightarrow> bytes \<Rightarrow> incoming \<Rightarrow> (bytes \<times> incoming) result" where
  "read_greeting 0 acc inp = Inl (Err ''TCP4 data greeting is too long'')"
| "read_greeting (Suc n) acc ([], Closed) = Inl (Err ''TCP4 data connection ended before its greeting'')"
| "read_greeting (Suc n) acc ([], Broken e) = Inl e"
| "read_greeting (Suc n) acc (b # bs, e) =
     (if b = 0x0A then Inr (acc, (bs, e)) else read_greeting n (acc @ [b]) (bs, e))"

definition read_tcp4_hello :: "(bytes \<Rightarrow> 256 word) \<Rightarrow> session_auth \<Rightarrow> incoming \<Rightarrow> (nat \<times> incoming) result" where
  "read_tcp4_hello sha sa inp =
     and_then (read_greeting 128 [] inp) (\<lambda>(raw, inp).
     and_then (from_utf8 raw) (\<lambda>greeting.
     let parts = split_whitespace greeting in
     if length parts \<noteq> 4 \<or> parts ! 0 \<noteq> ''TSU4D'' then Inl (Err ''invalid TCP4 data greeting'')
     else
     and_then (decode_array 16 (parts ! 1)) (\<lambda>sid.
     and_then (parse_dec (parts ! 2)) (\<lambda>i.
     and_then (decode_array 32 (parts ! 3)) (\<lambda>supplied.
     if sid \<noteq> session sa \<or> 4 \<le> i then Inl (Err ''invalid TCP4 session or lane'')
     else if \<not> constant_time_eq supplied (lane_mac sha (lane sa) sid i)
     then Inl (Err ''TCP4 lane authentication failed'')
     else Inr (i, inp))))))"

text \<open>One round of the loop that accepts the data connections; waiting for the next one without
  a timeout is not visible.\<close>

datatype accepted = Connected incoming | Timed_out | Accept_failed error

type_synonym lanes = "incoming option list"

fun accept_lanes :: "(bytes \<Rightarrow> 256 word) \<Rightarrow> session_auth \<Rightarrow> lanes \<Rightarrow> accepted list \<Rightarrow> lanes result" where
  "accept_lanes sha sa ls evs =
     (if None \<notin> set ls then Inr ls
      else case evs of
        [] \<Rightarrow> Inl (Err ''timed out waiting for TCP4 data connections'')
      | Timed_out # _ \<Rightarrow> Inl (Err ''timed out waiting for TCP4 data connections'')
      | Accept_failed e # _ \<Rightarrow> Inl e
      | Connected stream # rest \<Rightarrow>
          and_then (read_tcp4_hello sha sa stream) (\<lambda>(i, stream).
          if length ls \<le> i \<or> ls ! i \<noteq> None then Inl (Err ''invalid or duplicate TCP4 data connection'')
          else accept_lanes sha sa (ls[i := Some stream]) rest))"

declare accept_lanes.simps [simp del]

text \<open>A thread of \<open>receive_tcp4_range\<close>: its position, the end of its range, its stream, and its
  result once it has returned.\<close>

record worker =
  wk_offset :: nat
  wk_end :: nat
  wk_stream :: incoming
  wk_result :: "unit result option"

definition new_worker :: "nat \<Rightarrow> nat \<Rightarrow> incoming \<Rightarrow> worker" where
  "new_worker fsize i stream =
     (case tcp4_lane_range fsize i of (start, e) \<Rightarrow>
        \<lparr>wk_offset = start, wk_end = e, wk_stream = stream, wk_result = None\<rparr>)"

text \<open>One turn of the loop: a read and the write of what was read.\<close>

definition worker_turn :: "transfer \<Rightarrow> nat \<Rightarrow> worker \<Rightarrow> world \<Rightarrow> worker \<times> world" where
  "worker_turn os i wk w =
     (if wk_result wk \<noteq> None then (wk, w)
      else if wk_end wk \<le> wk_offset wk then (wk\<lparr>wk_result := Some (Inr ())\<rparr>, w)
      else case read_stream os (wk_offset wk) (min (wk_end wk - wk_offset wk) (1024 * 1024)) (wk_stream wk) of
        Inl e \<Rightarrow> (wk\<lparr>wk_result := Some (Inl e)\<rparr>, w)
      | Inr (got, stream) \<Rightarrow>
          if got = []
          then (wk\<lparr>wk_result := Some (Inl (Err ''TCP4 data ended before its complete range arrived''))\<rparr>, w)
          else (case write_file i (wk_offset wk) got w of
             (Inl e, w') \<Rightarrow> (wk\<lparr>wk_result := Some (Inl e)\<rparr>, w')
           | (Inr _, w') \<Rightarrow> (wk\<lparr>wk_offset := wk_offset wk + length got, wk_stream := stream\<rparr>, w')))"

text \<open>A schedule is the list of the threads in the order of their turns.\<close>

fun run_schedule :: "transfer \<Rightarrow> nat \<Rightarrow> nat list \<Rightarrow> worker list \<Rightarrow> world \<Rightarrow> worker list \<times> world" where
  "run_schedule os i [] wks w = (wks, w)"
| "run_schedule os i (n # ns) wks w =
     (if n < length wks
      then (case worker_turn os i (wks ! n) w of (wk, w') \<Rightarrow> run_schedule os i ns (wks[n := wk]) w')
      else run_schedule os i ns wks w)"

text \<open>The joins in lane order: the first failure is returned.  A schedule that leaves a thread
  unfinished has not reached the join; there the model stops with a panic.\<close>

fun join_workers :: "worker list \<Rightarrow> unit result" where
  "join_workers [] = Inr ()"
| "join_workers (wk # wks) =
     (case wk_result wk of None \<Rightarrow> Inl Panic | Some (Inl e) \<Rightarrow> Inl e | Some (Inr _) \<Rightarrow> join_workers wks)"

definition start_workers :: "nat \<Rightarrow> lanes \<Rightarrow> worker list" where
  "start_workers fsize ls = map (\<lambda>(i, stream). new_worker fsize i (the stream)) (enumerate 0 ls)"

definition run_workers :: "transfer \<Rightarrow> nat \<Rightarrow> nat list \<Rightarrow> worker list \<Rightarrow> unit io" where
  "run_workers os i schedule wks w =
     (case run_schedule os i schedule wks w of (wks, w') \<Rightarrow> (join_workers wks, w'))"

definition receive_tcp4 ::
    "(bytes \<Rightarrow> 256 word) \<Rightarrow> transfer \<Rightarrow> session_auth \<Rightarrow> string \<Rightarrow> string \<Rightarrow> hello \<Rightarrow> accepted list \<Rightarrow> nat list
      \<Rightarrow> string result \<Rightarrow> unit io" where
  "receive_tcp4 sha os sa temporary dest h evs schedule reply =
     bindM (create_file temporary) (\<lambda>i.
     bindM (set_len i (size (h_layout h))) (\<lambda>_.
     bindM (lift (accept_lanes sha sa (replicate 4 None) evs)) (\<lambda>ls.
     bindM (run_workers os i schedule (start_workers (size (h_layout h)) ls)) (\<lambda>_.
     bindM (sync_file i) (\<lambda>_.
     bindM (hash_file sha temporary) (\<lambda>actual.
       verify_and_install ''received TCP4 file hash did not match'' actual (h_hash h) temporary dest reply))))))"

section \<open>What happens at the destination\<close>

text \<open>The bytes at a path.\<close>

definition seen :: "string \<Rightarrow> world \<Rightarrow> bytes option" where
  "seen p w = map_option (\<lambda>i. content (inodes w ! i)) (names w p)"

text \<open>Names refer to files, and no file has two names.\<close>

definition linkless :: "world \<Rightarrow> bool" where
  "linkless w \<longleftrightarrow> (\<forall>p i. names w p = Some i \<longrightarrow> i < length (inodes w))
     \<and> (\<forall>p q i. names w p = Some i \<and> names w q = Some i \<longrightarrow> p = q)"

lemma wf_world_linkless: "wf_world w \<Longrightarrow> linkless w"
  unfolding linkless_def using wf_world_names wf_world_bound wf_world_inj by blast

text \<open>Before the installation: nothing announced, the destination as it was; and with the bytes
  \<open>c\<close> in the temporary file.\<close>

definition untouched :: "string \<Rightarrow> bytes option \<Rightarrow> world \<Rightarrow> bool" where
  "untouched dest old w \<longleftrightarrow> linkless w \<and> seen dest w = old \<and> quiet w"

definition fetching :: "string \<Rightarrow> bytes option \<Rightarrow> string \<Rightarrow> nat \<Rightarrow> bytes \<Rightarrow> world \<Rightarrow> bool" where
  "fetching dest old temporary i c w \<longleftrightarrow> untouched dest old w \<and> temporary \<noteq> dest
     \<and> names w temporary = Some i \<and> content (inodes w ! i) = c"

text \<open>Afterwards.\<close>

definition replaced :: "string \<Rightarrow> bytes \<Rightarrow> world \<Rightarrow> bool" where
  "replaced dest c w \<longleftrightarrow> seen dest w = Some c"

lemma blind_simps [simp]:
  "fault_blind (untouched dest old)" "fault_blind (fetching dest old temporary i c)" "fault_blind (replaced dest c)"
  "fault_blind (\<lambda>w. fetching dest old temporary i c w \<and> P)"
  by (simp_all add: fault_blind_def untouched_def fetching_def replaced_def linkless_def seen_def quiet_def)

lemma fetching_untouched: "fetching dest old temporary i c w \<Longrightarrow> untouched dest old w"
  by (simp add: fetching_def)

lemma fetching_write:
  assumes "fetching dest old temporary i c w" "content f = c'"
  shows "fetching dest old temporary i c' (set_inode i f w)"
proof -
  have "names w dest \<noteq> Some i" "i < length (inodes w)"
    using assms(1) by (auto simp: fetching_def untouched_def linkless_def)
  then show ?thesis using assms
    by (auto simp: fetching_def untouched_def linkless_def seen_def set_inode_def quiet_def nth_list_update
        intro!: option.map_cong0)
qed

lemma create_fetches:
  "temporary \<noteq> dest \<Longrightarrow> triple (untouched dest old) (create_file temporary)
     (\<lambda>i. fetching dest old temporary i []) (untouched dest old)"
  unfolding create_file_def
proof (rule triple_call)
  assume t: "temporary \<noteq> dest"
  show "triple (untouched dest old)
     (\<lambda>w. case names w temporary of Some i \<Rightarrow> (Inr i, set_inode i \<lparr>content = [], stable = {}\<rparr> w)
        | None \<Rightarrow> (Inr (length (inodes w)), set_names ((names w)(temporary \<mapsto> length (inodes w)))
            (w\<lparr>inodes := inodes w @ [\<lparr>content = [], stable = {}\<rparr>]\<rparr>)))
     (\<lambda>i. fetching dest old temporary i []) (untouched dest old)"
    unfolding triple_def
  proof (intro allI impI, split option.splits, intro conjI allI impI)
    fix w assume u: "untouched dest old w" and n: "names w temporary = None"
    have "names w p \<noteq> Some (length (inodes w))" for p using u by (auto simp: untouched_def linkless_def)
    moreover have "seen dest w = old" "\<And>p i. names w p = Some i \<Longrightarrow> i < length (inodes w)"
      using u by (auto simp: untouched_def linkless_def)
    ultimately show "case (Inr (length (inodes w)), set_names ((names w)(temporary \<mapsto> length (inodes w)))
            (w\<lparr>inodes := inodes w @ [\<lparr>content = [], stable = {}\<rparr>]\<rparr>)) of
        (Inl e, w') \<Rightarrow> untouched dest old w' | (Inr i, w') \<Rightarrow> fetching dest old temporary i [] w'"
      using u t by (auto simp: fetching_def untouched_def linkless_def seen_def set_names_def quiet_def nth_append less_SucI
          intro!: option.map_cong0 split: if_splits)
  next
    fix w i assume u: "untouched dest old w" and n: "names w temporary = Some i"
    then have "fetching dest old temporary i (content (inodes w ! i)) w" using t by (simp add: fetching_def)
    then show "case (Inr i, set_inode i \<lparr>content = [], stable = {}\<rparr> w) of
        (Inl e, w') \<Rightarrow> untouched dest old w' | (Inr i, w') \<Rightarrow> fetching dest old temporary i [] w'"
      by (simp add: fetching_write)
  qed
qed simp_all

lemma fetch_write:
  "triple (fetching dest old temporary i c) (write_file i off bs)
     (\<lambda>_. fetching dest old temporary i (write_bytes c off bs)) (untouched dest old)"
proof (rule triple_write [where off = "\<lambda>_. off"])
  fix w assume f: "fetching dest old temporary i c w"
  have c: "content (written (inodes w ! i) off bs') = write_bytes c off bs'" for bs'
    using f by (simp add: fetching_def written_def Let_def)
  show "fetching dest old temporary i (write_bytes c off bs) (set_inode i (written (inodes w ! i) off bs) w)"
    by (rule fetching_write [OF f c])
  fix k show "untouched dest old (set_inode i (written (inodes w ! i) off (take k bs)) w)"
    using fetching_untouched [OF fetching_write [OF f c [of "take k bs"]]] .
qed (simp_all add: fetching_untouched)

lemma fetch_append:
  "triple (fetching dest old temporary i c) (append_file i bs)
     (\<lambda>_. fetching dest old temporary i (c @ bs)) (untouched dest old)"
proof (rule triple_append)
  fix w assume f: "fetching dest old temporary i c w"
  have c: "content (written (inodes w ! i) (length (content (inodes w ! i))) bs') = c @ bs'" for bs'
    using f written_append [of "inodes w ! i" bs'] by (simp add: fetching_def)
  show "fetching dest old temporary i (c @ bs)
      (set_inode i (written (inodes w ! i) (length (content (inodes w ! i))) bs) w)"
    by (rule fetching_write [OF f c])
  fix k show "untouched dest old (set_inode i (written (inodes w ! i) (length (content (inodes w ! i))) (take k bs)) w)"
    using fetching_untouched [OF fetching_write [OF f c [of "take k bs"]]] .
qed (simp_all add: fetching_untouched)

lemma fetch_sync:
  "triple (fetching dest old temporary i c) (sync_file i) (\<lambda>_. fetching dest old temporary i c) (untouched dest old)"
  unfolding sync_file_def
proof (rule triple_call)
  show "triple (fetching dest old temporary i c)
     (\<lambda>w. let f = inodes w ! i in (Inr (), set_inode i (f\<lparr>stable := {..<length (content f)}\<rparr>) w))
     (\<lambda>_. fetching dest old temporary i c) (untouched dest old)"
    unfolding triple_def Let_def
  proof (intro allI impI)
    fix w assume f: "fetching dest old temporary i c w"
    then have "content (inodes w ! i) = c" by (simp add: fetching_def)
    then show "case (Inr (), set_inode i ((inodes w ! i)\<lparr>stable := {..<length (content (inodes w ! i))}\<rparr>) w) of
        (Inl e, w') \<Rightarrow> untouched dest old w' | (Inr x, w') \<Rightarrow> fetching dest old temporary i c w'"
      using fetching_write [OF f, of "(inodes w ! i)\<lparr>stable := {..<length (content (inodes w ! i))}\<rparr>" c] by simp
  qed
qed (simp_all add: fetching_untouched)

lemma fetch_set_len:
  "triple (fetching dest old temporary i c) (set_len i n)
     (\<lambda>_. fetching dest old temporary i (take n c @ replicate (n - length c) 0)) (untouched dest old)"
  unfolding set_len_def
proof (rule triple_call)
  show "triple (fetching dest old temporary i c)
     (\<lambda>w. let f = inodes w ! i in (Inr (), set_inode i \<lparr>content = take n (content f) @ replicate (n - length (content f)) 0,
        stable = stable f \<inter> {..<n}\<rparr> w))
     (\<lambda>_. fetching dest old temporary i (take n c @ replicate (n - length c) 0)) (untouched dest old)"
    unfolding triple_def Let_def
    using fetching_write [of dest old temporary i c] by (auto simp: fetching_def [of _ _ _ _ c])
qed (simp_all add: fetching_untouched)

definition settled :: "string \<Rightarrow> bytes option \<Rightarrow> (bytes \<Rightarrow> bool) \<Rightarrow> world \<Rightarrow> bool" where
  "settled dest old good w \<longleftrightarrow> untouched dest old w \<or> (\<exists>c. good c \<and> replaced dest c w)"

lemma untouched_settled: "untouched dest old w \<Longrightarrow> settled dest old good w"
  by (simp add: settled_def)

lemma fetch_rename:
  "triple (fetching dest old temporary i c) (rename_file temporary dest) (\<lambda>_. replaced dest c) (untouched dest old)"
  unfolding rename_file_def
  by (rule triple_call)
    (auto simp: triple_def fetching_def replaced_def seen_def set_names_def split: option.splits)

lemma send_untouched: "p \<noteq> ''COMPLETE'' \<Longrightarrow> triple (untouched dest old) (send_control p) (\<lambda>_. untouched dest old) (untouched dest old)"
proof (cases "lf \<in> set p \<or> 65536 div 2 < length p")
  case False
  assume "p \<noteq> ''COMPLETE''"
  then have "triple (untouched dest old) (call (\<lambda>w. (Inr (), w\<lparr>sent := sent w @ [p]\<rparr>))) (\<lambda>_. untouched dest old) (untouched dest old)"
    by (intro triple_call) (simp_all add: triple_def untouched_def linkless_def seen_def quiet_def)
  with False show ?thesis by (simp add: send_control_def)
qed (simp add: send_control_def triple_throw)

lemma wait_replaced: "triple (replaced dest c) (send_completion_and_wait reply) (\<lambda>_. replaced dest c) (replaced dest c)"
  unfolding send_completion_and_wait_def
proof (rule triple_bind [where R = "\<lambda>_. replaced dest c"])
  show "triple (replaced dest c) (send_control ''COMPLETE'') (\<lambda>_. replaced dest c) (replaced dest c)"
    by (rule triple_send) (simp_all add: sent_blind_def replaced_def seen_def fault_blind_def)
  show "triple (replaced dest c) (bindM (lift reply) (\<lambda>a. if a \<noteq> ''COMPLETE_ACK''
      then throw (Err (''expected completion acknowledgement, got '' @ a)) else ret ())) (\<lambda>_. replaced dest c) (replaced dest c)" for x
    by (rule triple_bind [OF triple_lift, where R = "\<lambda>_. replaced dest c"]) (auto intro!: triple_throw triple_ret)
qed

lemma verify_and_install_settles:
  assumes "actual = expected \<Longrightarrow> good c"
  shows "triple (fetching dest old temporary i c) (verify_and_install msg actual expected temporary dest reply)
    (\<lambda>_ w. good c \<and> replaced dest c w) (settled dest old good)"
proof (cases "actual = expected")
  case False
  have "triple (fetching dest old temporary i c) (send_control ''ERROR hash-mismatch'') (\<lambda>_. untouched dest old) (untouched dest old)"
    by (rule triple_conseq [OF send_untouched]) (simp_all add: fetching_untouched)
  then have "triple (fetching dest old temporary i c) (send_control ''ERROR hash-mismatch'') (\<lambda>_. untouched dest old) (settled dest old good)"
    by (rule triple_conseq) (simp_all add: untouched_settled)
  moreover have "triple (untouched dest old) (throw (Err msg)) (\<lambda>_ w. good c \<and> replaced dest c w) (settled dest old good)"
    by (rule triple_throw) (rule untouched_settled)
  ultimately have "triple (fetching dest old temporary i c)
      (bindM (send_control ''ERROR hash-mismatch'') (\<lambda>_. throw (Err msg)))
      (\<lambda>_ w. good c \<and> replaced dest c w) (settled dest old good)"
    by (rule triple_bind)
  with False show ?thesis by (simp add: verify_and_install_def)
next
  case True
  have p: "triple (fetching dest old temporary i c) create_parent (\<lambda>_. fetching dest old temporary i c) (settled dest old good)"
    unfolding create_parent_def by (rule triple_call) (simp_all add: triple_def fetching_untouched untouched_settled)
  have r: "triple (fetching dest old temporary i c) (rename_file temporary dest) (\<lambda>_. replaced dest c) (settled dest old good)"
    by (rule triple_conseq [OF fetch_rename [of dest old temporary i c]]) (simp_all add: untouched_settled)
  have w: "triple (replaced dest c) (send_completion_and_wait reply) (\<lambda>_ w. good c \<and> replaced dest c w) (settled dest old good)"
    by (rule triple_conseq [OF wait_replaced]) (use assms True in \<open>auto simp: settled_def\<close>)
  show ?thesis unfolding verify_and_install_def install_file_def
    using True by (simp add: triple_bind [OF triple_bind [OF p r] w])
qed

section \<open>One connection\<close>

lemma read_stream_Inr:
  assumes "read_stream os pos n inp = Inr (got, inp')" "0 < n"
  shows "fst inp = got @ fst inp'" "length got \<le> n" "snd inp' = snd inp" "got = [] \<Longrightarrow> fst inp = []"
proof -
  obtain bs e where inp: "inp = (bs, e)" by (cases inp)
  show "fst inp = got @ fst inp'" "length got \<le> n" "snd inp' = snd inp" "got = [] \<Longrightarrow> fst inp = []"
    using assms by (cases bs; auto simp: read_stream_def inp and_then_eq_Inr Let_def split: ending.splits)+
qed

lemma receive_tcp_loop_fetches:
  "triple (fetching dest old temporary i hashed) (receive_tcp_loop os i remaining hashed inp)
     (\<lambda>all w. fetching dest old temporary i all w \<and> all = hashed @ take remaining (fst inp) \<and> remaining \<le> length (fst inp))
     (untouched dest old)"
proof (induction os i remaining hashed inp rule: receive_tcp_loop.induct)
  case (1 os i remaining hashed inp)
  show ?case
  proof (cases "remaining = 0")
    case True
    then show ?thesis by (subst receive_tcp_loop.simps) (auto intro: triple_ret)
  next
    case False
    let ?r = "read_stream os (length hashed) (min remaining (1024 * 1024)) inp"
    show ?thesis
      unfolding receive_tcp_loop.simps [of os i remaining] if_not_P [OF False]
    proof (rule triple_bind [where R = "\<lambda>x w. fetching dest old temporary i hashed w \<and> ?r = Inr x"])
      show "triple (fetching dest old temporary i hashed) (lift ?r)
          (\<lambda>x w. fetching dest old temporary i hashed w \<and> ?r = Inr x) (untouched dest old)"
        by (rule triple_lift) (simp_all add: fetching_untouched)
      fix x :: "bytes \<times> incoming"
      obtain got inp' where x: "x = (got, inp')" by (cases x)
      show "triple (\<lambda>w. fetching dest old temporary i hashed w \<and> ?r = Inr x)
        (case x of (got, inp) \<Rightarrow> if got = [] then throw (Err ''TCP data ended before the complete file arrived'')
           else bindM (append_file i got) (\<lambda>_. receive_tcp_loop os i (remaining - length got) (hashed @ got) inp))
        (\<lambda>all w. fetching dest old temporary i all w \<and> all = hashed @ take remaining (fst inp) \<and> remaining \<le> length (fst inp))
        (untouched dest old)"
      proof (cases "?r = Inr x \<and> got \<noteq> []")
        case False
        then show ?thesis using x by (auto simp: triple_def throw_def fetching_untouched)
      next
        case True
        have "0 < min remaining (1024 * 1024)" using False by simp
        note r = read_stream_Inr [OF True [THEN conjunct1, unfolded x] this]
        have "triple (fetching dest old temporary i (hashed @ got))
            (receive_tcp_loop os i (remaining - length got) (hashed @ got) inp')
            (\<lambda>all w. fetching dest old temporary i all w \<and> all = (hashed @ got) @ take (remaining - length got) (fst inp')
              \<and> remaining - length got \<le> length (fst inp')) (untouched dest old)"
          using "1.IH" [OF False] True by simp
        then have "triple (fetching dest old temporary i (hashed @ got))
            (receive_tcp_loop os i (remaining - length got) (hashed @ got) inp')
            (\<lambda>all w. fetching dest old temporary i all w \<and> all = hashed @ take remaining (fst inp) \<and> remaining \<le> length (fst inp))
            (untouched dest old)"
          by (rule triple_conseq) (use r False in \<open>auto simp: min_def split: if_splits\<close>)
        then have "triple (fetching dest old temporary i hashed)
            (bindM (append_file i got) (\<lambda>_. receive_tcp_loop os i (remaining - length got) (hashed @ got) inp'))
            (\<lambda>all w. fetching dest old temporary i all w \<and> all = hashed @ take remaining (fst inp) \<and> remaining \<le> length (fst inp))
            (untouched dest old)"
          by (intro triple_bind [OF fetch_append])
        then show ?thesis using True x by (auto elim: triple_conseq)
      qed
    qed
  qed
qed

definition good_file :: "(bytes \<Rightarrow> 256 word) \<Rightarrow> hello \<Rightarrow> bytes \<Rightarrow> bool" where
  "good_file sha h c \<longleftrightarrow> length c = size (h_layout h) \<and> hex_digest (digest sha c) = h_hash h"

lemma receive_tcp_settles:
  assumes "temporary \<noteq> dest"
  shows "triple (untouched dest old) (receive_tcp sha os temporary dest h inp reply)
    (\<lambda>_ w. good_file sha h (take (size (h_layout h)) (fst inp)) \<and> replaced dest (take (size (h_layout h)) (fst inp)) w)
    (settled dest old (\<lambda>c. good_file sha h c \<and> c = take (size (h_layout h)) (fst inp)))"
proof -
  let ?n = "size (h_layout h)" and ?c = "take (size (h_layout h)) (fst inp)"
  let ?E = "settled dest old (\<lambda>c. good_file sha h c \<and> c = ?c)"
  have c: "triple (untouched dest old) (create_file temporary) (\<lambda>i. fetching dest old temporary i []) ?E"
    by (rule triple_conseq [OF create_fetches [OF assms]]) (auto intro: untouched_settled)
  have l: "triple (fetching dest old temporary i []) (receive_tcp_loop os i ?n [] inp)
      (\<lambda>all w. fetching dest old temporary i all w \<and> all = ?c \<and> ?n \<le> length (fst inp)) ?E" for i
    by (rule triple_conseq [OF receive_tcp_loop_fetches]) (auto intro: untouched_settled)
  have s: "triple (\<lambda>w. fetching dest old temporary i all w \<and> all = ?c \<and> ?n \<le> length (fst inp)) (sync_file i)
      (\<lambda>_ w. fetching dest old temporary i all w \<and> all = ?c \<and> ?n \<le> length (fst inp)) ?E" for i all
    using fetch_sync [of dest old temporary i all]
    by (fastforce simp: triple_def untouched_settled split: prod.splits sum.splits)
  have v: "triple (\<lambda>w. fetching dest old temporary i all w \<and> all = ?c \<and> ?n \<le> length (fst inp))
      (verify_and_install m (hex_digest (digest sha all)) (h_hash h) temporary dest reply)
      (\<lambda>_ w. good_file sha h ?c \<and> replaced dest ?c w) ?E" for i all m
  proof (cases "all = ?c \<and> ?n \<le> length (fst inp)")
    case True
    have "triple (fetching dest old temporary i ?c)
        (verify_and_install m (hex_digest (digest sha ?c)) (h_hash h) temporary dest reply)
        (\<lambda>_ w. (good_file sha h ?c \<and> ?c = ?c) \<and> replaced dest ?c w) ?E"
      by (rule verify_and_install_settles) (use True in \<open>simp add: good_file_def\<close>)
    then show ?thesis using True by (auto elim: triple_conseq)
  qed (auto simp: triple_def)
  show ?thesis unfolding receive_tcp_def
    by (intro triple_bind [OF c] triple_bind [OF l] triple_bind [OF s] v)
qed

section \<open>The greeting of a data connection\<close>

lemma read_greeting_step:
  "lf \<notin> set s \<Longrightarrow> length s < n \<Longrightarrow>
    read_greeting n acc (as_bytes s @ 0x0A # bs, e) = Inr (acc @ as_bytes s, (bs, e))"
proof (induction s arbitrary: n acc)
  case Nil
  then obtain m where "n = Suc m" by (cases n) auto
  then show ?case by (simp add: as_bytes_def)
next
  case (Cons c s)
  then obtain m where n: "n = Suc m" by (cases n) auto
  have "c \<noteq> lf" using Cons.prems by auto
  then have "ord c \<noteq> ord lf" by (metis char_of_char)
  then have "ord c \<noteq> 10" by simp
  then have "(of_char c :: byte) \<noteq> 0x0A" using byte_of_char_eq [of 10 c] by simp
  with n Cons show ?case by (simp add: as_bytes_def)
qed

lemma read_tcp4_greeting:
  assumes "i < 4" "length (session sa) = 16"
  shows "read_tcp4_hello sha sa (writeln (tcp4_greeting sha sa i) @ bs, e) = Inr (i, (bs, e))"
proof -
  let ?fs = "[''TSU4D'', hex (session sa), show_nat i, hex (lane_mac sha (lane sa) (session sa) i)]"
  let ?g = "tcp4_greeting sha sa i"
  have f: "field x" if "x \<in> set ?fs" for x
    using that assms(2) hex_field_length [of "session sa"] hex_field_length [of "lane_mac sha (lane sa) (session sa) i"]
    by (auto simp: field_def [of "''TSU4D''"])
  have g: "?g = join_with sp ?fs" by (simp add: tcp4_greeting_def)
  have "length (show_nat i) \<le> 1" using assms(1) by (intro length_show_nat_le) simp_all
  then have len: "length ?g < 128" using assms(2) by (simp add: tcp4_greeting_def)
  have asc: "ascii ?g" "lf \<notin> set ?g"
    using f in_join_with [of _ sp ?fs] by (fastforce simp: g field_def ascii_def)+
  have "read_greeting 128 [] (writeln ?g @ bs, e) = Inr (as_bytes ?g, (bs, e))"
    using read_greeting_step [OF asc(2) len, of "[]" bs e] by (simp add: as_bytes_def)
  moreover have "from_utf8 (as_bytes ?g) = Inr ?g" using asc(1) by (simp add: from_utf8_as_bytes valid_utf8_ascii)
  moreover have "split_whitespace ?g = ?fs" unfolding g using f by (intro split_whitespace_join) blast
  moreover have "parse_dec (show_nat i) = Inr i" using assms(1) by (intro parse_dec_show_nat) simp
  ultimately show ?thesis using assms
    by (simp add: read_tcp4_hello_def decode_array_hex constant_time_eq_iff)
qed

text \<open>An accepted data connection presented the session and the MAC of its lane.\<close>

lemma read_tcp4_hello_Inr:
  assumes "read_tcp4_hello sha sa inp = Inr (i, inp')"
  shows "i < 4 \<and> (\<exists>raw greeting mac. read_greeting 128 [] inp = Inr (raw, inp') \<and> from_utf8 raw = Inr greeting
    \<and> decode_array 16 (split_whitespace greeting ! 1) = Inr (session sa)
    \<and> decode_array 32 (split_whitespace greeting ! 3) = Inr (lane_mac sha (lane sa) (session sa) i))"
  using assms by (auto simp: read_tcp4_hello_def and_then_eq_Inr Let_def constant_time_eq_iff split: if_splits)

lemma accept_lanes_Inr:
  "accept_lanes sha sa ls evs = Inr r \<Longrightarrow> length r = length ls \<and> None \<notin> set r
    \<and> (\<forall>i<length ls. ls ! i = None \<longrightarrow>
        (\<exists>stream. Connected stream \<in> set evs \<and> read_tcp4_hello sha sa stream = Inr (i, the (r ! i))))
    \<and> (\<forall>i<length ls. ls ! i \<noteq> None \<longrightarrow> r ! i = ls ! i)"
proof (induction sha sa ls evs rule: accept_lanes.induct)
  case (1 sha sa ls evs)
  show ?case
  proof (cases "None \<in> set ls")
    case False
    then have "r = ls" using "1.prems" by (simp add: accept_lanes.simps [of _ _ ls evs])
    with False show ?thesis by (metis nth_mem)
  next
    case True
    then have step: "(case evs of [] \<Rightarrow> Inl (Err ''timed out waiting for TCP4 data connections'')
      | Timed_out # _ \<Rightarrow> Inl (Err ''timed out waiting for TCP4 data connections'')
      | Accept_failed e # _ \<Rightarrow> Inl e
      | Connected stream # rest \<Rightarrow>
          and_then (read_tcp4_hello sha sa stream) (\<lambda>(i, stream).
          if length ls \<le> i \<or> ls ! i \<noteq> None then Inl (Err ''invalid or duplicate TCP4 data connection'')
          else accept_lanes sha sa (ls[i := Some stream]) rest)) = Inr r"
      using "1.prems" by (simp add: accept_lanes.simps [of _ _ ls evs] cong: list.case_cong)
    obtain stream rest where evs: "evs = Connected stream # rest"
    proof (cases evs)
      case (Cons ev rest)
      then show thesis using step that by (cases ev) auto
    qed (use step in simp)
    with step obtain j stream' where g: "read_tcp4_hello sha sa stream = Inr (j, stream')"
        "(if length ls \<le> j \<or> ls ! j \<noteq> None then Inl (Err ''invalid or duplicate TCP4 data connection'')
          else accept_lanes sha sa (ls[j := Some stream']) rest) = Inr r"
      by (auto simp: and_then_eq_Inr)
    then have j: "\<not> (length ls \<le> j \<or> ls ! j \<noteq> None)" by (metis sum.distinct(1))
    then have h: "read_tcp4_hello sha sa stream = Inr (j, stream')" "j < length ls" "ls ! j = None"
        "accept_lanes sha sa (ls[j := Some stream']) rest = Inr r" using g by (blast, linarith, blast, metis)
    have n: "\<not> None \<notin> set ls" using True by blast
    note IH = "1.IH" [OF n evs refl j h(4)]
    then have "r ! j = Some stream'" using h(2) by auto
    have l: "length r = length ls" "None \<notin> set r" using IH by simp_all
    have a: "\<exists>s. Connected s \<in> set evs \<and> read_tcp4_hello sha sa s = Inr (i, the (r ! i))"
      if "i < length ls" "ls ! i = None" for i
    proof (cases "i = j")
      case True
      then show ?thesis using h(1) \<open>r ! j = Some stream'\<close> evs by (intro exI [of _ stream]) simp
    next
      case False
      then have "\<exists>s. Connected s \<in> set rest \<and> read_tcp4_hello sha sa s = Inr (i, the (r ! i))"
        using IH that by simp
      then show ?thesis using evs by auto
    qed
    have b: "r ! i = ls ! i" if "i < length ls" "ls ! i \<noteq> None" for i
      using IH that h(3) by (cases "i = j") simp_all
    show ?thesis using l a b by blast
  qed
qed

section \<open>The four threads\<close>

abbreviation lane_start :: "nat \<Rightarrow> nat \<Rightarrow> nat" where
  "lane_start n i \<equiv> fst (tcp4_lane_range n i)"

abbreviation lane_end :: "nat \<Rightarrow> nat \<Rightarrow> nat" where
  "lane_end n i \<equiv> snd (tcp4_lane_range n i)"

text \<open>\<open>S i\<close> is all that arrives on lane \<open>i\<close>: what its thread has read is in the file where it
  belongs, the rest still comes.\<close>

definition lane_ok :: "nat \<Rightarrow> (nat \<Rightarrow> bytes) \<Rightarrow> bytes \<Rightarrow> nat \<Rightarrow> worker \<Rightarrow> bool" where
  "lane_ok n S c i wk \<longleftrightarrow> wk_end wk = lane_end n i \<and> lane_start n i \<le> wk_offset wk \<and> wk_offset wk \<le> lane_end n i
     \<and> S i = read_bytes c (lane_start n i) (wk_offset wk - lane_start n i) @ fst (wk_stream wk)
     \<and> (wk_result wk = Some (Inr ()) \<longrightarrow> wk_offset wk = lane_end n i)"

definition lanes_ok :: "nat \<Rightarrow> (nat \<Rightarrow> bytes) \<Rightarrow> bytes \<Rightarrow> worker list \<Rightarrow> bool" where
  "lanes_ok n S c wks \<longleftrightarrow> length wks = 4 \<and> length c = n \<and> (\<forall>i<4. lane_ok n S c i (wks ! i))"

lemma lane_mono: "i \<le> j \<Longrightarrow> lane_start n i \<le> lane_start n j"
  by (rule lift_Suc_mono_le [of "lane_start n"]) (use lane_range_le lane_ranges_chain(2) in metis)

lemma lane_end_le: "i < 4 \<Longrightarrow> lane_end n i \<le> n"
proof -
  assume "i < 4"
  then have "lane_start n (Suc i) \<le> lane_start n 4" by (intro lane_mono) simp
  then show "lane_end n i \<le> n" using lane_ranges_chain(2,3) [of n] by (metis Suc_numeral semiring_norm(2,8))
qed

lemma lanes_apart: "i \<noteq> j \<Longrightarrow> lane_end n i \<le> lane_start n j \<or> lane_end n j \<le> lane_start n i"
  using lane_mono [of "Suc i" j n] lane_mono [of "Suc j" i n] lane_ranges_chain(2) [of n]
  by (metis Suc_leI linorder_neqE_nat)

text \<open>Writing inside one lane leaves what the others and the lane itself have received.\<close>

lemma lane_ok_write:
  assumes "lane_ok n S c i wk" "length c = n" "i < 4"
    "off + length bs \<le> n" "wk_offset wk \<le> off \<or> off + length bs \<le> lane_start n i"
  shows "lane_ok n S (write_bytes c off bs) i wk"
proof -
  have "read_bytes (write_bytes c off bs) (lane_start n i) (wk_offset wk - lane_start n i)
      = read_bytes c (lane_start n i) (wk_offset wk - lane_start n i)"
    by (rule read_write_other) (use assms in \<open>auto simp: lane_ok_def\<close>)
  then show ?thesis using assms(1) by (simp add: lane_ok_def)
qed

lemma lanes_ok_write:
  assumes l: "lanes_ok n S c wks" and j: "j < 4"
    and w: "wk_offset (wks ! j) + length bs \<le> lane_end n j"
  shows "lanes_ok n S (write_bytes c (wk_offset (wks ! j)) bs) wks"
proof -
  have len: "length c = n" "length wks = 4" using l by (simp_all add: lanes_ok_def)
  have n: "wk_offset (wks ! j) + length bs \<le> n" using w lane_end_le [OF j, of n] by simp
  have "lane_ok n S (write_bytes c (wk_offset (wks ! j)) bs) i (wks ! i)" if i: "i < 4" for i
  proof (rule lane_ok_write [OF _ len(1) i n])
    show k: "lane_ok n S c i (wks ! i)" using l i by (simp add: lanes_ok_def)
    have "lane_ok n S c j (wks ! j)" using l j by (simp add: lanes_ok_def)
    then show "wk_offset (wks ! i) \<le> wk_offset (wks ! j) \<or> wk_offset (wks ! j) + length bs \<le> lane_start n i"
      using lanes_apart [of i j n] w k by (cases "i = j") (auto simp: lane_ok_def)
  qed
  then show ?thesis using len n by (simp add: lanes_ok_def length_write_bytes)
qed

lemma lanes_ok_update:
  assumes "lanes_ok n S c wks" "j < 4" "lane_ok n S c j wk" shows "lanes_ok n S c (wks[j := wk])"
  using assms by (auto simp: lanes_ok_def nth_list_update)

lemma lanes_ok_lane: "lanes_ok n S c wks \<Longrightarrow> j < 4 \<Longrightarrow> lane_ok n S c j (wks ! j)"
  by (simp add: lanes_ok_def)

lemma fetching_faults:
  "fetching dest old temporary i c (w\<lparr>faults := fs\<rparr>) = fetching dest old temporary i c w"
  "fetching dest old temporary i c (w\<lparr>faults := fs, alive := a\<rparr>) = fetching dest old temporary i c w"
  by (simp_all add: fault_blindD)

lemma worker_turn_ok:
  assumes f: "fetching dest old temporary i c w" and l: "lanes_ok n S c wks" and j: "j < 4"
    and t: "worker_turn os i (wks ! j) w = (wk, w')"
  shows "\<exists>c'. fetching dest old temporary i c' w' \<and> lanes_ok n S c' (wks[j := wk])"
proof -
  let ?wk = "wks ! j"
  note k = lanes_ok_lane [OF l j]
  have stay: "\<exists>c'. fetching dest old temporary i c' w \<and> lanes_ok n S c' (wks[j := ?wk\<lparr>wk_result := r\<rparr>])"
    if "r = Some (Inr ()) \<longrightarrow> wk_offset ?wk = lane_end n j" for r
    using f lanes_ok_update [OF l j, of "?wk\<lparr>wk_result := r\<rparr>"] k that by (auto simp: lane_ok_def)
  show ?thesis
  proof (cases "wk_result ?wk \<noteq> None \<or> wk_end ?wk \<le> wk_offset ?wk")
    case True
    then show ?thesis
    proof
      assume "wk_result ?wk \<noteq> None"
      then show ?thesis using t f l by (auto simp: worker_turn_def)
    next
      assume e: "wk_end ?wk \<le> wk_offset ?wk"
      show ?thesis
      proof (cases "wk_result ?wk = None")
        case True
        then have "wk = ?wk\<lparr>wk_result := Some (Inr ())\<rparr>" "w' = w" using t e by (auto simp: worker_turn_def)
        then show ?thesis using stay [of "Some (Inr ())"] e k by (simp add: lane_ok_def)
      next
        case False
        then show ?thesis using t f l by (auto simp: worker_turn_def)
      qed
    qed
  next
    case False
    let ?n = "min (wk_end ?wk - wk_offset ?wk) (1024 * 1024)"
    have pos: "0 < ?n" using False by simp
    show ?thesis
    proof (cases "read_stream os (wk_offset ?wk) ?n (wk_stream ?wk)")
      case (Inl e)
      then show ?thesis using t False stay [of "Some (Inl e)"] by (auto simp: worker_turn_def)
    next
      case (Inr x)
      obtain got stream where x: "x = (got, stream)" by (cases x)
      note r = read_stream_Inr [OF Inr [unfolded x] pos]
      show ?thesis
      proof (cases "got = []")
        case True
        then show ?thesis using t False Inr x stay by (auto simp: worker_turn_def)
      next
        case ne: False
        have le: "wk_offset ?wk + length got \<le> lane_end n j" using r(2) False k by (auto simp: lane_ok_def)
        have wr: "fetching dest old temporary i (write_bytes c (wk_offset ?wk) bs)
            (set_inode i (written (inodes v ! i) (wk_offset ?wk) bs) v)" if "fetching dest old temporary i c v" for v bs
          by (rule fetching_write [OF that]) (use that in \<open>simp add: fetching_def written_def Let_def\<close>)
        obtain res v where res: "write_file i (wk_offset ?wk) got w = (res, v)" by fastforce
        from res show ?thesis
        proof (cases rule: write_file_cases)
          case (all fs)
          let ?c = "write_bytes c (wk_offset ?wk) got" and ?wk' = "?wk\<lparr>wk_offset := wk_offset ?wk + length got, wk_stream := stream\<rparr>"
          have w': "wk = ?wk'" "w' = v" using t False Inr x ne res all(1) by (auto simp: worker_turn_def)
          have f': "fetching dest old temporary i ?c v" using wr [of "w\<lparr>faults := fs\<rparr>" got] f all(2) by (simp add: fetching_faults)
          have lw: "lanes_ok n S ?c wks" by (rule lanes_ok_write [OF l j le])
          note kw = lanes_ok_lane [OF lw j]
          let ?s = "lane_start n j" and ?o = "wk_offset ?wk"
          have len: "?o + length got \<le> length c" using le lane_end_le [OF j, of n] l by (simp add: lanes_ok_def)
          have "read_bytes ?c ?s (?o + length got - ?s) = read_bytes ?c ?s (?o - ?s) @ read_bytes ?c ?o (length got)"
            using read_bytes_split [of "?o - ?s" "?o + length got - ?s" ?c ?s] k by (auto simp: lane_ok_def)
          moreover have "read_bytes ?c ?o (length got) = got" by (rule read_write_same [OF len])
          ultimately have "lane_ok n S ?c j ?wk'" using kw le r(1) False by (auto simp: lane_ok_def)
          then show ?thesis using f' lanes_ok_update [OF lw j, of ?wk'] w' by blast
        next
          case (some e m fs)
          let ?c = "write_bytes c (wk_offset ?wk) (take m got)" and ?wk' = "?wk\<lparr>wk_result := Some (Inl e)\<rparr>"
          have w': "wk = ?wk'" "w' = v" using t False Inr x ne res some(1) by (auto simp: worker_turn_def)
          have f': "fetching dest old temporary i ?c v" using wr [of "w\<lparr>faults := fs\<rparr>" "take m got"] f some(2) by (simp add: fetching_faults)
          have lw: "lanes_ok n S ?c wks" by (rule lanes_ok_write [OF l j]) (use le in simp)
          have "lane_ok n S ?c j ?wk'" using lanes_ok_lane [OF lw j] by (simp add: lane_ok_def)
          then show ?thesis using f' lanes_ok_update [OF lw j, of ?wk'] w' by blast
        next
          case (none e fs a)
          have w': "wk = ?wk\<lparr>wk_result := Some (Inl e)\<rparr>" "w' = v" using t False Inr x ne res none(1) by (auto simp: worker_turn_def)
          then show ?thesis using stay [of "Some (Inl e)"] none(2) by (auto simp: fetching_faults)
        qed
      qed
    qed
  qed
qed

lemma run_schedule_ok:
  "fetching dest old temporary i c w \<Longrightarrow> lanes_ok n S c wks \<Longrightarrow> run_schedule os i schedule wks w = (wks', w') \<Longrightarrow>
    \<exists>c'. fetching dest old temporary i c' w' \<and> lanes_ok n S c' wks'"
proof (induction schedule arbitrary: c wks w)
  case (Cons j schedule)
  show ?case
  proof (cases "j < length wks")
    case False
    then show ?thesis using Cons by simp
  next
    case True
    obtain wk v where t: "worker_turn os i (wks ! j) w = (wk, v)" by fastforce
    have "j < 4" using True Cons.prems(2) by (simp add: lanes_ok_def)
    from worker_turn_ok [OF Cons.prems(1,2) this t] obtain c' where
      "fetching dest old temporary i c' v" "lanes_ok n S c' (wks[j := wk])" by blast
    then show ?thesis using Cons.IH Cons.prems(3) True t by simp
  qed
qed auto

text \<open>The lanes put together.\<close>

definition lanes_file :: "nat \<Rightarrow> (nat \<Rightarrow> bytes) \<Rightarrow> bytes" where
  "lanes_file n S = concat (map (\<lambda>i. take (lane_end n i - lane_start n i) (S i)) [0..<4])"

lemma read_lanes:
  "concat (map (\<lambda>i. read_bytes c (lane_start n i) (lane_end n i - lane_start n i)) [0..<k]) = read_bytes c 0 (lane_start n k)"
proof (induction k)
  case 0
  then show ?case by (simp add: lane_ranges_chain(1) read_bytes_def)
next
  case (Suc k)
  have "read_bytes c 0 (lane_start n (Suc k)) = read_bytes c 0 (lane_start n k)
      @ read_bytes c (lane_start n k) (lane_start n (Suc k) - lane_start n k)"
    using read_bytes_split [OF lane_mono [of k "Suc k" n], of c 0] by simp
  then show ?case using Suc lane_ranges_chain(2) [of n k] by simp
qed

lemma read_four_lanes:
  "length c = n \<Longrightarrow>
    concat (map (\<lambda>i. read_bytes c (lane_start n i) (lane_end n i - lane_start n i)) [0..<4]) = c"
  using lane_ranges_chain(2,3) [of n] read_lanes [of c n 4]
  by (metis Suc_numeral add_0 drop0 read_bytes_def semiring_norm(2,8) take_all order_refl)

lemma lanes_file_cong:
  "(\<And>i. i < 4 \<Longrightarrow> take (lane_end n i - lane_start n i) (S i) = take (lane_end n i - lane_start n i) (S' i)) \<Longrightarrow>
    lanes_file n S = lanes_file n S'"
  unfolding lanes_file_def by (rule arg_cong [where f = concat], rule map_cong) auto

text \<open>Each thread returned without an error: the file is the lanes put together.\<close>

lemma join_workers_Inr: "join_workers wks = Inr u \<Longrightarrow> wk \<in> set wks \<Longrightarrow> wk_result wk = Some (Inr ())"
  by (induction wks) (auto split: option.splits sum.splits)

lemma joined_lanes:
  assumes l: "lanes_ok n S c wks" and "join_workers wks = Inr u"
  shows "c = lanes_file n S"
proof -
  have len: "length c = n" "length wks = 4" using l by (simp_all add: lanes_ok_def)
  have "read_bytes c (lane_start n i) (lane_end n i - lane_start n i) = take (lane_end n i - lane_start n i) (S i)"
    if i: "i < 4" for i
  proof -
    have "wk_result (wks ! i) = Some (Inr ())" using join_workers_Inr [OF assms(2)] i len by simp
    then have o: "S i = read_bytes c (lane_start n i) (lane_end n i - lane_start n i) @ fst (wk_stream (wks ! i))"
      using lanes_ok_lane [OF l i] by (simp add: lane_ok_def)
    have "length (read_bytes c (lane_start n i) (lane_end n i - lane_start n i)) = lane_end n i - lane_start n i"
      using lane_end_le [OF i, of n] len by (simp add: read_bytes_def)
    then show ?thesis unfolding o by simp
  qed
  then have "lanes_file n S = concat (map (\<lambda>i. read_bytes c (lane_start n i) (lane_end n i - lane_start n i)) [0..<4])"
    unfolding lanes_file_def by (intro arg_cong [where f = concat] map_cong) auto
  then show ?thesis using read_four_lanes [OF len(1)] by simp
qed

lemma start_workers_ok:
  assumes "length ls = 4" "length c = n"
  shows "lanes_ok n (\<lambda>i. fst (the (ls ! i))) c (start_workers n ls)"
proof -
  have "start_workers n ls ! i = new_worker n i (the (ls ! i))" if "i < 4" for i
    using assms(1) that by (simp add: start_workers_def nth_enumerate_eq)
  moreover have "lane_ok n (\<lambda>i. fst (the (ls ! i))) c i (new_worker n i (the (ls ! i)))" for i
    using lane_range_le [of n i] by (simp add: lane_ok_def new_worker_def read_bytes_def case_prod_beta)
  ultimately show ?thesis using assms by (simp add: lanes_ok_def start_workers_def)
qed

lemma run_workers_fetches:
  assumes "length ls = 4" "length c = n"
  shows "triple (fetching dest old temporary i c) (run_workers os i schedule (start_workers n ls))
    (\<lambda>_ w. fetching dest old temporary i (lanes_file n (\<lambda>i. fst (the (ls ! i)))) w
       \<and> length (lanes_file n (\<lambda>i. fst (the (ls ! i)))) = n) (untouched dest old)"
  unfolding triple_def
proof (intro allI impI)
  let ?S = "\<lambda>i. fst (the (ls ! i))"
  fix w assume f: "fetching dest old temporary i c w"
  obtain wks w' where r: "run_schedule os i schedule (start_workers n ls) w = (wks, w')" by fastforce
  from run_schedule_ok [OF f start_workers_ok [OF assms] this] obtain c' where
    c: "fetching dest old temporary i c' w'" "lanes_ok n ?S c' wks" by blast
  show "case run_workers os i schedule (start_workers n ls) w of (Inl e, w') \<Rightarrow> untouched dest old w'
      | (Inr x, w') \<Rightarrow> fetching dest old temporary i (lanes_file n ?S) w' \<and> length (lanes_file n ?S) = n"
  proof (cases "join_workers wks")
    case (Inr u)
    have "length c' = n" using c(2) by (simp add: lanes_ok_def)
    then show ?thesis using r c joined_lanes [OF c(2) Inr] Inr by (simp add: run_workers_def)
  qed (use r fetching_untouched [OF c(1)] in \<open>simp add: run_workers_def\<close>)
qed

section \<open>The receiver of TCP4\<close>

text \<open>Reading back the temporary file.\<close>

lemma hash_fetches:
  "triple (fetching dest old temporary i c) (hash_file sha temporary)
    (\<lambda>a w. fetching dest old temporary i c w \<and> a = hex_digest (digest sha c)) (untouched dest old)"
  unfolding hash_file_def
proof (rule triple_bind [where R = "\<lambda>j w. fetching dest old temporary i c w \<and> j = i"])
  show "triple (fetching dest old temporary i c) (open_file temporary)
      (\<lambda>j w. fetching dest old temporary i c w \<and> j = i) (untouched dest old)"
    unfolding open_file_def by (rule triple_call, simp) (auto simp: triple_def fetching_def untouched_def)
  show "triple (\<lambda>w. fetching dest old temporary i c w \<and> j = i)
      (bindM (read_file j) (\<lambda>bs. ret (hex_digest (digest sha bs))))
      (\<lambda>a w. fetching dest old temporary i c w \<and> a = hex_digest (digest sha c)) (untouched dest old)" for j
  proof (rule triple_bind [where R = "\<lambda>bs w. fetching dest old temporary i c w \<and> bs = c"])
    show "triple (\<lambda>w. fetching dest old temporary i c w \<and> j = i) (read_file j)
        (\<lambda>bs w. fetching dest old temporary i c w \<and> bs = c) (untouched dest old)"
      unfolding read_file_def by (rule triple_call, simp) (auto simp: triple_def fetching_def untouched_def)
  qed (auto intro: triple_ret)
qed

text \<open>Lane \<open>i\<close> was opened by a connection that presented the MAC of lane \<open>i\<close>; \<open>s\<close> are the bytes
  after its greeting.\<close>

definition lane_source :: "(bytes \<Rightarrow> 256 word) \<Rightarrow> session_auth \<Rightarrow> accepted list \<Rightarrow> nat \<Rightarrow> bytes \<Rightarrow> bool" where
  "lane_source sha sa evs i s \<longleftrightarrow>
     (\<exists>stream e. Connected stream \<in> set evs \<and> read_tcp4_hello sha sa stream = Inr (i, (s, e)))"

definition four_lanes :: "(bytes \<Rightarrow> 256 word) \<Rightarrow> session_auth \<Rightarrow> hello \<Rightarrow> accepted list \<Rightarrow> bytes \<Rightarrow> bool" where
  "four_lanes sha sa h evs c \<longleftrightarrow>
     (\<exists>S. (\<forall>i<4. lane_source sha sa evs i (S i)) \<and> c = lanes_file (size (h_layout h)) S)"

lemma accepted_four_lanes:
  assumes "accept_lanes sha sa (replicate 4 None) evs = Inr ls"
  shows "length ls = 4 \<and> four_lanes sha sa h evs (lanes_file (size (h_layout h)) (\<lambda>i. fst (the (ls ! i))))"
proof -
  have a: "length ls = 4" "\<And>i. i < 4 \<Longrightarrow> \<exists>stream. Connected stream \<in> set evs \<and> read_tcp4_hello sha sa stream = Inr (i, the (ls ! i))"
    using accept_lanes_Inr [OF assms] by simp_all
  have "lane_source sha sa evs i (fst (the (ls ! i)))" if i: "i < 4" for i
  proof -
    obtain stream s e where "Connected stream \<in> set evs" "the (ls ! i) = (s, e)"
      "read_tcp4_hello sha sa stream = Inr (i, the (ls ! i))"
      using a(2) [OF i] by (cases "the (ls ! i)") blast
    then show ?thesis unfolding lane_source_def by (intro exI [of _ stream] exI [of _ e]) simp
  qed
  with a(1) show ?thesis unfolding four_lanes_def by (intro conjI exI [of _ "\<lambda>i. fst (the (ls ! i))"]) simp_all
qed

lemma receive_tcp4_settles:
  assumes "temporary \<noteq> dest"
  shows "triple (untouched dest old) (receive_tcp4 sha os sa temporary dest h evs schedule reply)
    (\<lambda>_ w. \<exists>c. (four_lanes sha sa h evs c \<and> good_file sha h c) \<and> replaced dest c w)
    (settled dest old (\<lambda>c. four_lanes sha sa h evs c \<and> good_file sha h c))"
proof -
  let ?n = "size (h_layout h)"
  let ?good = "\<lambda>c. four_lanes sha sa h evs c \<and> good_file sha h c"
  let ?E = "settled dest old ?good"
  let ?z = "replicate ?n (0::byte)"
  let ?A = "accept_lanes sha sa (replicate 4 None) evs"
  let ?c = "\<lambda>ls :: lanes. lanes_file ?n (\<lambda>i. fst (the (ls ! i)))"
  let ?R = "\<lambda>ls. ?A = Inr ls \<and> length (?c ls) = ?n"
  let ?Q = "\<lambda>w. \<exists>c. ?good c \<and> replaced dest c w"
  have c: "triple (untouched dest old) (create_file temporary) (\<lambda>i. fetching dest old temporary i []) ?E"
    by (rule triple_conseq [OF create_fetches [OF assms]]) (auto intro: untouched_settled)
  have s: "triple (fetching dest old temporary i []) (set_len i ?n) (\<lambda>_. fetching dest old temporary i ?z) ?E" for i
    by (rule triple_conseq [OF fetch_set_len [of dest old temporary i "[]" ?n]]) (auto intro: untouched_settled)
  have a: "triple (fetching dest old temporary i ?z) (lift ?A) (\<lambda>ls w. fetching dest old temporary i ?z w \<and> ?A = Inr ls) ?E" for i
    by (rule triple_lift) (auto intro: untouched_settled dest: fetching_untouched)
  have r: "triple (\<lambda>w. fetching dest old temporary i ?z w \<and> ?A = Inr ls) (run_workers os i schedule (start_workers ?n ls))
      (\<lambda>_ w. fetching dest old temporary i (?c ls) w \<and> ?R ls) ?E" for i ls
  proof (cases "?A = Inr ls")
    case True
    have "triple (fetching dest old temporary i ?z) (run_workers os i schedule (start_workers ?n ls))
        (\<lambda>_ w. fetching dest old temporary i (?c ls) w \<and> length (?c ls) = ?n) (untouched dest old)"
      by (rule run_workers_fetches) (use accepted_four_lanes [OF True] in simp_all)
    then show ?thesis by (rule triple_conseq) (use True in \<open>auto intro: untouched_settled\<close>)
  qed (simp add: triple_def)
  have y: "triple (\<lambda>w. fetching dest old temporary i (?c ls) w \<and> ?R ls) (sync_file i)
      (\<lambda>_ w. fetching dest old temporary i (?c ls) w \<and> ?R ls) ?E" for i ls
    using fetch_sync [of dest old temporary i "?c ls"]
    by (fastforce simp: triple_def untouched_settled split: prod.splits sum.splits)
  have h: "triple (\<lambda>w. fetching dest old temporary i (?c ls) w \<and> ?R ls) (hash_file sha temporary)
      (\<lambda>x w. fetching dest old temporary i (?c ls) w \<and> ?R ls \<and> x = hex_digest (digest sha (?c ls))) ?E" for i ls
    using hash_fetches [of dest old temporary i "?c ls" sha]
    by (fastforce simp: triple_def untouched_settled split: prod.splits sum.splits)
  have v: "triple (\<lambda>w. fetching dest old temporary i (?c ls) w \<and> ?R ls \<and> x = hex_digest (digest sha (?c ls)))
      (verify_and_install m x (h_hash h) temporary dest reply) (\<lambda>_. ?Q) ?E" for i ls x m
  proof (cases "?R ls \<and> x = hex_digest (digest sha (?c ls))")
    case True
    have "x = h_hash h \<Longrightarrow> ?good (?c ls)"
      using True accepted_four_lanes [of sha sa evs ls h] by (simp add: good_file_def)
    then have "triple (fetching dest old temporary i (?c ls)) (verify_and_install m x (h_hash h) temporary dest reply)
        (\<lambda>_ w. ?good (?c ls) \<and> replaced dest (?c ls) w) ?E"
      by (rule verify_and_install_settles)
    then show ?thesis by (rule triple_conseq) auto
  qed (auto simp: triple_def)
  show ?thesis unfolding receive_tcp4_def
    by (intro triple_bind [OF c] triple_bind [OF s] triple_bind [OF a] triple_bind [OF r] triple_bind [OF y] triple_bind [OF h] v)
qed

end
