(* ===== verification/Tcp_Delivery.thy ===== *)
theory Tcp_Delivery
  imports Tcp
begin

text \<open>
  The TCP modes of \<open>src/main.rs\<close> from end to end.  What \<open>send_tcp\<close> or the four lanes of
  \<open>send_tcp4\<close> put on their connections is what \<open>receive_tcp\<close> or \<open>receive_tcp4\<close> read, with reads of
  any size, the data connections in any order and the threads scheduled in any fair way.  Nothing
  failing, the receiver returns and the destination holds the sender's file.
\<close>

section \<open>One connection\<close>

lemma read_stream_steady:
  assumes "steady os" "0 < n" "fst inp \<noteq> []"
  obtains got inp' where "read_stream os pos n inp = Inr (got, inp')" "got \<noteq> []"
proof -
  obtain bs e where i: "inp = (bs, e)" by (cases inp)
  then have ne: "bs \<noteq> []" using assms(3) by simp
  have "is_ok (os pos n)" using assms(1) by (simp add: steady_def)
  then obtain k where k: "os pos n = Inr k" by (cases "os pos n") simp_all
  let ?m = "max 1 (min k n)"
  have "read_stream os pos n inp = Inr (take ?m bs, (drop ?m bs, e))"
    using ne k by (cases bs) (simp_all add: read_stream_def i and_then_def Let_def)
  moreover have "take ?m bs \<noteq> []" using ne by simp
  ultimately show thesis by (rule that)
qed

lemma append_calm:
  "calm w \<Longrightarrow> append_file i bs w
    = (Inr (), set_inode i (written (inodes w ! i) (length (content (inodes w ! i))) bs) w)"
  by (simp add: append_file_def write_calm)

lemma receive_tcp_loop_runs:
  "steady os \<Longrightarrow> remaining \<le> length (fst inp) \<Longrightarrow> calm w \<Longrightarrow>
    \<exists>w'. receive_tcp_loop os i remaining hashed inp w = (Inr (hashed @ take remaining (fst inp)), w') \<and> calm w'"
proof (induction os i remaining hashed inp arbitrary: w rule: receive_tcp_loop.induct)
  case (1 os i remaining hashed inp)
  show ?case
  proof (cases "remaining = 0")
    case True
    then show ?thesis using "1.prems" by (subst receive_tcp_loop.simps) (simp add: ret_def)
  next
    case False
    let ?n = "min remaining (1024 * 1024)"
    have pos: "0 < ?n" using False by simp
    have ne: "fst inp \<noteq> []" using "1.prems"(2) False by auto
    obtain got inp' where g: "read_stream os (length hashed) ?n inp = Inr (got, inp')" "got \<noteq> []"
      using read_stream_steady [OF "1.prems"(1) pos ne] by metis
    note r = read_stream_Inr [OF g(1) pos]
    obtain w1 where w1: "append_file i got w = (Inr (), w1)" "calm w1"
      using append_calm [OF "1.prems"(3)] "1.prems"(3) by simp
    have "remaining - length got \<le> length (fst inp')" using r(1) "1.prems"(2) by simp
    from "1.IH" [OF False g(2) "1.prems"(1) this w1(2)] obtain w' where
      "receive_tcp_loop os i (remaining - length got) (hashed @ got) inp' w1
        = (Inr ((hashed @ got) @ take (remaining - length got) (fst inp')), w')" "calm w'" by blast
    moreover have "got @ take (remaining - length got) (fst inp') = take remaining (fst inp)" using r by (simp add: min_def split: if_splits)
    ultimately show ?thesis using g w1 False
      by (subst receive_tcp_loop.simps) (simp add: bindM_def lift_def)
  qed
qed

text \<open>Naming the temporary file exists and is inode \<open>i\<close>.\<close>

lemma verify_and_install_runs:
  assumes "reply = Inr ''COMPLETE_ACK''"
  shows "runs (\<lambda>w. names w temporary \<noteq> None) (verify_and_install msg x x temporary dest reply)
    (\<lambda>_ w. ''COMPLETE'' \<in> set (sent w))"
proof -
  have p: "runs (\<lambda>w. names w temporary \<noteq> None) create_parent (\<lambda>_ w. names w temporary \<noteq> None)"
    by (simp add: runs_def create_parent_def call_calm)
  have l: "runs (\<lambda>w. ''COMPLETE'' \<in> set (sent w)) (lift reply) (\<lambda>a w. ''COMPLETE'' \<in> set (sent w) \<and> a = ''COMPLETE_ACK'')"
    by (rule runs_lift) (simp_all add: assms)
  have s: "runs (\<lambda>_. True) (send_completion_and_wait reply) (\<lambda>_ w. ''COMPLETE'' \<in> set (sent w))"
    unfolding send_completion_and_wait_def
    by (rule runs_bind [OF runs_send], simp add: sendable_def, rule runs_bind [OF l], rule runs_and)
      (simp add: runs_ret)
  show ?thesis unfolding verify_and_install_def install_file_def
    using runs_bind [OF runs_bind [OF p runs_rename] s] by simp
qed

text \<open>What a triple says of the end of a run that is known to return.\<close>

lemma runs_reaches:
  assumes "runs P m Q" "triple P' m R E" "P w" "P' w" "calm w"
  shows "\<exists>x w'. m w = (Inr x, w') \<and> calm w' \<and> Q x w' \<and> R x w'"
  using assms runsE [OF assms(1,3,5)] triple_Inr [OF assms(2,4)] by metis

lemma receive_tcp_runs:
  assumes "steady os" "temporary \<noteq> dest" "fst inp = f @ later" "length f = size (h_layout h)" "h_hash h = hex_digest (digest sha f)"
    "reply = Inr ''COMPLETE_ACK''"
  shows "runs (untouched dest old) (receive_tcp sha os temporary dest h inp reply) (\<lambda>_ w. ''COMPLETE'' \<in> set (sent w))"
  unfolding runs_def
proof (intro allI impI, elim conjE)
  fix w assume u: "untouched dest old w" and c: "calm w"
  obtain i w1 where w1: "create_file temporary w = (Inr i, w1)" "calm w1" "fetching dest old temporary i [] w1"
    using runs_reaches [OF runs_create [of "untouched dest old"] create_fetches [OF assms(2)] u u c] by blast
  obtain w2 where w2: "receive_tcp_loop os i (size (h_layout h)) [] inp w1 = (Inr f, w2)" "calm w2"
    using receive_tcp_loop_runs [OF assms(1), of "size (h_layout h)" inp w1 i "[]"] w1(2) assms(3,4) by auto
  have f2: "fetching dest old temporary i f w2"
    using triple_Inr [OF receive_tcp_loop_fetches w1(3) w2(1)] by blast
  obtain y w3 where w3: "sync_file i w2 = (Inr y, w3)" "calm w3" "fetching dest old temporary i f w3"
    using runs_reaches [OF runs_sync_any [of "fetching dest old temporary i f"] fetch_sync f2 f2 w2(2)] by blast
  then have "names w3 temporary \<noteq> None" by (simp add: fetching_def)
  from runsE [OF verify_and_install_runs [OF assms(6)] this w3(2)] w1(1) w2(1) w3(1)
  show "\<exists>x w'. receive_tcp sha os temporary dest h inp reply w = (Inr x, w') \<and> calm w' \<and> ''COMPLETE'' \<in> set (sent w')"
    by (simp add: receive_tcp_def bindM_def assms(5)) metis
qed

text \<open>From the sender to the destination.\<close>

lemma tcp_delivers:
  assumes send: "send_tcp ros wr f = (out, Inr u)"
    and h: "length f = size (h_layout h)" "h_hash h = hex_digest (digest sha f)"
    and run: "steady os" "temporary \<noteq> dest" "untouched dest old w" "calm w"
  shows "\<exists>w'. receive_tcp sha os temporary dest h (out, Closed) (Inr ''COMPLETE_ACK'') w = (Inr (), w')
    \<and> seen dest w' = Some f \<and> ''COMPLETE'' \<in> set (sent w')"
proof -
  have out: "out = f" by (rule send_tcp_Inr [OF send])
  show ?thesis
    using runs_reaches [OF receive_tcp_runs [OF run(1,2) _ h refl, of "(out, Closed)" "[]"] receive_tcp_settles [OF run(2)] run(3,3,4)]
      out h(1) by (auto simp: replaced_def)
qed

text \<open>Every end of a receiver that settles.\<close>

lemma settles_end:
  fixes r :: "unit result"
  assumes t: "triple (untouched dest old) m (\<lambda>_ w. \<exists>c. good c \<and> replaced dest c w) (settled dest old good)"
    and u: "untouched dest old w" and m: "m w = (r, w')"
  shows "(r \<noteq> Inr () \<and> seen dest w' = old \<and> ''COMPLETE'' \<notin> set (sent w'))
    \<or> (\<exists>c. seen dest w' = Some c \<and> good c)"
proof (cases r)
  case (Inl e)
  have "settled dest old good w'" by (rule triple_Inl [OF t u m [unfolded Inl]])
  then show ?thesis using Inl by (auto simp: settled_def untouched_def quiet_def replaced_def)
next
  case (Inr x)
  have "\<exists>c. good c \<and> replaced dest c w'" by (rule triple_Inr [OF t u m [unfolded Inr]])
  then show ?thesis by (auto simp: replaced_def)
qed

section \<open>Four connections\<close>

lemma send_tcp4_lane_Inr:
  "send_tcp4_lane os wr f i out = (out', Inr u) \<Longrightarrow>
    out' = out @ read_bytes f (lane_start (length f) i) (lane_end (length f) i - lane_start (length f) i)"
  using lane_range_le [of "length f" i]
  by (auto simp: send_tcp4_lane_def dest!: send_tcp_range_Inr split: prod.splits)

lemma open_lanes_Inr:
  "open_lanes sha sa conn wr is = (outs, Inr u) \<Longrightarrow> outs = map (\<lambda>i. writeln (tcp4_greeting sha sa i)) is"
  by (induction "is" arbitrary: outs) (auto simp: write_all_Inr split: sum.splits prod.splits)

lemma join_results_Inr: "join_results rs = Inr u \<Longrightarrow> r \<in> set rs \<Longrightarrow> r = Inr ()"
  by (induction rs) (auto simp: and_then_eq_Inr)

lemma send_tcp4_Inr:
  assumes "send_tcp4 sha sa conn os wr f = (outs, Inr u)"
  shows "length outs = 4 \<and> (\<forall>i<4. outs ! i = writeln (tcp4_greeting sha sa i)
    @ read_bytes f (lane_start (length f) i) (lane_end (length f) i - lane_start (length f) i))"
proof -
  let ?gs = "map (\<lambda>i. writeln (tcp4_greeting sha sa i)) [0..<4]"
  let ?thread = "\<lambda>i. send_tcp4_lane (os i) (wr i) f i (?gs ! i)"
  obtain gs where g: "open_lanes sha sa conn wr [0..<4] = (gs, Inr ())"
    using assms by (auto simp: send_tcp4_def split: prod.splits sum.splits)
  have gs: "gs = ?gs" by (rule open_lanes_Inr [OF g])
  let ?ts = "map (\<lambda>(i, out). send_tcp4_lane (os i) (wr i) f i out) (enumerate 0 ?gs)"
  have t: "outs = map fst ?ts" "join_results (map snd ?ts) = Inr u"
    using assms g unfolding gs by (simp_all add: send_tcp4_def Let_def)
  have len: "length ?ts = 4" by simp
  have nth: "?ts ! i = ?thread i" if "i < 4" for i using that by (simp add: nth_enumerate_eq)
  have "outs ! i = writeln (tcp4_greeting sha sa i)
      @ read_bytes f (lane_start (length f) i) (lane_end (length f) i - lane_start (length f) i)" if i: "i < 4" for i
  proof -
    have "?ts ! i \<in> set ?ts" by (rule nth_mem) (simp only: len i)
    then have "snd (?thread i) \<in> set (map snd ?ts)" unfolding nth [OF i] set_map by (rule imageI)
    then have "snd (?thread i) = Inr ()" by (rule join_results_Inr [OF t(2)])
    then have "?thread i = (fst (?thread i), Inr ())" by (metis prod.collapse)
    from send_tcp4_lane_Inr [OF this] have "fst (?ts ! i) = writeln (tcp4_greeting sha sa i)
        @ read_bytes f (lane_start (length f) i) (lane_end (length f) i - lane_start (length f) i)"
      unfolding nth [OF i] using i by simp
    moreover have "outs ! i = fst (?ts ! i)" unfolding t(1) by (rule nth_map) (simp only: len i)
    ultimately show ?thesis by simp
  qed
  then show ?thesis using t(1) by simp
qed

text \<open>With reads that transfer something and outlets that take everything, the senders succeed.\<close>

definition open_outlet :: "outlet \<Rightarrow> bool" where
  "open_outlet wr \<longleftrightarrow> (\<forall>k bs. wr k bs = None)"

lemma read_at_steady:
  assumes "steady os"
  obtains got where "read_at os f off n = Inr got"
proof -
  have "is_ok (os off n)" using assms by (simp add: steady_def)
  then show thesis using that by (cases "os off n") (auto simp: read_at_def and_then_def)
qed

lemma send_tcp_from_runs:
  "steady os \<Longrightarrow> open_outlet wr \<Longrightarrow> \<exists>out'. send_tcp_from os wr f off out = (out', Inr ())"
proof (induction os wr f off out rule: send_tcp_from.induct)
  case (1 os wr f off out)
  obtain got where g: "read_at os f off (1024 * 1024) = Inr got" by (rule read_at_steady [OF "1.prems"(1)])
  have w: "write_all wr out got = (out @ got, Inr ())" using "1.prems"(2) by (simp add: write_all_def open_outlet_def)
  show ?case
  proof (cases "got = []")
    case False
    have "\<exists>out'. send_tcp_from os wr f (off + length got) (out @ got) = (out', Inr ())"
      by (rule "1.IH" [OF g False w [symmetric]]) (rule refl | fact)+
    then show ?thesis using g w False by (subst send_tcp_from.simps) simp
  qed (use g in \<open>subst send_tcp_from.simps, simp\<close>)
qed

lemma send_tcp_runs: "steady os \<Longrightarrow> open_outlet wr \<Longrightarrow> send_tcp os wr f = (f, Inr ())"
  using send_tcp_from_runs [of os wr f 0 "[]"] send_tcp_Inr [of os wr f] by (auto simp: send_tcp_def)

lemma send_tcp_range_from_runs:
  "steady os \<Longrightarrow> open_outlet wr \<Longrightarrow> e \<le> length f \<Longrightarrow> \<exists>out'. send_tcp_range_from os wr f off e out = (out', Inr ())"
proof (induction os wr f off e out rule: send_tcp_range_from.induct)
  case (1 os wr f off e out)
  show ?case
  proof (cases "e \<le> off")
    case True
    then show ?thesis by (subst send_tcp_range_from.simps) simp
  next
    case False
    let ?n = "min (e - off) (1024 * 1024)"
    obtain got where g: "read_at os f off ?n = Inr got" by (rule read_at_steady [OF "1.prems"(1)])
    have ne: "got \<noteq> []" using read_at_eof [of os f off ?n] g False "1.prems"(3) by auto
    have w: "write_all wr out got = (out @ got, Inr ())" using "1.prems"(2) by (simp add: write_all_def open_outlet_def)
    have "\<exists>out'. send_tcp_range_from os wr f (off + length got) e (out @ got) = (out', Inr ())"
      by (rule "1.IH" [OF False g ne w [symmetric]]) (rule refl | fact)+
    then show ?thesis using g w ne False by (subst send_tcp_range_from.simps) simp
  qed
qed

lemma send_tcp4_runs:
  assumes "\<And>i. conn i = Inr ()" "\<And>i. steady (os i)" "\<And>i. open_outlet (wr i)"
  shows "\<exists>outs. send_tcp4 sha sa conn os wr f = (outs, Inr ())"
proof -
  have g: "\<exists>outs. open_lanes sha sa conn wr is = (outs, Inr ()) \<and> length outs = length is" for "is"
  proof (induction "is")
    case (Cons i "is")
    have "write_all (wr i) [] bs = (bs, Inr ())" for bs using assms(3) [of i] by (simp add: write_all_def open_outlet_def)
    then show ?case using Cons assms(1) [of i] by auto
  qed simp
  then obtain outs where outs: "open_lanes sha sa conn wr [0..<4] = (outs, Inr ())" "length outs = 4" by force
  have r: "snd (send_tcp4_lane (os i) (wr i) f i out) = Inr ()" if "i < 4" for i out
  proof -
    have "open_outlet (\<lambda>n. wr i (length out + n))" using assms(3) [of i] by (simp add: open_outlet_def)
    from send_tcp_range_from_runs [OF assms(2) [of i] this lane_end_le [OF that, of "length f"],
        of "lane_start (length f) i" "[]"]
    show ?thesis by (auto simp: send_tcp4_lane_def send_tcp_range_def split: prod.splits)
  qed
  have j: "join_results rs = Inr ()" if "\<forall>r\<in>set rs. r = Inr ()" for rs using that by (induction rs) (auto simp: and_then_def)
  have "join_results (map snd (map (\<lambda>(i, out). send_tcp4_lane (os i) (wr i) f i out) (enumerate 0 outs))) = Inr ()"
    by (rule j) (use r outs(2) in \<open>auto simp: in_set_enumerate_eq\<close>)
  then show ?thesis using outs(1) by (simp add: send_tcp4_def Let_def)
qed

text \<open>Every lane is accepted, whatever the order in which the connections arrive.\<close>

lemma accept_lanes_all:
  assumes sid: "length (session sa) = 16"
  shows "distinct order \<Longrightarrow> length ls = 4 \<Longrightarrow> set order = {i. i < 4 \<and> ls ! i = None} \<Longrightarrow>
    \<exists>r. accept_lanes sha sa ls (map (\<lambda>i. Connected (writeln (tcp4_greeting sha sa i) @ body i, Closed)) order @ rest) = Inr r
      \<and> length r = 4 \<and> (\<forall>i<4. r ! i = (if i \<in> set order then Some (body i, Closed) else ls ! i))"
proof (induction order arbitrary: ls)
  case Nil
  then have "None \<notin> set ls" by (auto simp: in_set_conv_nth)
  then show ?case using Nil by (subst accept_lanes.simps) simp
next
  case (Cons j order)
  let ?s = "(body j, Closed)"
  have j: "j < 4" "ls ! j = None" using Cons.prems(3) by auto
  then have n: "None \<in> set ls" using Cons.prems(2) by (metis nth_mem)
  have "set order = {i. i < 4 \<and> ls ! i = None} - {j}"
    using Cons.prems(1,3) by (metis Diff_insert_absorb distinct.simps(2) list.simps(15))
  also have "\<dots> = {i. i < 4 \<and> ls[j := Some ?s] ! i = None}"
    using Cons.prems(2) j(1) by (auto simp: nth_list_update)
  finally have "set order = {i. i < 4 \<and> ls[j := Some ?s] ! i = None}" .
  moreover have "distinct order" "length (ls[j := Some ?s]) = 4" using Cons.prems by simp_all
  ultimately obtain r where r: "accept_lanes sha sa (ls[j := Some ?s])
      (map (\<lambda>i. Connected (writeln (tcp4_greeting sha sa i) @ body i, Closed)) order @ rest) = Inr r" "length r = 4"
      "\<forall>i<4. r ! i = (if i \<in> set order then Some (body i, Closed) else ls[j := Some ?s] ! i)"
    using Cons.IH by blast
  have "r ! i = (if i \<in> set (j # order) then Some (body i, Closed) else ls ! i)" if "i < 4" for i
  proof (cases "i = j")
    case True
    then show ?thesis using r(3) j(1) Cons.prems(1,2) by simp
  next
    case False
    then show ?thesis using r(3) that by simp
  qed
  moreover have "accept_lanes sha sa ls
      (map (\<lambda>i. Connected (writeln (tcp4_greeting sha sa i) @ body i, Closed)) (j # order) @ rest) = Inr r"
    using n j Cons.prems(2) r(1) read_tcp4_greeting [OF j(1) sid, of sha "body j" Closed]
    by (subst accept_lanes.simps) simp
  ultimately show ?case using r(2) by blast
qed

text \<open>A thread whose lane brings enough and that has not failed; the turns it still needs.\<close>

definition fit :: "worker \<Rightarrow> bool" where
  "fit wk \<longleftrightarrow> (wk_result wk = None \<or> wk_result wk = Some (Inr ()))
     \<and> wk_end wk - wk_offset wk \<le> length (fst (wk_stream wk))"

definition need :: "worker \<Rightarrow> nat" where
  "need wk = (if wk_result wk = None then Suc (wk_end wk - wk_offset wk) else 0)"

lemma need_done: "fit wk \<Longrightarrow> need wk = 0 \<Longrightarrow> wk_result wk = Some (Inr ())"
  by (auto simp: fit_def need_def split: if_splits)

lemma worker_turn_progress:
  assumes os: "steady os" and w: "calm w" and f: "fit wk" and t: "worker_turn os i wk w = (wk', w')"
  shows "calm w' \<and> fit wk' \<and> need wk' \<le> need wk - 1"
proof (cases "wk_result wk \<noteq> None \<or> wk_end wk \<le> wk_offset wk")
  case True
  then show ?thesis using t w f by (auto simp: worker_turn_def need_def fit_def split: if_splits)
next
  case False
  let ?n = "min (wk_end wk - wk_offset wk) (1024 * 1024)"
  have pos: "0 < ?n" using False by simp
  have "fst (wk_stream wk) \<noteq> []" using f False by (auto simp: fit_def)
  then obtain got stream where g: "read_stream os (wk_offset wk) ?n (wk_stream wk) = Inr (got, stream)" "got \<noteq> []"
    by (rule read_stream_steady [OF os pos])
  note r = read_stream_Inr [OF g(1) pos]
  have "wk' = wk\<lparr>wk_offset := wk_offset wk + length got, wk_stream := stream\<rparr>"
    "w' = set_inode i (written (inodes w ! i) (wk_offset wk) got) w"
    using t False g write_calm [OF w] by (auto simp: worker_turn_def)
  moreover have "0 < length got" "length (fst (wk_stream wk)) = length got + length (fst stream)" using g(2) r(1) by simp_all
  moreover have "wk_end wk - (wk_offset wk + length got) < wk_end wk - wk_offset wk"
    using read_progress [OF g(2)] False by simp
  ultimately show ?thesis using w f False r(2) by (auto simp: fit_def need_def)
qed

lemma run_schedule_progress:
  "steady os \<Longrightarrow> calm w \<Longrightarrow> (\<forall>j<length wks. fit (wks ! j)) \<Longrightarrow> run_schedule os i schedule wks w = (wks', w') \<Longrightarrow>
    length wks' = length wks \<and> calm w'
    \<and> (\<forall>j<length wks. fit (wks' ! j) \<and> need (wks' ! j) \<le> need (wks ! j) - count_list schedule j)"
proof (induction schedule arbitrary: wks w)
  case (Cons k schedule)
  show ?case
  proof (cases "k < length wks")
    case False
    then show ?thesis using Cons.IH [OF Cons.prems(1-3)] Cons.prems(4) by auto
  next
    case True
    obtain wk v where t: "worker_turn os i (wks ! k) w = (wk, v)" by fastforce
    have p: "calm v" "fit wk" "need wk \<le> need (wks ! k) - 1"
      using worker_turn_progress [OF Cons.prems(1,2) _ t] Cons.prems(3) True by simp_all
    have ih: "length wks' = length wks" "calm w'"
      "\<And>j. j < length wks \<Longrightarrow> fit (wks' ! j) \<and> need (wks' ! j) \<le> need (wks[k := wk] ! j) - count_list schedule j"
      using Cons.IH [OF Cons.prems(1) p(1), of "wks[k := wk]"] Cons.prems(3,4) p(2) True t
      by (auto simp: nth_list_update)
    have "need (wks' ! j) \<le> need (wks ! j) - count_list (k # schedule) j" if "j < length wks" for j
      using ih(3) [OF that] p(3) that by (cases "j = k") auto
    then show ?thesis using ih by blast
  qed
qed auto

lemma join_workers_done: "(\<And>wk. wk \<in> set wks \<Longrightarrow> wk_result wk = Some (Inr ())) \<Longrightarrow> join_workers wks = Inr ()"
  by (induction wks) auto

lemma run_workers_runs:
  assumes os: "steady os" and ls: "length ls = 4"
    and s: "\<And>i. i < 4 \<Longrightarrow> length (fst (the (ls ! i))) = lane_end n i - lane_start n i"
    and sched: "\<And>i. i < 4 \<Longrightarrow> n < count_list schedule i"
  shows "runs P (run_workers os i schedule (start_workers n ls)) (\<lambda>_ _. True)"
  unfolding runs_def
proof (intro allI impI, elim conjE)
  fix w assume w: "calm w"
  let ?wks = "start_workers n ls"
  have l: "length ?wks = 4" using ls by (simp add: start_workers_def)
  have k: "?wks ! j = new_worker n j (the (ls ! j))" if "j < 4" for j
    using that ls by (simp add: start_workers_def nth_enumerate_eq)
  have f: "fit (?wks ! j) \<and> need (?wks ! j) \<le> Suc n" if j: "j < 4" for j
    using s [OF j] lane_end_le [OF j, of n] by (simp add: k [OF j] new_worker_def fit_def need_def case_prod_beta)
  obtain wks' w' where r: "run_schedule os i schedule ?wks w = (wks', w')" by fastforce
  have p: "length wks' = 4" "calm w'"
    "\<And>j. j < 4 \<Longrightarrow> fit (wks' ! j) \<and> need (wks' ! j) \<le> need (?wks ! j) - count_list schedule j"
    using run_schedule_progress [OF os w _ r] f l by auto
  have "wk_result (wks' ! j) = Some (Inr ())" if j: "j < 4" for j
    using p(3) [OF j] f [OF j] sched [OF j] by (intro need_done) auto
  then have "join_workers wks' = Inr ()" using p(1) by (intro join_workers_done) (auto simp: in_set_conv_nth)
  then show "\<exists>x w'. run_workers os i schedule ?wks w = (Inr x, w') \<and> calm w' \<and> True"
    using r p(2) by (simp add: run_workers_def)
qed

text \<open>From the four lanes of the sender to the destination.\<close>

lemma tcp4_delivers:
  assumes send: "send_tcp4 sha sa conn ros wr f = (outs, Inr u)"
    and sid: "length (session sa) = 16"
    and h: "length f = size (h_layout h)" "h_hash h = hex_digest (digest sha f)"
    and evs: "distinct order" "set order = {..<4}" "evs = map (\<lambda>i. Connected (outs ! i, Closed)) order"
    and sched: "\<And>i. i < 4 \<Longrightarrow> length f < count_list schedule i"
    and run: "steady os" "temporary \<noteq> dest" "untouched dest old w" "calm w"
  shows "\<exists>w'. receive_tcp4 sha os sa temporary dest h evs schedule (Inr ''COMPLETE_ACK'') w = (Inr (), w')
    \<and> seen dest w' = Some f \<and> ''COMPLETE'' \<in> set (sent w')"
proof -
  let ?n = "length f"
  let ?body = "\<lambda>i. read_bytes f (lane_start ?n i) (lane_end ?n i - lane_start ?n i)"
  have out: "outs ! i = writeln (tcp4_greeting sha sa i) @ ?body i" if "i < 4" for i
    using send_tcp4_Inr [OF send] that by blast
  have e: "evs = map (\<lambda>i. Connected (writeln (tcp4_greeting sha sa i) @ ?body i, Closed)) order @ []"
    using evs(2,3) out by simp
  obtain ls where ls: "accept_lanes sha sa (replicate 4 None) evs = Inr ls" "length ls = 4"
      "\<forall>i<4. ls ! i = Some (?body i, Closed)"
  proof -
    have "replicate 4 (None :: incoming option) ! i = None" if "i < 4" for i using that by (rule nth_replicate)
    then have "set order = {i. i < 4 \<and> replicate 4 (None :: incoming option) ! i = None}" using evs(2) by blast
    from accept_lanes_all [OF sid evs(1) length_replicate this, of sha ?body "[]"] show thesis
      using that evs(2) unfolding e by auto
  qed
  have len: "length (?body i) = lane_end ?n i - lane_start ?n i" if "i < 4" for i
    using lane_end_le [OF that, of ?n] by (simp add: read_bytes_def)
  have whole: "lanes_file ?n (\<lambda>i. fst (the (ls ! i))) = f"
  proof -
    have "lanes_file ?n (\<lambda>i. fst (the (ls ! i))) = concat (map ?body [0..<4])"
      unfolding lanes_file_def by (intro arg_cong [where f = concat] map_cong) (use ls(3) len in auto)
    then show ?thesis using read_four_lanes [OF refl, of f] by simp
  qed
  obtain i w1 where w1: "create_file temporary w = (Inr i, w1)" "calm w1" "fetching dest old temporary i [] w1"
    using runs_reaches [OF runs_create [of "untouched dest old"] create_fetches [OF run(2)] run(3,3,4)] by blast
  let ?z = "replicate ?n (0::byte)"
  have sl: "runs (fetching dest old temporary i []) (set_len i ?n) (\<lambda>_ _. True)"
    by (simp add: runs_def set_len_def call_calm Let_def)
  obtain x2 w2 where w2: "set_len i ?n w1 = (Inr x2, w2)" "calm w2" "fetching dest old temporary i ?z w2"
    using runs_reaches [OF sl fetch_set_len w1(3,3,2)] by auto
  have rw: "runs (fetching dest old temporary i ?z) (run_workers os i schedule (start_workers ?n ls)) (\<lambda>_ _. True)"
    by (rule run_workers_runs [OF run(1) ls(2)]) (use ls(3) len sched in auto)
  obtain x3 w3 where w3: "run_workers os i schedule (start_workers ?n ls) w2 = (Inr x3, w3)" "calm w3"
      "fetching dest old temporary i f w3"
    using runs_reaches [OF rw run_workers_fetches [OF ls(2), of ?z ?n] w2(3,3,2)] whole by auto
  obtain x4 w4 where w4: "sync_file i w3 = (Inr x4, w4)" "calm w4" "fetching dest old temporary i f w4"
    using runs_reaches [OF runs_sync_any [of "fetching dest old temporary i f"] fetch_sync w3(3,3,2)] by blast
  have hr: "runs (fetching dest old temporary i f) (hash_file sha temporary) (\<lambda>_ _. True)"
    by (auto simp: runs_def hash_file_def open_file_def read_file_def bindM_def ret_def call_calm fetching_def)
  obtain a w5 where w5: "hash_file sha temporary w4 = (Inr a, w5)" "calm w5" "fetching dest old temporary i f w5"
      "a = hex_digest (digest sha f)"
    using runs_reaches [OF hr hash_fetches w4(3,3,2)] by blast
  then have "names w5 temporary \<noteq> None" by (simp add: fetching_def)
  from runsE [OF verify_and_install_runs [OF refl] this w5(2)] obtain x6 w6 where
    w6: "verify_and_install ''received TCP4 file hash did not match'' a a temporary dest (Inr ''COMPLETE_ACK'') w5 = (Inr x6, w6)"
      "''COMPLETE'' \<in> set (sent w6)" by blast
  have "seen dest w6 = Some f"
    using triple_Inr [OF verify_and_install_settles [where good = "\<lambda>_. True", OF TrueI] w5(3) w6(1)]
    by (simp add: replaced_def)
  moreover have "receive_tcp4 sha os sa temporary dest h evs schedule (Inr ''COMPLETE_ACK'') w = (Inr (), w6)"
    using w1(1) w2(1) ls(1) w3(1) w4(1) w5(1,4) w6(1) h by (simp add: receive_tcp4_def bindM_def lift_def)
  ultimately show ?thesis using w6(2) by blast
qed

end
