(* ===== verification/Whole_Transfer.thy ===== *)
theory Whole_Transfer
  imports Cli Sender Tcp_Delivery Dialogue
begin

text \<open>
  A whole transfer as the program runs it (\<open>send\<close> and \<open>receive_on\<close> in \<open>src/main.rs\<close>): handshake,
  greeting, manifest, answer, the transport of the greeting, and the completion, over the bytes of
  the control connection.

  A side gets the bytes it reads as an \<open>incoming\<close> stream.  What the system calls return is an
  argument, as in the theories of the transports.  The UDP sender goes on as the step relation of
  \<open>Sender\<close>; the lines that the UDP receiver reads during its loop are part of its \<open>udp_inputs\<close>.
\<close>

section \<open>The sender\<close>

text \<open>What \<open>send\<close> finds before it connects, and how its system calls behave afterwards.\<close>

record send_inputs =
  s_metadata :: "nat result"
  s_hashed :: "string result"
  s_scanned :: "manifest result"
  s_session :: "bytes result"
  s_connect :: "unit result"
  s_file :: bytes
  s_os :: transfer
  s_write :: outlet
  s_lane_connect :: "nat \<Rightarrow> unit result"
  s_lane_os :: "nat \<Rightarrow> transfer"
  s_lane_write :: "nat \<Rightarrow> outlet"

text \<open>Up to the connection: the greeting and the manifest to announce.\<close>

definition prepare_send ::
    "('addr, 'z) send_args_scheme \<Rightarrow> send_inputs \<Rightarrow> (hello \<times> manifest option) result" where
  "prepare_send a si =
     and_then (s_metadata si) (\<lambda>fsize.
     and_then (s_hashed si) (\<lambda>expected_hash.
     and_then (if sa_reuse_chunks a then and_then (s_scanned si) (\<lambda>m. Inr (Some m)) else Inr None) (\<lambda>reuse_manifest.
     and_then (s_session si) (\<lambda>offered_session.
     let n_chunks = div_ceil fsize (sa_payload_bytes a) in
     if max_chunks < n_chunks
     then Inl (Err (''file requires '' @ show_nat n_chunks @ '' chunks; maximum is '' @ show_nat max_chunks
       @ '' to keep receipt memory bounded''))
     else
     and_then (s_connect si) (\<lambda>_.
     Inr (send_hello a fsize expected_hash offered_session
       (map_option (\<lambda>m. (length (m_chunks m), m_hash m)) reuse_manifest), reuse_manifest))))))"

text \<open>From the connection to the receiver's answer: the session, the answer, both ends of the
  control stream, and what is still to be read.\<close>

definition open_transfer ::
    "(bytes \<Rightarrow> 256 word) \<Rightarrow> bytes \<Rightarrow> hello \<Rightarrow> manifest option \<Rightarrow> incoming
      \<Rightarrow> (session_auth \<times> acceptance \<times> control_end \<times> control_end \<times> incoming) dialogue" where
  "open_transfer sha key h reuse_manifest stream =
     follow (client_handshake sha key (format_hello h) stream) (\<lambda>(sa, rest).
     follow (write_lines sha (new_control sa ClientToServer)
       (case reuse_manifest of None \<Rightarrow> [] | Some m \<Rightarrow> manifest_messages m)) (\<lambda>writer.
     attempt (read_from sha (\<lambda>inb. read_acceptance inb (h_transport h) (chunks (h_layout h))
         (payload_bytes (h_layout h)) (h_report_interval h)) (new_control sa ServerToClient) rest)
       (\<lambda>(answer, reader, rest). ([], Inr (sa, answer, writer, reader, rest)))))"

definition expect_completion ::
    "(bytes \<Rightarrow> 256 word) \<Rightarrow> control_end \<Rightarrow> control_end \<Rightarrow> incoming \<Rightarrow> control_end dialogue" where
  "expect_completion sha reader writer stream =
     attempt (control_recv sha reader stream) (\<lambda>(completion, _).
     if completion \<noteq> ''COMPLETE'' then ([], Inl (Err (''transfer did not complete: '' @ completion)))
     else control_send sha writer ''COMPLETE_ACK'')"

text \<open>How \<open>send\<close> ends: with a completed transfer, or, with UDP, in \<open>send_udp\<close> (\<open>Sender\<close>).  Beside
  the control connection it writes to the data connections of TCP4.\<close>

datatype send_end = Complete | Streaming send_config

definition send_open ::
    "(bytes \<Rightarrow> 256 word) \<Rightarrow> ('addr, 'z) send_args_scheme \<Rightarrow> send_inputs \<Rightarrow> hello
      \<Rightarrow> session_auth \<times> acceptance \<times> control_end \<times> control_end \<times> incoming
      \<Rightarrow> bytes list \<times> send_end dialogue" where
  "send_open sha a si h conn =
     (case conn of (sa, answer, writer, reader, rest) \<Rightarrow>
      let complete = follow (expect_completion sha reader writer rest) (\<lambda>_. ([], Inr Complete)) in
      if a_complete answer then ([], follow (control_send sha writer ''COMPLETE_ACK'') (\<lambda>_. ([], Inr Complete)))
      else case sa_transport a of
        Tcp \<Rightarrow> ([], follow (send_tcp (s_os si) (s_write si) (s_file si)) (\<lambda>_. complete))
      | Tcp4 \<Rightarrow>
          (case send_tcp4 sha sa (s_lane_connect si) (s_lane_os si) (s_lane_write si) (s_file si) of
             (outs, Inl e) \<Rightarrow> (outs, ([], Inl e))
           | (outs, Inr _) \<Rightarrow> (outs, complete))
      | Udp \<Rightarrow> ([], ([], Inr (Streaming \<lparr>f_layout = h_layout h, f_auth = sa, f_durable = durable_chunks answer,
          f_adaptive = (sa_rate a = None), f_sha = sha, f_file = s_file si\<rparr>))))"

definition send ::
    "(bytes \<Rightarrow> 256 word) \<Rightarrow> bytes \<Rightarrow> ('addr, 'z) send_args_scheme \<Rightarrow> send_inputs \<Rightarrow> incoming
      \<Rightarrow> bytes list \<times> send_end dialogue" where
  "send sha key a si stream =
     (case prepare_send a si of
        Inl e \<Rightarrow> ([], ([], Inl e))
      | Inr (h, reuse_manifest) \<Rightarrow>
          (case open_transfer sha key h reuse_manifest stream of
             (out, Inl e) \<Rightarrow> ([], (out, Inl e))
           | (out, Inr conn) \<Rightarrow>
               (case send_open sha a si h conn of (outs, out', r) \<Rightarrow> (outs, (out @ out', r)))))"

section \<open>The receiver\<close>

text \<open>What \<open>receive_on\<close> gets from outside beside the control connection: the reads on it and on the
  data connections, the connections accepted for TCP4 and the turns of their threads, and the
  inputs of \<open>receive_udp\<close>, of which the reply and the reuse are determined here.\<close>

record receive_inputs =
  o_os :: transfer
  o_accepts :: "accepted list"
  o_schedule :: "nat list"
  o_reuse_from :: "candidate option"
  o_udp :: udp_inputs

definition next_reply :: "(bytes \<Rightarrow> 256 word) \<Rightarrow> control_end \<Rightarrow> incoming \<Rightarrow> string result" where
  "next_reply sha reader stream = and_then (control_recv sha reader stream) (\<lambda>(line, _). Inr line)"

text \<open>The transfer by the transport of the greeting; a UDP transfer returns its outcome.  The
  file comes on the control connection with TCP, so the reply is what follows it.\<close>

definition receive_by ::
    "(bytes \<Rightarrow> 256 word) \<Rightarrow> nat \<Rightarrow> string \<Rightarrow> receive_inputs \<Rightarrow> session_auth \<Rightarrow> hello \<Rightarrow> manifest option
      \<Rightarrow> control_end \<Rightarrow> incoming \<Rightarrow> outcome option io" where
  "receive_by sha pid dest oi sa h reuse_manifest reader stream =
     (let ready = ready_line (payload_bytes (h_layout h)) (h_report_interval h);
          temporary = temporary_path pid dest in
      case h_transport h of
        Tcp \<Rightarrow>
          bindM (send_control ready) (\<lambda>_.
          bindM (receive_tcp sha (o_os oi) temporary dest h stream
            (next_reply sha reader (drop (size (h_layout h)) (fst stream), snd stream))) (\<lambda>_. ret None))
      | Tcp4 \<Rightarrow>
          bindM (send_control ready) (\<lambda>_.
          bindM (receive_tcp4 sha (o_os oi) sa temporary dest h (o_accepts oi) (o_schedule oi)
            (next_reply sha reader stream)) (\<lambda>_. ret None))
      | Udp \<Rightarrow>
          bindM (receive_udp sha pid sa dest h ((o_udp oi)\<lparr>u_reply := next_reply sha reader stream,
            u_reuse := (case (reuse_manifest, o_reuse_from oi) of (Some m, Some c) \<Rightarrow> Some (m, c) | _ \<Rightarrow> None)\<rparr>))
            (\<lambda>oc. ret (Some oc)))"

text \<open>After the manifest; the partial file of a failed TCP transfer is removed.\<close>

definition receive_negotiated ::
    "(bytes \<Rightarrow> 256 word) \<Rightarrow> nat \<Rightarrow> string \<Rightarrow> receive_inputs \<Rightarrow> session_auth \<Rightarrow> hello
      \<Rightarrow> manifest option \<times> control_end \<times> incoming \<Rightarrow> outcome option io" where
  "receive_negotiated sha pid dest oi sa h =
     (\<lambda>(reuse_manifest, reader, stream).
     bindM create_parent (\<lambda>_.
     tryM (receive_by sha pid dest oi sa h reuse_manifest reader stream) (\<lambda>result.
     case result of
       Inr x \<Rightarrow> ret x
     | Inl e \<Rightarrow> if h_transport h \<noteq> Udp then tryM (remove_file (temporary_path pid dest)) (\<lambda>_. throw e) else throw e)))"

text \<open>After the handshake.\<close>

definition receive_greeted ::
    "(bytes \<Rightarrow> 256 word) \<Rightarrow> nat \<Rightarrow> string \<Rightarrow> receive_inputs \<Rightarrow> string \<Rightarrow> session_auth \<Rightarrow> incoming \<Rightarrow> outcome option io" where
  "receive_greeted sha pid dest oi hello_body sa stream =
     bindM (lift (parse_hello hello_body)) (\<lambda>greeted.
     let h = greeted\<lparr>h_session := session sa\<rparr> in
     bindM (lift (read_from sha (\<lambda>inb. read_reuse_manifest sha inb h) (new_control sa ClientToServer) stream))
       (receive_negotiated sha pid dest oi sa h))"

definition receive_on ::
    "(bytes \<Rightarrow> 256 word) \<Rightarrow> bytes \<Rightarrow> bytes \<Rightarrow> bytes \<Rightarrow> nat \<Rightarrow> string \<Rightarrow> receive_inputs \<Rightarrow> incoming \<Rightarrow> world
      \<Rightarrow> bytes \<times> outcome option result \<times> world" where
  "receive_on sha key challenge nonce pid dest oi stream w =
     (case server_handshake sha key challenge nonce stream of
        (out, Inl e) \<Rightarrow> (out, Inl e, w)
      | (out, Inr (hello_body, sa, rest)) \<Rightarrow> (out, receive_greeted sha pid dest oi hello_body sa rest w))"

section \<open>What a receiver leaves\<close>

definition has_returned :: "outcome option result \<Rightarrow> bool" where
  "has_returned r \<longleftrightarrow> r = Inr None \<or> (\<exists>t. r = Inr (Some (Done t)))"

text \<open>The temporary file is not the destination.\<close>

lemma temporary_differs [simp]: "temporary_path pid dest \<noteq> dest"
  by (simp add: temporary_path_def)

lemma good_file_session [simp]: "good_file sha (h\<lparr>h_session := sid\<rparr>) = good_file sha h"
  by (simp add: good_file_def fun_eq_iff)

lemma remove_settled:
  assumes "p \<noteq> dest"
  shows "triple (settled dest old good) (remove_file p) (\<lambda>_. settled dest old good) (settled dest old good)"
  unfolding remove_file_def
proof (rule triple_call)
  show "fault_blind (settled dest old good)"
    by (simp add: fault_blind_def settled_def untouched_def linkless_def seen_def quiet_def replaced_def)
  have "settled dest old good (set_names ((names w)(p := None)) w)" if "settled dest old good w" for w
    using that assms by (auto simp: settled_def untouched_def linkless_def seen_def quiet_def replaced_def set_names_def)
  then show "triple (settled dest old good)
      (\<lambda>w. case names w p of None \<Rightarrow> (Inl NotFound, w) | Some i \<Rightarrow> (Inr (), set_names ((names w)(p := None)) w))
      (\<lambda>_. settled dest old good) (settled dest old good)"
    by (simp add: triple_def split: option.splits)
qed

lemma create_parent_untouched:
  "triple (untouched dest old) create_parent (\<lambda>_. untouched dest old) (untouched dest old)"
  unfolding create_parent_def by (rule triple_call) (simp_all add: triple_def)

lemma ready_not_complete: "ready_line p i \<noteq> ''COMPLETE''"
  by (simp add: ready_line_def)

lemma receive_by_settles:
  assumes "h_transport h \<noteq> Udp"
  shows "triple (untouched dest old) (receive_by sha pid dest oi sa h m reader stream)
    (\<lambda>_ w. \<exists>c. good_file sha h c \<and> replaced dest c w) (settled dest old (good_file sha h))"
proof -
  let ?E = "settled dest old (good_file sha h)" and ?Q = "\<lambda>_ w. \<exists>c. good_file sha h c \<and> replaced dest c w"
  have ready: "triple (untouched dest old) (send_control (ready_line p i)) (\<lambda>_. untouched dest old) ?E" for p i
    by (rule triple_conseq [OF send_untouched [OF ready_not_complete]]) (auto intro: untouched_settled)
  have t: "triple (untouched dest old) (receive_tcp sha os (temporary_path pid dest) dest h stream reply) ?Q ?E" for os reply
    by (rule triple_conseq [OF receive_tcp_settles [OF temporary_differs]]) (auto simp: settled_def)
  have t4: "triple (untouched dest old) (receive_tcp4 sha os sa (temporary_path pid dest) dest h evs sched reply) ?Q ?E"
    for os evs sched reply
    by (rule triple_conseq [OF receive_tcp4_settles [OF temporary_differs]]) (auto simp: settled_def)
  have fin: "triple (\<lambda>w. ?Q x w) (ret None) ?Q ?E" for x :: unit by (rule triple_ret)
  show ?thesis
    using assms by (cases "h_transport h")
      (simp_all add: receive_by_def Let_def triple_bind [OF ready triple_bind [OF t fin]] triple_bind [OF ready triple_bind [OF t4 fin]])
qed

text \<open>What \<open>receive_udp_ends\<close> needs, for a greeting and what is read after it.\<close>

definition udp_ready ::
    "(bytes \<Rightarrow> 256 word) \<Rightarrow> string \<Rightarrow> receive_inputs \<Rightarrow> session_auth \<Rightarrow> incoming \<Rightarrow> hello \<Rightarrow> world \<Rightarrow> bool" where
  "udp_ready sha dest oi sa stream h w \<longleftrightarrow> history w = [names w]
     \<and> length (u_ticks (o_udp oi)) < 2 ^ 64
     \<and> (\<exists>oh ok. resume_decode_hash (h_hash h) = Inr oh \<and> length oh = 32 \<and> crash_safe dest (h_layout h) oh ok w
       \<and> reopenable dest (h_layout h) oh 7 w
       \<and> (\<forall>m c x. read_from sha (\<lambda>inb. read_reuse_manifest sha inb h) (new_control sa ClientToServer) stream = Inr (Some m, x)
           \<and> o_reuse_from oi = Some c \<longrightarrow> reuse_ok sha (h_layout h) ok (Some (m, c)))
       \<and> (\<forall>tk\<in>set (u_ticks (o_udp oi)). tick_ok sha sa (h_layout h) ok tk))"

lemma read_manifest_session [simp]:
  "read_reuse_manifest sha inb (h\<lparr>h_session := sid\<rparr>) = read_reuse_manifest sha inb h"
  by (simp add: read_reuse_manifest_def cong: if_cong option.case_cong)

lemma has_hash_session [simp]: "has_hash sha dest (h\<lparr>h_session := sid\<rparr>) = has_hash sha dest h"
  by (simp add: has_hash_def fun_eq_iff)

lemma has_hash_seen: "has_hash sha dest h w \<Longrightarrow> \<exists>c. seen dest w = Some c \<and> good_file sha h c"
  by (auto simp: has_hash_def installed_def seen_def good_file_def)

lemma create_parent_looks:
  assumes "create_parent w = (r, w')"
  shows "same_disk w w'" "\<exists>k\<le>1. faults w' = drop k (faults w)"
proof -
  have "same_disk w w' \<and> (fst (Inr (), w) = r \<or> r = Inl Panic \<or> (\<exists>m. r = Inl (IoErr m)))"
    by (rule call_looks [OF assms [unfolded create_parent_def]]) simp_all
  then show "same_disk w w'" by blast
  show "\<exists>k\<le>1. faults w' = drop k (faults w)"
    by (rule call_drops [OF assms [unfolded create_parent_def]]) simp
qed

text \<open>How a transfer ends: nothing has happened at the destination, or the announced file is there,
  or a UDP transfer has not completed.\<close>

definition ends_well ::
    "(bytes \<Rightarrow> 256 word) \<Rightarrow> string \<Rightarrow> bytes option \<Rightarrow> hello \<Rightarrow> outcome option result \<Rightarrow> world \<Rightarrow> bool" where
  "ends_well sha dest old h r w \<longleftrightarrow>
     (\<exists>c. seen dest w = Some c \<and> good_file sha h c)
     \<or> \<not> has_returned r \<and> ''COMPLETE'' \<notin> set (sent w) \<and> (seen dest w = old \<or> h_transport h = Udp)"

lemma ends_untouched: "untouched dest old w \<Longrightarrow> ends_well sha dest old h (Inl e) w"
  by (simp add: ends_well_def has_returned_def untouched_def quiet_def)

lemma receive_udp_ends_well':
  assumes u: "untouched dest old w" and h: "wf_hello h" "h_transport h = Udp"
    and ready: "udp_ready sha dest oi sa stream h w" and w1: "create_parent w = (Inr (), w1)"
    and m: "read_from sha (\<lambda>inb. read_reuse_manifest sha inb h) (new_control sa ClientToServer) stream = Inr (m, reader, rest)"
    and run: "receive_by sha pid dest oi sa (h\<lparr>h_session := session sa\<rparr>) m reader rest w1 = (r, w')"
  shows "ends_well sha dest old h r w'"
proof -
  let ?h = "h\<lparr>h_session := session sa\<rparr>"
  let ?inp = "(o_udp oi)\<lparr>u_reply := next_reply sha reader rest,
    u_reuse := (case (m, o_reuse_from oi) of (Some m, Some c) \<Rightarrow> Some (m, c) | _ \<Rightarrow> None)\<rparr>"
  obtain oh ok where r: "resume_decode_hash (h_hash h) = Inr oh" "length oh = 32" "crash_safe dest (h_layout h) oh ok w"
      "reopenable dest (h_layout h) oh 7 w" "history w = [names w]" "length (u_ticks (o_udp oi)) < 2 ^ 64"
      "\<forall>tk\<in>set (u_ticks (o_udp oi)). tick_ok sha sa (h_layout h) ok tk"
      "\<And>m' c. m = Some m' \<Longrightarrow> o_reuse_from oi = Some c \<Longrightarrow> reuse_ok sha (h_layout h) ok (Some (m', c))"
    using ready m unfolding udp_ready_def by fastforce
  note d = same_disk_open [OF create_parent_looks(1) [OF w1] r(3,5)]
  obtain k where k: "k \<le> 1" "faults w1 = drop k (faults w)" using create_parent_looks(2) [OF w1] by blast
  have "set (take 6 (drop k (faults w))) \<subseteq> set (take 7 (faults w))"
    using k(1) set_take_subset_set_take [of "6 + k" 7 "faults w"] set_drop_subset [of k "take (6 + k) (faults w)"]
    by (auto simp: take_drop)
  then have re: "reopenable dest (h_layout ?h) oh 6 w1"
    using r(4) k(2) d by (auto simp: reopenable_def)
  have q: "quiet w1" using create_parent_looks(1) [OF w1] u by (auto simp: same_disk_def quiet_def untouched_def)
  have ru: "reuse_ok sha (h_layout ?h) ok (u_reuse ?inp)"
    using r(8) by (cases m; cases "o_reuse_from oi") (auto simp: reuse_ok_def)
  obtain x where x: "receive_udp sha pid sa dest ?h ?inp w1 = (x, w')" "r = (case x of Inl e \<Rightarrow> Inl e | Inr oc \<Rightarrow> Inr (Some oc))"
    using run h(2) by (auto simp: receive_by_def Let_def bindM_def ret_def split: prod.splits sum.splits)
  have "transfer_end sha dest ?h oh ok w1 x w'"
    by (rule receive_udp_ends [OF _ d(2) q _ _ r(2) _ re ru _ _ x(1)]) (use d(1) r h(1) in \<open>simp_all add: wf_hello_def\<close>)
  then have "''COMPLETE'' \<in> set (sent w') \<or> has_returned r \<Longrightarrow> has_hash sha dest h w'"
    using x(2) by (auto simp: transfer_end_def has_returned_def dest: delivered_has_hash split: sum.splits)
  then show ?thesis using has_hash_seen [of sha dest h w'] h(2) by (auto simp: ends_well_def)
qed

lemma receive_greeted_ends:
  assumes u: "untouched dest old w" and p: "parse_hello hello_body = Inr h"
    and ready: "h_transport h = Udp \<Longrightarrow> udp_ready sha dest oi sa stream h w"
    and run: "receive_greeted sha pid dest oi hello_body sa stream w = (r, w')"
  shows "ends_well sha dest old h r w'"
proof (cases "read_from sha (\<lambda>inb. read_reuse_manifest sha inb h) (new_control sa ClientToServer) stream")
  case (Inl e)
  then have "r = Inl e" "w' = w" using run p by (auto simp: receive_greeted_def bindM_def lift_def)
  then show ?thesis using ends_untouched [OF u] by simp
next
  case (Inr x)
  obtain m reader rest where x: "x = (m, reader, rest)" by (cases x)
  let ?h = "h\<lparr>h_session := session sa\<rparr>" and ?t = "temporary_path pid dest"
  let ?by = "receive_by sha pid dest oi sa ?h m reader rest"
  let ?k = "\<lambda>result. case result of Inr x \<Rightarrow> ret x
     | Inl e \<Rightarrow> if h_transport h \<noteq> Udp then tryM (remove_file ?t) (\<lambda>_. throw e) else throw e"
  have run': "bindM create_parent (\<lambda>_. tryM ?by ?k) w = (r, w')"
    using run p Inr x by (simp add: receive_greeted_def receive_negotiated_def bindM_def [of "lift _"] lift_def Let_def)
  obtain r1 w1 where w1: "create_parent w = (r1, w1)" by fastforce
  show ?thesis
  proof (cases r1)
    case Inl1: (Inl e)
    have "untouched dest old w1" by (rule triple_Inl [OF create_parent_untouched u w1 [unfolded Inl1]])
    then show ?thesis using run' w1 Inl1 ends_untouched by (auto simp: bindM_def)
  next
    case Inr1: (Inr y)
    have u1: "untouched dest old w1" by (rule triple_Inr [OF create_parent_untouched u w1 [unfolded Inr1]])
    have run1: "tryM ?by ?k w1 = (r, w')" using run' w1 Inr1 by (simp add: bindM_def)
    show ?thesis
    proof (cases "h_transport h = Udp")
      case True
      have "?by w1 = (r, w')" using run1 True by (auto simp: tryM_def ret_def throw_def split: prod.splits sum.splits)
      then show ?thesis
        using receive_udp_ends_well' [OF u parse_hello_wf [OF p] True ready [OF True] _ Inr [unfolded x]] w1 Inr1 by simp
    next
      case False
      let ?G = "\<lambda>w. \<exists>c. good_file sha h c \<and> replaced dest c w" and ?S = "settled dest old (good_file sha h)"
      have b: "triple (untouched dest old) ?by (\<lambda>_. ?G) ?S"
        using receive_by_settles [of ?h dest old sha pid oi sa m reader rest] False by simp
      have t: "triple (untouched dest old) (tryM ?by ?k) (\<lambda>_. ?G) ?S"
      proof (rule triple_try [where R = "\<lambda>r. case r of Inr _ \<Rightarrow> ?G | Inl _ \<Rightarrow> ?S"])
        show "triple (untouched dest old) ?by (\<lambda>x. case Inr x of Inr _ \<Rightarrow> ?G | Inl _ \<Rightarrow> ?S)
            (\<lambda>w. \<forall>e. (case Inl e of Inr _ \<Rightarrow> ?G | Inl _ \<Rightarrow> ?S) w)" using b by simp
        have "triple ?S (tryM (remove_file ?t) (\<lambda>_. throw e)) (\<lambda>_. ?G) ?S" for e
          by (rule triple_try [where R = "\<lambda>_. ?S"]) (auto intro: remove_settled triple_throw)
        then show "triple ((case r of Inr _ \<Rightarrow> ?G | Inl _ \<Rightarrow> ?S)) (?k r) (\<lambda>_. ?G) ?S" for r
          using False by (cases r) (auto intro: triple_ret)
      qed
      show ?thesis
      proof (cases r)
        case (Inl e)
        then have "?S w'" using triple_Inl [OF t u1] run1 by simp
        then show ?thesis using Inl by (auto simp: ends_well_def settled_def untouched_def replaced_def has_returned_def quiet_def)
      next
        case (Inr z)
        then have "?G w'" using triple_Inr [OF t u1] run1 by simp
        then show ?thesis by (auto simp: ends_well_def replaced_def)
      qed
    qed
  qed
qed

lemma receive_on_ends:
  assumes u: "untouched dest old w"
    and ready: "\<And>hello_body sa rest h. snd (server_handshake sha key challenge nonce stream) = Inr (hello_body, sa, rest)
      \<Longrightarrow> parse_hello hello_body = Inr h \<Longrightarrow> h_transport h = Udp \<Longrightarrow> udp_ready sha dest oi sa rest h w"
    and run: "receive_on sha key challenge nonce pid dest oi stream w = (out, r, w')"
  shows "\<not> has_returned r \<and> ''COMPLETE'' \<notin> set (sent w') \<and> seen dest w' = old
    \<or> (\<exists>hello_body sa rest h. snd (server_handshake sha key challenge nonce stream) = Inr (hello_body, sa, rest)
        \<and> parse_hello hello_body = Inr h \<and> ends_well sha dest old h r w')"
proof -
  have refused: "\<not> has_returned r \<and> ''COMPLETE'' \<notin> set (sent w') \<and> seen dest w' = old" if "r = Inl e" "w' = w" for e
    using u that by (simp add: has_returned_def untouched_def quiet_def)
  show ?thesis
  proof (cases "snd (server_handshake sha key challenge nonce stream)")
    case (Inl e)
    then show ?thesis using run refused by (auto simp: receive_on_def split: prod.splits)
  next
    case (Inr x)
    obtain hello_body sa rest where x: "x = (hello_body, sa, rest)" by (cases x)
    have g: "receive_greeted sha pid dest oi hello_body sa rest w = (r, w')"
      using run Inr x by (auto simp: receive_on_def split: prod.splits)
    show ?thesis
    proof (cases "parse_hello hello_body")
      case p: (Inl e)
      then have "r = Inl e" "w' = w" using g by (simp_all add: receive_greeted_def bindM_def lift_def)
      then show ?thesis using refused by simp
    next
      case p: (Inr h)
      have "ends_well sha dest old h r w'"
        by (rule receive_greeted_ends [OF u p _ g]) (use ready Inr x p in simp)
      then show ?thesis using Inr x p by blast
    qed
  qed
qed

section \<open>The lines that are sent\<close>

lemma field_literals: "field ''READY''" "field ''REUSED''" "field ''H''" "field ''C''" "field ''CDC1''" "field ''CHASH''"
  "field ''TCP''" "field ''TCP4''" "field ''UDP''"
  by (simp_all add: field_def)

lemma sendable_fields:
  assumes "\<forall>f\<in>set fs. field f" "\<forall>f\<in>set fs. length f \<le> 64" "length fs \<le> 5"
  shows "sendable_line (join_with sp fs)"
  using length_join_with [OF assms(2), of sp] wire_line_fields [OF assms(1)] assms(3) by (simp add: sendable_line_def)

lemma sendable_word: "sendable_line ''COMPLETE''" "sendable_line ''COMPLETE_ACK''" "sendable_line ''GO''" "sendable_line ''CHUNKS_END''"
  by (simp_all add: sendable_line_def wire_line_ascii)

lemma length_show_nat_64: "is_u64 n \<Longrightarrow> length (show_nat n) \<le> 64"
  using length_show_nat_u64 [of n] by (simp add: is_u64_def)

lemma sendable_ready: "is_u64 p \<Longrightarrow> is_u64 i \<Longrightarrow> sendable_line (ready_line p i)"
  using sendable_fields [of "[''READY'', show_nat p, show_nat i]"] field_literals length_show_nat_64
  by (simp add: ready_line_def)

lemma sendable_answer:
  assumes "is_u64 p" "is_u64 i" "is_u64 rb" "is_u64 rc" "length bm < 2 ^ 64"
  shows "\<forall>l\<in>set (answer_lines p i rb rc bm). sendable_line l"
proof -
  have "sendable_line (''REUSED '' @ show_nat rb @ '' '' @ show_nat rc)"
    using sendable_fields [of "[''REUSED'', show_nat rb, show_nat rc]"] field_literals length_show_nat_64 assms(3,4) by simp
  moreover have "sendable_line (word_line k w)" if "k < length bm" for k and w :: u64w
  proof -
    have "length (pad0 16 (show_radix 16 (unat w))) \<le> 64"
      using length_show_radix_le [of 16 "unat w" 16] unsigned_less [of w, where ?'a = nat] by (simp add: pad0_def)
    then show ?thesis
      using sendable_fields [of "[''H'', show_nat k, pad0 16 (show_radix 16 (unat w))]"] field_literals that assms(5)
        length_show_nat_64 [of k] hex_digits_field by (simp add: word_line_def is_u64_def)
  qed
  ultimately show ?thesis
    using sendable_ready [OF assms(1,2)] sendable_word
    by (auto simp: answer_lines_def inventory_lines_def enumerate_eq_zip set_zip)
qed

lemma contiguous_chunk:
  "contiguous n off cs \<Longrightarrow> c \<in> set cs \<Longrightarrow> is_u64 n
    \<Longrightarrow> is_u64 (ch_offset c) \<and> is_u64 (ch_length c) \<and> length (ch_hash c) = 32"
proof (induction cs arbitrary: off)
  case (Cons x cs)
  then show ?case using contiguous_le [of n "off + ch_length x" cs] by (auto simp: is_u64_def)
qed simp

lemma sendable_manifest:
  assumes "wf_manifest sha m" shows "\<forall>l\<in>set (manifest_messages m). sendable_line l"
proof -
  have n: "is_u64 (m_size m)" "is_u64 (length (m_chunks m))" and h: "length (m_hash m) = 32"
    using assms by (simp_all add: wf_manifest_def is_u64_def CDC_MAX_CHUNKS_def)
  have "sendable_line (header_line (m_size m) (length (m_chunks m)))"
    using sendable_fields [of "[''CDC1'', show_nat (m_size m), show_nat (length (m_chunks m))]"] field_literals n length_show_nat_64
    by (simp add: header_line_def)
  moreover have "sendable_line (''CHASH '' @ hex (m_hash m))"
    using sendable_fields [of "[''CHASH'', hex (m_hash m)]"] field_literals h hex_field_length [of "m_hash m"] by simp
  moreover have "sendable_line (chunk_line c)" if "c \<in> set (m_chunks m)" for c
  proof -
    have "is_u64 (ch_offset c)" "is_u64 (ch_length c)" "length (ch_hash c) = 32"
      using contiguous_chunk [OF _ that] assms by (auto simp: wf_manifest_def)
    then show ?thesis
      using sendable_fields [of "[''C'', show_nat (ch_offset c), show_nat (ch_length c), hex (ch_hash c)]"] field_literals
        length_show_nat_64 hex_field_length [of "ch_hash c"] by (simp add: chunk_line_def)
  qed
  ultimately show ?thesis using sendable_word by (auto simp: manifest_messages_def encode_lines)
qed

lemma hello_line:
  assumes w: "wf_hello h" and x: "h_hash h = hex d"
  shows "wire_line (format_hello h)" "length (format_hello h) \<le> 1977"
proof -
  let ?fs = "[wire_name (h_transport h), show_nat (size (h_layout h)), h_hash h, hex (h_session h),
       show_nat (chunks (h_layout h)), show_nat (payload_bytes (h_layout h)),
       show_nat (h_report_interval h), show_nat (h_repair_grace h)]"
  have d: "length d = 32" using w x by (auto simp: wf_hello_def is_ok_def dest: decode_array_length split: sum.splits)
  have r: "case h_reuse h of None \<Rightarrow> True | Some (k, m) \<Rightarrow> is_u64 k \<and> length m = 32"
    using w by (auto simp: wf_hello_def is_u64_def CDC_MAX_CHUNKS_def split: option.splits)
  have g: "\<forall>f\<in>set (reuse_greeting (h_reuse h)). field f \<and> length f \<le> 64" "length (reuse_greeting (h_reuse h)) \<le> 3"
    using r reuse_greeting_fields [of "h_reuse h"] length_show_nat_64
    by (auto simp: reuse_greeting_def split: option.splits)
  have u: "is_u64 (size (h_layout h))" "is_u64 (chunks (h_layout h))" "is_u64 (payload_bytes (h_layout h))"
    "is_u64 (h_report_interval h)" "is_u64 (h_repair_grace h)" "length (h_session h) = 16"
    using w by (simp_all add: wf_hello_def wf_layout_def is_u64_def max_chunks_def)
  have f: "\<forall>f\<in>set (?fs @ reuse_greeting (h_reuse h)). field f \<and> length f \<le> 64"
    using g(1) u length_show_nat_64 d x hex_field_length [of d] hex_field_length [of "h_session h"] field_literals
    by (auto simp: wire_name_def split: transport.splits)
  then show "wire_line (format_hello h)" unfolding format_hello_def by (intro wire_line_fields) blast
  have "\<forall>f\<in>set (?fs @ reuse_greeting (h_reuse h)). length f \<le> 64" using f by blast
  from length_join_with [OF this, of sp] g(2) show "length (format_hello h) \<le> 1977" by (simp add: format_hello_def)
qed

section \<open>The two sides agree\<close>

text \<open>The honest sender reads the answer.\<close>

lemma open_transfer_honest:
  fixes key :: bytes
  assumes l: "length challenge = 32" "length nonce = 32"
    and answers: "\<forall>p\<in>set ps. sendable_line p" "length ps < 2 ^ 64"
      "\<And>rest. read_acceptance (map Inr ps @ rest) (h_transport h) (chunks (h_layout h)) (payload_bytes (h_layout h))
        (h_report_interval h) = Inr (answer, rest)"
    and m: "\<forall>x. m = Some x \<longrightarrow> wf_manifest sha x"
  defines "sa \<equiv> derive_session sha key (transcript challenge (format_hello h) nonce)"
    and "msgs \<equiv> case m of None \<Rightarrow> [] | Some x \<Rightarrow> manifest_messages x"
  shows "open_transfer sha key h m (server_lines sha key challenge nonce (format_hello h)
        @ frames sha (new_control sa ServerToClient) ps @ bs, e)
      = (client_lines sha key challenge nonce (format_hello h) @ frames sha (new_control sa ClientToServer) msgs,
         Inr (sa, answer, (new_control sa ClientToServer)\<lparr>seqno := length msgs\<rparr>,
           (new_control sa ServerToClient)\<lparr>seqno := length ps\<rparr>, (bs, e)))"
proof -
  have n: "length msgs < 2 ^ 64"
    using m by (auto simp: msgs_def manifest_messages_def encode_lines wf_manifest_def CDC_MAX_CHUNKS_def split: option.splits)
  have s: "\<forall>p\<in>set msgs. sendable_line p"
    using m sendable_manifest by (auto simp: msgs_def split: option.splits)
  have w: "write_lines sha (new_control sa ClientToServer) msgs
      = (frames sha (new_control sa ClientToServer) msgs, Inr ((new_control sa ClientToServer)\<lparr>seqno := length msgs\<rparr>))"
    using send_frames(2) [OF s, of "new_control sa ClientToServer" sha] n by (simp add: new_control_def)
  have a: "read_from sha (\<lambda>inb. read_acceptance inb (h_transport h) (chunks (h_layout h)) (payload_bytes (h_layout h))
        (h_report_interval h)) (new_control sa ServerToClient) (frames sha (new_control sa ServerToClient) ps @ bs, e)
      = Inr (answer, (new_control sa ServerToClient)\<lparr>seqno := length ps\<rparr>, (bs, e))"
    using read_from_frames [OF answers(1) _ answers(3), of "new_control sa ServerToClient" sha bs e] answers(2)
    by (simp add: new_control_def)
  show ?thesis
    using w a by (simp add: open_transfer_def client_handshake_honest [OF l] sa_def msgs_def attempt_def)
qed

text \<open>The receiver reads the greeting and the manifest of an honest sender.\<close>

lemma receive_on_honest:
  fixes key :: bytes
  assumes l: "length challenge = 32" "length nonce = 32"
    and h: "wf_hello h" "h_hash h = hex d"
    and m: "case m of None \<Rightarrow> h_reuse h = None
      | Some x \<Rightarrow> wf_manifest sha x \<and> length (encode x) \<le> MAX_ENCODED_BYTES \<and> m_size x = size (h_layout h)
          \<and> h_reuse h = Some (length (m_chunks x), m_hash x)"
  defines "sa \<equiv> derive_session sha key (transcript challenge (format_hello h) nonce)"
    and "msgs \<equiv> case m of None \<Rightarrow> [] | Some x \<Rightarrow> manifest_messages x"
  shows "receive_on sha key challenge nonce pid dest oi (client_lines sha key challenge nonce (format_hello h)
        @ frames sha (new_control sa ClientToServer) msgs @ bs, e) w
      = (server_lines sha key challenge nonce (format_hello h),
         receive_negotiated sha pid dest oi sa (h\<lparr>h_session := session sa\<rparr>)
           (m, (new_control sa ClientToServer)\<lparr>seqno := length msgs\<rparr>, (bs, e)) w)"
proof -
  have n: "length msgs < 2 ^ 64"
    using m by (auto simp: msgs_def manifest_messages_def encode_lines wf_manifest_def CDC_MAX_CHUNKS_def split: option.splits)
  have s: "\<forall>p\<in>set msgs. sendable_line p"
    using m sendable_manifest by (auto simp: msgs_def split: option.splits)
  have "read_reuse_manifest sha (map Inr msgs @ rest) h = Inr (m, rest)" for rest
  proof (cases m)
    case None
    then show ?thesis using m by (simp add: msgs_def read_reuse_manifest_def)
  next
    case (Some x)
    then show ?thesis using m by (simp add: msgs_def read_reuse_manifest_messages)
  qed
  from read_from_frames [OF s _ this, of "new_control sa ClientToServer" sha bs e] n
  have r: "read_from sha (\<lambda>inb. read_reuse_manifest sha inb h) (new_control sa ClientToServer)
      (frames sha (new_control sa ClientToServer) msgs @ bs, e)
    = Inr (m, (new_control sa ClientToServer)\<lparr>seqno := length msgs\<rparr>, (bs, e))"
    by (simp add: new_control_def)
  show ?thesis
    using r by (simp add: receive_on_def server_handshake_honest [OF l hello_line [OF h]] parse_format_hello [OF h] sa_def
        receive_greeted_def bindM_def lift_def)
qed

section \<open>What a receiver says\<close>

text \<open>A successful run sends exactly these messages.\<close>

definition says :: "'a io \<Rightarrow> string list \<Rightarrow> bool" where
  "says m ps \<longleftrightarrow> (\<forall>w x w'. m w = (Inr x, w') \<longrightarrow> sent w' = sent w @ ps)"

named_theorems says_intros

lemma says_bind: "says m ps \<Longrightarrow> (\<And>x. says (f x) qs) \<Longrightarrow> says (bindM m f) (ps @ qs)"
  by (fastforce simp: says_def bindM_def split: prod.splits sum.splits)

lemma says_silent [says_intros]: "says m [] \<Longrightarrow> (\<And>x. says (f x) qs) \<Longrightarrow> says (bindM m f) qs"
  using says_bind [of m "[]" f qs] by simp

lemma says_call: "says body ps \<Longrightarrow> says (call body) ps"
  by (auto simp: says_def call_def split: list.splits fault.splits if_splits)

lemma says_basic [says_intros]: "says (ret x) []" "says (throw e) ps" "says (lift r) []"
  by (simp_all add: says_def ret_def throw_def lift_def)

lemma says_send: "says (send_control p) [p]"
  unfolding send_control_def by (simp add: says_basic) (intro impI says_call, simp add: says_def)

lemma says_system [says_intros]:
  "says (open_file p) []" "says (create_file p) []" "says (sync_file i) []" "says (rename_file p q) []" "says create_parent []"
  "says (read_file i) []"
  unfolding open_file_def create_file_def sync_file_def rename_file_def create_parent_def read_file_def Let_def
  by (rule says_call; auto simp: says_def set_inode_def set_names_def split: option.splits)+

lemma says_write [says_intros]: "says (write_file i off bs) []" "says (append_file i bs) []"
proof -
  show w: "says (write_file i off bs) []" for off bs
    by (auto simp: says_def set_inode_def elim!: write_file_cases)
  show "says (append_file i bs) []" using w by (simp add: says_def append_file_def)
qed

lemma says_tcp_loop [says_intros]: "says (receive_tcp_loop os i remaining hashed inp) []"
proof (induction os i remaining hashed inp rule: receive_tcp_loop.induct)
  case (1 os i remaining hashed inp)
  show ?case by (subst receive_tcp_loop.simps) (use 1 in \<open>auto intro!: says_intros\<close>)
qed

lemma says_tcp: "says (receive_tcp sha os temporary dest h inp reply) [''COMPLETE'']"
proof -
  have "says (bindM (lift reply) (\<lambda>a. if a \<noteq> ''COMPLETE_ACK''
      then throw (Err (''expected completion acknowledgement, got '' @ a)) else ret ())) []"
    by (auto intro!: says_intros)
  then have w: "says (send_completion_and_wait reply) [''COMPLETE'']"
    unfolding send_completion_and_wait_def using says_bind [OF says_send, where qs = "[]"] by fastforce
  have "says (bindM (send_control e) (\<lambda>_. throw x :: unit io)) [''COMPLETE'']" for e x
    by (auto simp: says_def bindM_def throw_def split: prod.splits sum.splits)
  then have "says (verify_and_install msg a x temporary dest reply) [''COMPLETE'']" for msg a x
    using w by (auto simp: verify_and_install_def install_file_def intro!: says_intros)
  then show ?thesis unfolding receive_tcp_def by (intro says_intros)
qed

section \<open>A TCP transfer from end to end\<close>

text \<open>What \<open>send\<close> finds when it reads the file \<open>f\<close> and nothing fails.\<close>

definition reads_file :: "(bytes \<Rightarrow> 256 word) \<Rightarrow> send_inputs \<Rightarrow> bytes \<Rightarrow> bool" where
  "reads_file sha si f \<longleftrightarrow> s_metadata si = Inr (length f) \<and> s_hashed si = Inr (hex_digest (digest sha f))
     \<and> s_connect si = Inr () \<and> s_file si = f \<and> steady (s_os si) \<and> open_outlet (s_write si)"

lemma ready_accepted:
  "t \<noteq> Udp \<Longrightarrow> read_acceptance (map Inr [ready_line p i] @ rest) t n p i
    = Inr (\<lparr>durable_chunks = [], a_complete = False, a_telemetry = default_telemetry, reused_bytes = 0, reused_chunks = 0\<rparr>, rest)"
  using ready_not_complete [of p i] by (simp add: read_acceptance_def ready_line_def starts_with_def)

lemma send_hello_wf:
  assumes "sane_tuning a" "is_u64 n" "div_ceil n (sa_payload_bytes a) \<le> max_chunks" "length d = 32" "length offered = 16"
    "case reuse of None \<Rightarrow> True | Some (k, m) \<Rightarrow> k \<le> CDC_MAX_CHUNKS \<and> length m = 32 \<and> sa_transport a = Udp"
    "sa_repair_cooldown a \<le> 120001"
  shows "wf_hello (send_hello a n (hex d) offered reuse)"
  using send_hello_accepted [OF assms(1-6)] assms(7) parse_hello_wf by blast

lemma calm_parent: "calm w \<Longrightarrow> create_parent w = (Inr (), w)"
  by (simp add: create_parent_def call_calm)

lemma sendable_sendable: "sendable_line p \<Longrightarrow> sendable p"
  by (simp add: sendable_line_def sendable_def wire_line_def)

lemma receive_tcp_honest:
  assumes w: "untouched dest old w" "calm w" and os: "steady (o_os oi)" and h: "h_transport h = Tcp"
      "length f = size (h_layout h)" "h_hash h = hex_digest (digest sha f)"
      "is_u64 (payload_bytes (h_layout h))" "is_u64 (h_report_interval h)"
    and r: "control_recv sha reader (later, e) = Inr (''COMPLETE_ACK'', x)"
  shows "\<exists>w'. receive_negotiated sha pid dest oi sa h (None, reader, (f @ later, e)) w = (Inr None, w')
    \<and> seen dest w' = Some f \<and> sent w' = sent w @ [ready_line (payload_bytes (h_layout h)) (h_report_interval h), ''COMPLETE'']"
proof -
  let ?ready = "ready_line (payload_bytes (h_layout h)) (h_report_interval h)" and ?t = "temporary_path pid dest"
  let ?reply = "next_reply sha reader (drop (size (h_layout h)) (f @ later), e)"
  have reply: "?reply = Inr ''COMPLETE_ACK''" using r h(2) by (simp add: next_reply_def)
  have p: "create_parent w = (Inr (), w)" using w(2) by (rule calm_parent)
  let ?w1 = "w\<lparr>sent := sent w @ [?ready]\<rparr>"
  have s: "send_control ?ready w = (Inr (), ?w1)"
    using sendable_sendable [OF sendable_ready [OF h(4,5)]] w(2) by (simp add: send_calm)
  have u: "untouched dest old ?w1" "calm ?w1"
    using w ready_not_complete [symmetric] by (simp_all add: untouched_def linkless_def seen_def quiet_def)
  obtain w' where w': "receive_tcp sha (o_os oi) ?t dest h (f @ later, e) ?reply ?w1 = (Inr (), w')" "seen dest w' = Some f"
    using runs_reaches [OF receive_tcp_runs [OF os temporary_differs _ h(2,3) reply, of "(f @ later, e)" later]
        receive_tcp_settles [OF temporary_differs] u(1) u] h(2) by (auto simp: replaced_def)
  have "sent w' = sent ?w1 @ [''COMPLETE'']" using says_tcp w'(1) unfolding says_def by blast
  then show ?thesis using p s w' h(1)
    by (auto simp: receive_negotiated_def receive_by_def bindM_def tryM_def ret_def Let_def)
qed

lemma tcp_transfer_agrees:
  fixes key :: bytes and a :: "('addr, 'z) send_args_scheme"
  assumes a: "sane_tuning a" "sa_transport a = Tcp" "\<not> sa_reuse_chunks a" "sa_repair_cooldown a \<le> 120001"
    and f: "is_u64 (length f)" "div_ceil (length f) (sa_payload_bytes a) \<le> max_chunks"
    and si: "reads_file sha si f" "s_session si = Inr offered" "length offered = 16"
    and l: "length challenge = 32" "length nonce = 32"
    and run: "steady (o_os oi)" "untouched dest old w" "calm w"
  defines "h \<equiv> send_hello a (length f) (hex_digest (digest sha f)) offered None"
  defines "sa \<equiv> derive_session sha key (transcript challenge (format_hello h) nonce)"
  defines "said \<equiv> [ready_line (sa_payload_bytes a) (sa_report_interval a), ''COMPLETE'']"
  defines "client \<equiv> client_lines sha key challenge nonce (format_hello h) @ f @ frames sha (new_control sa ClientToServer) [''COMPLETE_ACK'']"
  shows "send sha key a si (server_lines sha key challenge nonce (format_hello h) @ frames sha (new_control sa ServerToClient) said, e)
      = ([], (client, Inr Complete))"
    "\<exists>w'. receive_on sha key challenge nonce pid dest oi (client, e') w
        = (server_lines sha key challenge nonce (format_hello h), Inr None, w')
      \<and> seen dest w' = Some f \<and> sent w' = sent w @ said"
proof -
  let ?ready = "ready_line (sa_payload_bytes a) (sa_report_interval a)"
  let ?answer = "\<lparr>durable_chunks = [], a_complete = False, a_telemetry = default_telemetry, reused_bytes = 0, reused_chunks = 0\<rparr>"
  have d: "length (digest sha f) = 32" by simp
  have h: "wf_hello h" "h_hash h = hex (digest sha f)" "h_transport h = Tcp" "h_reuse h = None"
      "payload_bytes (h_layout h) = sa_payload_bytes a" "h_report_interval h = sa_report_interval a" "size (h_layout h) = length f"
    using send_hello_wf [OF a(1) f d si(3), of None] a(4) by (simp_all add: h_def hex_digest_eq) (simp_all add: send_hello_def a(2))
  have u: "is_u64 (sa_payload_bytes a)" "is_u64 (sa_report_interval a)" using a(1) by (simp_all add: sane_tuning_def is_u64_def)
  have prep: "prepare_send a si = Inr (h, None)"
    using si f(2) a(3) by (simp add: prepare_send_def reads_file_def Let_def h_def)
  have split: "frames sha (new_control sa ServerToClient) said
      = frames sha (new_control sa ServerToClient) [?ready]
        @ frames sha ((new_control sa ServerToClient)\<lparr>seqno := 1\<rparr>) [''COMPLETE'']"
    using frames_append [of "[?ready]" "new_control sa ServerToClient" sha "[''COMPLETE'']"] sendable_ready [OF u]
    by (simp add: said_def new_control_def)
  have op: "open_transfer sha key h None (server_lines sha key challenge nonce (format_hello h)
        @ frames sha (new_control sa ServerToClient) said, e)
      = (client_lines sha key challenge nonce (format_hello h), Inr (sa, ?answer, new_control sa ClientToServer,
           (new_control sa ServerToClient)\<lparr>seqno := 1\<rparr>,
           (frames sha ((new_control sa ServerToClient)\<lparr>seqno := 1\<rparr>) [''COMPLETE''], e)))"
    using open_transfer_honest [OF l, of "[?ready]" h ?answer None sha key
        "frames sha ((new_control sa ServerToClient)\<lparr>seqno := 1\<rparr>) [''COMPLETE'']" e]
      sendable_ready [OF u] ready_accepted [of Tcp] h
    by (simp add: split sa_def [symmetric]) (simp add: new_control_def frames_def)
  have ack: "control_send sha (new_control sa ClientToServer) ''COMPLETE_ACK''
      = (frames sha (new_control sa ClientToServer) [''COMPLETE_ACK''], Inr ((new_control sa ClientToServer)\<lparr>seqno := 1\<rparr>))"
    using control_send_frames [OF sendable_word(2), of "new_control sa ClientToServer" sha] by (simp add: new_control_def)
  have fin: "control_recv sha ((new_control sa ServerToClient)\<lparr>seqno := 1\<rparr>)
      (frames sha ((new_control sa ServerToClient)\<lparr>seqno := 1\<rparr>) [''COMPLETE''], e)
      = Inr (''COMPLETE'', (new_control sa ServerToClient)\<lparr>seqno := Suc 1\<rparr>, ([], e))"
    using control_recv_frames [OF sendable_word(1), of "(new_control sa ServerToClient)\<lparr>seqno := 1\<rparr>" sha "[]" e]
    by simp
  have exp: "expect_completion sha ((new_control sa ServerToClient)\<lparr>seqno := 1\<rparr>) (new_control sa ClientToServer)
      (frames sha ((new_control sa ServerToClient)\<lparr>seqno := 1\<rparr>) [''COMPLETE''], e)
      = (frames sha (new_control sa ClientToServer) [''COMPLETE_ACK''], Inr ((new_control sa ClientToServer)\<lparr>seqno := 1\<rparr>))"
    unfolding expect_completion_def fin attempt_def by (simp add: ack)
  have data: "send_tcp (s_os si) (s_write si) (s_file si) = (f, Inr ())"
    using si(1) send_tcp_runs by (simp add: reads_file_def)
  show "send sha key a si (server_lines sha key challenge nonce (format_hello h) @ frames sha (new_control sa ServerToClient) said, e)
      = ([], (client, Inr Complete))"
    unfolding send_def prep by (simp only: op send_open_def exp data a(2) sum.case prod.case transport.case Let_def) (simp add: client_def)
  have r: "control_recv sha (new_control sa ClientToServer) (frames sha (new_control sa ClientToServer) [''COMPLETE_ACK''], e')
      = Inr (''COMPLETE_ACK'', (new_control sa ClientToServer)\<lparr>seqno := 1\<rparr>, ([], e'))"
    using control_recv_frames [OF sendable_word(2), of "new_control sa ClientToServer" sha "[]" e'] by (simp add: new_control_def)
  let ?h = "h\<lparr>h_session := session sa\<rparr>"
  have "receive_on sha key challenge nonce pid dest oi (client, e') w
      = (server_lines sha key challenge nonce (format_hello h), receive_negotiated sha pid dest oi sa ?h
          (None, new_control sa ClientToServer, (f @ frames sha (new_control sa ClientToServer) [''COMPLETE_ACK''], e')) w)"
    using receive_on_honest [OF l h(1,2), where m = None and sha = sha and key = key and pid = pid and dest = dest and oi = oi
        and bs = "f @ frames sha (new_control sa ClientToServer) [''COMPLETE_ACK'']" and e = e' and w = w] h(4)
    by (simp add: sa_def [symmetric] client_def frames_def) (simp add: new_control_def)
  moreover have "\<exists>w'. receive_negotiated sha pid dest oi sa ?h
        (None, new_control sa ClientToServer, (f @ frames sha (new_control sa ClientToServer) [''COMPLETE_ACK''], e')) w = (Inr None, w')
      \<and> seen dest w' = Some f \<and> sent w' = sent w @ [ready_line (payload_bytes (h_layout ?h)) (h_report_interval ?h), ''COMPLETE'']"
    by (rule receive_tcp_honest [OF run(2,3,1) _ _ _ _ _ r]) (use h u in \<open>simp_all add: hex_digest_eq\<close>)
  ultimately show "\<exists>w'. receive_on sha key challenge nonce pid dest oi (client, e') w
        = (server_lines sha key challenge nonce (format_hello h), Inr None, w')
      \<and> seen dest w' = Some f \<and> sent w' = sent w @ said"
    using h by (auto simp: said_def)
qed

section \<open>The negotiation of a UDP transfer\<close>

text \<open>The manifest that \<open>send\<close> announces for the file, when it announces one.\<close>

definition announces :: "(bytes \<Rightarrow> 256 word) \<Rightarrow> ('addr, 'z) send_args_scheme \<Rightarrow> send_inputs \<Rightarrow> bytes \<Rightarrow> manifest option \<Rightarrow> bool" where
  "announces sha a si f m \<longleftrightarrow> (case m of None \<Rightarrow> \<not> sa_reuse_chunks a
     | Some x \<Rightarrow> sa_reuse_chunks a \<and> s_scanned si = Inr x \<and> wf_manifest sha x \<and> length (encode x) \<le> MAX_ENCODED_BYTES
         \<and> m_size x = length f)"

lemma length_inventory_lines: "length (inventory_lines bm) \<le> length bm"
proof -
  have "length (concat (map (\<lambda>(i, w). if w \<noteq> 0 then [word_line i w] else []) (enumerate k bm))) \<le> length bm" for k
    by (induction bm arbitrary: k) (auto intro: le_SucI)
  then show ?thesis by (simp add: inventory_lines_def)
qed

lemma udp_negotiation_agrees:
  fixes key :: bytes and a :: "('addr, 'z) send_args_scheme"
  assumes a: "sane_tuning a" "sa_transport a = Udp" "sa_repair_cooldown a \<le> 120001"
    and f: "is_u64 (length f)" "div_ceil (length f) (sa_payload_bytes a) \<le> max_chunks"
    and si: "reads_file sha si f" "s_session si = Inr offered" "length offered = 16" "announces sha a si f m"
    and l: "length challenge = 32" "length nonce = 32"
  defines "h \<equiv> send_hello a (length f) (hex_digest (digest sha f)) offered (map_option (\<lambda>x. (length (m_chunks x), m_hash x)) m)"
  defines "sa \<equiv> derive_session sha key (transcript challenge (format_hello h) nonce)"
  defines "msgs \<equiv> case m of None \<Rightarrow> [] | Some x \<Rightarrow> manifest_messages x"
  defines "client \<equiv> client_lines sha key challenge nonce (format_hello h) @ frames sha (new_control sa ClientToServer) msgs"
  assumes bm: "wf_bitmap (chunks (h_layout h)) bm" "rb \<le> chunks (h_layout h) * sa_payload_bytes a" "rc \<le> count_received bm"
  shows "send sha key a si (server_lines sha key challenge nonce (format_hello h) @ frames sha (new_control sa ServerToClient)
        (answer_lines (sa_payload_bytes a) (sa_report_interval a) rb rc bm) @ bs, e)
      = ([], (client, Inr (Streaming \<lparr>f_layout = h_layout h, f_auth = sa, f_durable = bm, f_adaptive = (sa_rate a = None),
          f_sha = sha, f_file = f\<rparr>)))"
    "receive_on sha key challenge nonce pid dest oi (client @ cs, e') w
      = (server_lines sha key challenge nonce (format_hello h), receive_negotiated sha pid dest oi sa (h\<lparr>h_session := session sa\<rparr>)
          (m, (new_control sa ClientToServer)\<lparr>seqno := length msgs\<rparr>, (cs, e')) w)"
proof -
  let ?ps = "answer_lines (sa_payload_bytes a) (sa_report_interval a) rb rc bm"
  let ?answer = "\<lparr>durable_chunks = bm, a_complete = False, a_telemetry = default_telemetry, reused_bytes = rb, reused_chunks = rc\<rparr>"
  have m: "\<forall>x. m = Some x \<longrightarrow> wf_manifest sha x" using si(4) by (auto simp: announces_def)
  have r: "case map_option (\<lambda>x. (length (m_chunks x), m_hash x)) m of None \<Rightarrow> True
      | Some (k, y) \<Rightarrow> k \<le> CDC_MAX_CHUNKS \<and> length y = 32 \<and> sa_transport a = Udp"
    using m a(2) by (cases m) (auto simp: wf_manifest_def)
  have d: "length (digest sha f) = 32" by simp
  have h: "wf_hello h" "h_hash h = hex (digest sha f)" "h_transport h = Udp"
      "h_reuse h = map_option (\<lambda>x. (length (m_chunks x), m_hash x)) m"
      "payload_bytes (h_layout h) = sa_payload_bytes a" "h_report_interval h = sa_report_interval a" "size (h_layout h) = length f"
    using send_hello_wf [OF a(1) f d si(3) r a(3)] by (simp_all add: h_def hex_digest_eq) (simp_all add: send_hello_def a(2))
  have wl: "wf_layout (h_layout h)" using h(1) by (simp add: wf_hello_def)
  have n: "chunks (h_layout h) \<le> max_chunks" "sa_payload_bytes a \<le> 1424" "sa_report_interval a \<le> 10000"
    using wl a(1) by (simp_all add: wf_layout_def sane_tuning_def)
  have "chunks (h_layout h) * sa_payload_bytes a \<le> max_chunks * 1424" using n by (intro mult_le_mono) simp_all
  then have rb: "is_u64 rb" using bm(2) by (simp add: is_u64_def max_chunks_def)
  have len: "length bm = div_ceil (chunks (h_layout h)) 64" using bm(1) by (simp add: wf_bitmap_iff)
  moreover have "div_ceil (chunks (h_layout h)) 64 \<le> chunks (h_layout h)"
    using div_ceil_le_iff [of 64 "chunks (h_layout h)" "chunks (h_layout h)"] by simp
  ultimately have lb: "length bm \<le> 2 ^ 29" using n(1) by (simp add: max_chunks_def)
  have "received_set bm \<subseteq> {..<chunks (h_layout h)}" using bm(1) by (simp add: wf_bitmap_def)
  then have "count_received bm \<le> chunks (h_layout h)"
    using card_mono [of "{..<chunks (h_layout h)}" "received_set bm"] by (simp add: count_received_card)
  then have rc: "is_u64 rc" using bm(3) n(1) by (simp add: is_u64_def max_chunks_def)
  have s: "\<forall>p\<in>set ?ps. sendable_line p"
    by (rule sendable_answer) (use n rb rc lb in \<open>simp_all add: is_u64_def\<close>)
  have short: "length ?ps < 2 ^ 64" using lb length_inventory_lines [of bm] by (simp add: answer_lines_def)
  have ans: "read_acceptance (map Inr ?ps @ rest) (h_transport h) (chunks (h_layout h)) (payload_bytes (h_layout h))
      (h_report_interval h) = Inr (?answer, rest)" for rest
    using read_acceptance_answer [OF bm(1) wl, of "sa_report_interval a" rb rc rest] bm(2,3) n(3) h by (simp add: is_u64_def)
  have prep: "prepare_send a si = Inr (h, m)"
    using si f(2) by (cases m) (simp_all add: prepare_send_def reads_file_def announces_def Let_def h_def)
  show "send sha key a si (server_lines sha key challenge nonce (format_hello h) @ frames sha (new_control sa ServerToClient) ?ps @ bs, e)
      = ([], (client, Inr (Streaming \<lparr>f_layout = h_layout h, f_auth = sa, f_durable = bm, f_adaptive = (sa_rate a = None),
          f_sha = sha, f_file = f\<rparr>)))"
    using open_transfer_honest [OF l s short ans m, where key = key and bs = bs and e = e] a(2) si(1)
    by (simp add: send_def prep sa_def [symmetric] msgs_def [symmetric] send_open_def client_def reads_file_def)
  have "case m of None \<Rightarrow> h_reuse h = None
      | Some x \<Rightarrow> wf_manifest sha x \<and> length (encode x) \<le> MAX_ENCODED_BYTES \<and> m_size x = size (h_layout h)
          \<and> h_reuse h = Some (length (m_chunks x), m_hash x)"
    using si(4) h by (cases m) (simp_all add: announces_def)
  from receive_on_honest [OF l h(1,2) this, where key = key and pid = pid and dest = dest and oi = oi and bs = cs and e = e' and w = w]
  show "receive_on sha key challenge nonce pid dest oi (client @ cs, e') w
      = (server_lines sha key challenge nonce (format_hello h), receive_negotiated sha pid dest oi sa (h\<lparr>h_session := session sa\<rparr>)
          (m, (new_control sa ClientToServer)\<lparr>seqno := length msgs\<rparr>, (cs, e')) w)"
    by (simp add: client_def sa_def msgs_def)
qed

text \<open>And from there to the file, when nothing is disturbed and no content is reused.\<close>

lemma receive_udp_honest:
  assumes w: "calm w" "crash_safe dest (h_layout h) (digest sha f) (sent_by (h_layout h) f) w" "history w = [names w]" "quiet w"
      "reopenable dest (h_layout h) (digest sha f) 6 w" "\<not> has_hash sha dest h w"
    and h: "wf_hello h" "h_transport h = Udp" "length f = size (h_layout h)" "h_hash h = hex_digest (digest sha f)"
    and oi: "o_reuse_from oi = None" "steady (u_os (o_udp oi))" "length (u_ticks (o_udp oi)) < 2 ^ 64"
      "\<forall>tk\<in>set (u_ticks (o_udp oi)). undisturbed tk \<and> tick_ok sha sa (h_layout h) (sent_by (h_layout h) f) tk"
      "{..<chunks (h_layout h)} \<subseteq> (\<Union>tk\<in>set (u_ticks (o_udp oi)). carried sha sa (h_layout h) tk)"
      "\<exists>tk\<in>set (u_ticks (o_udp oi)). End \<in> set (t_events tk)"
  shows "\<exists>t w'. receive_negotiated sha pid dest oi sa h (m, reader, stream) w = (Inr (Some (Done t)), w')
    \<and> ''COMPLETE'' \<in> set (sent w') \<and> seen dest w' = Some f"
proof -
  let ?inp = "(o_udp oi)\<lparr>u_reply := next_reply sha reader stream, u_reuse := None\<rparr>"
  obtain t w' i where r: "receive_udp sha pid sa dest h ?inp w = (Inr (Done t), w')" "''COMPLETE'' \<in> set (sent w')" "installed dest i f w'"
    using receive_udp_completes [OF w h(1,3,4), of ?inp sa pid] oi by auto
  have "receive_negotiated sha pid dest oi sa h (m, reader, stream) w = (Inr (Some (Done t)), w')"
    using r(1) calm_parent [OF w(1)] h(2) oi(1)
    by (simp add: receive_negotiated_def receive_by_def bindM_def tryM_def ret_def Let_def split: option.split)
  then show ?thesis using r(2,3) by (auto simp: installed_def seen_def)
qed

lemma wf_hello_session: "wf_hello h \<Longrightarrow> length sid = 16 \<Longrightarrow> wf_hello (h\<lparr>h_session := sid\<rparr>)"
  by (simp add: wf_hello_def cong: option.case_cong)

lemma udp_transfer_delivers:
  fixes key :: bytes and a :: "('addr, 'z) send_args_scheme"
  assumes a: "sane_tuning a" "sa_transport a = Udp" "sa_repair_cooldown a \<le> 120001"
    and f: "is_u64 (length f)" "div_ceil (length f) (sa_payload_bytes a) \<le> max_chunks"
    and si: "reads_file sha si f" "s_session si = Inr offered" "length offered = 16" "announces sha a si f m"
    and l: "length challenge = 32" "length nonce = 32"
  defines "h \<equiv> send_hello a (length f) (hex_digest (digest sha f)) offered (map_option (\<lambda>x. (length (m_chunks x), m_hash x)) m)"
  defines "sa \<equiv> derive_session sha key (transcript challenge (format_hello h) nonce)"
  defines "msgs \<equiv> case m of None \<Rightarrow> [] | Some x \<Rightarrow> manifest_messages x"
  defines "client \<equiv> client_lines sha key challenge nonce (format_hello h) @ frames sha (new_control sa ClientToServer) msgs"
  assumes w: "calm w" "crash_safe dest (h_layout h) (digest sha f) (sent_by (h_layout h) f) w" "history w = [names w]" "quiet w"
      "reopenable dest (h_layout h) (digest sha f) 6 w" "\<not> has_hash sha dest h w"
    and oi: "o_reuse_from oi = None" "steady (u_os (o_udp oi))" "length (u_ticks (o_udp oi)) < 2 ^ 64"
      "\<forall>tk\<in>set (u_ticks (o_udp oi)). undisturbed tk \<and> tick_ok sha sa (h_layout h) (sent_by (h_layout h) f) tk"
      "{..<chunks (h_layout h)} \<subseteq> (\<Union>tk\<in>set (u_ticks (o_udp oi)). carried sha sa (h_layout h) tk)"
      "\<exists>tk\<in>set (u_ticks (o_udp oi)). End \<in> set (t_events tk)"
  shows "\<exists>t w'. receive_on sha key challenge nonce pid dest oi (client @ cs, e) w
        = (server_lines sha key challenge nonce (format_hello h), Inr (Some (Done t)), w')
      \<and> ''COMPLETE'' \<in> set (sent w') \<and> seen dest w' = Some f"
proof -
  let ?h = "h\<lparr>h_session := session sa\<rparr>"
  have bm: "wf_bitmap (chunks (h_layout h)) (replicate (div_ceil (chunks (h_layout h)) 64) 0)" by (rule wf_bitmap_zero)
  note n = udp_negotiation_agrees(2) [OF a f si l, where key = key, folded h_def, folded sa_def msgs_def, folded client_def,
      OF bm le0 le0, where pid = pid and dest = dest and oi = oi and cs = cs and e' = e and w = w]
  have "length (session sa) = 16" by (simp add: sa_def derive_session_def Let_def)
  moreover have m: "case map_option (\<lambda>x. (length (m_chunks x), m_hash x)) m of None \<Rightarrow> True
      | Some (k, y) \<Rightarrow> k \<le> CDC_MAX_CHUNKS \<and> length y = 32 \<and> sa_transport a = Udp"
    using si(4) a(2) by (cases m) (auto simp: announces_def wf_manifest_def)
  have "wf_hello h" using send_hello_wf [OF a(1) f length_digest si(3) m a(3)] by (simp add: h_def hex_digest_eq)
  ultimately have "wf_hello ?h" by (rule wf_hello_session [rotated])
  moreover have "h_transport ?h = Udp" "length f = size (h_layout ?h)" "h_hash ?h = hex_digest (digest sha f)"
    by (simp_all add: h_def send_hello_def a(2))
  ultimately have h: "wf_hello ?h" "h_transport ?h = Udp" "length f = size (h_layout ?h)" "h_hash ?h = hex_digest (digest sha f)"
    by blast+
  have "\<exists>t w'. receive_negotiated sha pid dest oi sa ?h (m, (new_control sa ClientToServer)\<lparr>seqno := length msgs\<rparr>, (cs, e)) w
      = (Inr (Some (Done t)), w') \<and> ''COMPLETE'' \<in> set (sent w') \<and> seen dest w' = Some f"
    by (rule receive_udp_honest [OF w(1) _ w(3,4) _ _ h oi(1-3)]) (use w oi in simp_all)
  then show ?thesis using n by auto
qed

end
