(* ===== verification/Key_File.thy ===== *)
theory Key_File
  imports File_Tree
begin

text \<open>
  The secret (\<open>SecretKey\<close> in \<open>src/auth.rs\<close>): \<open>keygen\<close> creates the key file, \<open>load\<close> reads it.  The
  bytes of \<open>/dev/urandom\<close> are an argument.  The umask of the process is taken to leave the mode 600
  (octal, 384) as it is; it could only remove permissions.
\<close>

definition key_generate :: "bytes result \<Rightarrow> path \<Rightarrow> unit fio" where
  "key_generate random p =
     bindM (lift random) (\<lambda>key.
     bindM (fs_create_new p 384) (\<lambda>_.
     bindM (fs_write p key) (\<lambda>_.
     fs_sync)))"

text \<open>What \<open>load\<close> makes of the object at the path (that is not a link).\<close>

definition key_load :: "objects \<Rightarrow> path \<Rightarrow> bytes result" where
  "key_load t p =
     (case t p of
        Some (File_obj a c) \<Rightarrow> secret_key_load (Inr (of_nat (at_mode a))) (Inr c)
      | Some x \<Rightarrow> secret_key_load (Inr 0) (Inl (IoErr ''not a file''))
      | None \<Rightarrow> secret_key_load (Inl NotFound) (Inl NotFound))"

text \<open>The tree \<open>t0\<close> with at most a new private file at \<open>p\<close> that holds a beginning of the key.\<close>

definition key_written :: "path \<Rightarrow> bytes \<Rightarrow> nat \<Rightarrow> objects \<Rightarrow> objects \<Rightarrow> bool" where
  "key_written p key n t0 t \<longleftrightarrow> t0 p = None \<and> (\<exists>f s. t = added p f (File_obj \<lparr>at_mode = 384, at_mtime = s\<rparr> (take n key)) t0)"

lemma key_written_more:
  assumes "key_written p key n t0 t" "t p = Some (File_obj a c)"
  shows "key_written p key k t0 (t(p \<mapsto> File_obj (a\<lparr>at_mtime := s\<rparr>) (take k key)))"
proof -
  from assms(1) obtain f s' where t0: "t0 p = None"
    and t: "t = added p f (File_obj \<lparr>at_mode = 384, at_mtime = s'\<rparr> (take n key)) t0"
    by (auto simp: key_written_def)
  have "a = \<lparr>at_mode = 384, at_mtime = s'\<rparr>" using assms(2) t by (simp add: added_def)
  then have "t(p \<mapsto> File_obj (a\<lparr>at_mtime := s\<rparr>) (take k key))
      = added p f (File_obj \<lparr>at_mode = 384, at_mtime = s\<rparr> (take k key)) t0"
    by (simp add: t added_def)
  then show ?thesis unfolding key_written_def using t0 by blast
qed

lemma on_key_generate:
  assumes d: "is_directory t0 (butlast p)" "p \<noteq> []" and r: "random = Inr key" "length key = 32"
  shows "triple (on (\<lambda>t. t = t0)) (key_generate random p) (\<lambda>_. on (key_written p key 32 t0))
    (on (\<lambda>t. t = t0 \<or> (\<exists>n. key_written p key n t0 t)))"
proof -
  let ?E = "\<lambda>t. t = t0 \<or> (\<exists>n. key_written p key n t0 t)"
  have c: "triple (on (\<lambda>t. t = t0)) (fs_create_new p 384) (\<lambda>_. on (key_written p key 0 t0)) (on ?E)"
    by (rule on_create_new_mode) (use d in \<open>auto simp: key_written_def\<close>)
  have w: "triple (on (key_written p key 0 t0)) (fs_write p key) (\<lambda>_. on (key_written p key 32 t0)) (on ?E)"
  proof (rule on_write_attrs [where c = "[]"])
    fix t a s k assume t: "key_written p key 0 t0 t"
    show "\<exists>a. t p = Some (File_obj a [])" using t by (auto simp: key_written_def added_def)
    show "?E t" using t by blast
    assume a: "t p = Some (File_obj a [])"
    show "key_written p key 32 t0 (t(p \<mapsto> File_obj (a\<lparr>at_mtime := s\<rparr>) ([] @ key)))"
      using key_written_more [OF t a, of 32 s] r(2) by simp
    show "?E (t(p \<mapsto> File_obj (a\<lparr>at_mtime := s\<rparr>) ([] @ take k key)))"
      using key_written_more [OF t a, of k s] by auto
  qed
  have s: "triple (on (key_written p key 32 t0)) fs_sync (\<lambda>_. on (key_written p key 32 t0)) (on ?E)"
    by (rule on_sync) auto
  have l: "triple (on (\<lambda>t. t = t0)) (lift random) (\<lambda>k. on (\<lambda>t. t = t0 \<and> k = key)) (on ?E)"
    by (rule triple_lift) (use r in \<open>auto elim: on_mono\<close>)
  have rest: "triple (on (\<lambda>t. t = t0 \<and> k = key)) (bindM (fs_create_new p 384) (\<lambda>_. bindM (fs_write p k) (\<lambda>_. fs_sync)))
      (\<lambda>_. on (key_written p key 32 t0)) (on ?E)" for k
  proof (cases "k = key")
    case True
    then show ?thesis using triple_bind [OF c triple_bind [OF w s]] by simp
  qed (simp add: triple_def on_def)
  show ?thesis unfolding key_generate_def by (rule triple_bind [OF l rest])
qed

text \<open>What is left at the path: nothing new, a complete key that \<open>load\<close> returns, or a beginning that
  \<open>load\<close> refuses.\<close>

lemma key_load_written:
  assumes "key_written p key n t0 t" "length key = 32"
  shows "key_load t p = (if 32 \<le> n then Inr key else Inl (Err ''key file must contain exactly 32 raw bytes''))"
proof -
  have "(384 :: 32 word) AND 63 = 0" by simp
  then show ?thesis using assms by (auto simp: key_written_def added_def key_load_def secret_key_load_def and_then_def)
qed

lemma key_generate_outcome:
  assumes t: "closed (object_at w)" "is_directory (object_at w) (butlast p)" "p \<noteq> []" "\<not> escaped w"
    and k: "\<forall>key. random = Inr key \<longrightarrow> length key = 32"
    and run: "key_generate random p w = (r, w')"
  shows "\<not> escaped w' \<and> (object_at w' = object_at w \<and> r \<noteq> Inr ()
    \<or> (\<exists>key n. random = Inr key \<and> key_written p key n (object_at w) (object_at w')
        \<and> (r = Inr () \<longrightarrow> key_load (object_at w') p = Inr key)
        \<and> (n < 32 \<longrightarrow> (\<exists>e. key_load (object_at w') p = Inl e))))"
proof (cases random)
  case (Inl e)
  then show ?thesis using run t(4) by (auto simp: key_generate_def bindM_def lift_def)
next
  case (Inr key)
  have w: "on (\<lambda>u. u = object_at w) w" using t by (simp add: on_def)
  have l: "length key = 32" using k Inr by simp
  note g = on_key_generate [OF t(2,3) Inr l]
  note load = key_load_written [OF _ l]
  show ?thesis
  proof (cases r)
    case (Inl e)
    then show ?thesis using triple_Inl [OF g w run [unfolded Inl]] Inr load by (fastforce simp: on_def)
  next
    case r: (Inr u)
    then show ?thesis using triple_Inr [OF g w run [unfolded r]] Inr load by (auto simp: on_def intro!: exI [of _ 32])
  qed
qed

end
