(* ===== verification/Json.thy ===== *)
theory Json
  imports Complex_Main Codec
begin

text \<open>
  The JSON lines that the program prints with format strings: how such a line is composed, a reader
  for them, and the theorem that the reader returns what was composed.  The format strings write no
  white space and no escapes, so the reader knows neither.  A number, \<open>true\<close>, \<open>false\<close> or \<open>null\<close> is a
  \<open>Plain\<close> text.
\<close>

section \<open>Composing\<close>

abbreviation quote :: char where
  "quote \<equiv> CHR 0x22"

text \<open>A text in quotation marks, and braces or brackets around parts separated by commas.\<close>

definition quoted :: "string \<Rightarrow> string" where
  "quoted s = quote # s @ [quote]"

definition object_text :: "(string \<times> string) list \<Rightarrow> string" where
  "object_text fs = ''{'' @ join_with (CHR '','') (map (\<lambda>(k, v). quoted k @ '':'' @ v) fs) @ ''}''"

definition array_text :: "string list \<Rightarrow> string" where
  "array_text vs = ''['' @ join_with (CHR '','') vs @ '']''"

datatype json = Plain string | Quoted string | Array "json list" | Object "(string \<times> json) list"

fun json_text :: "json \<Rightarrow> string" where
  "json_text (Plain s) = s"
| "json_text (Quoted s) = quoted s"
| "json_text (Array vs) = array_text (map json_text vs)"
| "json_text (Object fs) = object_text (map (\<lambda>(k, v). (k, json_text v)) fs)"

section \<open>Reading\<close>

definition plain_char :: "char \<Rightarrow> bool" where
  "plain_char c \<longleftrightarrow> is_ascii_digit c \<or> 97 \<le> ord c \<and> ord c \<le> 122 \<or> c = CHR ''-'' \<or> c = CHR ''.''"

text \<open>A value at the head of the text and the rest of the text.  Every call reads something or
  descends into an array, so twice the length is fuel enough.\<close>

fun read_value :: "nat \<Rightarrow> string \<Rightarrow> (json \<times> string) option"
  and read_elements :: "nat \<Rightarrow> string \<Rightarrow> (json list \<times> string) option"
  and read_members :: "nat \<Rightarrow> string \<Rightarrow> ((string \<times> json) list \<times> string) option" where
  "read_value 0 s = None"
| "read_value (Suc n) s =
     (case s of [] \<Rightarrow> None
      | c # cs \<Rightarrow>
         if c = quote then map_option (\<lambda>(a, r). (Quoted a, r)) (split_once quote cs)
         else if c = CHR ''['' then
           (if take 1 cs = '']'' then Some (Array [], tl cs) else map_option (\<lambda>(vs, r). (Array vs, r)) (read_elements n cs))
         else if c = CHR ''{'' then
           (if take 1 cs = ''}'' then Some (Object [], tl cs) else map_option (\<lambda>(fs, r). (Object fs, r)) (read_members n cs))
         else if plain_char c then Some (Plain (takeWhile plain_char s), dropWhile plain_char s)
         else None)"
| "read_elements 0 s = None"
| "read_elements (Suc n) s =
     (case read_value n s of
        Some (v, c # r) \<Rightarrow>
          if c = CHR '']'' then Some ([v], r)
          else if c = CHR '','' then map_option (\<lambda>(vs, r). (v # vs, r)) (read_elements n r)
          else None
      | _ \<Rightarrow> None)"
| "read_members 0 s = None"
| "read_members (Suc n) s =
     (case s of [] \<Rightarrow> None
      | q # s \<Rightarrow>
         if q \<noteq> quote then None
         else (case split_once quote s of
            Some (k, colon # s) \<Rightarrow>
              if colon \<noteq> CHR '':'' then None
              else (case read_value n s of
                 Some (v, c # r) \<Rightarrow>
                   if c = CHR ''}'' then Some ([(k, v)], r)
                   else if c = CHR '','' then map_option (\<lambda>(fs, r). ((k, v) # fs, r)) (read_members n r)
                   else None
               | _ \<Rightarrow> None)
          | _ \<Rightarrow> None))"

definition read_json :: "string \<Rightarrow> json option" where
  "read_json s = (case read_value (2 * length s) s of Some (v, []) \<Rightarrow> Some v | _ \<Rightarrow> None)"

text \<open>The texts that need no escapes.\<close>

definition plain_text :: "string \<Rightarrow> bool" where
  "plain_text s \<longleftrightarrow> s \<noteq> [] \<and> list_all plain_char s"

definition unescaped :: "string \<Rightarrow> bool" where
  "unescaped s \<longleftrightarrow> list_all (\<lambda>c. 32 \<le> ord c \<and> ord c < 127 \<and> c \<noteq> quote \<and> c \<noteq> CHR 0x5C) s"

fun wf_json :: "json \<Rightarrow> bool" where
  "wf_json (Plain s) = plain_text s"
| "wf_json (Quoted s) = unescaped s"
| "wf_json (Array vs) = list_all wf_json vs"
| "wf_json (Object fs) = list_all (\<lambda>(k, v). unescaped k \<and> wf_json v) fs"

lemma unescaped_quote: "unescaped s \<Longrightarrow> quote \<notin> set s"
  by (auto simp: unescaped_def list_all_iff)

lemma plain_head: "plain_text s \<Longrightarrow> plain_char (hd s) \<and> s \<noteq> []"
  by (cases s) (auto simp: plain_text_def)

lemma plain_char_simps [simp]: "plain_char (CHR '','') = False" "plain_char (CHR '']'') = False"
  "plain_char (CHR ''}'') = False" "plain_char quote = False" "plain_char (CHR ''['') = False" "plain_char (CHR ''{'') = False"
  by (simp_all add: plain_char_def is_ascii_digit_def)

text \<open>What follows a value does not continue a plain text.\<close>

definition ended :: "string \<Rightarrow> bool" where
  "ended s \<longleftrightarrow> s = [] \<or> \<not> plain_char (hd s)"

lemma ended_simps [simp]: "ended []" "ended (CHR '','' # s)" "ended (CHR '']'' # s)" "ended (CHR ''}'' # s)"
  by (simp_all add: ended_def)

lemma takeWhile_ended:
  assumes "list_all P s" "t = [] \<or> \<not> P (hd t)"
  shows "takeWhile P (s @ t) = s \<and> dropWhile P (s @ t) = t"
  using assms by (induction s) (cases t; auto)+

lemma read_plain:
  assumes "plain_text s" "ended t" "0 < n"
  shows "read_value n (s @ t) = Some (Plain s, t)"
proof -
  obtain k where n: "n = Suc k" using assms(3) by (cases n) auto
  obtain c cs where s: "s = c # cs" and c: "plain_char c" using plain_head [OF assms(1)] by (cases s) auto
  then have "c \<noteq> quote" "c \<noteq> CHR ''[''" "c \<noteq> CHR ''{''" by auto
  moreover have "takeWhile plain_char (s @ t) = s \<and> dropWhile plain_char (s @ t) = t"
    by (rule takeWhile_ended) (use assms in \<open>simp_all add: plain_text_def ended_def\<close>)
  ultimately show ?thesis using c unfolding n s by simp
qed

lemma read_elements_text:
  assumes "vs \<noteq> []"
    and "\<forall>v\<in>set vs. \<forall>n t. ended t \<longrightarrow> 2 * length (json_text v) \<le> n \<longrightarrow> read_value n (json_text v @ t) = Some (v, t)"
    and "2 * length (join_with (CHR '','') (map json_text vs)) < n"
  shows "read_elements n (join_with (CHR '','') (map json_text vs) @ CHR '']'' # t) = Some (vs, t)"
  using assms
proof (induction vs arbitrary: n)
  case (Cons v vs)
  obtain k where n: "n = Suc k" using Cons.prems by (cases n) auto
  show ?case
  proof (cases "vs = []")
    case True
    then show ?thesis using Cons.prems n by auto
  next
    case False
    then have j: "join_with (CHR '','') (map json_text (v # vs)) = json_text v @ CHR '','' # join_with (CHR '','') (map json_text vs)"
      by (simp add: join_with_Cons)
    have "read_elements k (join_with (CHR '','') (map json_text vs) @ CHR '']'' # t) = Some (vs, t)"
      by (rule Cons.IH) (use False Cons.prems(2,3) n j in auto)
    moreover have "2 * length (json_text v) \<le> k" using Cons.prems(3) unfolding j n by simp
    ultimately show ?thesis using Cons.prems(2) unfolding j n by simp
  qed
qed simp

lemma read_members_text:
  assumes "fs \<noteq> []" "\<forall>f\<in>set fs. unescaped (fst f)"
    and "\<forall>f\<in>set fs. \<forall>n t. ended t \<longrightarrow> 2 * length (json_text (snd f)) \<le> n
      \<longrightarrow> read_value n (json_text (snd f) @ t) = Some (snd f, t)"
    and "2 * length (join_with (CHR '','') (map (\<lambda>(k, v). quoted k @ '':'' @ json_text v) fs)) < n"
  shows "read_members n (join_with (CHR '','') (map (\<lambda>(k, v). quoted k @ '':'' @ json_text v) fs) @ CHR ''}'' # t)
    = Some (fs, t)"
  using assms
proof (induction fs arbitrary: n)
  case (Cons f fs)
  obtain x v where f: "f = (x, v)" by (cases f)
  obtain k where n: "n = Suc k" using Cons.prems by (cases n) auto
  have x: "split_once quote (x @ quote # u) = Some (x, u)" for u
    using split_once_append [OF unescaped_quote] Cons.prems(2) f by auto
  show ?case
  proof (cases "fs = []")
    case True
    then show ?thesis using Cons.prems n f by (auto simp: quoted_def x)
  next
    case False
    let ?g = "\<lambda>(k, v). quoted k @ '':'' @ json_text v"
    have j: "join_with (CHR '','') (map ?g (f # fs)) = quoted x @ '':'' @ json_text v @ CHR '','' # join_with (CHR '','') (map ?g fs)"
      using False f by (simp add: join_with_Cons)
    have "read_members k (join_with (CHR '','') (map ?g fs) @ CHR ''}'' # t) = Some (fs, t)"
      by (rule Cons.IH) (use False Cons.prems(2-4) n j in auto)
    moreover have "2 * length (json_text v) \<le> k" using Cons.prems(4) unfolding j n by simp
    ultimately show ?thesis using Cons.prems(3) f unfolding j n by (simp add: quoted_def x)
  qed
qed simp

lemma json_text_head: "wf_json v \<Longrightarrow> json_text v \<noteq> [] \<and> hd (json_text v) \<noteq> CHR '']'' \<and> hd (json_text v) \<noteq> CHR ''}''"
proof (cases v)
  case (Plain s)
  assume "wf_json v"
  then have "plain_char (hd s) \<and> s \<noteq> []" using plain_head Plain by simp
  moreover from this have "hd s \<noteq> CHR '']''" "hd s \<noteq> CHR ''}''" by auto
  ultimately show ?thesis using Plain by simp
qed (simp_all add: quoted_def array_text_def object_text_def)

lemma hd_join_with: "x \<noteq> [] \<Longrightarrow> hd (join_with c (x # xs)) = hd x \<and> join_with c (x # xs) \<noteq> []"
  by (cases xs) auto

lemma read_value_text:
  "wf_json v \<Longrightarrow> ended t \<Longrightarrow> 2 * length (json_text v) \<le> n \<Longrightarrow> read_value n (json_text v @ t) = Some (v, t)"
proof (induction v arbitrary: n t)
  case (Plain s)
  then show ?case using read_plain [of s t n] plain_head [of s] by (cases n) auto
next
  case (Quoted s)
  then obtain k where "n = Suc k" by (cases n) (auto simp: quoted_def)
  then show ?case using Quoted by (simp add: quoted_def split_once_append unescaped_quote)
next
  case (Array vs)
  then obtain k where n: "n = Suc k" by (cases n) (auto simp: array_text_def)
  show ?case
  proof (cases vs)
    case Nil
    then show ?thesis using n by (simp add: array_text_def)
  next
    case (Cons v ws)
    let ?j = "join_with (CHR '','') (map json_text vs)"
    have "hd ?j \<noteq> CHR '']'' \<and> ?j \<noteq> []"
      using json_text_head [of v] hd_join_with [of "json_text v"] Array.prems(1) Cons by simp
    then have h: "take 1 (?j @ CHR '']'' # t) \<noteq> '']''" by (cases ?j) auto
    have "read_elements k (?j @ CHR '']'' # t) = Some (vs, t)"
      by (rule read_elements_text) (use Array Cons n in \<open>auto simp: list_all_iff array_text_def\<close>)
    then show ?thesis using h n by (simp add: array_text_def)
  qed
next
  case (Object fs)
  then obtain k where n: "n = Suc k" by (cases n) (auto simp: object_text_def)
  have m: "map ((\<lambda>(k, v). quoted k @ '':'' @ v) \<circ> (\<lambda>(k, v). (k, json_text v))) fs = map (\<lambda>(k, v). quoted k @ '':'' @ json_text v) fs"
    by auto
  show ?case
  proof (cases fs)
    case Nil
    then show ?thesis using n by (simp add: object_text_def)
  next
    case (Cons f gs)
    let ?j = "join_with (CHR '','') (map (\<lambda>(k, v). quoted k @ '':'' @ json_text v) fs)"
    have "hd ?j \<noteq> CHR ''}'' \<and> ?j \<noteq> []"
      using hd_join_with [of "quoted (fst f) @ '':'' @ json_text (snd f)"] Cons by (cases f) (auto simp: quoted_def)
    then have h: "take 1 (?j @ CHR ''}'' # t) \<noteq> ''}''" by (cases ?j) auto
    have wf: "unescaped (fst f) \<and> wf_json (snd f)" if "f \<in> set fs" for f
      using Object.prems(1) that by (auto simp: list_all_iff)
    have IH: "read_value i (json_text (snd f) @ u) = Some (snd f, u)"
      if "f \<in> set fs" "ended u" "2 * length (json_text (snd f)) \<le> i" for f i u
      by (rule Object.IH [of f]) (use that wf in \<open>auto intro: snds.intros\<close>)
    have "read_members k (?j @ CHR ''}'' # t) = Some (fs, t)"
    proof (rule read_members_text)
      show "2 * length ?j < k" using Object.prems(3) n unfolding json_text.simps object_text_def map_map m by simp
    qed (use Cons wf IH in simp_all)
    then show ?thesis using h n unfolding json_text.simps object_text_def map_map m by simp
  qed
qed

theorem read_json_text: "wf_json v \<Longrightarrow> read_json (json_text v) = Some v"
  using read_value_text [of v "[]" "2 * length (json_text v)"] by (simp add: read_json_def)

interpretation json_codec: codec json_text "\<lambda>s. ok_or (read_json s) ''not a line of JSON''" wf_json
  by unfold_locales (simp add: read_json_text ok_or_def)

text \<open>A line of JSON is one line.\<close>

lemma unescaped_line: "unescaped s \<Longrightarrow> lf \<notin> set s"
proof
  assume "unescaped s" "lf \<in> set s"
  then have "32 \<le> ord lf" unfolding unescaped_def list_all_iff by blast
  then show False by simp
qed

lemma in_object_text: "x \<in> set (object_text fs) \<Longrightarrow> x \<in> {CHR ''{'', CHR ''}'', CHR '','', CHR '':'', quote}
    \<or> (\<exists>f\<in>set fs. x \<in> set (fst f) \<or> x \<in> set (snd f))"
  by (force simp: object_text_def quoted_def dest!: in_join_with)

lemma json_text_line: "wf_json v \<Longrightarrow> lf \<notin> set (json_text v)"
proof (induction v)
  case (Plain s)
  then show ?case by (auto simp: plain_text_def list_all_iff plain_char_def is_ascii_digit_def)
next
  case (Array vs)
  then show ?case by (auto simp: array_text_def list_all_iff dest!: in_join_with)
next
  case (Object fs)
  then show ?case by (fastforce simp: list_all_iff dest!: in_object_text dest: unescaped_line)
qed (auto simp: quoted_def dest: unescaped_line)

lemmas json_text_simps = json_text.simps list.map prod.case

end
