(* ===== verification/Results.thy ===== *)
theory Results
  imports Json Rate Cli Dir_Scan
begin

text \<open>
  What the program prints: the report of the rate controller (\<open>RateController::json\<close>), the result
  lines of \<open>send\<close>, \<open>receive_on\<close>, \<open>send_dir\<close> and \<open>receive_dir\<close>, and the manifests (\<open>print\<close> in
  \<open>cdc.rs\<close> and \<open>directory.rs\<close>); and two parts around it, the drop counter that the receiver looks up
  (\<open>udp_socket_drops\<close>) and the choice of the command (\<open>run\<close>), all in \<open>src/main.rs\<close>.  The printed lines
  are composed with \<open>Json\<close>; the lemmas read them back.
\<close>

section \<open>Decimal numbers\<close>

text \<open>The formats \<open>:.3\<close> and \<open>:.6\<close> of a finite \<open>f64\<close> round the number that it denotes to the nearest
  decimal, ties to even.\<close>

definition round_half_even :: "rat \<Rightarrow> int" where
  "round_half_even x =
     (let f = \<lfloor>x\<rfloor>; d = x - of_int f in if d < 1 / 2 \<or> d = 1 / 2 \<and> even f then f else f + 1)"

definition fixed_text :: "nat \<Rightarrow> rat \<Rightarrow> string" where
  "fixed_text n x =
     (let k = nat (round_half_even (abs x * 10 ^ n))
      in (if x < 0 then ''-'' else []) @ show_nat (k div 10 ^ n) @ ''.'' @ pad0 n (show_nat (k mod 10 ^ n)))"

lemma round_half_even_near: "\<bar>of_int (round_half_even x) - x\<bar> \<le> 1 / 2"
proof -
  let ?f = "\<lfloor>x\<rfloor>" and ?up = "x - of_int \<lfloor>x\<rfloor> < 1 / 2 \<or> x - of_int \<lfloor>x\<rfloor> = 1 / 2 \<and> even \<lfloor>x\<rfloor>"
  have f: "of_int ?f \<le> x" "x < of_int ?f + 1" by linarith+
  show ?thesis
  proof (cases ?up)
    case True
    moreover from this have "x - of_int ?f \<le> 1 / 2" by auto
    ultimately show ?thesis using f by (simp add: round_half_even_def Let_def)
  next
    case False
    then have "1 / 2 \<le> x - of_int ?f" by auto
    then have "\<bar>of_int ?f + 1 - x\<bar> \<le> 1 / 2" using f by (simp add: abs_le_iff)
    with False show ?thesis by (simp add: round_half_even_def Let_def)
  qed
qed

lemma round_half_even_nonneg: "0 \<le> x \<Longrightarrow> 0 \<le> round_half_even x"
  by (auto simp: round_half_even_def Let_def)

lemma digits_value_shift:
  "digits_value 10 a s = (case digits_value 10 0 s of None \<Rightarrow> None | Some v \<Rightarrow> Some (a * 10 ^ length s + v))"
proof (induction s arbitrary: a)
  case (Cons c s)
  show ?case
  proof (cases "to_digit 10 c")
    case (Some d)
    then show ?thesis using Cons.IH [of "10 * a + d"] Cons.IH [of d]
      by (auto simp: algebra_simps split: option.splits)
  qed simp
qed simp

lemma digits_value_pad0: "digits_value 10 0 (pad0 n (show_nat k)) = Some k"
proof -
  have "digits_value 10 0 (replicate m (CHR ''0'')) = Some 0" for m
    by (induction m) (simp_all add: to_digit_def)
  then show ?thesis by (simp add: pad0_def digits_value_append show_nat_def digits_value_show_radix)
qed

lemma length_pad0: "k < 10 ^ n \<Longrightarrow> 0 < n \<Longrightarrow> length (pad0 n (show_nat k)) = n"
  using length_show_nat_le [of k n] by (simp add: pad0_def)

lemma pad0_digits: "c \<in> set (pad0 n (show_nat k)) \<Longrightarrow> is_ascii_digit c"
  using show_nat_digits by (auto simp: pad0_def is_ascii_digit_def)

text \<open>A printed number is read back as the nearest decimal.\<close>

lemma parse_fixed_text:
  assumes "0 \<le> x" "0 < n"
  shows "parse_number (fixed_text n x) = Some (of_int (round_half_even (x * 10 ^ n)) / 10 ^ n)"
proof -
  define k where "k = nat (round_half_even (x * 10 ^ n))"
  let ?w = "show_nat (k div 10 ^ n)" and ?f = "pad0 n (show_nat (k mod 10 ^ n))"
  have s: "fixed_text n x = ?w @ CHR ''.'' # ?f" using assms by (simp add: fixed_text_def k_def Let_def)
  have w: "takeWhile is_ascii_digit (?w @ CHR ''.'' # ?f) = ?w \<and> dropWhile is_ascii_digit (?w @ CHR ''.'' # ?f) = CHR ''.'' # ?f"
    by (rule takeWhile_ended) (use show_nat_digits in \<open>auto simp: list_all_iff is_ascii_digit_def\<close>)
  have f: "takeWhile is_ascii_digit ?f = ?f" "dropWhile is_ascii_digit ?f = []"
    using pad0_digits by (auto simp: takeWhile_eq_all_conv dropWhile_eq_Nil_conv)
  have l: "length ?f = n" by (rule length_pad0) (use assms in simp_all)
  have "digits_value 10 0 (?w @ ?f) = Some (k div 10 ^ n * 10 ^ n + k mod 10 ^ n)"
    using digits_value_shift [of "k div 10 ^ n" ?f]
    by (simp add: digits_value_append show_nat_def [of "k div 10 ^ n"] digits_value_show_radix digits_value_pad0 l)
  then have d: "decimal (?w @ ?f) = k" by (simp only: decimal_def option.case div_mult_mod_eq)
  have "of_nat k = (of_int (round_half_even (x * 10 ^ n)) :: rat)"
    using round_half_even_nonneg [of "x * 10 ^ n"] assms(1) by (simp add: k_def)
  then show ?thesis using assms(2) unfolding s parse_number_def
    by (simp add: w f l d parse_exponent_def)
qed

lemma fixed_text_near:
  assumes "0 \<le> x" "0 < n"
  shows "\<exists>y. parse_number (fixed_text n x) = Some y \<and> \<bar>y - x\<bar> \<le> 1 / 2 / 10 ^ n"
proof -
  define y :: rat where "y = of_int (round_half_even (x * 10 ^ n)) / 10 ^ n"
  have "\<bar>of_int (round_half_even (x * 10 ^ n)) - x * 10 ^ n\<bar> \<le> 1 / 2" by (rule round_half_even_near)
  moreover have "of_int (round_half_even (x * 10 ^ n)) = y * 10 ^ n" by (simp add: y_def)
  ultimately have "\<bar>(y - x) * 10 ^ n\<bar> \<le> 1 / 2" by (simp add: left_diff_distrib)
  then have "\<bar>y - x\<bar> * 10 ^ n \<le> 1 / 2" unfolding abs_mult by simp
  then have "\<bar>y - x\<bar> \<le> 1 / 2 / 10 ^ n" by (simp only: pos_le_divide_eq zero_less_power zero_less_numeral)
  then show ?thesis using parse_fixed_text [OF assms] by (simp add: y_def)
qed

lemma plain_show_nat [simp]: "plain_text (show_nat n)"
  using show_nat_digits by (auto simp: plain_text_def list_all_iff plain_char_def)

lemma plain_fixed_text [simp]: "plain_text (fixed_text n x)"
  using show_nat_digits pad0_digits
  by (auto simp: fixed_text_def Let_def plain_text_def list_all_iff plain_char_def)

section \<open>The report of the rate controller\<close>

definition decision_name :: "decision_kind \<Rightarrow> string" where
  "decision_name k = (case k of Increase \<Rightarrow> ''increase'' | Decrease \<Rightarrow> ''decrease'' | Hold \<Rightarrow> ''hold'')"

definition decision_fields :: "decision \<Rightarrow> (string \<times> string) list" where
  "decision_fields d =
     [(''elapsed_ms'', show_nat (d_elapsed_ms d)),
      (''decision'', quoted (decision_name (d_kind d))),
      (''old_rate_mbps'', fixed_text 6 (d_old d)),
      (''new_rate_mbps'', fixed_text 6 (d_new d)),
      (''useful_rate_mbps'', fixed_text 6 (d_useful d)),
      (''waste_ratio'', fixed_text 6 (d_waste d)),
      (''reason'', quoted (d_reason d))]"

definition controller_fields :: "rate_controller \<Rightarrow> (string \<times> string) list" where
  "controller_fields c =
     [(''mode'', quoted (if c_fixed c then ''fixed'' else ''auto'')),
      (''initial_rate_mbps'', fixed_text 6 (if c_fixed c then c_rate c else c_min c)),
      (''final_rate_mbps'', fixed_text 6 (c_rate c)),
      (''minimum_rate_mbps'', fixed_text 6 (c_min c)),
      (''maximum_rate_mbps'', fixed_text 6 (c_max c)),
      (''decision_count'', show_nat (c_count c)),
      (''increase_count'', show_nat (c_increases c)),
      (''decrease_count'', show_nat (c_decreases c)),
      (''hold_count'', show_nat (c_holds c)),
      (''omitted_decision_count'', show_nat (c_count c - length (c_decisions c))),
      (''decisions'', array_text (map (\<lambda>d. object_text (decision_fields d)) (c_decisions c)))]"

definition controller_json :: "rate_controller \<Rightarrow> string" where
  "controller_json c = object_text (controller_fields c)"

section \<open>The results of transfers\<close>

text \<open>The totals that \<open>send_udp\<close> returns; the other transports have none.\<close>

record send_totals =
  st_datagrams :: nat
  st_repairs :: nat
  st_offered :: nat
  st_telemetry :: telemetry
  st_controller :: string

definition no_totals :: "telemetry \<Rightarrow> string \<Rightarrow> send_totals" where
  "no_totals t controller = \<lparr>st_datagrams = 0, st_repairs = 0, st_offered = 0, st_telemetry = t, st_controller = controller\<rparr>"

definition drops_text :: "nat option \<Rightarrow> string" where
  "drops_text drops = (case drops of None \<Rightarrow> ''null'' | Some n \<Rightarrow> show_nat n)"

definition count_ones :: "64 word \<Rightarrow> nat" where
  "count_ones v = length (filter (bit v) [0..<64])"

definition resumed_chunks :: "acceptance \<Rightarrow> nat" where
  "resumed_chunks answer = sum_list (map count_ones (durable_chunks answer))"

text \<open>The fields of the two lines of \<open>send\<close>, which differ in the arguments that come first here.\<close>

definition sender_fields ::
    "string \<Rightarrow> string \<Rightarrow> nat \<Rightarrow> ('addr, 'z) send_args_scheme \<Rightarrow> nat \<Rightarrow> acceptance \<Rightarrow> send_totals \<Rightarrow> (string \<times> string) list" where
  "sender_fields elapsed goodput resumed a fsize answer s =
     [(''schema_version'', ''1''),
      (''role'', quoted ''sender''),
      (''transport'', quoted (display_name (sa_transport a))),
      (''bytes'', show_nat fsize),
      (''udp_payload_bytes'', show_nat (sa_payload_bytes a)),
      (''feedback_interval_ms'', show_nat (sa_report_interval a)),
      (''elapsed_ms'', elapsed),
      (''goodput_mbps'', goodput),
      (''datagrams'', show_nat (st_datagrams s)),
      (''repairs'', show_nat (st_repairs s)),
      (''udp_ip_bytes_offered'', show_nat (st_offered s)),
      (''resumed_chunks'', show_nat resumed),
      (''reused_bytes'', show_nat (reused_bytes answer)),
      (''reused_chunks'', show_nat (reused_chunks answer)),
      (''receiver_received_chunks'', show_nat (received_chunks (st_telemetry s))),
      (''receiver_frontier_chunks'', show_nat (frontier_chunks (st_telemetry s))),
      (''receiver_accepted_datagrams'', show_nat (accepted_datagrams (st_telemetry s))),
      (''receiver_valid_datagrams'', show_nat (valid_datagrams (st_telemetry s))),
      (''receiver_duplicate_datagrams'', show_nat (duplicate_datagrams (st_telemetry s))),
      (''receiver_invalid_datagrams'', show_nat (invalid_datagrams (st_telemetry s))),
      (''receiver_repair_datagrams'', show_nat (repair_datagrams (st_telemetry s))),
      (''receiver_socket_drops'', drops_text (socket_drops (st_telemetry s))),
      (''receiver_reports'', show_nat (reports (st_telemetry s))),
      (''rate_controller'', st_controller s)]"

definition rate_value :: "f64 \<Rightarrow> rat" where
  "rate_value x = (case x of Finite r \<Rightarrow> r | _ \<Rightarrow> 0)"

text \<open>The controller that an accepted configuration gives; its interval is in nanoseconds.\<close>

definition initial_controller :: "('addr, 'z) send_args_scheme \<Rightarrow> instant \<Rightarrow> rate_controller" where
  "initial_controller a now =
     new_controller now (map_option rate_value (sa_rate a)) (rate_value (sa_min_rate a)) (rate_value (sa_max_rate a))
       (sa_report_interval a * 1000000)"

text \<open>The file was already complete at the receiver.\<close>

definition complete_fields ::
    "('addr, 'z) send_args_scheme \<Rightarrow> instant \<Rightarrow> nat \<Rightarrow> nat \<Rightarrow> acceptance \<Rightarrow> (string \<times> string) list" where
  "complete_fields a now fsize n_chunks answer =
     sender_fields ''0.0'' ''0.0'' n_chunks a fsize answer
       (no_totals (a_telemetry answer) (if sa_transport a = Udp then controller_json (initial_controller a now) else ''null''))"

definition goodput :: "(rat \<Rightarrow> rat) \<Rightarrow> nat \<Rightarrow> nat \<Rightarrow> rat" where
  "goodput rnd fsize elapsed =
     (if elapsed = 0 then 0
      else rnd (rnd (rnd (rnd (of_nat fsize) * 8) / secs_f64 rnd elapsed) / 1000000))"

definition sent_fields ::
    "(rat \<Rightarrow> rat) \<Rightarrow> ('addr, 'z) send_args_scheme \<Rightarrow> nat \<Rightarrow> nat \<Rightarrow> acceptance \<Rightarrow> send_totals \<Rightarrow> (string \<times> string) list" where
  "sent_fields rnd a fsize elapsed answer totals =
     sender_fields (fixed_text 3 (rnd (secs_f64 rnd elapsed * 1000))) (fixed_text 3 (goodput rnd fsize elapsed))
       (resumed_chunks answer) a fsize answer
       (if sa_transport a = Udp then totals else no_totals default_telemetry ''null'')"

text \<open>The line of \<open>receive_on\<close>; only a UDP transfer has counters.\<close>

definition receiver_fields :: "(rat \<Rightarrow> rat) \<Rightarrow> hello \<Rightarrow> nat \<Rightarrow> telemetry option \<Rightarrow> (string \<times> string) list" where
  "receiver_fields rnd h elapsed counters =
     (let t = (case counters of None \<Rightarrow> default_telemetry | Some t \<Rightarrow> t) in
      [(''schema_version'', ''1''),
       (''role'', quoted ''receiver''),
       (''transport'', quoted (display_name (h_transport h))),
       (''bytes'', show_nat (size (h_layout h))),
       (''udp_payload_bytes'', show_nat (payload_bytes (h_layout h))),
       (''feedback_interval_ms'', show_nat (h_report_interval h)),
       (''elapsed_ms'', fixed_text 3 (rnd (secs_f64 rnd elapsed * 1000))),
       (''goodput_mbps'', fixed_text 3 (goodput rnd (size (h_layout h)) elapsed)),
       (''received_chunks'', show_nat (received_chunks t)),
       (''frontier_chunks'', show_nat (frontier_chunks t)),
       (''accepted_datagrams'', show_nat (accepted_datagrams t)),
       (''valid_datagrams'', show_nat (valid_datagrams t)),
       (''duplicate_datagrams'', show_nat (duplicate_datagrams t)),
       (''invalid_datagrams'', show_nat (invalid_datagrams t)),
       (''repair_datagrams'', show_nat (repair_datagrams t)),
       (''socket_drops'', drops_text (socket_drops t)),
       (''reports'', show_nat (reports t))])"

text \<open>The lines of \<open>send_dir\<close> and \<open>receive_dir\<close>, which differ in the role.\<close>

definition directory_fields :: "string \<Rightarrow> dir_manifest \<Rightarrow> nat \<times> nat \<Rightarrow> (string \<times> string) list" where
  "directory_fields role m counts =
     [(''schema_version'', ''1''),
      (''role'', quoted role),
      (''manifest_sha256'', quoted (hex (d_hash m))),
      (''entries'', show_nat (length (d_entries m))),
      (''files'', show_nat (fst counts)),
      (''bytes'', show_nat (snd counts))]"

section \<open>Reading the lines back\<close>

definition readable :: "string \<Rightarrow> bool" where
  "readable s \<longleftrightarrow> (\<exists>v. wf_json v \<and> json_text v = s)"

definition readable_fields :: "(string \<times> string) list \<Rightarrow> bool" where
  "readable_fields fs \<longleftrightarrow> list_all (\<lambda>(k, s). unescaped k \<and> readable s) fs"

text \<open>The line is one JSON object whose members are the fields.\<close>

definition reads_back :: "(string \<times> string) list \<Rightarrow> bool" where
  "reads_back fs \<longleftrightarrow> (\<exists>vs. read_json (object_text fs) = Some (Object vs)
     \<and> map (\<lambda>(k, v). (k, json_text v)) vs = fs \<and> lf \<notin> set (object_text fs))"

lemma readable_plain: "plain_text s \<Longrightarrow> readable s"
  unfolding readable_def by (rule exI [of _ "Plain s"]) simp

lemma readable_quoted: "unescaped s \<Longrightarrow> readable (quoted s)"
  unfolding readable_def by (rule exI [of _ "Quoted s"]) simp

lemma readable_fields_values:
  "readable_fields fs \<Longrightarrow> \<exists>vs. list_all (\<lambda>(k, v). unescaped k \<and> wf_json v) vs \<and> map (\<lambda>(k, v). (k, json_text v)) vs = fs"
proof (induction fs)
  case (Cons f fs)
  obtain k s where f: "f = (k, s)" by (cases f)
  with Cons.prems obtain v where v: "unescaped k" "wf_json v" "json_text v = s"
    by (auto simp: readable_fields_def readable_def)
  from Cons obtain vs where "list_all (\<lambda>(k, v). unescaped k \<and> wf_json v) vs" "map (\<lambda>(k, v). (k, json_text v)) vs = fs"
    by (auto simp: readable_fields_def)
  with v f show ?case by (intro exI [of _ "(k, v) # vs"]) simp
qed simp

lemma readable_object: "readable_fields fs \<Longrightarrow> readable (object_text fs)"
  unfolding readable_def using readable_fields_values [of fs] by (metis json_text.simps(4) wf_json.simps(4))

lemma readable_array: "list_all readable ss \<Longrightarrow> \<exists>vs. list_all wf_json vs \<and> map json_text vs = ss"
proof (induction ss)
  case (Cons s ss)
  then obtain v vs where "wf_json v" "json_text v = s" "list_all wf_json vs" "map json_text vs = ss"
    by (auto simp: readable_def)
  then show ?case by (intro exI [of _ "v # vs"]) simp
qed simp

lemma reads_back_readable:
  assumes "readable_fields fs"
  shows "reads_back fs"
proof -
  obtain vs where vs: "list_all (\<lambda>(k, v). unescaped k \<and> wf_json v) vs" "map (\<lambda>(k, v). (k, json_text v)) vs = fs"
    using readable_fields_values [OF assms] by blast
  then have "wf_json (Object vs)" "json_text (Object vs) = object_text fs" by simp_all
  with read_json_text [of "Object vs"] json_text_line [of "Object vs"] show ?thesis
    unfolding reads_back_def using vs(2) by (intro exI [of _ vs]) simp
qed

text \<open>The names that the lines contain need no escapes.\<close>

lemma unescaped_literals:
  "list_all unescaped [
      ''elapsed_ms'', ''decision'', ''old_rate_mbps'', ''new_rate_mbps'', ''useful_rate_mbps'',
      ''waste_ratio'', ''reason'', ''mode'', ''initial_rate_mbps'', ''final_rate_mbps'',
      ''minimum_rate_mbps'', ''maximum_rate_mbps'', ''decision_count'', ''increase_count'',
      ''decrease_count'', ''hold_count'', ''omitted_decision_count'', ''decisions'', ''schema_version'',
      ''role'', ''transport'', ''bytes'', ''udp_payload_bytes'', ''feedback_interval_ms'', ''goodput_mbps'',
      ''datagrams'', ''repairs'', ''udp_ip_bytes_offered'', ''resumed_chunks'', ''reused_bytes'',
      ''reused_chunks'', ''receiver_received_chunks'', ''receiver_frontier_chunks'',
      ''receiver_accepted_datagrams'', ''receiver_valid_datagrams'', ''receiver_duplicate_datagrams'',
      ''receiver_invalid_datagrams'', ''receiver_repair_datagrams'', ''receiver_socket_drops'',
      ''receiver_reports'', ''rate_controller'', ''received_chunks'', ''frontier_chunks'',
      ''accepted_datagrams'', ''valid_datagrams'', ''duplicate_datagrams'', ''invalid_datagrams'',
      ''repair_datagrams'', ''socket_drops'', ''reports'', ''manifest_sha256'', ''entries'', ''files'',
      ''sender'', ''receiver'', ''fixed'', ''auto'', ''increase'', ''decrease'', ''hold'', ''tcp'',
      ''tcp4'', ''udp'', ''directory-sender'', ''directory-receiver'', ''stalled_progress'',
      ''receiver_waste'', ''useful_throughput_followed_load'', ''throughput_fell_behind_load'',
      ''insufficient_signal'']"
  unfolding list.pred_inject by (intro conjI TrueI; simp add: unescaped_def)

lemmas unescaped_words [simp] = unescaped_literals [unfolded list.pred_inject]

lemma unescaped_hex [simp]: "unescaped (hex bs)"
proof -
  have "32 \<le> ord c \<and> ord c < 127 \<and> c \<noteq> quote \<and> c \<noteq> CHR 0x5C" if c: "lower_hex c" for c
    using lower_hex_ord [OF c] c by (auto simp: lower_hex_def is_ascii_hexdigit_def is_ascii_digit_def)
  then show ?thesis using hex_lower unfolding unescaped_def list_all_iff by blast
qed

lemma unescaped_names [simp]: "unescaped (display_name t)" "unescaped (decision_name k)"
  by (cases t; simp add: display_name_def) (cases k; simp add: decision_name_def)

lemma plain_words: "plain_text ''null''" "plain_text ''0.0''" "plain_text ''1''"
  by code_simp+

lemmas readable_simps [simp] = plain_words [THEN readable_plain] plain_show_nat [THEN readable_plain]
  plain_fixed_text [THEN readable_plain] readable_quoted

lemma readable_drops [simp]: "readable (drops_text drops)"
  by (cases drops) (simp_all add: drops_text_def)

lemma decision_readable:
  assumes "unescaped (d_reason d)"
  shows "readable_fields (decision_fields d)"
  unfolding readable_fields_def decision_fields_def list.pred_inject prod.case
  by (intro conjI TrueI) (simp_all add: readable_quoted [OF assms])

lemma readable_array_text:
  assumes "list_all readable ss"
  shows "readable (array_text ss)"
proof -
  obtain vs where "list_all wf_json vs" "map json_text vs = ss" using readable_array [OF assms] by blast
  then show ?thesis unfolding readable_def by (intro exI [of _ "Array vs"]) simp
qed

lemma controller_readable:
  assumes "\<forall>d\<in>set (c_decisions c). unescaped (d_reason d)"
  shows "readable_fields (controller_fields c)"
proof -
  have "list_all readable (map (\<lambda>d. object_text (decision_fields d)) (c_decisions c))"
    using assms by (auto simp: list_all_iff intro!: readable_object decision_readable)
  from readable_array_text [OF this] show ?thesis
    unfolding readable_fields_def controller_fields_def list.pred_inject prod.case by (intro conjI TrueI; simp)
qed

lemma sender_readable:
  assumes "readable elapsed" "readable rate" "readable (st_controller s)"
  shows "readable_fields (sender_fields elapsed rate resumed a fsize answer s)"
  unfolding readable_fields_def sender_fields_def list.pred_inject prod.case by (intro conjI TrueI; simp add: assms)

lemma receiver_readable: "readable_fields (receiver_fields rnd h elapsed counters)"
  unfolding readable_fields_def receiver_fields_def Let_def list.pred_inject prod.case by (intro conjI TrueI; simp)

lemma directory_readable: "unescaped role \<Longrightarrow> readable_fields (directory_fields role m counts)"
  unfolding readable_fields_def directory_fields_def list.pred_inject prod.case by (intro conjI TrueI; simp)

section \<open>The report accounts for the decisions\<close>

text \<open>All reports of a transfer: telemetry and time.\<close>

fun observe_all ::
    "(rat \<Rightarrow> rat) \<Rightarrow> nat \<Rightarrow> (telemetry \<times> instant) list \<Rightarrow> rate_controller \<Rightarrow> rate_controller result" where
  "observe_all rnd payload [] c = Inr c"
| "observe_all rnd payload ((t, now) # rs) c = and_then (observe rnd t now payload c) (observe_all rnd payload rs)"

definition number_at :: "(string \<times> json) list \<Rightarrow> string \<Rightarrow> nat option" where
  "number_at vs k = (case map_of vs k of
     Some (Plain s) \<Rightarrow> (case parse_dec s of Inr n \<Rightarrow> Some n | Inl _ \<Rightarrow> None)
   | _ \<Rightarrow> None)"

definition decision_value :: "decision \<Rightarrow> json" where
  "decision_value d = Object
     [(''elapsed_ms'', Plain (show_nat (d_elapsed_ms d))),
      (''decision'', Quoted (decision_name (d_kind d))),
      (''old_rate_mbps'', Plain (fixed_text 6 (d_old d))),
      (''new_rate_mbps'', Plain (fixed_text 6 (d_new d))),
      (''useful_rate_mbps'', Plain (fixed_text 6 (d_useful d))),
      (''waste_ratio'', Plain (fixed_text 6 (d_waste d))),
      (''reason'', Quoted (d_reason d))]"

definition controller_values :: "rate_controller \<Rightarrow> (string \<times> json) list" where
  "controller_values c =
     [(''mode'', Quoted (if c_fixed c then ''fixed'' else ''auto'')),
      (''initial_rate_mbps'', Plain (fixed_text 6 (if c_fixed c then c_rate c else c_min c))),
      (''final_rate_mbps'', Plain (fixed_text 6 (c_rate c))),
      (''minimum_rate_mbps'', Plain (fixed_text 6 (c_min c))),
      (''maximum_rate_mbps'', Plain (fixed_text 6 (c_max c))),
      (''decision_count'', Plain (show_nat (c_count c))),
      (''increase_count'', Plain (show_nat (c_increases c))),
      (''decrease_count'', Plain (show_nat (c_decreases c))),
      (''hold_count'', Plain (show_nat (c_holds c))),
      (''omitted_decision_count'', Plain (show_nat (c_count c - length (c_decisions c)))),
      (''decisions'', Array (map decision_value (c_decisions c)))]"

lemma decision_value_text: "json_text (decision_value d) = object_text (decision_fields d)"
  by (simp add: decision_value_def decision_fields_def)

lemma controller_values_text: "json_text (Object (controller_values c)) = controller_json c"
  by (simp add: controller_values_def controller_json_def controller_fields_def decision_value_text o_def)

lemma wf_decision_value: "unescaped (d_reason d) \<Longrightarrow> wf_json (decision_value d)"
  by (simp add: decision_value_def)

lemma read_controller_json:
  assumes "\<forall>d\<in>set (c_decisions c). unescaped (d_reason d)"
  shows "read_json (controller_json c) = Some (Object (controller_values c))"
proof -
  have "wf_json (Object (controller_values c))"
    using assms by (simp add: controller_values_def list_all_iff wf_decision_value)
  from read_json_text [OF this] show ?thesis by (simp only: controller_values_text)
qed

lemma next_rate_reason: "unescaped (snd (next_rate rnd old accepted drops waste useful))"
  by (simp add: next_rate_def)

lemma observe_reasons:
  assumes "observe rnd t now payload c = Inr c'" "\<forall>d\<in>set (c_decisions c). unescaped (d_reason d)"
  shows "\<forall>d\<in>set (c_decisions c'). unescaped (d_reason d)"
  using assms by (auto simp: observe_def note_decision_def decide_def Let_def next_rate_reason split: if_splits)

lemma observe_count: "observe rnd t now payload c = Inr c' \<Longrightarrow> c_count c' \<le> c_count c + 1"
  by (auto simp: observe_def note_decision_def sat_add_def split: if_splits)

lemma observe_all_runs:
  assumes "rate_inv c" "c_count c + length rs < 2 ^ 64" "\<forall>d\<in>set (c_decisions c). unescaped (d_reason d)"
  shows "\<exists>c'. observe_all rnd payload rs c = Inr c' \<and> rate_inv c' \<and> c_count c' < 2 ^ 64
    \<and> (\<forall>d\<in>set (c_decisions c'). unescaped (d_reason d))"
  using assms
proof (induction rs arbitrary: c)
  case (Cons r rs)
  obtain t now where r: "r = (t, now)" by (cases r)
  obtain c' where c': "observe rnd t now payload c = Inr c'" using observe_total [OF Cons.prems(1)] by blast
  have "rate_inv c'" by (rule observe_inv [OF Cons.prems(1) _ c']) (use Cons.prems(2) in simp)
  moreover have "c_count c' + length rs < 2 ^ 64" using observe_count [OF c'] Cons.prems(2) by simp
  ultimately show ?case using Cons.IH observe_reasons [OF c' Cons.prems(3)] r c' by simp
qed simp

text \<open>The counts of the report add up, and the decisions that are neither listed nor counted as
  omitted do not exist.\<close>

definition accounted :: "(string \<times> json) list \<Rightarrow> bool" where
  "accounted vs \<longleftrightarrow> (\<exists>i d h ds.
     number_at vs ''increase_count'' = Some i \<and> number_at vs ''decrease_count'' = Some d
     \<and> number_at vs ''hold_count'' = Some h \<and> number_at vs ''decision_count'' = Some (i + d + h)
     \<and> map_of vs ''decisions'' = Some (Array ds) \<and> length ds = min (i + d + h) MAX_RATE_DECISIONS
     \<and> number_at vs ''omitted_decision_count'' = Some (i + d + h - length ds))"

lemma controller_accounted:
  assumes "rate_inv c" "c_count c < 2 ^ 64"
  shows "accounted (controller_values c)"
proof -
  have s: "c_increases c + c_decreases c + c_holds c = c_count c"
    and l: "length (c_decisions c) = min (c_count c) MAX_RATE_DECISIONS" using assms(1) by (simp_all add: rate_inv_def)
  have "c_increases c < 2 ^ 64" "c_decreases c < 2 ^ 64" "c_holds c < 2 ^ 64" "c_count c - length (c_decisions c) < 2 ^ 64"
    using s assms(2) by linarith+
  with s l assms(2) show ?thesis unfolding accounted_def
    by (intro exI [of _ "c_increases c"] exI [of _ "c_decreases c"] exI [of _ "c_holds c"]
        exI [of _ "map decision_value (c_decisions c)"])
      (simp add: controller_values_def number_at_def parse_dec_show_nat)
qed

lemma initial_controller_empty: "c_count (initial_controller a now) = 0" "c_decisions (initial_controller a now) = []"
  by (simp_all add: initial_controller_def new_controller_def Let_def)

lemma initial_controller_inv: "sane_tuning a \<Longrightarrow> rate_inv (initial_controller a now)"
  unfolding initial_controller_def by (rule new_controller_inv) (auto simp: sane_tuning_def rate_value_def)

lemma report_accounts_for_decisions:
  assumes "sane_tuning a" "length rs < 2 ^ 64"
  shows "\<exists>c vs. observe_all rnd payload rs (initial_controller a start) = Inr c
    \<and> read_json (controller_json c) = Some (Object vs) \<and> accounted vs"
proof -
  obtain c where c: "observe_all rnd payload rs (initial_controller a start) = Inr c" "rate_inv c" "c_count c < 2 ^ 64"
    "\<forall>d\<in>set (c_decisions c). unescaped (d_reason d)"
    using observe_all_runs [OF initial_controller_inv [OF assms(1)], of start rs rnd payload] assms(2)
    by (auto simp: initial_controller_empty)
  then show ?thesis using read_controller_json [OF c(4)] controller_accounted [OF c(2,3)] by blast
qed

lemma observe_all_reasons:
  "observe_all rnd payload rs c = Inr c' \<Longrightarrow> \<forall>d\<in>set (c_decisions c). unescaped (d_reason d)
    \<Longrightarrow> \<forall>d\<in>set (c_decisions c'). unescaped (d_reason d)"
proof (induction rs arbitrary: c)
  case (Cons r rs)
  obtain t now where r: "r = (t, now)" by (cases r)
  with Cons.prems(1) obtain k where "observe rnd t now payload c = Inr k" "observe_all rnd payload rs k = Inr c'"
    by (auto simp: and_then_eq_Inr)
  then show ?case using Cons.IH observe_reasons Cons.prems(2) by blast
qed simp

lemma controller_json_readable:
  assumes "observe_all rnd payload rs (initial_controller a start) = Inr c"
  shows "readable (controller_json c)"
  unfolding controller_json_def
  by (rule readable_object, rule controller_readable, rule observe_all_reasons [OF assms]) (simp add: initial_controller_empty)

lemma sender_lines_read_back:
  assumes "observe_all rnd payload rs (initial_controller a start) = Inr c"
  shows "reads_back (complete_fields a now fsize n answer)"
    and "st_controller totals = controller_json c \<Longrightarrow> reads_back (sent_fields rnd a fsize elapsed answer totals)"
proof -
  have "readable (controller_json (initial_controller a now))"
    by (rule controller_json_readable [of rnd payload "[]"]) simp
  then show "reads_back (complete_fields a now fsize n answer)" unfolding complete_fields_def
    by (intro reads_back_readable sender_readable) (simp_all add: no_totals_def)
  assume "st_controller totals = controller_json c"
  then show "reads_back (sent_fields rnd a fsize elapsed answer totals)"
    unfolding sent_fields_def using controller_json_readable [OF assms]
    by (intro reads_back_readable sender_readable) (simp_all add: no_totals_def)
qed

section \<open>Printed manifests\<close>

text \<open>\<open>print\<close> of \<open>cdc.rs\<close> and of \<open>directory.rs\<close>: what goes to the standard output.  The arguments are
  those of the scans.\<close>

definition print_chunks :: "(bytes \<Rightarrow> 256 word) \<Rightarrow> bool \<times> nat \<Rightarrow> bytes list \<Rightarrow> string result" where
  "print_chunks sha metadata blocks =
     and_then (scan sha metadata blocks) (\<lambda>m.
     and_then (parse sha (encode m)) (\<lambda>_. Inr (encode m)))"

definition print_directory ::
    "(bytes \<Rightarrow> 256 word) \<Rightarrow> metadata result \<Rightarrow> snapshot list result \<Rightarrow> string result" where
  "print_directory sha md children =
     and_then (build sha md children) (\<lambda>m.
     and_then (dir_encode m) (\<lambda>encoded.
     and_then (dir_parse sha encoded) (\<lambda>_. Inr encoded)))"

text \<open>What is printed is read back as what was scanned.\<close>

lemma print_chunks_reads_back:
  assumes "print_chunks sha metadata blocks = Inr s"
  shows "\<exists>m. scan sha metadata blocks = Inr m \<and> parse sha s = Inr m"
proof -
  obtain m k where m: "scan sha metadata blocks = Inr m" "parse sha (encode m) = Inr k" "s = encode m"
    using assms by (auto simp: print_chunks_def and_then_eq_Inr)
  have "wf_manifest sha m" using scan_Inr m(1) by (cases metadata) blast
  moreover have "length (encode m) \<le> MAX_ENCODED_BYTES" using m(2) by (auto simp: parse_def split: if_splits)
  ultimately have "parse sha (encode m) = Inr m" by (rule parse_encode)
  with m show ?thesis by simp
qed

lemma print_directory_prints:
  assumes "build sha md children = Inr m"
    "\<forall>e\<in>set (d_entries m). is_i64 (e_seconds e)" "is_i64 (d_root_seconds m)"
    "0 \<le> d_root_nanoseconds m \<and> d_root_nanoseconds m < 1000000000"
  shows "\<exists>s. print_directory sha md children = Inr s \<and> dir_parse sha s = Inr m"
  using build_accepted [OF assms] assms(1) by (auto simp: print_directory_def and_then_def)

section \<open>The drop counter of the socket\<close>

definition strip_suffix :: "string \<Rightarrow> string \<Rightarrow> string option" where
  "strip_suffix p s = map_option rev (strip_prefix (rev p) (rev s))"

text \<open>The tables \<open>udp\<close> and \<open>udp6\<close> of \<open>/proc/net\<close>: what reading them gives.\<close>

fun drops_in_tables :: "string \<Rightarrow> string result list \<Rightarrow> nat option" where
  "drops_in_tables inode [] = None"
| "drops_in_tables inode (table # tables) =
     (case table of Inl _ \<Rightarrow> drops_in_tables inode tables
      | Inr contents \<Rightarrow>
         (case find (\<lambda>cs. 9 < length cs \<and> cs ! 9 = inode) (map split_whitespace (tl (lines contents))) of
            Some cs \<Rightarrow> (case parse_dec (last cs) of Inr n \<Rightarrow> Some n | Inl _ \<Rightarrow> None)
          | None \<Rightarrow> drops_in_tables inode tables))"

text \<open>The link is that of the socket's descriptor in \<open>/proc/self/fd\<close>.\<close>

definition udp_socket_drops :: "string result \<Rightarrow> string result list \<Rightarrow> nat option" where
  "udp_socket_drops link tables =
     (case link of Inl _ \<Rightarrow> None
      | Inr l \<Rightarrow> (case strip_prefix ''socket:['' l of None \<Rightarrow> None
         | Some r \<Rightarrow> (case strip_suffix '']'' r of None \<Rightarrow> None
            | Some inode \<Rightarrow> drops_in_tables inode tables)))"

lemma find_unique:
  assumes "x \<in> set xs" "P x" "\<forall>y\<in>set xs. P y \<longrightarrow> y = x"
  shows "find P xs = Some x"
  using assms
proof (induction xs)
  case (Cons y ys)
  show ?case
  proof (cases "P y")
    case True
    with Cons.prems(3) have "y = x" by (simp only: list.set_intros)
    with True show ?thesis by simp
  next
    case False
    then have "x \<in> set ys" using Cons.prems(1,2) by auto
    moreover have "\<forall>y\<in>set ys. P y \<longrightarrow> y = x" using Cons.prems(3) unfolding list.set by blast
    ultimately have "find P ys = Some x" using Cons.IH Cons.prems(2) by blast
    with False show ?thesis by simp
  qed
qed simp

lemma socket_link: "udp_socket_drops (Inr (''socket:['' @ inode @ '']'')) tables = drops_in_tables inode tables"
proof -
  have "strip_suffix '']'' (inode @ '']'') = Some inode"
    unfolding strip_suffix_def rev_append strip_prefix_append by simp
  then show ?thesis unfolding udp_socket_drops_def sum.case strip_prefix_append option.case by simp
qed

text \<open>The counter is the last column of the row with the inode of the socket.\<close>

lemma udp_socket_drops_found:
  assumes "lines contents = header # rows" "row \<in> set (map split_whitespace rows)" "9 < length row"
    "\<forall>r\<in>set (map split_whitespace rows). 9 < length r \<and> r ! 9 = row ! 9 \<longrightarrow> r = row"
    "last row = show_nat n" "n < 2 ^ 64"
  shows "udp_socket_drops (Inr (''socket:['' @ row ! 9 @ '']'')) (Inr contents # tables) = Some n"
proof -
  have "find (\<lambda>cs. 9 < length cs \<and> cs ! 9 = row ! 9) (map split_whitespace rows) = Some row"
    by (rule find_unique) (use assms in auto)
  then show ?thesis unfolding socket_link using assms(1,5,6) by (simp add: parse_dec_show_nat)
qed

section \<open>The choice of the command\<close>

datatype 'addr command =
    Run_send "'addr send_args" | Run_receive "'addr receive_args"
  | Run_send_dir "'addr send_dir_args" | Run_receive_dir "'addr receive_dir_args"
  | Run_keygen string | Run_manifest string | Run_chunks string | Run_help | Run_version

definition single_option :: "string list \<Rightarrow> string \<Rightarrow> string result" where
  "single_option args name = and_then (validate_options args [name]) (\<lambda>_. option_value args name)"

definition command_of ::
    "(string \<Rightarrow> 'addr list result) \<Rightarrow> (rat \<Rightarrow> f64) \<Rightarrow> string list \<Rightarrow> 'addr command result" where
  "command_of dns near arguments =
     (case arguments of
        [] \<Rightarrow> Inl (Err ''expected send, receive, send-dir, receive-dir, manifest, chunks, or keygen subcommand'')
      | name # args \<Rightarrow>
         if name = ''send'' then and_then (parse_send dns near args) (\<lambda>a. Inr (Run_send a))
         else if name = ''receive'' then and_then (parse_receive dns args) (\<lambda>a. Inr (Run_receive a))
         else if name = ''send-dir'' then and_then (parse_send_dir dns near args) (\<lambda>a. Inr (Run_send_dir a))
         else if name = ''receive-dir'' then and_then (parse_receive_dir dns args) (\<lambda>a. Inr (Run_receive_dir a))
         else if name = ''keygen'' then and_then (single_option args ''--out'') (\<lambda>p. Inr (Run_keygen p))
         else if name = ''manifest'' then and_then (single_option args ''--root'') (\<lambda>p. Inr (Run_manifest p))
         else if name = ''chunks'' then and_then (single_option args ''--file'') (\<lambda>p. Inr (Run_chunks p))
         else if name = ''--help'' \<or> name = ''-h'' \<or> name = ''help'' then Inr Run_help
         else if name = ''--version'' \<or> name = ''-V'' then Inr Run_version
         else Inl (Err ''expected send, receive, send-dir, receive-dir, manifest, chunks, or keygen subcommand''))"

lemma single_option_iff: "(single_option args name = Inr p) = (args = [name, p])"
proof
  assume "single_option args name = Inr p"
  then have v: "validate_options args [name] = Inr ()" and p: "option_value args name = Inr p"
    by (auto simp: single_option_def and_then_eq_Inr)
  obtain q rest where a: "args = name # q # rest" "even (length rest)" "validate_pairs [name] {name} rest = Inr ()"
    using v p by (cases "([name], {} :: string set, args)" rule: validate_pairs.cases)
      (auto simp: validate_options_def option_value_def and_then_def split: if_splits)
  then have "rest = []"
    by (cases "([name], {name} :: string set, rest)" rule: validate_pairs.cases) (auto split: if_splits)
  with a p show "args = [name, p]" by (simp add: option_value_def arg_at_def and_then_def)
qed (simp add: single_option_def validate_options_def option_value_def arg_at_def and_then_def)

end
