(* ===== verification/Tree_Examples.thy ===== *)
theory Tree_Examples
  imports Examples Dir_Transfer Whole_Transfer Key_File Results
begin

text \<open>
  Concrete inputs for the TCP transports, the directory manifests and the command line, from which
  the witnesses of their properties are built.
\<close>

section \<open>A transfer over TCP4\<close>

definition ex_tcp_hello :: hello where
  "ex_tcp_hello = ex_hello\<lparr>h_transport := Tcp4\<rparr>"

lemma ex_tcp_hello_simps [simp]: "h_layout ex_tcp_hello = ex_layout" "h_hash ex_tcp_hello = hex ex_hash"
  by (simp_all add: ex_tcp_hello_def)

lemma ex_untouched [simp]: "untouched ''f'' None ex_world"
  by (auto simp: untouched_def linkless_def seen_def ex_world_def quiet_def)

lemma ex_steady [simp]: "steady (\<lambda>_ n. Inr n)"
  by (simp add: steady_def)

lemma length_ex_session [simp]: "length (session ex_auth) = 16"
  by (simp add: ex_auth_def derive_session_def Let_def)

definition ex_lanes :: "bytes list" where
  "ex_lanes = fst (send_tcp4 ex_sha ex_auth (\<lambda>_. Inr ()) (\<lambda>_ _ n. Inr n) (\<lambda>_ _ _. None) ex_file)"

lemma ex_lanes: "send_tcp4 ex_sha ex_auth (\<lambda>_. Inr ()) (\<lambda>_ _ n. Inr n) (\<lambda>_ _ _. None) ex_file = (ex_lanes, Inr ())"
proof -
  have "\<exists>outs. send_tcp4 ex_sha ex_auth (\<lambda>_. Inr ()) (\<lambda>_ _ n. Inr n) (\<lambda>_ _ _. None) ex_file = (outs, Inr ())"
    by (rule send_tcp4_runs) (simp_all add: open_outlet_def)
  then show ?thesis by (auto simp: ex_lanes_def)
qed

definition ex_accepts :: "accepted list" where
  "ex_accepts = map (\<lambda>i. Connected (ex_lanes ! i, Closed)) [2, 0, 3, 1]"

definition ex_schedule :: "nat list" where
  "ex_schedule = [0, 1, 2, 3, 3, 2, 1, 0, 0, 1, 2, 3]"

lemma ex_schedule_fair: "i < 4 \<Longrightarrow> length ex_file < count_list ex_schedule i"
  by (auto simp: ex_schedule_def less_Suc_eq numeral_eq_Suc)

lemma ex_orders: "distinct [2, 0, 3, 1 :: nat]" "set [2, 0, 3, 1 :: nat] = {..<4}"
  by (auto simp: lessThan_Suc numeral_eq_Suc)

section \<open>A directory\<close>

text \<open>The directory \<open>a\<close> with the file \<open>b\<close>.\<close>

definition ex_entries :: "manifest_entry list" where
  "ex_entries =
     [\<lparr>e_path = [0x61], e_kind = Directory, e_mode = 448, e_seconds = 5, e_nanoseconds = 0, e_size = 0, e_hash = None\<rparr>,
      \<lparr>e_path = [0x61, 0x2F, 0x62], e_kind = File, e_mode = 384, e_seconds = -5, e_nanoseconds = 7, e_size = 2,
        e_hash = Some ex_hash\<rparr>]"

definition ex_dir_body :: string where
  "ex_dir_body = (case dir_canonical_body ex_entries 493 9 0 of Inr body \<Rightarrow> body | Inl _ \<Rightarrow> [])"

definition ex_dir :: dir_manifest where
  "ex_dir = \<lparr>d_entries = ex_entries, d_root_mode = 493, d_root_seconds = 9, d_root_nanoseconds = 0,
     d_hash = digest ex_sha (as_bytes ex_dir_body)\<rparr>"

definition ex_dir_text :: string where
  "ex_dir_text = ex_dir_body @ ''HASH '' @ hex (d_hash ex_dir) @ [lf]"

definition ex_metadata :: "file_type \<Rightarrow> nat \<Rightarrow> int \<Rightarrow> int \<Rightarrow> nat \<Rightarrow> metadata" where
  "ex_metadata ty mode s n z = \<lparr>md_type = ty, md_mode = mode, md_mtime = s, md_nsec = n, md_size = z, md_dev = 1, md_ino = 2\<rparr>"

definition ex_tree :: "snapshot list" where
  "ex_tree =
     [Snapshot [0x61] (Inr (ex_metadata Is_dir 16832 5 0 64))
        (Inr [Snapshot [0x62] (Inr (ex_metadata Is_file 33152 (-5) 7 2)) (Inl Panic)
           (Inr \<lparr>op_before = Inr (ex_metadata Is_file 33152 (-5) 7 2), op_reads = ([ex_file], None),
              op_after = Inr (ex_metadata Is_file 33152 (-5) 7 2)\<rparr>)]) (Inl Panic)]"

lemma ex_entries_valid: "validate_entries ex_entries = Inr ()"
  by (simp add: ex_entries_def validate_entries_def validate_relative_path_def parents_def MAX_RELATIVE_PATH_BYTES_def
      MAX_MANIFEST_ENTRIES_def)

lemma ex_paths: "safe_path [0x61]" "safe_path [0x61, slash, 0x62]"
  by (simp_all add: validate_relative_path_iff [symmetric] validate_relative_path_def MAX_RELATIVE_PATH_BYTES_def)

lemma ex_tree_acceptable: "list_all (acceptable ex_sha []) ex_tree"
  by (simp add: ex_tree_def Let_def child_path_def ex_paths ex_metadata_def scan_file_def dir_hash_file_def and_then_def
      checked_add_def ok_or_def is_ok_def)

lemma ex_tree_entries: "all_observed ex_sha ex_tree = ex_entries"
  by (simp add: all_observed_def ex_tree_def ex_entries_def Let_def child_path_def ex_metadata_def scan_file_def
      dir_hash_file_def and_then_def checked_add_def ok_or_def manifest_entry_of_def ex_hash_def)

lemma ex_dir_body: "dir_canonical_body ex_entries 493 9 0 = Inr ex_dir_body"
  by (simp add: ex_dir_body_def dir_canonical_body_def ex_entries_def entry_line_def and_then_def)

lemma ex_dir_short: "length ex_dir_body \<le> 1000"
proof -
  have n: "length (show_nat k) \<le> 20" if "k < 2 ^ 64" for k using that by (rule length_show_nat_u64)
  have i: "length (show_int 5) \<le> 20" "length (show_int (-5)) \<le> 21" "length (show_int 0) \<le> 20" "length (show_int 7) \<le> 20"
    "length (show_int 9) \<le> 20"
    using n [of 5] n [of 0] n [of 7] n [of 9] by (simp_all add: show_int_def)
  have h: "length (hex ex_hash) = 64" "length (dir_hex [97]) = 2" "length (dir_hex [97, slash, 98]) = 6"
    by (simp_all add: dir_hex_eq)
  have "length (show_nat (Suc (Suc 0))) \<le> 20" by (rule n) simp
  then show ?thesis
    using i h n [of 448] n [of 384] n [of 493] n [of 2]
    by (simp add: ex_dir_body_def dir_canonical_body_def ex_entries_def entry_line_def and_then_def dir_header_line_def)
qed

lemma ex_dir_wf: "wf_dir_manifest ex_sha ex_dir"
  using ex_entries_valid [unfolded validate_entries_iff] ex_dir_body
  by (simp add: wf_dir_manifest_def ex_dir_def entry_typed_def is_i64_def is_u64_def ex_entries_def)

lemma ex_dir_encoded: "dir_encode ex_dir = Inr ex_dir_text"
  using ex_dir_body by (simp add: dir_encode_def ex_dir_def ex_dir_text_def and_then_def)

lemma ex_dir_parsed: "dir_parse ex_sha ex_dir_text = Inr ex_dir"
proof -
  note ex_dir_encoded
  moreover have "length ex_dir_text \<le> MAX_MANIFEST_BYTES"
    using ex_dir_short by (simp add: ex_dir_text_def MAX_MANIFEST_BYTES_def ex_dir_def)
  ultimately show ?thesis using ex_dir_wf by (simp add: dir_parse_iff)
qed

lemma ex_dir_within: "length ex_dir_text \<le> MAX_MANIFEST_BYTES"
  using ex_dir_parsed by (simp add: dir_parse_iff)

text \<open>What a client that announces \<open>ex_dir\<close> writes.\<close>

definition ex_key :: bytes where "ex_key = replicate 32 7"
definition ex_challenge :: bytes where "ex_challenge = replicate 32 1"
definition ex_nonce :: bytes where "ex_nonce = replicate 32 2"

definition ex_dir_auth :: session_auth where
  "ex_dir_auth = derive_session ex_sha ex_key (transcript ex_challenge (dir_greeting ex_dir) ex_nonce)"

definition ex_dir_stream :: bytes where
  "ex_dir_stream = client_lines ex_sha ex_key ex_challenge ex_nonce (dir_greeting ex_dir) @ client_frames ex_sha ex_dir_auth ex_dir"

lemma ex_lengths: "length ex_challenge = 32" "length ex_nonce = 32"
  by (simp_all add: ex_challenge_def ex_nonce_def)

lemma ex_announced: "snd (receive_announcement ex_sha ex_key ex_challenge ex_nonce (ex_dir_stream, Closed))
    = Inr (ex_dir, new_control ex_dir_auth ServerToClient)"
  using announcement_agrees(2) [OF ex_dir_wf ex_dir_encoded ex_dir_within ex_lengths, where key = ex_key and e = Closed and bs = "[]"]
  by (simp add: ex_dir_stream_def ex_dir_auth_def)

section \<open>A staging directory\<close>

definition ex_attrs :: attrs where
  "ex_attrs = \<lparr>at_mode = 448, at_mtime = 3\<rparr>"

definition ex_file_system :: "(path \<times> obj) list \<Rightarrow> file_system" where
  "ex_file_system t = \<lparr>tree = t, escaped = False, mishaps = [], running = True, ticks = 0, wall = int, fresh_mode = 493\<rparr>"

text \<open>Everything of \<open>ex_dir\<close> has arrived in the directory \<open>s\<close>.\<close>

definition ex_staging :: "(path \<times> obj) list" where
  "ex_staging =
     [([], Dir_obj ex_attrs), ([[0x73]], Dir_obj ex_attrs), ([[0x73], marker_name], File_obj ex_attrs (as_bytes ex_dir_text)),
      ([[0x73], [0x61]], Dir_obj ex_attrs), ([[0x73], [0x61], [0x62]], File_obj ex_attrs ex_file)]"

lemma ex_bare_tree: "closed (map_of [([], Dir_obj ex_attrs)])" "plain_names (map_of [([], Dir_obj ex_attrs)])"
proof -
  show "closed (map_of [([], Dir_obj ex_attrs)])" by (rule closed_list) (simp add: is_directory_def)
  show "plain_names (map_of [([], Dir_obj ex_attrs)])" by (rule plain_names_list) simp
qed

definition ex_destination :: destination where
  "ex_destination = \<lparr>dt_name = [0x64], dt_bytes = [0x2F, 0x64], dt_bare = False\<rparr>"

lemma ex_object_at [simp]: "object_at (ex_file_system t) = map_of t"
  by (simp add: object_at_def ex_file_system_def)

lemma marker_differs [simp]: "marker_name \<noteq> [x]" "[x] \<noteq> marker_name"
  by (simp_all add: marker_name_def as_bytes_def)

lemma ex_faultless: "closed (map_of t) \<Longrightarrow> faultless (map_of t) (ex_file_system t)"
  by (simp add: faultless_def) (simp add: ex_file_system_def)

lemma ex_staging_tree: "closed (map_of ex_staging)" "plain_names (map_of ex_staging)"
proof -
  show "closed (map_of ex_staging)" by (rule closed_list) (simp add: ex_staging_def is_directory_def)
  show "plain_names (map_of ex_staging)" by (rule plain_names_list) (simp add: ex_staging_def slash_not_in_marker)
qed

lemma ex_dir_entries [simp]: "d_entries ex_dir = ex_entries"
  by (simp add: ex_dir_def)

lemma ex_comps: "comps [0x61] = [[0x61]]" "comps [0x61, slash, 0x62] = [[0x61], [0x62]]"
  by (simp_all add: comps_def)

lemma ex_marker_free: "marker_name \<notin> e_path ` set (d_entries ex_dir)"
  by (simp add: ex_entries_def marker_name_def as_bytes_def)

lemma ex_complete: "complete_staging ex_sha ex_dir [0x73] (map_of ex_staging)"
proof -
  have "q = [] \<or> q = [marker_name] \<or> q = [[0x61]] \<or> q = [[0x61], [0x62]]" if "map_of ex_staging ([0x73] # q) = Some x" for q x
    using that by (auto simp: ex_staging_def split: if_splits)
  then have "staged ex_dir {} [0x73] (map_of ex_staging)"
    unfolding staged_def by (auto simp: ex_entries_def ex_comps ex_staging_def is_directory_def split: if_splits)
  then show ?thesis unfolding complete_staging_def
    by (simp add: ex_entries_def ex_comps ex_staging_def ex_hash_def ex_file_def)
qed

section \<open>A command line\<close>

definition ex_args :: "string list" where
  "ex_args = [''--connect'', ''h:1'', ''--udp-target'', ''h:2'', ''--file'', ''f'', ''--transport'', ''udp'',
     ''--key-file'', ''k'', ''--max-rate-mbps'', ''2.5e2'', ''--repair-cooldown-ms'', ''200000'']"

definition ex_send_args :: "unit send_args" where
  "ex_send_args = \<lparr>sa_connect = (), sa_udp_target = (), sa_file = ''f'', sa_transport = Udp, sa_rate = None,
     sa_min_rate = Finite 10, sa_max_rate = Finite 250, sa_repair_cooldown = 200000, sa_payload_bytes = 1172,
     sa_report_interval = 50, sa_idle_timeout = 30000, sa_key_file = ''k'', sa_reuse_chunks = False\<rparr>"

lemma ex_numbers:
  "parse_dec ''1172'' = Inr 1172" "parse_dec ''50'' = Inr 50" "parse_dec ''30000'' = Inr 30000"
  "parse_dec ''200000'' = Inr 200000"
  by (simp_all add: parse_dec_def from_str_radix_def to_digit_def)

lemma ex_rates: "parse_f64 Finite ''10'' = Inr (Finite 10)" "parse_f64 Finite ''2.5e2'' = Inr (Finite 250)"
  by code_simp+

lemma ex_args_valid: "validate_options ex_args
    [''--connect'', ''--udp-target'', ''--file'', ''--transport'', ''--rate-mbps'', ''--min-rate-mbps'',
     ''--max-rate-mbps'', ''--repair-cooldown-ms'', ''--udp-payload-bytes'', ''--feedback-interval-ms'',
     ''--idle-timeout-ms'', ''--key-file'', ''--reuse-chunks''] = Inr ()"
  by code_simp

lemma ex_options:
  "option_value ex_args ''--connect'' = Inr ''h:1''" "option_value ex_args ''--udp-target'' = Inr ''h:2''"
  "option_value ex_args ''--file'' = Inr ''f''" "option_value ex_args ''--transport'' = Inr ''udp''"
  "option_value ex_args ''--key-file'' = Inr ''k''" "optional_option ex_args ''--rate-mbps'' = None"
  "optional_option ex_args ''--min-rate-mbps'' = None" "optional_option ex_args ''--max-rate-mbps'' = Some ''2.5e2''"
  "optional_option ex_args ''--repair-cooldown-ms'' = Some ''200000''"
  "optional_option ex_args ''--udp-payload-bytes'' = None" "optional_option ex_args ''--feedback-interval-ms'' = None"
  "optional_option ex_args ''--idle-timeout-ms'' = None" "optional_option ex_args ''--reuse-chunks'' = None"
  by code_simp+

lemma ex_args_parsed: "parse_send (\<lambda>_. Inr [()]) Finite ex_args = Inr ex_send_args"
  by (simp add: parse_send_def ex_args_valid and_then_def socket_option_def resolve_socket_def ex_options ok_or_def
      transport_parse_def parse_tuning_def parse_rate_def or_default_def ex_rates ex_numbers parse_udp_payload_bytes_def
      parse_report_interval_def parse_idle_timeout_def parse_bool_option_def ex_send_args_def is_finite_def
      f64_le_zero_def f64_less_def)

section \<open>A transfer from end to end\<close>

definition ex_tcp_args :: "unit send_args" where
  "ex_tcp_args = ex_send_args\<lparr>sa_transport := Tcp, sa_repair_cooldown := 1000\<rparr>"

definition ex_udp_args :: "unit send_args" where
  "ex_udp_args = ex_send_args\<lparr>sa_repair_cooldown := 1000, sa_payload_bytes := 256\<rparr>"

definition ex_offered :: bytes where "ex_offered = replicate 16 3"

definition ex_send_inputs :: send_inputs where
  "ex_send_inputs = \<lparr>s_metadata = Inr (length ex_file), s_hashed = Inr (hex_digest (digest ex_sha ex_file)), s_scanned = Inl Panic,
     s_session = Inr ex_offered, s_connect = Inr (), s_file = ex_file, s_os = \<lambda>_ n. Inr n, s_write = \<lambda>_ _. None,
     s_lane_connect = \<lambda>_. Inr (), s_lane_os = \<lambda>_ _ n. Inr n, s_lane_write = \<lambda>_ _ _. None\<rparr>"

definition ex_receive_inputs :: receive_inputs where
  "ex_receive_inputs = \<lparr>o_os = \<lambda>_ n. Inr n, o_accepts = [], o_schedule = [], o_reuse_from = None, o_udp = ex_inputs\<rparr>"

lemma ex_args_sane: "sane_tuning ex_tcp_args" "sane_tuning ex_udp_args"
  by (simp_all add: sane_tuning_def ex_tcp_args_def ex_udp_args_def ex_send_args_def is_u64_def)

lemma ex_args_fields [simp]: "sa_transport ex_tcp_args = Tcp" "sa_transport ex_udp_args = Udp" "sa_repair_cooldown ex_tcp_args = 1000"
  "sa_repair_cooldown ex_udp_args = 1000" "\<not> sa_reuse_chunks ex_tcp_args" "\<not> sa_reuse_chunks ex_udp_args"
  "sa_payload_bytes ex_tcp_args = 1172" "sa_payload_bytes ex_udp_args = 256"
  by (simp_all add: ex_tcp_args_def ex_udp_args_def ex_send_args_def)

lemma ex_reads_file: "reads_file ex_sha ex_send_inputs ex_file"
  by (simp add: reads_file_def ex_send_inputs_def open_outlet_def)

lemma ex_session: "s_session ex_send_inputs = Inr ex_offered" "length ex_offered = 16"
  by (simp_all add: ex_send_inputs_def ex_offered_def)

lemma ex_receive_steady: "steady (o_os ex_receive_inputs)"
  by (simp add: ex_receive_inputs_def)

lemma ex_small: "(1000::nat) \<le> 120001"
  by simp

definition ex_udp_stream :: bytes where
  "ex_udp_stream = client_lines ex_sha ex_key ex_challenge ex_nonce (format_hello ex_hello)"

lemma ex_udp_greeting:
  assumes "snd (server_handshake ex_sha ex_key ex_challenge ex_nonce (ex_udp_stream, Closed)) = Inr (hello_body, sa, rest)"
  shows "hello_body = format_hello ex_hello" "parse_hello (format_hello ex_hello) = Inr ex_hello"
proof -
  note h = hello_line [OF wf_ex_hello ex_hello_simps(2)]
  have "snd (server_handshake ex_sha ex_key ex_challenge ex_nonce (ex_udp_stream, Closed))
      = Inr (format_hello ex_hello, derive_session ex_sha ex_key (transcript ex_challenge (format_hello ex_hello) ex_nonce), ([], Closed))"
    using server_handshake_honest [OF ex_lengths h, of ex_sha ex_key "[]" Closed] by (simp add: ex_udp_stream_def)
  with assms show "hello_body = format_hello ex_hello" by simp
  show "parse_hello (format_hello ex_hello) = Inr ex_hello" by (rule parse_format_hello [OF wf_ex_hello ex_hello_simps(2)])
qed

lemma ex_udp_ready: "udp_ready ex_sha ''f'' ex_receive_inputs sa rest ex_hello ex_world"
proof -
  have "tick_ok ex_sha sa ex_layout (\<lambda>_ _. True) tk" for tk
    by (auto simp: tick_ok_def carries_ok_def split: recv_outcome.splits option.splits)
  moreover have "resume_decode_hash (hex ex_hash) = Inr ex_hash" "length ex_hash = 32"
    by (simp_all add: ex_hash_def resume_decode_hash_hex)
  ultimately show ?thesis unfolding udp_ready_def
    by (intro conjI exI [of _ ex_hash] exI [of _ "\<lambda>_ _. True"]) (simp_all add: ex_receive_inputs_def ex_inputs_def)
qed

lemma ex_udp_layout: "h_layout (send_hello ex_udp_args (length ex_file) hash offered reuse) = ex_layout"
  by (simp add: send_hello_def ex_layout_def ex_file_def div_ceil_def)

text \<open>A UDP transfer: the datagram of the only chunk, and the end.\<close>

definition ex_udp_hello :: hello where
  "ex_udp_hello = send_hello ex_udp_args (length ex_file) (hex_digest (digest ex_sha ex_file)) ex_offered
     (map_option (\<lambda>x. (length (m_chunks x), m_hash x)) (None :: manifest option))"

definition ex_udp_auth :: session_auth where
  "ex_udp_auth = derive_session ex_sha ex_key (transcript ex_challenge (format_hello ex_udp_hello) ex_nonce)"

definition ex_udp_inputs :: receive_inputs where
  "ex_udp_inputs = ex_receive_inputs\<lparr>o_udp := ex_inputs\<lparr>u_ticks :=
     [ex_tick (Datagram (packet_of ex_sha ex_udp_auth (0, False, ex_file))) [], ex_tick WouldBlock [End]]\<rparr>\<rparr>"

lemma ex_udp_check: "check_datagram ex_sha ex_udp_auth ex_layout (packet_of ex_sha ex_udp_auth (0, False, ex_file)) = Some (0, False, ex_file)"
  by (rule check_datagram_packet) (simp_all add: valid_message_def chunk_length_def)

lemma ex_udp_hello_layout [simp]: "h_layout ex_udp_hello = ex_layout"
  by (simp add: ex_udp_hello_def ex_udp_layout [simplified])

lemma ex_udp_inputs_simps:
  "o_reuse_from ex_udp_inputs = None" "steady (u_os (o_udp ex_udp_inputs))" "length (u_ticks (o_udp ex_udp_inputs)) < 2 ^ 64"
  "\<forall>tk\<in>set (u_ticks (o_udp ex_udp_inputs)). undisturbed tk
    \<and> tick_ok ex_sha ex_udp_auth (h_layout ex_udp_hello) (sent_by (h_layout ex_udp_hello) ex_file) tk"
  "{..<chunks (h_layout ex_udp_hello)} \<subseteq> (\<Union>tk\<in>set (u_ticks (o_udp ex_udp_inputs)). carried ex_sha ex_udp_auth (h_layout ex_udp_hello) tk)"
  "\<exists>tk\<in>set (u_ticks (o_udp ex_udp_inputs)). End \<in> set (t_events tk)"
proof -
  show "{..<chunks (h_layout ex_udp_hello)}
      \<subseteq> (\<Union>tk\<in>set (u_ticks (o_udp ex_udp_inputs)). carried ex_sha ex_udp_auth (h_layout ex_udp_hello) tk)"
    by (simp add: ex_udp_inputs_def ex_tick_def carried_def ex_udp_check lessThan_Suc)
qed (auto simp: ex_udp_inputs_def ex_receive_inputs_def ex_inputs_def ex_tick_def undisturbed_def steady_def tick_ok_def carries_ok_def
    ex_udp_check sent_by_def ex_chunk)

section \<open>A printed result\<close>

definition ex_answer :: acceptance where
  "ex_answer = \<lparr>durable_chunks = [0], a_complete = False, a_telemetry = default_telemetry, reused_bytes = 0, reused_chunks = 0\<rparr>"

definition ex_totals :: send_totals where
  "ex_totals = \<lparr>st_datagrams = 1, st_repairs = 0, st_offered = 58, st_telemetry = default_telemetry,
     st_controller = controller_json (initial_controller ex_udp_args 0)\<rparr>"

end
