(* ===== verification/Spec2Isabelle.thy ===== *)
theory Spec2Isabelle
  imports Tree_Examples
begin

text \<open>
  Packet Tide: a verification library for the file-transfer program in \<open>src/\<close> (Rust).

  \<^bold>\<open>The program.\<close>  A sender reads a file, hashes it and greets a receiver over TCP.  The two
  authenticate each other with a shared secret (\<open>auth.rs\<close>) and agree on a transport.  With UDP
  the file goes out as authenticated datagrams, one per chunk; the receiver keeps a bitmap of
  what arrived, reports the gaps over the authenticated control stream, and the sender repairs
  them while a rate controller adapts to the reports.  The receiver writes into a part file,
  saves the bitmap beside it from time to time (\<open>resume.rs\<close>), may take content from an older
  local file (\<open>cdc.rs\<close>), verifies the hash of the whole object and renames it into place.
  \<open>directory.rs\<close> describes and installs directory trees, one such transfer per file.

  \<^bold>\<open>Conventions.\<close>  A Rust \<open>Result\<close> is a sum \<open>error + 'a\<close>, a panic is the error
  \<open>Panic\<close>, a \<open>String\<close> its list of bytes as characters.  Integers of 64 bits are natural
  numbers whose checked, saturating and wrapping operations are written out; words of bitmaps,
  bytes and the rolling hash are machine words.  SHA-256 (crate \<open>sha2\<close>) is a parameter
  \<open>sha :: bytes \<Rightarrow> 256 word\<close> of which nothing is assumed; where a statement would need
  that it has no collision, the absence of that collision is a hypothesis (\<open>no_collision\<close>) or
  the collision appears in the conclusion.  Random bytes, clocks, process ids, the number of
  bytes a system call transfers and its failures are arguments, so that every theorem holds for
  all of them.  Rounding of floating-point arithmetic in the rate controller and the pacer is a
  parameter \<open>rnd\<close>, over exact rationals.

  \<^bold>\<open>The theories.\<close>

  \<^item> \<open>Prelude\<close>: errors, results, 64-bit arithmetic, big-endian integers, lists of bytes.

  \<^item> \<open>Rust_Str\<close>: the part of Rust's \<open>str\<close> and integer parsing the program uses; UTF-8.

  \<^item> \<open>Codec\<close>: hexadecimal and canonical decimals (\<open>auth::hex\<close>, \<open>decode_array\<close>,
    \<open>hex_digest\<close>, \<open>parse_canonical_u64\<close>, the \<open>decode_hash\<close> functions).  The locales
    \<open>codec\<close> and \<open>canonical_codec\<close> are the contract; each pair is an interpretation.

  \<^item> \<open>Bitmap\<close>: the receipt bitmap and \<open>missing_ranges\<close>.  The locale \<open>chunk_set\<close> is
    what the other components rely on.

  \<^item> \<open>Feedback\<close>, \<open>Repairs\<close>: the report of the receiver, its parser, and the sender's repair
    queue with its bound and cooldown (\<open>format_feedback_report\<close>, \<open>parse_feedback_report\<close>,
    \<open>enqueue_repairs\<close>, \<open>take_repairs\<close>).

  \<^item> \<open>Auth\<close>: HMAC, the handshake, the control stream with its sequence numbers, the datagram
    tags and lane MACs (\<open>auth.rs\<close>).  A TCP stream is the bytes it still delivers and how it ends.
    The locale \<open>authenticator\<close> is the contract of a tag and its check.

  \<^item> \<open>Packet\<close>: positional reads and writes, \<open>build_packet\<close>, the checks on a datagram.

  \<^item> \<open>Effects\<close>: programs that call the operating system, with any call free to fail and the
    computer free to crash at any of them, and the judgement \<open>triple\<close> about them.

  \<^item> \<open>Disk\<close>: the files of a transfer as far as the program uses them, with explicit durability,
    crashes and faults.

  \<^item> \<open>Resume\<close>: \<open>resume.rs\<close>; the invariant \<open>crash_safe\<close> of every moment of a transfer.

  \<^item> \<open>Cdc\<close>: \<open>cdc.rs\<close>; the scan, the canonical manifest text, resynchronisation after an edit.

  \<^item> \<open>Hello\<close>: the greeting, the transferred manifest, the receiver's answer, the TCP4 lanes.

  \<^item> \<open>Receiver\<close>, \<open>Delivery\<close>: the receiving loop (\<open>receive_udp\<close> from its main loop
    on, \<open>advance_hash_frontier\<close>, \<open>mature_frontier\<close>) and what it delivers.

  \<^item> \<open>Reuse\<close>: \<open>apply_reusable_content\<close>.

  \<^item> \<open>Session\<close>: the whole of \<open>receive_udp\<close>.

  \<^item> \<open>Rate\<close>, \<open>Sender\<close>: the rate controller, the pacer, and the two threads of the sender
    (\<open>send_udp_inner\<close>, \<open>read_feedback\<close>) as an interleaved step relation with its invariant.

  \<^item> \<open>Completion\<close>: transfers that nothing disturbs complete.

  \<^item> \<open>Tcp\<close>, \<open>Tcp_Delivery\<close>: the TCP transports (\<open>send_tcp\<close>, \<open>receive_tcp\<close>, \<open>send_tcp4\<close>,
    \<open>receive_tcp4\<close> with its data connections and its threads under any schedule), what is at the
    destination when they return, and that an undisturbed transfer delivers.

  \<^item> \<open>Dialogue\<close>, \<open>Whole_Transfer\<close>: \<open>send\<close> and \<open>receive_on\<close> from the handshake to the return, over the
    bytes of the control connection: how every transfer ends, the negotiation of both sides, and a
    TCP transfer from end to end.

  \<^item> \<open>Dir_Manifest\<close>, \<open>Dir_Scan\<close>: the manifest of a directory tree (\<open>directory.rs\<close>): relative
    paths, the canonical text, its parser, the scan of a tree.

  \<^item> \<open>File_Tree\<close>, \<open>Staging\<close>, \<open>Install\<close>: receiving a directory (\<open>prepare_staging\<close>,
    \<open>file_destination\<close>, \<open>candidate_file\<close>, \<open>install\<close>) over a file system with symbolic links, and the
    refinement of \<open>install\<close> to an atomic publication (\<open>atomic_install\<close>).

  \<^item> \<open>Dir_Transfer\<close>: \<open>send_dir\<close> and \<open>receive_dir\<close>: the announcement of the manifest over an
    authenticated connection, the loop over the files, and the whole transfer as all-or-nothing.  The
    transfer of one file is an argument there.

  \<^item> \<open>Key_File\<close>: the creation of the key file and what is loaded from it (\<open>SecretKey\<close>), over the file
    system of \<open>File_Tree\<close>.

  \<^item> \<open>Json\<close>, \<open>Results\<close>: the printed lines and a reader for them, the report of the rate controller, the
    printed manifests, the lookup of the drop counter, and the choice of the command (\<open>run\<close>).

  \<^item> \<open>Cli\<close>: the options of the subcommands and the greeting \<open>send\<close> makes of them.

  \<^item> \<open>Examples\<close>, \<open>Tree_Examples\<close>: concrete inputs, from which the witnesses of the properties are
    built.

  \<^bold>\<open>Bounds and fuel.\<close>  Only the recursive check of a staging directory runs on fuel,
  \<open>MAX_RELATIVE_PATH_BYTES + 2\<close>; \<open>validate_fuel\<close> shows that more changes nothing, because a
  directory is entered only if its path is in the manifest.  The loops around system calls recurse
  on the bytes still to be transferred, which every successful call decreases; the receiving loop recurses
  on the list of what its iterations observe, and \<open>undisturbed_transfer_completes\<close> shows that it
  returns; the steps of the sender are a relation, in which the
  sending thread can always take a further step (\<open>sender_makes_progress\<close>).

  \<^bold>\<open>Not modelled.\<close>  Random bytes and clocks (arguments), the usage text and the error output, the
  set-up of sockets and threads, the unit tests, the scripts of \<open>lab/\<close> and \<open>release/\<close> and the measured
  data of \<open>results/\<close>.  In \<open>File_Tree\<close>: the permissions of the process, and other
  processes that change the tree during an operation.

  The properties follow, each with a witness at a concrete input where it has hypotheses.
\<close>

section \<open>A whole transfer\<close>



text \<open>
  A transfer that nothing disturbs completes: when no system call fails, every chunk is carried by
  some datagram, in any order, \<open>END\<close> arrives and the completion is acknowledged,
  \<open>receive_udp\<close> returns successfully after announcing \<open>COMPLETE\<close>, with
  the object installed; also when it resumes an earlier transfer.
\<close>

theorem undisturbed_transfer_completes:
  assumes "calm w" "crash_safe dest (h_layout h) (digest sha obj) (sent_by (h_layout h) obj) w"
    "history w = [names w]" "quiet w" "reopenable dest (h_layout h) (digest sha obj) 6 w" "\<not> has_hash sha dest h w"
    "wf_hello h" "length obj = size (h_layout h)" "h_hash h = hex_digest (digest sha obj)"
    "u_reuse inp = None" "steady (u_os inp)" "length (u_ticks inp) < 2 ^ 64"
    "\<forall>tk\<in>set (u_ticks inp). undisturbed tk \<and> tick_ok sha sa (h_layout h) (sent_by (h_layout h) obj) tk"
    "{..<chunks (h_layout h)} \<subseteq> (\<Union>tk\<in>set (u_ticks inp). carried sha sa (h_layout h) tk)"
    "\<exists>tk\<in>set (u_ticks inp). End \<in> set (t_events tk)"
  shows "\<exists>t w'. receive_udp sha pid sa dest h inp w = (Inr (Done t), w') \<and> ''COMPLETE'' \<in> set (sent w')
    \<and> (\<exists>i. installed dest i obj w')"
  by (rule receive_udp_completes) (fact assms)+



section \<open>Resuming\<close>

text \<open>
  C3. Every chunk that a resumed transfer takes for received is on disk with acceptable content,
  although the process was killed, and the machine crashed, at any point of a checkpoint.
\<close>

theorem checkpoint_survives_crashes:
  assumes "in_session dest ok st file w" "checkpoint pid st file w = (r, w1)" "crashed w1 w2"
    "resume_decode_hash hash_hex = Inr (object_hash st)"
    "resume_open pid' dest (shape st) hash_hex w2 = (Inr (file', st'), w3)" "x \<in> received_set (bitmap st')"
  shows "ok x (chunk_bytes (shape st) (content (inodes w3 ! file')) x)"
  by (rule checkpoint_crash_resume) (fact assms)+

theorem checkpoint_survives_crashes_witness:
  "sent_by ex_layout ex_file 0 (chunk_bytes ex_layout (content (inodes ex_resumed ! 0)) 0)"
  using checkpoint_survives_crashes [OF ex_in_session ex_checkpoint ex_crashed, of "hex ex_hash" 8 0 ex_state ex_resumed 0]
  by (simp add: ex_reopened ex_received)

text \<open>
  The map that a checkpoint writes is read back, bit for bit, by the next transfer of the same
  object.
\<close>

theorem resume_map_roundtrip:
  assumes "wf_bitmap (chunks l) bm" "length h = 32" "wf_layout l" "is_u64 (size l)"
  shows "decode_map l h (concat (map_pieces l h bm)) = Some bm"
  by (rule decode_map_pieces [OF assms])

text \<open>
  A map that belongs to another object, another size or another payload size is never used.
\<close>

theorem resume_map_of_another_object:
  assumes "decode_map l h (concat (map_pieces l' h' bm)) = Some bm'" "length h' = 32" "wf_layout l'" "is_u64 (size l')"
  shows "size l = size l' \<and> chunks l = chunks l' \<and> payload_bytes l = payload_bytes l' \<and> h = h'"
  by (rule decode_map_same_object [OF assms])

section \<open>Both sides\<close>



text \<open>
  C5. An undisturbed TCP transfer, byte for byte: what \<open>receive_on\<close> writes, fed to
  \<open>send\<close>, lets \<open>send\<close> end successfully with the file and the
  acknowledgement written, and what \<open>send\<close> writes, fed to \<open>receive_on\<close>,
  makes it end successfully after exactly the messages \<open>READY\<close> and
  \<open>COMPLETE\<close>, with the file of the sender at the destination.
\<close>

theorem tcp_transfer_from_end_to_end:
  assumes "sane_tuning a" "sa_transport a = Tcp" "\<not> sa_reuse_chunks a" "sa_repair_cooldown a \<le> 120001"
    "is_u64 (length f)" "div_ceil (length f) (sa_payload_bytes a) \<le> max_chunks"
    "reads_file sha si f" "s_session si = Inr offered" "length offered = 16" "length challenge = 32" "length nonce = 32"
    "steady (o_os oi)" "untouched dest old w" "calm w"
    "h = send_hello a (length f) (hex_digest (digest sha f)) offered None"
    "sa = derive_session sha key (transcript challenge (format_hello h) nonce)"
    "said = [ready_line (sa_payload_bytes a) (sa_report_interval a), ''COMPLETE'']"
    "client = client_lines sha key challenge nonce (format_hello h) @ f @ frames sha (new_control sa ClientToServer) [''COMPLETE_ACK'']"
  shows "send sha key a si (server_lines sha key challenge nonce (format_hello h) @ frames sha (new_control sa ServerToClient) said, e)
      = ([], (client, Inr Complete))
    \<and> (\<exists>w'. receive_on sha key challenge nonce pid dest oi (client, e') w
        = (server_lines sha key challenge nonce (format_hello h), Inr None, w')
      \<and> seen dest w' = Some f \<and> sent w' = sent w @ said)"
  using tcp_transfer_agrees [OF assms(1-14)] assms(15-18) by blast

theorem tcp_transfer_from_end_to_end_witness:
  "\<exists>client w'. (\<exists>server. send ex_sha ex_key ex_tcp_args ex_send_inputs (server, Closed) = ([], (client, Inr Complete)))
    \<and> snd (receive_on ex_sha ex_key ex_challenge ex_nonce 1 ''f'' ex_receive_inputs (client, Closed) ex_world) = (Inr None, w')
    \<and> seen ''f'' w' = Some ex_file"
proof -
  have "is_u64 (length ex_file)" "div_ceil (length ex_file) (sa_payload_bytes ex_tcp_args) \<le> max_chunks"
    by (simp_all add: ex_file_def is_u64_def div_ceil_def max_chunks_def)
  from tcp_transfer_from_end_to_end [OF ex_args_sane(1) _ _ _ this ex_reads_file ex_session ex_lengths ex_receive_steady ex_untouched
      ex_world_simps(3) refl refl refl refl, of ex_key Closed 1 Closed]
  show ?thesis by (metis ex_args_fields(1,3,5) ex_small snd_conv)
qed

text \<open>
  C6. The two sides of a UDP transfer agree on everything before the first datagram: from what
  \<open>send\<close> writes \<open>receive_on\<close> reads the same greeting, the same session
  keys and, when content is to be reused, the same manifest; from the answer of the receiver
  \<open>send\<close> learns exactly its durable chunks, and starts \<open>send_udp\<close> with
  them.
\<close>

theorem udp_negotiation:
  assumes "sane_tuning a" "sa_transport a = Udp" "sa_repair_cooldown a \<le> 120001"
    "is_u64 (length f)" "div_ceil (length f) (sa_payload_bytes a) \<le> max_chunks"
    "reads_file sha si f" "s_session si = Inr offered" "length offered = 16" "announces sha a si f m"
    "length challenge = 32" "length nonce = 32"
    "h = send_hello a (length f) (hex_digest (digest sha f)) offered (map_option (\<lambda>x. (length (m_chunks x), m_hash x)) m)"
    "sa = derive_session sha key (transcript challenge (format_hello h) nonce)"
    "msgs = (case m of None \<Rightarrow> [] | Some x \<Rightarrow> manifest_messages x)"
    "client = client_lines sha key challenge nonce (format_hello h) @ frames sha (new_control sa ClientToServer) msgs"
    "wf_bitmap (chunks (h_layout h)) bm" "rb \<le> chunks (h_layout h) * sa_payload_bytes a" "rc \<le> count_received bm"
  shows "send sha key a si (server_lines sha key challenge nonce (format_hello h) @ frames sha (new_control sa ServerToClient)
        (answer_lines (sa_payload_bytes a) (sa_report_interval a) rb rc bm) @ bs, e)
      = ([], (client, Inr (Streaming \<lparr>f_layout = h_layout h, f_auth = sa, f_durable = bm, f_adaptive = (sa_rate a = None),
          f_sha = sha, f_file = f\<rparr>)))
    \<and> receive_on sha key challenge nonce pid dest oi (client @ cs, e') w
      = (server_lines sha key challenge nonce (format_hello h), receive_negotiated sha pid dest oi sa (h\<lparr>h_session := session sa\<rparr>)
          (m, (new_control sa ClientToServer)\<lparr>seqno := length msgs\<rparr>, (cs, e')) w)"
  using udp_negotiation_agrees [OF assms(1-11)] assms(12-18) by blast

theorem udp_negotiation_witness:
  "\<exists>client server cfg. send ex_sha ex_key ex_udp_args ex_send_inputs (server, Closed) = ([], (client, Inr (Streaming cfg)))
    \<and> f_durable cfg = [1] \<and> f_layout cfg = ex_layout"
proof -
  have "is_u64 (length ex_file)" "div_ceil (length ex_file) (sa_payload_bytes ex_udp_args) \<le> max_chunks"
    by (simp_all add: ex_file_def is_u64_def div_ceil_def max_chunks_def)
  note n = udp_negotiation [OF ex_args_sane(2) _ _ this ex_reads_file ex_session _ ex_lengths refl refl refl refl,
      where m = None and bm = "[1]" and rb = 0 and rc = 0 and key = ex_key and bs = "[]" and e = Closed and w = ex_world]
  show ?thesis using n ex_udp_layout ex_wf_bitmap by (simp add: announces_def) (metis send_config.select_convs(1,3))
qed



section \<open>The sender\<close>

text \<open>
  C8. However the two threads of the sender interleave, the datagrams that are not repairs are
  those of the chunks that the receiver did not have at the beginning, in order, each sent exactly
  once, and when \<open>END\<close> has been sent they are all of them.
\<close>

theorem sender_first_pass:
  assumes "sender_reaches cfg (new_sender rnd now cool c) s" "wf_layout (f_layout cfg)" "rate_bounded c"
  shows "\<exists>n\<le>chunks (f_layout cfg).
      map fst (filter (\<lambda>(_, repair, _). \<not> repair) (x_socket s))
        = filter (\<lambda>i. \<not> bitmap_contains (f_durable cfg) i) [0..<n]
      \<and> (''END'' \<in> set (x_control s) \<longrightarrow> n = chunks (f_layout cfg))"
  using sender_inv_first_pass [OF sender_reaches_inv [OF assms]] unfolding firsts_def first_pass_def by metis

theorem sender_first_pass_witness:
  "\<exists>n\<le>1. [0] = filter (\<lambda>i. \<not> bitmap_contains [0] i) [0..<n]"
proof -
  have "map fst (filter (\<lambda>(_, repair, _). \<not> repair) (x_socket ex_sent)) = [0]" by (simp add: ex_sent_socket)
  moreover have "f_durable ex_cfg = [0]" by (simp add: ex_cfg_def)
  ultimately show ?thesis
    using sender_first_pass [OF ex_sent_reached [unfolded ex_start_def] _ ex_controller_bounded]
    unfolding ex_cfg_simps ex_layout_simps by (metis wf_ex_layout)
qed

text \<open>
  C9. Every datagram of the sender, first or repair, is the authenticated packet of a chunk of the
  file with the file's bytes, and the counters that the sender reports are the numbers of
  datagrams, of repairs and of bytes with their headers that it sent.
\<close>

theorem sender_datagrams:
  assumes "sender_reaches cfg (new_sender rnd now cool c) s" "wf_layout (f_layout cfg)" "rate_bounded c"
  shows "(\<forall>(i, repair, d)\<in>set (x_socket s). i < chunks (f_layout cfg)
      \<and> d = packet_of (f_sha cfg) (f_auth cfg) (i, repair, chunk_bytes (f_layout cfg) (f_file cfg) i))
    \<and> x_datagrams s = length (x_socket s)
    \<and> x_repairs s = length (filter (\<lambda>(_, repair, _). repair) (x_socket s))
    \<and> x_offered s = (\<Sum>(_, _, d)\<leftarrow>x_socket s. length d + 28)"
proof -
  note inv = sender_inv_datagrams [OF sender_reaches_inv [OF assms]]
  have "\<forall>p\<in>set (x_socket s). case p of (i, repair, d) \<Rightarrow> i < chunks (f_layout cfg)
      \<and> d = packet_of (f_sha cfg) (f_auth cfg) (i, repair, chunk_bytes (f_layout cfg) (f_file cfg) i)"
  proof
    fix p assume "p \<in> set (x_socket s)"
    then have "packet_ok cfg p" using inv by blast
    then show "case p of (i, repair, d) \<Rightarrow> i < chunks (f_layout cfg)
        \<and> d = packet_of (f_sha cfg) (f_auth cfg) (i, repair, chunk_bytes (f_layout cfg) (f_file cfg) i)"
      by (auto simp: packet_ok_def)
  qed
  then show ?thesis using inv by simp
qed

theorem sender_datagrams_witness:
  "ex_packet = packet_of ex_sha ex_auth (0, False, chunk_bytes ex_layout ex_file 0) \<and> x_datagrams ex_sent = 1"
  using sender_datagrams [OF ex_sent_reached [unfolded ex_start_def]] by (simp add: ex_sent_socket)



text \<open>
  The sending thread can always take a step that changes its state, except when it has finished or
  failed, or waits for the feedback thread to end after a completion.
\<close>

theorem sender_makes_progress:
  assumes "x_pc s \<noteq> Finished" "\<And>e. x_pc s \<noteq> Failed e" "x_pc s = Joining \<longrightarrow> \<not> x_reading s"
  shows "main_step cfg inp s \<noteq> s"
  by (rule main_step_progress) (use assms in \<open>auto simp: unfinished_def split: pc.splits\<close>)

section \<open>Datagrams\<close>

text \<open>
  C11. A datagram passes the receiver's check exactly when it is the packet, with its tag, of some
  chunk of the file with a payload of that chunk's length.
\<close>

theorem receiver_accepts_exactly_packets:
  assumes "wf_layout l"
  shows "(check_datagram sha sa l d = Some (sequence, repair, data))
    = (sequence < chunks l \<and> length data = chunk_length l sequence
       \<and> d = packet_header sequence repair (length data)
           @ udp_tag_parts sha (udp sa) (packet_header sequence repair (length data)) data @ data)"
  using check_datagram_iff [OF assms, of sha sa d "(sequence, repair, data)"]
  by (simp add: valid_message_def packet_of_def)

theorem receiver_accepts_exactly_packets_witness:
  "check_datagram ex_sha ex_auth ex_layout ex_packet = Some (0, False, ex_file)"
  unfolding receiver_accepts_exactly_packets [OF wf_ex_layout]
  by (simp add: ex_packet_def packet_of_def chunk_length_def)

text \<open>
  Whatever the sizes of the reads, a packet that is built is the packet of that chunk of the file.
\<close>

theorem build_packet_of_the_chunk:
  assumes "build_packet sha os file (size l) sa s repair (payload_bytes l) = Inr d" "wf_layout l" "s < chunks l"
  shows "chunk_start l s + chunk_length l s \<le> length file
    \<and> d = packet_of sha sa (s, repair, read_bytes file (chunk_start l s) (chunk_length l s))"
  using build_packet_Inr [OF assms] by simp

text \<open>
  However the operating system splits a positional write, the file ends up as if it were written
  at once, or, when the write fails, with a prefix of it written.
\<close>

theorem positional_write:
  assumes "write_all_at os f bs off = (g, r)" "off \<le> length f"
  shows "\<exists>k\<le>length bs. g = write_bytes f off (take k bs) \<and> (is_ok r \<longrightarrow> k = length bs)"
  by (rule write_all_at_prefix [OF assms])

section \<open>The handshake and the control channel\<close>

text \<open>
  C12. A client and a server with the same key that read each other's lines agree on the greeting
  and derive the same session keys, each from exactly the lines the other writes.
\<close>

theorem handshake_establishes_one_session:
  assumes "length challenge = 32" "length server_nonce = 32" "wire_line hello" "length hello \<le> 1977"
  shows "client_handshake sha key hello (server_lines sha key challenge server_nonce hello, e)
      = (client_lines sha key challenge server_nonce hello,
         Inr (derive_session sha key (transcript challenge hello server_nonce), ([], e)))
    \<and> server_handshake sha key challenge server_nonce (client_lines sha key challenge server_nonce hello, e)
      = (server_lines sha key challenge server_nonce hello,
         Inr (hello, derive_session sha key (transcript challenge hello server_nonce), ([], e)))"
  using client_handshake_honest [OF assms(1,2), of sha key hello "[]" e]
    server_handshake_honest [OF assms, of sha key "[]" e] by simp

theorem handshake_establishes_one_session_witness:
  "snd (client_handshake ex_sha (replicate 32 7) ''HELLO''
       (server_lines ex_sha (replicate 32 7) (replicate 32 1) (replicate 32 2) ''HELLO'', Closed))
    = Inr (derive_session ex_sha (replicate 32 7) (transcript (replicate 32 1) ''HELLO'' (replicate 32 2)), ([], Closed))"
  using handshake_establishes_one_session [of "replicate 32 1" "replicate 32 2" "''HELLO''" ex_sha "replicate 32 7" Closed]
  by (simp add: wire_line_ascii)

text \<open>
  C13. The server accepts a greeting only from lines that carry the two MACs, keyed with the
  shared secret, over its own fresh challenge and over the transcript with its own nonce; the
  session is derived from that transcript.
\<close>

theorem server_authenticates_client:
  assumes "snd (server_handshake sha key challenge server_nonce stream) = Inr (hello, a, rest)"
  shows "\<exists>stream1 m f. read_line_limited 2048 stream = Inr (''TSU4 '' @ hello @ '' '' @ m, stream1)
    \<and> decode_array 32 m = Inr (hello_mac sha key challenge hello)
    \<and> read_line_limited 2048 stream1 = Inr (''TSU4F '' @ f, rest)
    \<and> decode_array 32 f = Inr (finish_mac sha key (transcript challenge hello server_nonce))
    \<and> a = derive_session sha key (transcript challenge hello server_nonce)"
  using server_handshake_Inr [OF assms] by blast

theorem server_authenticates_client_witness:
  "\<exists>stream1 m f. read_line_limited 2048 (client_lines ex_sha (replicate 32 7) (replicate 32 1) (replicate 32 2) ''HELLO'', Closed)
      = Inr (''TSU4 '' @ ''HELLO'' @ '' '' @ m, stream1)
    \<and> decode_array 32 m = Inr (hello_mac ex_sha (replicate 32 7) (replicate 32 1) ''HELLO'')"
proof -
  have "snd (server_handshake ex_sha (replicate 32 7) (replicate 32 1) (replicate 32 2)
      (client_lines ex_sha (replicate 32 7) (replicate 32 1) (replicate 32 2) ''HELLO'', Closed))
    = Inr (''HELLO'', derive_session ex_sha (replicate 32 7) (transcript (replicate 32 1) ''HELLO'' (replicate 32 2)), ([], Closed))"
    using server_handshake_honest [of "replicate 32 1" "replicate 32 2" "''HELLO''" ex_sha "replicate 32 7" "[]" Closed]
    by (simp add: wire_line_ascii)
  from server_authenticates_client [OF this] show ?thesis by blast
qed

text \<open>
  C14. The control messages that one end sends are received by the other end unchanged and in
  order, and nothing of what follows on the connection is consumed.
\<close>

theorem control_messages_arrive_in_order:
  assumes "send_all sha c ps = Inr (out, c')" "\<forall>p\<in>set ps. wire_line p" "is_u64 (seqno c)"
  shows "recv_all sha (length ps) c (out @ bs, e) = Inr (ps, c', (bs, e))"
  by (rule recv_all_send_all [OF assms])

theorem control_messages_arrive_in_order_witness:
  "recv_all ex_sha 2 (new_control ex_auth ClientToServer)
     (fst (case send_all ex_sha (new_control ex_auth ClientToServer) [''PING'', ''END''] of Inr p \<Rightarrow> p), Closed)
   = Inr ([''PING'', ''END''], snd (case send_all ex_sha (new_control ex_auth ClientToServer) [''PING'', ''END''] of Inr p \<Rightarrow> p), ([], Closed))"
proof -
  obtain out c' where s: "send_all ex_sha (new_control ex_auth ClientToServer) [''PING'', ''END''] = Inr (out, c')"
    by (auto simp: control_send_def bump_def new_control_def checked_add_def Let_def)
  from control_messages_arrive_in_order [OF this, of "[]" Closed] show ?thesis
    unfolding s by (simp add: wire_line_ascii new_control_def is_u64_def numeral_2_eq_2)
qed

text \<open>
  A control line that was accepted once is refused at every other position of the sequence.
\<close>

theorem replayed_control_message:
  assumes "control_recv sha r inp = Inr (p, r', rest)" "seqno r2 \<noteq> seqno r"
  shows "control_recv sha r2 inp = Inl (Err ''replayed or out-of-order control frame'')"
  by (rule control_recv_replayed [OF assms])

text \<open>
  Two control messages have the same MAC input only when they have the same session, direction,
  sequence number and payload, and a control MAC input is never the input of a lane or a datagram
  MAC.
\<close>

theorem control_macs_are_unambiguous:
  assumes "length sid = length sid'" "is_u64 n" "is_u64 n'"
  shows "((control_mac_input sid d n p = control_mac_input sid' d' n' p')
      = (sid = sid' \<and> d = d' \<and> n = n' \<and> p = p'))
    \<and> control_mac_input sid d n p \<noteq> joined (label ''tsu4 lane'') xs
    \<and> control_mac_input sid d n p \<noteq> joined (label ''tsu4 udp'') ys"
  using control_mac_input_inject [OF assms, of d p d' p'] purposes_distinct by blast

section \<open>Reports and repairs\<close>

text \<open>
  C15. The feedback report that the receiver formats is read back by the sender field by field,
  with the missing ranges in the same encoding, whenever the counters are consistent.
\<close>

theorem feedback_report_roundtrip:
  assumes "telemetry_u64 t" "consistent_counters n_chunks t"
  shows "parse_feedback_report (format_feedback_report t ranges) n_chunks
    = Inr (t\<lparr>reports := 0\<rparr>, encode_ranges ranges)"
  by (rule parse_format_feedback_report [OF assms])

theorem feedback_report_roundtrip_witness:
  "parse_feedback_report (format_feedback_report
      \<lparr>received_chunks = 8, frontier_chunks = 10, accepted_datagrams = 7, valid_datagrams = 9,
       duplicate_datagrams = 2, invalid_datagrams = 3, repair_datagrams = 4,
       socket_drops = Some 5, reports = 3\<rparr> [(1, 2), (9, 9)]) 10
    = Inr (\<lparr>received_chunks = 8, frontier_chunks = 10, accepted_datagrams = 7,
       valid_datagrams = 9, duplicate_datagrams = 2, invalid_datagrams = 3,
       repair_datagrams = 4, socket_drops = Some 5, reports = 0\<rparr>, encode_ranges [(1, 2), (9, 9)])"
  by (subst feedback_report_roundtrip)
    (simp_all add: telemetry_u64_def is_u64_def consistent_counters_def checked_add_def)

text \<open>
  A report never exceeds \<open>MAX_FEEDBACK_REPORT_SIZE\<close>, so it is never refused by the
  control writer and its debug assertion never fails.
\<close>

theorem feedback_report_fits:
  assumes "telemetry_u64 t" "\<forall>r\<in>set rs. range_ok r" "length rs \<le> MAX_RANGES_PER_REPORT"
  shows "length (format_feedback_report t rs) \<le> MAX_FEEDBACK_REPORT_SIZE"
  by (rule length_format_feedback_report [OF assms])

text \<open>
  The ranges of a report are disjoint, ascending and not adjacent, at most as many as allowed, and
  together exactly the chunks missing below some bound, which is the requested end unless the
  limit on ranges was reached.
\<close>

theorem missing_ranges_are_the_gaps:
  "let result = missing_ranges bm end max_ranges in
    separated result \<and> length result \<le> max_ranges \<and>
    (\<exists>k\<le>end. range_members result = {i. i < k \<and> \<not> bitmap_contains bm i} \<and>
       (length result < max_ranges \<longrightarrow> k = end))"
  by (rule missing_ranges_spec)



text \<open>
  C17. The repair queue never holds a chunk twice or beyond the file, its set of queued chunks is
  that of the queue, it and its cooldown map stay within their limits, whatever reports arrive;
  and repairs are taken first in, first out.
\<close>

theorem repair_queue_is_a_bounded_set:
  assumes "repair_inv n_chunks q"
  shows "repair_inv n_chunks (fst (enqueue_repairs q ranges n_chunks))
    \<and> repair_inv n_chunks (purge_cooldown now q)
    \<and> (case take_repairs pick clock limit q of (taken, q') \<Rightarrow>
         repair_inv n_chunks q' \<and> taken = take limit (queue q) \<and> queue q' = drop limit (queue q))"
proof -
  obtain taken q' where t: "take_repairs pick clock limit q = (taken, q')" by fastforce
  from take_loop_inv [OF assms this [unfolded take_repairs_def]] show ?thesis
    using assms t by (simp add: enqueue_repairs_inv purge_cooldown_inv)
qed

theorem repair_queue_is_a_bounded_set_witness:
  "repair_inv 2 (fst (enqueue_repairs (new_repair_queue 100) ''0-1'' 2))"
  using repair_queue_is_a_bounded_set [OF repair_inv_new [of 2 100]] by blast

section \<open>Greeting, acceptance and transports\<close>

text \<open>
  The greeting that the sender formats is parsed back to the same transfer by the receiver.
\<close>

theorem hello_roundtrip:
  assumes "wf_hello h" "h_hash h = hex d"
  shows "parse_hello (format_hello h) = Inr h"
  by (rule parse_format_hello [OF assms])

text \<open>
  C18. Every greeting that the receiver accepts describes a transfer within its limits: the
  payload size is between 256 and 1424 bytes, the chunk count is that of the size and at most
  \<open>MAX_CHUNKS\<close>, the hash is one of 32 bytes, the intervals are within their bounds
  and content reuse is asked for UDP only, with at most the manifest's maximum of chunks.
\<close>

theorem accepted_hello_is_well_formed:
  assumes "parse_hello line = Inr h"
  shows "256 \<le> payload_bytes (h_layout h) \<and> payload_bytes (h_layout h) \<le> 1424
    \<and> chunks (h_layout h) = div_ceil (size (h_layout h)) (payload_bytes (h_layout h))
    \<and> chunks (h_layout h) \<le> max_chunks \<and> is_u64 (size (h_layout h))
    \<and> is_ok (decode_array 32 (h_hash h)) \<and> length (h_session h) = 16
    \<and> 10 \<le> h_report_interval h \<and> h_report_interval h \<le> 10000
    \<and> h_report_interval h \<le> h_repair_grace h \<and> h_repair_grace h \<le> 60000
    \<and> (\<forall>n_chunks m. h_reuse h = Some (n_chunks, m) \<longrightarrow> h_transport h = Udp \<and> n_chunks \<le> CDC_MAX_CHUNKS \<and> length m = 32)"
  using parse_hello_wf [OF assms] by (auto simp: wf_hello_def wf_layout_def)

theorem accepted_hello_is_well_formed_witness:
  "256 \<le> payload_bytes (h_layout ex_hello) \<and> is_ok (decode_array 32 (h_hash ex_hello))"
proof -
  have "parse_hello (format_hello ex_hello) = Inr ex_hello" by (rule parse_format_hello [of _ ex_hash]) simp_all
  from accepted_hello_is_well_formed [OF this] show ?thesis by blast
qed

text \<open>
  The sender reads from the receiver's answer exactly the receiver's bitmap of durable chunks and
  its reuse counters, and stops after \<open>GO\<close>.
\<close>

theorem acceptance_roundtrip:
  assumes "wf_bitmap (chunks l) bm" "wf_layout l" "is_u64 interval"
    "rb \<le> chunks l * payload_bytes l" "rc \<le> count_received bm"
  shows "read_acceptance (map Inr (answer_lines (payload_bytes l) interval rb rc bm) @ rest) Udp
      (chunks l) (payload_bytes l) interval
    = Inr (\<lparr>durable_chunks = bm, a_complete = False, a_telemetry = default_telemetry,
        reused_bytes = rb, reused_chunks = rc\<rparr>, rest)"
  by (rule read_acceptance_answer [OF assms])

text \<open>
  Whatever a receiver answers, the inventory that the sender accepts claims no chunk beyond the
  file and no more reused chunks than there are durable ones.
\<close>

theorem acceptance_stays_within_the_file:
  assumes "read_acceptance inb Udp n_chunks payload interval = Inr (a, rest)" "\<not> a_complete a"
  shows "reused_chunks a \<le> n_chunks \<and> reused_chunks a \<le> count_received (durable_chunks a)
    \<and> \<not> bits_beyond n_chunks (durable_chunks a)"
  by (rule read_acceptance_bounded [OF assms])

text \<open>
  Every byte of a file belongs to exactly one of the four TCP lanes.
\<close>

theorem tcp4_lanes_partition_the_file:
  assumes "k < n"
  shows "\<exists>!i. i < 4 \<and> fst (tcp4_lane_range n i) \<le> k \<and> k < snd (tcp4_lane_range n i)"
  by (rule lanes_partition [OF assms])

section \<open>Content-defined chunks and reuse\<close>

text \<open>
  C19. A manifest is parsed back from its encoding; and an encoding that is accepted is that of
  the manifest it is parsed to, which is well formed: its chunks cover the object without gap or
  overlap and its hash is that of its body.
\<close>

theorem manifest_roundtrip:
  "(wf_manifest sha m \<and> length (encode m) \<le> MAX_ENCODED_BYTES \<and> s = encode m)
    = (parse sha s = Inr m)"
  using parse_encode parse_Inr by blast

text \<open>
  The manifest that the sender announces and sends line by line is the one the receiver reads, and
  nothing after \<open>CHUNKS_END\<close> is consumed.
\<close>

theorem manifest_is_transferred:
  assumes "wf_manifest sha m" "length (encode m) \<le> MAX_ENCODED_BYTES"
    "h_reuse h = Some (length (m_chunks m), m_hash m)" "m_size m = size (h_layout h)"
  shows "read_reuse_manifest sha (map Inr (manifest_messages m) @ rest) h = Inr (Some m, rest)"
  by (rule read_reuse_manifest_messages [OF assms])

text \<open>
  C20. However the file is read, a scan that succeeds yields a well-formed manifest of the whole
  file, each chunk with the hash of its bytes.
\<close>

theorem scan_describes_the_file:
  assumes "scan sha (is_file, len) blocks = Inr m"
  shows "is_file \<and> wf_manifest sha m \<and> m_size m = len \<and> len = length (concat blocks)
    \<and> (\<forall>c\<in>set (m_chunks m). ch_hash c = digest sha (read_bytes (concat blocks) (ch_offset c) (ch_length c)))"
  by (rule scan_Inr [OF assms])

theorem scan_describes_the_file_witness: "wf_manifest ex_sha ex_manifest \<and> m_size ex_manifest = 2"
  using scan_describes_the_file [OF ex_scan] by simp

text \<open>
  C21. Two files that end alike, after prefixes that end at a chunk boundary, have the same chunks
  from there on: the chunking of what follows an edit does not depend on what precedes it.
\<close>

theorem scan_resynchronises_after_an_edit:
  assumes "scan_bytes sha new_scanner xs = Inr s" "sc_chunk s = []"
    "scan_bytes sha new_scanner ys = Inr t" "sc_chunk t = []"
    "scan sha (True, n) [xs @ common] = Inr m" "scan sha (True, n') [ys @ common] = Inr k"
  shows "\<exists>tail. signature (m_chunks m) = signature (sc_chunks s) @ tail
    \<and> signature (m_chunks k) = signature (sc_chunks t) @ tail"
  by (rule scan_resynchronises [OF assms])

theorem scan_resynchronises_after_an_edit_witness:
  "\<exists>tail. signature (m_chunks ex_manifest) = signature [] @ tail \<and> signature (m_chunks ex_manifest) = signature [] @ tail"
  using scan_resynchronises_after_an_edit [of ex_sha "[]" new_scanner "[]" new_scanner 2 ex_file ex_manifest 2 ex_manifest] ex_scan
  by (simp add: new_scanner_def)

text \<open>
  C22. Reusing an older local file keeps the session: the chunks it marks as received hold the
  bytes of the new object, although the local file may have changed since it was scanned, and the
  counters it returns are the chunks and bytes newly marked.
\<close>

theorem reuse_trusts_only_verified_content:
  assumes "in_session dest (sent_by l obj) st i w" "shape st = l" "length obj = size l"
    "contiguous (size l) 0 (m_chunks target)" "describes sha obj (m_chunks target)"
    "no_collision sha obj (c_bytes cand) (m_chunks target)"
    "apply_reusable_content sha pid i st target cand l w = (Inr (st', nbytes, nchunks), w')"
  shows "in_session dest (sent_by l obj) st' i w' \<and> received_set (bitmap st) \<subseteq> received_set (bitmap st')
    \<and> nchunks = card (received_set (bitmap st') - received_set (bitmap st))
    \<and> nbytes = (\<Sum>s\<in>received_set (bitmap st') - received_set (bitmap st). chunk_length l s)"
  using triple_Inr [OF apply_reusable_content_reuses [OF assms(4,3,5,6,2)] assms(1,7)]
  by (simp add: reused_def Let_def)

theorem reuse_trusts_only_verified_content_witness:
  "in_session ''f'' (sent_by ex_layout ex_file) ex_state 0 (ex_resumed\<lparr>history := ex_history\<rparr>)"
  using reuse_trusts_only_verified_content [OF ex_fresh_session _ _ ex_manifest_contiguous ex_manifest_describes
      ex_no_collision ex_reuse] by (simp add: ex_fresh_def new_state_def)

text \<open>
  C23. After copying, exactly the packets that lie entirely in the copied ranges are added to the
  received ones, in one pass over the merged ranges.
\<close>

theorem reuse_marks_exactly_the_covered_packets:
  assumes "in_session dest ok st i w" "shape st = l" "ascending 0 copied"
    "\<And>s. s < chunks l \<Longrightarrow> chunk_range l s \<subseteq> covered copied \<Longrightarrow> ok s (chunk_bytes l (content (inodes w ! i)) s)"
  shows "\<exists>mk. mark_chunks l [0..<chunks l]
      \<lparr>mk_state = st, mk_ranges = merge_ranges copied, mk_bytes = 0, mk_chunks = 0\<rparr> = Inr mk
    \<and> received_set (bitmap (mk_state mk))
      = received_set (bitmap st) \<union> {s. s < chunks l \<and> chunk_range l s \<subseteq> covered copied}"
proof -
  note mr = merge_ranges_spec [OF assms(3)]
  have m0: "marked dest ok i l st (merge_ranges copied) 0
      \<lparr>mk_state = st, mk_ranges = merge_ranges copied, mk_bytes = 0, mk_chunks = 0\<rparr> w"
    using assms(1,2) dropWhile_apart [OF conjunct1 [OF mr]]
    by (auto simp: marked_def covered_packets_0 intro!: exI [of _ 0])
  from mark_chunks_marks [OF m0 _ conjunct1 [OF mr], of "chunks l"] assms(4) mr show ?thesis
    by (auto simp: marked_def covered_packets_def)
qed

theorem reuse_marks_exactly_the_covered_packets_witness:
  "\<exists>mk. mark_chunks ex_layout [0..<1]
      \<lparr>mk_state = ex_state, mk_ranges = merge_ranges [(0, 2)], mk_bytes = 0, mk_chunks = 0\<rparr> = Inr mk
    \<and> received_set (bitmap (mk_state mk)) = {0}"
proof -
  have "{s. s < 1 \<and> chunk_range ex_layout s \<subseteq> covered [(0, 2)]} \<subseteq> {0}" by auto
  then have "received_set (bitmap ex_state) \<union> {s. s < 1 \<and> chunk_range ex_layout s \<subseteq> covered [(0, 2)]} = {0}"
    using ex_received by auto
  then show ?thesis
    using reuse_marks_exactly_the_covered_packets [OF ex_in_session, of ex_layout "[(0, 2)]"] ex_chunk
    by (auto simp: sent_by_def ex_halfway_def)
qed

section \<open>Rate and pacing\<close>

text \<open>
  C24. The rate controller stays within the configured bounds whatever is reported; each recorded
  decision names the change it made; and its counters add up.
\<close>

theorem rate_stays_within_bounds:
  assumes "rate_inv c" "c_count c + 1 < 2 ^ 64"
  shows "\<exists>c'. observe rnd t now payload c = Inr c' \<and> rate_inv c' \<and> c_min c \<le> c_rate c' \<and> c_rate c' \<le> c_max c"
proof -
  obtain c' where c': "observe rnd t now payload c = Inr c'" using observe_total [OF assms(1)] by blast
  then have "c_min c' = c_min c \<and> c_max c' = c_max c"
    by (auto simp: observe_def note_decision_def split: if_splits)
  then show ?thesis using c' observe_inv [OF assms c'] by (auto simp: rate_inv_def)
qed

theorem rate_stays_within_bounds_witness:
  "\<exists>c'. observe (\<lambda>x. x) default_telemetry 1000000000 1172 ex_controller = Inr c' \<and> rate_inv c'
    \<and> 10 \<le> c_rate c' \<and> c_rate c' \<le> 1000"
  using rate_stays_within_bounds [of ex_controller] new_controller_inv [of 10 1000 0 None 50000000]
  by (simp add: ex_controller_def) (simp add: new_controller_def)

text \<open>
  The rate is not raised on a report that shows no new accepted chunk or new drops at the
  receiver's socket.
\<close>

theorem rate_backs_off:
  assumes "rate_inv c" "observe rnd t now payload c = Inr c'"
    "mono rnd" "rnd (c_rate c) = c_rate c" "rnd 1 = 1" "0 \<le> c_rate c"
    "accepted_datagrams t \<le> accepted_datagrams (c_telemetry c) \<or> 0 < new_drops t (c_telemetry c)"
  shows "c_rate c' \<le> c_rate c"
  by (rule observe_backs_off [OF assms])

text \<open>
  C25. Whatever the reports of a transfer say, the controller of an accepted configuration takes
  them all, and the report it prints can be read as JSON and accounts for every decision: the
  counts of increases, decreases and holds add up to the count of decisions, and the decisions
  that the list of at most 4096 leaves out are exactly those counted as omitted.
\<close>

theorem rate_report_accounts_for_all_decisions:
  assumes "sane_tuning a" "length rs < 2 ^ 64"
  shows "\<exists>c vs. observe_all rnd payload rs (initial_controller a start) = Inr c
    \<and> read_json (controller_json c) = Some (Object vs) \<and> accounted vs"
  by (rule report_accounts_for_decisions [OF assms])

theorem rate_report_accounts_for_all_decisions_witness:
  "\<exists>c vs. observe_all (\<lambda>x. x) 256 [(default_telemetry, 1000000000)] (initial_controller ex_udp_args 0) = Inr c
    \<and> read_json (controller_json c) = Some (Object vs) \<and> accounted vs"
  by (rule rate_report_accounts_for_all_decisions) (simp_all add: ex_args_sane)

text \<open>
  Whenever the pacer accounts a full batch, it sleeps until the bytes sent so far are due at the
  configured rate; a batch is between 1200 and 65536 bytes.
\<close>

theorem pacing_keeps_the_schedule:
  assumes "account_and_wait rnd secs now n p = (p', ns)" "p_since p' = 0" "0 < n" "p_started p \<le> now"
  shows "pace_target rnd secs p' \<le> duration_since (now + int ns) (p_started p')
    \<and> 1200 \<le> batch_of rnd rate \<and> batch_of rnd rate \<le> 65536"
  using account_on_schedule [OF assms] batch_bounds by blast

section \<open>TCP and TCP4\<close>

text \<open>
  C26. A TCP4 transfer that nothing disturbs terminates and delivers: when
  \<open>send_tcp4\<close> has succeeded, its four connections are accepted in any order and every
  thread of the receiver gets one turn more than the file has bytes, in any interleaving and with
  reads of any size, then \<open>receive_tcp4\<close> returns successfully, has announced
  \<open>COMPLETE\<close>, and the destination holds the sender's file.
\<close>

theorem tcp4_transfer_delivers:
  assumes "send_tcp4 sha sa conn ros wr f = (outs, Inr u)" "length (session sa) = 16"
    "length f = size (h_layout h)" "h_hash h = hex_digest (digest sha f)"
    "distinct order" "set order = {..<4}" "evs = map (\<lambda>i. Connected (outs ! i, Closed)) order"
    "\<And>i. i < 4 \<Longrightarrow> length f < count_list schedule i"
    "steady os" "temporary \<noteq> dest" "untouched dest old w" "calm w"
  shows "\<exists>w'. receive_tcp4 sha os sa temporary dest h evs schedule (Inr ''COMPLETE_ACK'') w = (Inr (), w')
    \<and> seen dest w' = Some f \<and> ''COMPLETE'' \<in> set (sent w')"
  by (rule tcp4_delivers) (fact assms)+

theorem tcp4_transfer_delivers_witness:
  "\<exists>w'. receive_tcp4 ex_sha (\<lambda>_ n. Inr n) ex_auth ''t'' ''f'' ex_tcp_hello ex_accepts ex_schedule
      (Inr ''COMPLETE_ACK'') ex_world = (Inr (), w')
    \<and> seen ''f'' w' = Some ex_file \<and> ''COMPLETE'' \<in> set (sent w')"
  by (rule tcp4_transfer_delivers [OF ex_lanes length_ex_session _ _ ex_orders ex_accepts_def ex_schedule_fair
        _ _ ex_untouched])
    (simp_all add: ex_hash_def hex_digest_eq)

text \<open>
  Whatever happens to a TCP4 transfer, at every end of \<open>receive_tcp4\<close> the destination
  is as it was and nothing has been announced, or it holds the first bytes of four data
  connections, each of which presented the MAC of its lane, put together in lane order, with the
  announced size and hash; after a success or an announcement of \<open>COMPLETE\<close> it is the
  latter. System calls may fail, connections may break and the threads may be interleaved in any
  way.
\<close>

theorem receive_tcp4_installs_only_the_lanes:
  assumes "untouched dest old w" "temporary \<noteq> dest"
    "receive_tcp4 sha os sa temporary dest h evs schedule reply w = (r, w')"
  shows "(r \<noteq> Inr () \<and> seen dest w' = old \<and> ''COMPLETE'' \<notin> set (sent w'))
    \<or> (\<exists>c. seen dest w' = Some c \<and> four_lanes sha sa h evs c \<and> good_file sha h c)"
  using settles_end [OF receive_tcp4_settles [OF assms(2)] assms(1,3)] .

text \<open>
  Whatever happens to a TCP transfer, at every end of \<open>receive_tcp\<close> the destination
  is as it was and nothing has been announced, or it holds the first bytes of the control
  connection, as many as announced, and their hash is the announced one; after a success or an
  announcement of \<open>COMPLETE\<close> it is the latter.
\<close>

theorem receive_tcp_installs_only_the_stream:
  assumes "untouched dest old w" "temporary \<noteq> dest" "receive_tcp sha os temporary dest h inp reply w = (r, w')"
  shows "(r \<noteq> Inr () \<and> seen dest w' = old \<and> ''COMPLETE'' \<notin> set (sent w'))
    \<or> (seen dest w' = Some (take (size (h_layout h)) (fst inp)) \<and> good_file sha h (take (size (h_layout h)) (fst inp)))"
proof -
  let ?c = "take (size (h_layout h)) (fst inp)"
  have "triple (untouched dest old) (receive_tcp sha os temporary dest h inp reply)
      (\<lambda>_ w. \<exists>c. (good_file sha h c \<and> c = ?c) \<and> replaced dest c w) (settled dest old (\<lambda>c. good_file sha h c \<and> c = ?c))"
    by (rule triple_conseq [OF receive_tcp_settles [OF assms(2)]]) auto
  from settles_end [OF this assms(1,3)] show ?thesis by blast
qed

text \<open>
  A TCP transfer that nothing disturbs delivers: what \<open>send_tcp\<close> has sent makes
  \<open>receive_tcp\<close> return with the sender's file at the destination, whatever the sizes
  of the reads.
\<close>

theorem tcp_transfer_delivers:
  assumes "send_tcp ros wr f = (out, Inr u)" "length f = size (h_layout h)" "h_hash h = hex_digest (digest sha f)"
    "steady os" "temporary \<noteq> dest" "untouched dest old w" "calm w"
  shows "\<exists>w'. receive_tcp sha os temporary dest h (out, Closed) (Inr ''COMPLETE_ACK'') w = (Inr (), w')
    \<and> seen dest w' = Some f \<and> ''COMPLETE'' \<in> set (sent w')"
  by (rule tcp_delivers) (fact assms)+

section \<open>Directory manifests\<close>

text \<open>
  C27. The directory manifest has one text per tree: \<open>parse\<close> accepts a text with
  result \<open>m\<close> exactly when \<open>m\<close> is well formed, its hash is the one of its
  canonical body, the text is what \<open>encode\<close> prints for \<open>m\<close>, and it is
  within the size limit.
\<close>

theorem directory_manifest_roundtrip:
  "(dir_parse sha s = Inr m) = (wf_dir_manifest sha m \<and> dir_encode m = Inr s \<and> length s \<le> MAX_MANIFEST_BYTES)"
  by (rule dir_parse_iff)

text \<open>
  C28. The single pass of \<open>validate_entries\<close> with its map of the kinds seen so far
  accepts exactly the entry lists within the limit that describe a tree: strictly sorted paths,
  each made of proper names, with fields in range, and every proper prefix of a path that ends
  before a slash is the path of a directory entry.
\<close>

theorem validated_entries_are_a_tree:
  "(validate_entries es = Inr ()) = (length es \<le> MAX_MANIFEST_ENTRIES \<and> tree_shaped es)"
  by (rule validate_entries_iff)

text \<open>
  C29. No path of an accepted directory manifest leaves the directory it is resolved in: it is
  relative and not empty, following its components from any directory only ever descends, and all
  the directories it passes through are themselves directory entries of the manifest.
\<close>

theorem manifest_paths_stay_below_the_root:
  assumes "dir_parse sha s = Inr m" "e \<in> set (d_entries m)"
  shows "e_path e \<noteq> [] \<and> e_path e ! 0 \<noteq> slash
    \<and> resolve base (split_on slash (e_path e)) = base @ split_on slash (e_path e)
    \<and> set (parents (e_path e)) \<subseteq> directories (d_entries m)"
proof -
  have t: "entry_ok e \<and> set (parents (e_path e)) \<subseteq> directories (d_entries m)"
    using assms by (auto simp: dir_parse_iff wf_dir_manifest_def tree_shaped_def)
  then have s: "safe_path (e_path e)" by (simp add: entry_ok_def)
  then have "e_path e \<noteq> []" by (auto simp: validate_relative_path_iff [symmetric] validate_relative_path_def)
  then show ?thesis using t safe_path_stays_below [OF s] by blast
qed

theorem manifest_paths_stay_below_the_root_witness:
  "[0x61, 0x2F, 0x62] \<noteq> ([] :: bytes) \<and> [0x61, 0x2F, 0x62] ! 0 \<noteq> slash
    \<and> resolve [[0x72]] (split_on slash [0x61, 0x2F, 0x62]) = [[0x72]] @ split_on slash [0x61, 0x2F, 0x62]
    \<and> set (parents [0x61, 0x2F, 0x62]) \<subseteq> directories ex_entries"
  using manifest_paths_stay_below_the_root [OF ex_dir_parsed, of "ex_entries ! 1" "[[0x72]]"]
  by (simp add: ex_dir_def ex_entries_def)

text \<open>
  C30. \<open>build\<close> describes a directory completely: for a tree of directories and
  regular files that does not change while it is scanned, has proper names and stays within the
  limits, it succeeds with exactly one entry per directory and file below the root, and the text
  of the manifest is accepted by \<open>parse\<close> with the same result.
\<close>

theorem scanned_directory_is_described:
  assumes "md_type md = Is_dir" "distinct (map sn_name cs)" "list_all well_named cs" "list_all (acceptable sha []) cs"
    "\<forall>e\<in>set (all_observed sha cs). is_i64 (e_seconds e) \<and> 0 \<le> e_nanoseconds e \<and> e_nanoseconds e < 1000000000"
    "is_i64 (md_mtime md)" "0 \<le> md_nsec md \<and> md_nsec md < 1000000000"
    "length (all_observed sha cs) \<le> MAX_MANIFEST_ENTRIES"
    "\<forall>body. dir_canonical_body (sort_key e_path (all_observed sha cs)) (md_mode md mod 512) (md_mtime md) (md_nsec md)
      = Inr body \<longrightarrow> length body + 70 \<le> MAX_MANIFEST_BYTES"
  shows "\<exists>m s. build sha (Inr md) (Inr cs) = Inr m \<and> set (d_entries m) = (\<Union>c\<in>set cs. set (observed sha [] c))
    \<and> dir_encode m = Inr s \<and> dir_parse sha s = Inr m"
proof -
  have "\<exists>m. build sha (Inr md) (Inr cs) = Inr m \<and> set (d_entries m) = (\<Union>c\<in>set cs. set (observed sha [] c))"
    by (rule build_total) (use assms in auto)
  then obtain m where m: "build sha (Inr md) (Inr cs) = Inr m" "set (d_entries m) = (\<Union>c\<in>set cs. set (observed sha [] c))"
    by blast
  have "d_root_seconds m = md_mtime md" "d_root_nanoseconds m = md_nsec md"
    using m(1) by (auto simp: build_def and_then_eq_Inr Let_def split: if_splits)
  moreover have "set (d_entries m) = set (all_observed sha cs)" using m(2) by (simp add: all_observed_def)
  ultimately show ?thesis using build_accepted [OF m(1)] m assms(5-7) by auto
qed

theorem scanned_directory_is_described_witness:
  "\<exists>m s. build ex_sha (Inr (ex_metadata Is_dir 16877 9 0 64)) (Inr ex_tree) = Inr m
    \<and> set (d_entries m) = (\<Union>c\<in>set ex_tree. set (observed ex_sha [] c))
    \<and> dir_encode m = Inr s \<and> dir_parse ex_sha s = Inr m"
proof (rule scanned_directory_is_described)
  have "sort_key e_path ex_entries = ex_entries" by (simp add: ex_entries_def)
  then show "\<forall>body. dir_canonical_body (sort_key e_path (all_observed ex_sha ex_tree)) (md_mode (ex_metadata Is_dir 16877 9 0 64) mod 512)
      (md_mtime (ex_metadata Is_dir 16877 9 0 64)) (md_nsec (ex_metadata Is_dir 16877 9 0 64)) = Inr body
    \<longrightarrow> length body + 70 \<le> MAX_MANIFEST_BYTES"
    using ex_dir_body ex_dir_short by (simp add: ex_tree_entries ex_metadata_def MAX_MANIFEST_BYTES_def)
qed (use ex_tree_acceptable in \<open>simp_all add: ex_tree_entries, simp_all add: ex_metadata_def ex_tree_def ex_entries_def
    is_i64_def MAX_MANIFEST_ENTRIES_def proper_name_def\<close>)

section \<open>Receiving a directory\<close>





text \<open>
  C33. \<open>prepare_staging\<close> changes nothing but the staging directory, whatever it finds
  there and whichever call fails: it follows no symbolic link, and when it succeeds the
  destination was free, the marker is the text of the manifest, all directories of the manifest
  exist, and there is nothing else but files of the manifest and their partial files.
\<close>

theorem preparation_touches_only_the_staging_directory:
  assumes "wf_dir_manifest sha m" "dir_encode m = Inr text"
    "closed (object_at w)" "is_directory (object_at w) []" "plain_names (object_at w)" "\<not> escaped w"
    "prepare_staging sha m d w = (r, w')"
  shows "\<not> escaped w' \<and> visible (staging_name sha m d) (object_at w') = visible (staging_name sha m d) (object_at w)
    \<and> (\<forall>p. r = Inr p \<longrightarrow> p = [staging_name sha m d] \<and> object_at w [dt_name d] = None
      \<and> staged m (partial_paths m) (staging_name sha m d) (object_at w')
      \<and> (\<exists>a. object_at w' [staging_name sha m d, marker_name] = Some (File_obj a (as_bytes text))))"
proof -
  have "tree_shaped (d_entries m)" using assms(1) by (simp add: wf_dir_manifest_def)
  from prepare_contract [OF this assms(2-7)] show ?thesis by blast
qed

theorem preparation_touches_only_the_staging_directory_witness:
  "\<exists>r w'. prepare_staging ex_sha ex_dir ex_destination (ex_file_system ex_staging) = (r, w') \<and> \<not> escaped w'
    \<and> object_at w' [[0x73], [0x61], [0x62]] = Some (File_obj ex_attrs ex_file)"
proof -
  let ?w = "ex_file_system ex_staging" and ?s = "staging_name ex_sha ex_dir ex_destination"
  obtain r w' where r: "prepare_staging ex_sha ex_dir ex_destination ?w = (r, w')" by fastforce
  have t: "closed (object_at ?w)" "is_directory (object_at ?w) []" "plain_names (object_at ?w)" "\<not> escaped ?w"
    using ex_staging_tree by (simp_all add: ex_staging_def is_directory_def) (simp add: ex_file_system_def)
  have p: "\<not> escaped w' \<and> visible ?s (object_at w') = visible ?s (object_at ?w)"
    using preparation_touches_only_the_staging_directory [OF ex_dir_wf ex_dir_encoded t r] by blast
  then have "visible ?s (object_at w') [[0x73], [0x61], [0x62]] = visible ?s (map_of ex_staging) [[0x73], [0x61], [0x62]]"
    by simp
  moreover have "length ?s \<noteq> length [0x73 :: byte]" by (simp add: staging_name_def)
  then have "[0x73] \<noteq> ?s" by metis
  ultimately have "object_at w' [[0x73], [0x61], [0x62]] = map_of ex_staging [[0x73], [0x61], [0x62]]"
    by (simp add: visible_def)
  then show ?thesis using r p by (simp add: ex_staging_def)
qed

text \<open>
  C34. \<open>candidate_file\<close> and \<open>source_file\<close> change nothing and never pass
  through a symbolic link, whatever lies below the root and whichever call fails, and the path
  they return is the entry's own below the root and that of a regular file.
\<close>

theorem files_are_found_below_the_root:
  assumes "closed (object_at w)" "reachable (object_at w) base" "\<not> escaped w"
    "candidate_file m base i w = (r, w1)" "source_file m base i w = (r', w2)"
  shows "\<not> escaped w1 \<and> object_at w1 = object_at w \<and> \<not> escaped w2 \<and> object_at w2 = object_at w
    \<and> (\<forall>p. r = Inr (Some p) \<or> r' = Inr p \<longrightarrow> (\<exists>e a c. i < length (d_entries m) \<and> e = d_entries m ! i \<and> e_kind e = File
        \<and> p = base @ comps (e_path e) \<and> object_at w p = Some (File_obj a c)))"
proof -
  note c = looksD [OF looks_candidate_file [OF assms(1,2), of m i] assms(1,3,4)]
  note s = looksD [OF looks_source_file [OF assms(1,2), of m i] assms(1,3,5)]
  show ?thesis using c(1,2) s(1,2) c(3) [of "Some _"] s(3) by (auto simp: file_entry_Inr)
qed

theorem files_are_found_below_the_root_witness:
  "\<exists>r w1 r' w2. candidate_file ex_dir [[0x73]] 1 (ex_file_system ex_staging) = (r, w1)
    \<and> source_file ex_dir [[0x73]] 1 (ex_file_system ex_staging) = (r', w2)
    \<and> \<not> escaped w1 \<and> object_at w2 = map_of ex_staging"
proof -
  let ?w = "ex_file_system ex_staging"
  obtain r w1 r' w2 where r: "candidate_file ex_dir [[0x73]] 1 ?w = (r, w1)" "source_file ex_dir [[0x73]] 1 ?w = (r', w2)"
    by fastforce
  have t: "closed (object_at ?w)" "reachable (object_at ?w) [[0x73]]" "\<not> escaped ?w"
    using ex_staging_tree by (simp_all add: ex_staging_def is_directory_def reachable_def) (simp add: ex_file_system_def)
  from files_are_found_below_the_root [OF t r] r show ?thesis by auto
qed



text \<open>
  C36. The two sides of a directory transfer agree: what \<open>receive_dir\<close> writes when it
  accepts lets \<open>send_dir\<close> go on to the files, and from what \<open>send_dir\<close>
  writes (greeting, lines of the manifest, end) \<open>receive_dir\<close> reads exactly the
  manifest that was announced, over the authenticated session both have derived.
\<close>

theorem directory_manifest_is_announced:
  assumes "wf_dir_manifest sha m" "dir_encode m = Inr s" "length s \<le> MAX_MANIFEST_BYTES"
    "length challenge = 32" "length nonce = 32"
    "a = derive_session sha key (transcript challenge (dir_greeting m) nonce)"
  shows "announce_directory sha key m (server_lines sha key challenge nonce (dir_greeting m) @ answer_frame sha a m, e)
      = (client_lines sha key challenge nonce (dir_greeting m) @ client_frames sha a m, Inr ())
    \<and> receive_announcement sha key challenge nonce
        (client_lines sha key challenge nonce (dir_greeting m) @ client_frames sha a m @ bs, e)
      = (server_lines sha key challenge nonce (dir_greeting m), Inr (m, new_control a ServerToClient))"
  using announcement_agrees [OF assms(1-5)] assms(6) by blast

theorem directory_manifest_is_announced_witness:
  "receive_announcement ex_sha ex_key ex_challenge ex_nonce (ex_dir_stream, Closed)
    = (server_lines ex_sha ex_key ex_challenge ex_nonce (dir_greeting ex_dir), Inr (ex_dir, new_control ex_dir_auth ServerToClient))"
  using directory_manifest_is_announced [OF ex_dir_wf ex_dir_encoded ex_dir_within ex_lengths ex_dir_auth_def, of Closed "[]"]
  by (simp add: ex_dir_stream_def)

section \<open>The command line\<close>

text \<open>
  C37. Every command line that \<open>parse_send\<close> accepts gives a usable configuration: the
  payload is between 256 and 1424 bytes, the report interval between 10 and 10000 ms and shorter
  than the idle timeout, which is between 500 ms and an hour, the rate bounds are positive, finite
  and ordered, a fixed rate is positive and finite and excludes explicit bounds, and content reuse
  comes with UDP only.
\<close>

theorem send_options_are_sane:
  assumes "parse_send dns near args = Inr a"
  shows "sane_tuning a \<and> \<not> (sa_reuse_chunks a \<and> sa_transport a \<noteq> Udp) \<and> \<not> (sa_rate a \<noteq> None \<and> explicit_bounds args)"
  using parse_send_sane [OF assms] by blast

theorem send_options_are_sane_witness:
  "sane_tuning ex_send_args \<and> \<not> (sa_reuse_chunks ex_send_args \<and> sa_transport ex_send_args \<noteq> Udp)
    \<and> \<not> (sa_rate ex_send_args \<noteq> None \<and> explicit_bounds ex_args)"
  by (rule send_options_are_sane [OF ex_args_parsed])

text \<open>
  When no value of an accepted command line is itself the name looked up, \<open>option\<close>
  and \<open>optional_option\<close> return the value written after that name.
\<close>

theorem options_are_read_where_written:
  assumes "validate_options args allowed = Inr ()" "name \<notin> snd ` set (option_pairs args)"
  shows "optional_option args name = map_of (option_pairs args) name"
  by (rule option_lookup(2) [OF assms])

text \<open>
  C38. The greeting \<open>send\<close> makes of an accepted configuration is refused by every
  receiver exactly when the repair cooldown exceeds 120001 ms, an error that
  \<open>parse_send\<close> does not report; otherwise the receiver reads it back unchanged.
\<close>

theorem greeting_of_the_options:
  assumes "sane_tuning a" "is_u64 fsize" "div_ceil fsize (sa_payload_bytes a) \<le> max_chunks"
    "length d = 32" "length offered = 16"
    "case reuse of None \<Rightarrow> True | Some (n, m) \<Rightarrow> n \<le> CDC_MAX_CHUNKS \<and> length m = 32 \<and> sa_transport a = Udp"
  shows "(parse_hello (format_hello (send_hello a fsize (hex d) offered reuse)) = Inr h)
    = (sa_repair_cooldown a \<le> 120001 \<and> h = send_hello a fsize (hex d) offered reuse)"
  by (rule send_hello_accepted) (fact assms)+

theorem greeting_of_the_options_witness:
  "\<nexists>h. parse_hello (format_hello (send_hello ex_send_args 2 (hex ex_hash) (replicate 16 0) None)) = Inr h"
proof -
  have "sane_tuning ex_send_args" using parse_send_sane [OF ex_args_parsed] by blast
  from greeting_of_the_options [OF this, of 2 ex_hash "replicate 16 0" None] show ?thesis
    by (simp add: ex_send_args_def is_u64_def div_ceil_def max_chunks_def)
qed

section \<open>Printed results\<close>

text \<open>
  C39. Each result that the program prints, the four kinds of \<open>send\<close>,
  \<open>receive_on\<close>, \<open>send_dir\<close> and \<open>receive_dir\<close>, is a single
  line that reads as one JSON object, whose members are the fields in their order with the texts
  of their values; the report of the rate controller inside it included, whatever the controller
  observed.
\<close>

theorem printed_results_are_read_back:
  assumes "observe_all rnd payload rs (initial_controller a start) = Inr c" "st_controller totals = controller_json c"
  shows "reads_back (complete_fields a now fsize n answer) \<and> reads_back (sent_fields rnd a fsize elapsed answer totals)
    \<and> reads_back (receiver_fields rnd h elapsed counters)
    \<and> reads_back (directory_fields ''directory-sender'' m counts) \<and> reads_back (directory_fields ''directory-receiver'' m counts)"
  using sender_lines_read_back [OF assms(1)] assms(2) by (simp add: reads_back_readable receiver_readable directory_readable)

theorem printed_results_are_read_back_witness:
  "reads_back (complete_fields ex_udp_args 0 2 1 ex_answer) \<and> reads_back (sent_fields (\<lambda>x. x) ex_udp_args 2 1500000 ex_answer ex_totals)
    \<and> reads_back (receiver_fields (\<lambda>x. x) ex_hello 1500000 None)
    \<and> reads_back (directory_fields ''directory-sender'' ex_dir (1, 2)) \<and> reads_back (directory_fields ''directory-receiver'' ex_dir (1, 2))"
  by (rule printed_results_are_read_back [of _ 256 "[]" ex_udp_args 0]) (simp_all add: ex_totals_def)

section \<open>The key file\<close>

text \<open>
  C40. \<open>keygen\<close> creates the key file or fails, whichever call fails or is the moment
  of a kill: no link is followed and nothing but the path itself changes, and only if nothing was
  there, so that a key is never overwritten. When it succeeds, \<open>load\<close> returns exactly
  the random bytes; when it wrote less than the key, \<open>load\<close> refuses what is there.
\<close>

theorem generated_keys_are_loaded:
  assumes "closed (object_at w)" "is_directory (object_at w) (butlast p)" "p \<noteq> []" "\<not> escaped w"
    "\<forall>key. random = Inr key \<longrightarrow> length key = 32" "key_generate random p w = (r, w')"
  shows "\<not> escaped w' \<and> (object_at w' = object_at w \<and> r \<noteq> Inr ()
    \<or> (\<exists>key n. random = Inr key \<and> key_written p key n (object_at w) (object_at w')
        \<and> (r = Inr () \<longrightarrow> key_load (object_at w') p = Inr key)
        \<and> (n < 32 \<longrightarrow> (\<exists>e. key_load (object_at w') p = Inl e))))"
  by (rule key_generate_outcome [OF assms])

theorem generated_keys_are_loaded_witness:
  "\<exists>r w'. key_generate (Inr ex_key) [[0x6B]] (ex_file_system [([], Dir_obj ex_attrs)]) = (r, w') \<and> \<not> escaped w'
    \<and> (r = Inr () \<longrightarrow> key_load (object_at w') [[0x6B]] = Inr ex_key)"
proof -
  let ?w = "ex_file_system [([], Dir_obj ex_attrs)]"
  obtain r w' where r: "key_generate (Inr ex_key) [[0x6B]] ?w = (r, w')" by fastforce
  have "closed (object_at ?w)" "is_directory (object_at ?w) (butlast [[0x6B]])" "[[0x6B]] \<noteq> ([] :: path)" "\<not> escaped ?w"
    "\<forall>key. Inr ex_key = (Inr key :: bytes result) \<longrightarrow> length key = 32"
    using ex_bare_tree by (simp_all add: is_directory_def ex_key_def) (simp add: ex_file_system_def)
  from generated_keys_are_loaded [OF this r] r show ?thesis by auto
qed

end
